(* ===== verification/Prelude.thy ===== *)
theory Prelude
  imports Main "HOL-Library.Word"
begin

text \<open>
  The vocabulary the components share: the integer widths of the C code, the reasons for which
  the kernel stops, the result type with its sequencing operator, and word lemmas about
  alignment and bytes.
\<close>

unbundle bit_operations_syntax

section \<open>Named collections\<close>

named_theorems result_simps \<open>rewriting of sequenced results\<close>
named_theorems frame_simps \<open>fields that an operation leaves alone\<close>

section \<open>Types\<close>

type_synonym u8 = "8 word"
type_synonym u16 = "16 word"
type_synonym u32 = "32 word"

text \<open>
  No function of the kernel returns an error code: a failed check calls \<open>panic\<close> or
  enters an endless loop, and a bad access traps. Each such end of the execution is a value.
\<close>

datatype stop =
    Panic string       \<comment> \<open>\<open>panic(message)\<close>\<close>
  | Hang               \<comment> \<open>an explicit \<open>while(1);\<close>\<close>
  | Page_fault u32     \<comment> \<open>the MMU has no translation for the address\<close>
  | Divide_error       \<comment> \<open>the divide exception of the processor\<close>
  | Diverges           \<comment> \<open>a loop whose condition never becomes false\<close>
  | Undefined          \<comment> \<open>an access outside the object the C pointer belongs to\<close>

section \<open>Results\<close>

definition and_then :: "'e + 'a \<Rightarrow> ('a \<Rightarrow> 'e + 'b) \<Rightarrow> 'e + 'b" where
  "and_then r f = (case r of Inl e \<Rightarrow> Inl e | Inr a \<Rightarrow> f a)"

lemma and_then_Inl [simp]: "and_then (Inl e) f = Inl e"
  by (simp add: and_then_def)

lemma and_then_Inr [simp]: "and_then (Inr a) f = f a"
  by (simp add: and_then_def)

lemma and_then_Inr_conv [result_simps]:
  "and_then r f = Inr b \<longleftrightarrow> (\<exists>a. r = Inr a \<and> f a = Inr b)"
  by (cases r) auto

lemma and_then_Inl_conv:
  "and_then r f = Inl e \<longleftrightarrow> r = Inl e \<or> (\<exists>a. r = Inr a \<and> f a = Inl e)"
  by (cases r) auto

lemma and_then_assoc: "and_then (and_then r f) g = and_then r (\<lambda>a. and_then (f a) g)"
  by (cases r) auto

lemma and_then_cong [fundef_cong]:
  "r = r' \<Longrightarrow> (\<And>a. r' = Inr a \<Longrightarrow> f a = f' a) \<Longrightarrow> and_then r f = and_then r' f'"
  by (cases r') auto

lemma and_then_if: "and_then (if b then r else r') f = (if b then and_then r f else and_then r' f)"
  by simp

section \<open>Words\<close>

lemma ucast_via_unat: "(ucast w :: 'b::len word) = word_of_nat (unat w)" for w :: "'a::len word"
  by (simp add: word_unat_eq_iff unsigned_ucast_eq unsigned_of_nat)

text \<open>A difference taken with 64 bits and truncated.\<close>

lemma wide_difference:
  fixes a b :: "u32"
  assumes "unat b < unat a"
  shows "(ucast ((0xFFFFFFFFFFFFFFFF :: 64 word) - ucast a + ucast b) :: u32) = b - a - 1"
proof -
  have la: "unat a < 4294967296" using unsigned_less [of a] by simp
  have u: "unat (ucast a :: 64 word) = unat a" "unat (ucast b :: 64 word) = unat b"
    using la assms by (simp_all add: unsigned_ucast_eq take_bit_nat_eq_self)
  have le: "(ucast a :: 64 word) \<le> 0xFFFFFFFFFFFFFFFF" using la by (simp add: word_le_nat_alt u)
  have "unat ((0xFFFFFFFFFFFFFFFF :: 64 word) - ucast a) = 0xFFFFFFFFFFFFFFFF - unat a"
    using unat_sub [OF le] by (simp add: u)
  then have "unat ((0xFFFFFFFFFFFFFFFF :: 64 word) - ucast a + ucast b) = 0xFFFFFFFFFFFFFFFF - unat a + unat b"
    using la assms by (simp add: unat_word_ariths u)
  also have "\<dots> = (0xFFFFFFFF - unat a + unat b) + 0xFFFFFFFF * 2 ^ LENGTH(32)" using la by simp
  finally have "(ucast ((0xFFFFFFFFFFFFFFFF :: 64 word) - ucast a + ucast b) :: u32)
    = word_of_nat ((0xFFFFFFFF - unat a + unat b) + 0xFFFFFFFF * 2 ^ LENGTH(32))"
    by (simp only: ucast_via_unat)
  also have "\<dots> = (word_of_nat (0xFFFFFFFF - unat a + unat b) :: u32)"
    unfolding word_unat_eq_iff unat_of_nat by (simp only: mod_mult_self1)
  also have "\<dots> = b - a - 1"
    using la by (simp add: of_nat_diff)
  finally show ?thesis .
qed

lemma unat_add_wrap: "\<not> unat a + unat b < 2 ^ 32 \<Longrightarrow> unat (a + b) = unat a + unat b - 2 ^ 32" for a b :: u32
proof -
  assume w: "\<not> unat a + unat b < 2 ^ 32"
  have b: "unat a < 4294967296" "unat b < 4294967296" using unsigned_less [of a] unsigned_less [of b] by simp_all
  have "unat (a + b) = (unat a + unat b) mod 2 ^ 32" by (simp add: unat_word_ariths)
  also have "\<dots> = (unat a + unat b - 2 ^ 32) mod 2 ^ 32" using w by (simp add: le_mod_geq)
  also have "\<dots> = unat a + unat b - 2 ^ 32" using b w by (intro mod_less) simp
  finally show ?thesis .
qed

lemma unat_u32_bound [simp]: "unat (a :: u32) < 4294967296"
  using unsigned_less [of a] by simp


lemma all_less_Suc_split: "(\<forall>i<Suc n. P i) \<longleftrightarrow> P 0 \<and> (\<forall>i<n. P (Suc i))"
  by (auto simp: less_Suc_eq_0_disj)

text \<open>Pages are 4096 bytes; an address splits into a page and an offset.\<close>

definition page_of :: "u32 \<Rightarrow> u32" where
  "page_of a = a AND 0xFFFFF000"

definition offset_of :: "u32 \<Rightarrow> u32" where
  "offset_of a = a AND 0xFFF"

definition page_aligned :: "u32 \<Rightarrow> bool" where
  "page_aligned a \<longleftrightarrow> a mod 4096 = 0"

lemma page_aligned_mask: "page_aligned a \<longleftrightarrow> a AND 0xFFF = 0"
proof -
  have "a mod 4096 = take_bit 12 a"
    by (simp add: take_bit_eq_mod)
  also have "\<dots> = a AND 0xFFF"
    by (simp add: take_bit_eq_mask mask_eq_exp_minus_1)
  finally show ?thesis by (simp add: page_aligned_def)
qed

lemma and_full [simp]: "a AND 0xFFFFFFFF = (a :: u32)"
proof -
  have "(0xFFFFFFFF :: u32) = - 1" by simp
  then show ?thesis by (simp only: and.right_neutral)
qed

lemma page_of_idem [simp]: "page_of (page_of a) = page_of a"
  by (simp add: page_of_def and.assoc)

lemma page_aligned_page_of [simp]: "page_aligned (page_of a)"
  by (simp add: page_aligned_mask page_of_def and.assoc)

lemma page_of_aligned: "page_aligned a \<Longrightarrow> page_of a = a"
proof -
  assume "page_aligned a"
  then have "a AND 0xFFF = 0" by (simp add: page_aligned_mask)
  moreover have "a = (a AND 0xFFFFF000) OR (a AND 0xFFF)"
    by (simp flip: bit.conj_disj_distrib)
  ultimately show ?thesis by (simp add: page_of_def)
qed

lemma page_aligned_iff: "page_aligned a \<longleftrightarrow> page_of a = a"
  by (metis page_of_aligned page_aligned_page_of)

lemma offset_of_le: "offset_of a \<le> 0xFFF"
  unfolding offset_of_def by (rule word_and_le1)

lemma page_offset_or: "page_of a OR offset_of a = a"
  by (simp add: page_of_def offset_of_def flip: bit.conj_disj_distrib)

lemma page_offset_add: "page_of a + offset_of a = a"
proof -
  have "page_of a AND offset_of a = 0"
    by (simp add: page_of_def offset_of_def and.assoc and.left_commute)
  then have "page_of a + offset_of a = page_of a OR offset_of a"
    by (rule disjunctive_add_eq_or)
  then show ?thesis by (simp add: page_offset_or)
qed

text \<open>An offset below the page size does not leave the page.\<close>

lemma small_mask: "k \<le> 0xFFF \<Longrightarrow> k AND 0xFFF = (k :: u32)"
proof -
  assume "k \<le> 0xFFF"
  then have "unat k < 2 ^ 12" by (simp add: word_le_nat_alt)
  then have "take_bit 12 k = k"
    by (simp add: word_unat_eq_iff unsigned_take_bit_eq take_bit_nat_eq_self)
  then show ?thesis by (simp add: take_bit_eq_mask mask_eq_exp_minus_1)
qed

lemma aligned_add_or: "page_aligned p \<Longrightarrow> k \<le> 0xFFF \<Longrightarrow> p + k = p OR k"
proof -
  assume p: "page_aligned p" and k: "k \<le> 0xFFF"
  have "p AND k = (p AND 0xFFF) AND k"
    by (subst small_mask [OF k, symmetric]) (simp add: and.assoc and.left_commute and.commute)
  also have "\<dots> = 0" using p by (simp add: page_aligned_mask)
  finally show "p + k = p OR k" by (rule disjunctive_add_eq_or)
qed

lemma small_page: "k \<le> 0xFFF \<Longrightarrow> page_of k = 0"
proof -
  assume k: "k \<le> 0xFFF"
  have "page_of k = (k AND 0xFFF) AND 0xFFFFF000" by (simp add: page_of_def small_mask [OF k])
  then show ?thesis by (simp add: and.assoc)
qed

lemma page_of_add [simp]: "page_aligned p \<Longrightarrow> k \<le> 0xFFF \<Longrightarrow> page_of (p + k) = p"
  using small_page [of k] page_of_aligned [of p]
  by (simp add: aligned_add_or) (simp add: page_of_def bit.conj_disj_distrib2)

lemma offset_of_add [simp]: "page_aligned p \<Longrightarrow> k \<le> 0xFFF \<Longrightarrow> offset_of (p + k) = k"
  using small_mask [of k] page_aligned_mask [of p]
  by (simp add: aligned_add_or) (simp add: offset_of_def bit.conj_disj_distrib2)

lemma page_add_inj:
  "page_aligned p \<Longrightarrow> page_aligned q \<Longrightarrow> k \<le> 0xFFF \<Longrightarrow> l \<le> 0xFFF \<Longrightarrow>
   p + k = q + l \<longleftrightarrow> p = q \<and> k = l"
  by (metis page_of_add offset_of_add)

end
