(* ===== verification/CString.thy ===== *)
theory CString
  imports Prelude
begin

text \<open>
  The string and block functions of \<open>lib/string\<close>. They work through pointers, on the kernel's
  address space as well as on local arrays, so each takes the load and store of the memory it
  works on as its first arguments; the locale \<open>byte_memory\<close> states what a memory promises, and
  the functions are proved correct once, inside it. The pointer that \<open>memset\<close>, \<open>memcpy\<close> and
  \<open>strcpy\<close> return is their first argument and is left out.
\<close>

type_synonym 's loader = "u32 \<Rightarrow> 's \<Rightarrow> stop + u8"
type_synonym 's storer = "u32 \<Rightarrow> u8 \<Rightarrow> 's \<Rightarrow> stop + 's"

section \<open>The functions\<close>

fun memset_loop :: "'s storer \<Rightarrow> nat \<Rightarrow> u32 \<Rightarrow> u8 \<Rightarrow> 's \<Rightarrow> stop + 's" where
  "memset_loop st 0 p v s = Inr s"
| "memset_loop st (Suc n) p v s = and_then (st p v s) (memset_loop st n (p + 1) v)"

definition memset :: "'s storer \<Rightarrow> u32 \<Rightarrow> u32 \<Rightarrow> u32 \<Rightarrow> 's \<Rightarrow> stop + 's" where
  "memset st buf value sz s = memset_loop st (unat sz) buf (ucast value) s"

fun memcpy_loop :: "'s loader \<Rightarrow> 's storer \<Rightarrow> nat \<Rightarrow> u32 \<Rightarrow> u32 \<Rightarrow> 's \<Rightarrow> stop + 's" where
  "memcpy_loop ld st 0 d p s = Inr s"
| "memcpy_loop ld st (Suc n) d p s =
     and_then (ld p s) (\<lambda>v. and_then (st d v s) (memcpy_loop ld st n (d + 1) (p + 1)))"

definition memcpy :: "'s loader \<Rightarrow> 's storer \<Rightarrow> u32 \<Rightarrow> u32 \<Rightarrow> u32 \<Rightarrow> 's \<Rightarrow> stop + 's" where
  "memcpy ld st destination source num s = memcpy_loop ld st (unat num) destination source s"

text \<open>
  The two loops that look for a terminator may go on forever. The counter wraps after
  \<open>2 ^ 32\<close> steps, when every address has been read once (and, in \<open>strcpy\<close>, overwritten with a
  byte that is not zero); with that fuel gone no terminator is left to find.
\<close>

fun strlen_loop :: "'s loader \<Rightarrow> nat \<Rightarrow> u32 \<Rightarrow> u32 \<Rightarrow> 's \<Rightarrow> stop + u32" where
  "strlen_loop ld 0 str len s = Inl Diverges"
| "strlen_loop ld (Suc k) str len s =
     and_then (ld (str + len) s)
       (\<lambda>c. if c = 0 then Inr len else strlen_loop ld k str (len + 1) s)"

definition strlen :: "'s loader \<Rightarrow> u32 \<Rightarrow> 's \<Rightarrow> stop + u32" where
  "strlen ld str s = strlen_loop ld (2 ^ 32) str 0 s"

fun strcpy_loop :: "'s loader \<Rightarrow> 's storer \<Rightarrow> nat \<Rightarrow> u32 \<Rightarrow> u32 \<Rightarrow> 's \<Rightarrow> stop + 's" where
  "strcpy_loop ld st 0 d p s = Inl Diverges"
| "strcpy_loop ld st (Suc k) d p s =
     and_then (ld p s) (\<lambda>c. and_then (st d c s)
       (\<lambda>s'. if c = 0 then Inr s' else strcpy_loop ld st k (d + 1) (p + 1) s'))"

definition strcpy :: "'s loader \<Rightarrow> 's storer \<Rightarrow> u32 \<Rightarrow> u32 \<Rightarrow> 's \<Rightarrow> stop + 's" where
  "strcpy ld st destination source s = strcpy_loop ld st (2 ^ 32) destination source s"

fun strncmp_loop :: "'s loader \<Rightarrow> nat \<Rightarrow> u32 \<Rightarrow> u32 \<Rightarrow> 's \<Rightarrow> stop + int" where
  "strncmp_loop ld 0 p q s = Inr 0"
| "strncmp_loop ld (Suc n) p q s =
     and_then (ld p s) (\<lambda>x. and_then (ld q s)
       (\<lambda>y. if x \<noteq> y then Inr (uint x - uint y) else strncmp_loop ld n (p + 1) (q + 1) s))"

definition strncmp :: "'s loader \<Rightarrow> u32 \<Rightarrow> u32 \<Rightarrow> u32 \<Rightarrow> 's \<Rightarrow> stop + int" where
  "strncmp ld s1 s2 n s = strncmp_loop ld (unat n) s1 s2 s"

text \<open>
  \<open>strrev\<close> swaps the bytes at \<open>i\<close> and \<open>len - 1 - i\<close> for \<open>i\<close> from 0 to half the length;
  the loop counts the swaps still to do.
\<close>

fun strrev_loop :: "'s loader \<Rightarrow> 's storer \<Rightarrow> nat \<Rightarrow> u32 \<Rightarrow> u32 \<Rightarrow> u32 \<Rightarrow> 's \<Rightarrow> stop + 's" where
  "strrev_loop ld st 0 str len i s = Inr s"
| "strrev_loop ld st (Suc k) str len i s =
     and_then (ld (str + i) s) (\<lambda>temp.
     and_then (ld (str + (len - 1 - i)) s) (\<lambda>other.
     and_then (st (str + i) other s) (\<lambda>s1.
     and_then (st (str + (len - 1 - i)) temp s1)
       (strrev_loop ld st k str len (i + 1)))))"

definition strrev :: "'s loader \<Rightarrow> 's storer \<Rightarrow> u32 \<Rightarrow> 's \<Rightarrow> stop + 's" where
  "strrev ld st str s =
     and_then (strlen ld str s) (\<lambda>len. strrev_loop ld st (unat (len div 2)) str len 0 s)"

section \<open>Spans of addresses\<close>

text \<open>The \<open>n\<close> addresses from \<open>p\<close> on; addresses wrap, so a span may too.\<close>

definition span :: "u32 \<Rightarrow> nat \<Rightarrow> u32 set" where
  "span p n = {a. unat (a - p) < n}"

lemma span_0 [simp]: "span p 0 = {}"
  by (simp add: span_def)

lemma span_mono: "m \<le> n \<Longrightarrow> span p m \<subseteq> span p n"
  by (auto simp: span_def)

lemma unat_minus_Suc: "a \<noteq> p \<Longrightarrow> unat (a - p) = Suc (unat (a - (p + 1)))" for a p :: u32
proof -
  assume "a \<noteq> p"
  then have "a - p \<noteq> 0" by simp
  then have "unat (a - p - 1) = unat (a - p) - 1" and "0 < unat (a - p)"
    by (simp_all add: unat_minus_one unat_gt_0)
  then show ?thesis by (simp add: diff_diff_eq)
qed

lemma unat_diff_inj: "unat (b - p) = unat (c - p) \<longleftrightarrow> b = c" for b p c :: u32
  by (simp flip: word_unat_eq_iff)

lemma span_Suc: "span p (Suc n) = insert p (span (p + 1) n)" if "n < 2 ^ 32"
proof -
  have "a \<in> span p (Suc n) \<longleftrightarrow> a = p \<or> a \<in> span (p + 1) n" for a
    by (cases "a = p") (simp_all add: span_def unat_minus_Suc)
  then show ?thesis by auto
qed

lemma span_start_notin: "n < 2 ^ 32 \<Longrightarrow> p \<notin> span (p + 1) n"
proof -
  have "unat (-1 :: u32) = 2 ^ 32 - 1" by (simp add: unsigned_minus_1_eq_mask mask_eq_exp_minus_1)
  then show "n < 2 ^ 32 \<Longrightarrow> p \<notin> span (p + 1) n" by (simp add: span_def)
qed

lemma span_memI: "i < n \<Longrightarrow> n \<le> 2 ^ 32 \<Longrightarrow> p + word_of_nat i \<in> span p n"
  by (simp add: span_def unat_of_nat)

lemma span_memE:
  assumes "a \<in> span p n"
  obtains i where "i < n" "a = p + word_of_nat i"
proof
  show "unat (a - p) < n" using assms by (simp add: span_def)
  show "a = p + word_of_nat (unat (a - p))" by simp
qed

section \<open>The memory interface and the functions on it\<close>

text \<open>
  \<open>D\<close> holds the addresses of the objects a client may touch, \<open>valid\<close> the states in which the
  memory keeps its promise, and \<open>view\<close> the byte an address reads as.
\<close>

locale byte_memory =
  fixes ld :: "u32 \<Rightarrow> 's \<Rightarrow> stop + u8"
    and st :: "u32 \<Rightarrow> u8 \<Rightarrow> 's \<Rightarrow> stop + 's"
    and D :: "u32 set"
    and valid :: "'s \<Rightarrow> bool"
    and view :: "'s \<Rightarrow> u32 \<Rightarrow> u8"
    and eqv :: "'s \<Rightarrow> 's \<Rightarrow> bool"
  assumes load_ok: "valid s \<Longrightarrow> a \<in> D \<Longrightarrow> ld a s = Inr (view s a)"
    and store_ok: "valid s \<Longrightarrow> a \<in> D \<Longrightarrow>
      \<exists>s'. st a v s = Inr s' \<and> valid s' \<and> eqv s s' \<and>
        (\<forall>b\<in>D. view s' b = (if b = a then v else view s b))"
    and eqv_refl: "eqv s s"
    and eqv_trans: "eqv s s' \<Longrightarrow> eqv s' s'' \<Longrightarrow> eqv s s''"
begin

lemma memset_loop_ok:
  "valid s \<Longrightarrow> n < 2 ^ 32 \<Longrightarrow> span p n \<subseteq> D \<Longrightarrow>
   \<exists>s'. memset_loop st n p v s = Inr s' \<and> valid s' \<and> eqv s s' \<and>
     (\<forall>b\<in>D. view s' b = (if b \<in> span p n then v else view s b))"
proof (induction n arbitrary: p s)
  case 0
  then show ?case by (simp add: eqv_refl)
next
  case (Suc n)
  have D: "p \<in> D" "span (p + 1) n \<subseteq> D" and sp: "span p (Suc n) = insert p (span (p + 1) n)"
    using Suc.prems span_Suc [of n p] by auto
  obtain s1 where 1: "st p v s = Inr s1" "valid s1" "eqv s s1"
      "\<forall>b\<in>D. view s1 b = (if b = p then v else view s b)"
    using store_ok [OF Suc.prems(1) D(1)] by blast
  obtain s2 where 2: "memset_loop st n (p + 1) v s1 = Inr s2" "valid s2" "eqv s1 s2"
      "\<forall>b\<in>D. view s2 b = (if b \<in> span (p + 1) n then v else view s1 b)"
    using Suc.IH [OF 1(2) _ D(2)] Suc.prems(2) by auto
  show ?case using 1 2 by (auto simp: sp intro: eqv_trans)
qed

lemma memset_ok:
  assumes "valid s" and "span buf (unat n) \<subseteq> D"
  shows "\<exists>s'. memset st buf value n s = Inr s' \<and> valid s' \<and> eqv s s' \<and>
    (\<forall>b\<in>D. view s' b = (if b \<in> span buf (unat n) then ucast value else view s b))"
  unfolding memset_def using memset_loop_ok [OF assms(1) _ assms(2)] by simp

lemma memcpy_loop_ok:
  "valid s \<Longrightarrow> n < 2 ^ 32 \<Longrightarrow> span d n \<subseteq> D \<Longrightarrow> span p n \<subseteq> D \<Longrightarrow> span d n \<inter> span p n = {} \<Longrightarrow>
   \<exists>s'. memcpy_loop ld st n d p s = Inr s' \<and> valid s' \<and> eqv s s' \<and>
     (\<forall>b\<in>D. view s' b = (if b \<in> span d n then view s (p + (b - d)) else view s b))"
proof (induction n arbitrary: d p s)
  case 0
  then show ?case by (simp add: eqv_refl)
next
  case (Suc n)
  have n: "n < 2 ^ 32" using Suc.prems(2) by simp
  note sp = span_Suc [OF n, of d] span_Suc [OF n, of p]
  have D: "d \<in> D" "p \<in> D" "span (d + 1) n \<subseteq> D" "span (p + 1) n \<subseteq> D"
    and disj: "span (d + 1) n \<inter> span (p + 1) n = {}" "d \<notin> span (p + 1) n" "d \<noteq> p"
    using Suc.prems(3-5) sp by auto
  obtain s1 where 1: "st d (view s p) s = Inr s1" "valid s1" "eqv s s1"
      "\<forall>b\<in>D. view s1 b = (if b = d then view s p else view s b)"
    using store_ok [OF Suc.prems(1) D(1)] by blast
  obtain s2 where 2: "memcpy_loop ld st n (d + 1) (p + 1) s1 = Inr s2" "valid s2" "eqv s1 s2"
      "\<forall>b\<in>D. view s2 b = (if b \<in> span (d + 1) n then view s1 (p + 1 + (b - (d + 1))) else view s1 b)"
    using Suc.IH [OF 1(2) n D(3,4) disj(1)] by blast
  have src: "view s1 (p + 1 + (b - (d + 1))) = view s (p + (b - d))" if "b \<in> span (d + 1) n" for b
  proof -
    define y where "y = p + (b - d)"
    have y: "p + 1 + (b - (d + 1)) = y" "y - (p + 1) = b - (d + 1)" by (simp_all add: y_def)
    from that y(2) have "y \<in> span (p + 1) n" by (simp only: span_def mem_Collect_eq)
    with D(4) disj(2) have "y \<in> D" "y \<noteq> d" by blast+
    with 1(4) have "view s1 y = view s y" by simp
    then show ?thesis by (simp only: y(1) y_def)
  qed
  have "memcpy_loop ld st (Suc n) d p s = Inr s2"
    by (simp add: load_ok [OF Suc.prems(1) D(2)] 1 2)
  moreover have "\<forall>b\<in>D. view s2 b = (if b \<in> span d (Suc n) then view s (p + (b - d)) else view s b)"
    using 1(4) 2(4) src span_start_notin [OF n, of d] by (simp add: sp)
  ultimately show ?case using 1 2 by (auto intro: eqv_trans)
qed

lemma memcpy_ok:
  assumes "valid s" and "span d (unat n) \<subseteq> D" and "span p (unat n) \<subseteq> D"
    and "span d (unat n) \<inter> span p (unat n) = {}"
  shows "\<exists>s'. memcpy ld st d p n s = Inr s' \<and> valid s' \<and> eqv s s' \<and>
    (\<forall>b\<in>D. view s' b = (if b \<in> span d (unat n) then view s (p + (b - d)) else view s b))"
  unfolding memcpy_def using memcpy_loop_ok [OF assms(1) _ assms(2-4)] by simp

lemma strlen_loop_ok:
  "valid s \<Longrightarrow> \<forall>i\<le>n. str + len + word_of_nat i \<in> D \<Longrightarrow>
   \<forall>i<n. view s (str + len + word_of_nat i) \<noteq> 0 \<Longrightarrow>
   view s (str + len + word_of_nat n) = 0 \<Longrightarrow> n < k \<Longrightarrow>
   strlen_loop ld k str len s = Inr (len + word_of_nat n)"
proof (induction k arbitrary: len n)
  case 0
  then show ?case by simp
next
  case (Suc k)
  have h: "ld (str + len) s = Inr (view s (str + len))"
    using Suc.prems(1,2) by (auto intro!: load_ok dest: spec [of _ 0])
  show ?case
  proof (cases n)
    case 0
    with Suc.prems h show ?thesis by simp
  next
    case (Suc m)
    have "view s (str + len) \<noteq> 0" using Suc.prems(3) Suc by (auto dest: spec [of _ 0])
    moreover have "strlen_loop ld k str (len + 1) s = Inr (len + 1 + word_of_nat m)"
    proof (rule Suc.IH [OF Suc.prems(1)])
      have eq: "str + (len + 1) + word_of_nat i = str + len + word_of_nat (Suc i)" for i
        by simp
      show "\<forall>i\<le>m. str + (len + 1) + word_of_nat i \<in> D"
        using Suc.prems(2) Suc unfolding eq by auto
      show "\<forall>i<m. view s (str + (len + 1) + word_of_nat i) \<noteq> 0"
        using Suc.prems(3) Suc unfolding eq by auto
      show "view s (str + (len + 1) + word_of_nat m) = 0"
        using Suc.prems(4) Suc unfolding eq by simp
      show "m < k" using Suc.prems(5) Suc by simp
    qed
    ultimately show ?thesis using h Suc by (simp add: algebra_simps)
  qed
qed

text \<open>A C string of length \<open>n\<close> at \<open>p\<close>: \<open>n\<close> non-zero bytes, then the terminator.\<close>

definition is_cstring :: "'s \<Rightarrow> u32 \<Rightarrow> nat \<Rightarrow> bool" where
  "is_cstring s p n \<longleftrightarrow> n < 2 ^ 32 \<and> (\<forall>i\<le>n. p + word_of_nat i \<in> D) \<and>
     (\<forall>i<n. view s (p + word_of_nat i) \<noteq> 0) \<and> view s (p + word_of_nat n) = 0"

lemma strlen_ok:
  assumes "valid s" and "is_cstring s str n"
  shows "strlen ld str s = Inr (word_of_nat n)"
  using assms strlen_loop_ok [of s n str 0 "2 ^ 32"] by (simp add: strlen_def is_cstring_def)

lemma strrev_loop_ok:
  "valid s \<Longrightarrow> n < 2 ^ 32 \<Longrightarrow> span p n \<subseteq> D \<Longrightarrow> i + k \<le> n div 2 \<Longrightarrow>
   \<exists>s'. strrev_loop ld st k p (word_of_nat n) (word_of_nat i) s = Inr s' \<and> valid s' \<and> eqv s s' \<and>
     (\<forall>b\<in>D. view s' b = (let j = unat (b - p) in
        if j < n \<and> (i \<le> j \<and> j < i + k \<or> i \<le> n - 1 - j \<and> n - 1 - j < i + k)
        then view s (p + word_of_nat (n - 1 - j)) else view s b))"
proof (induction k arbitrary: i s)
  case 0
  then show ?case by (auto simp: eqv_refl Let_def)
next
  case (Suc k)
  have i: "i < n" "n - 1 - i < n" "i < n - 1 - i" "\<not> n - 1 - i < Suc i + k"
    using Suc.prems(4) by linarith+
  define x where "x = p + word_of_nat i"
  define y where "y = p + word_of_nat (n - 1 - i)"
  have xy: "p + (word_of_nat n - 1 - word_of_nat i) = y"
    using i(1) Suc.prems(2) by (simp add: y_def of_nat_diff)
  have off: "unat (x - p) = i" "unat (y - p) = n - 1 - i"
    using i Suc.prems(2) by (simp_all add: x_def y_def unat_of_nat del: of_nat_diff)
  have D: "x \<in> D" "y \<in> D"
    using span_memI [OF i(1)] span_memI [OF i(2)] Suc.prems(2,3) unfolding x_def y_def by auto
  have ne: "x \<noteq> y" using off i(3) by auto
  obtain s1 where 1: "st x (view s y) s = Inr s1" "valid s1" "eqv s s1"
      "\<forall>b\<in>D. view s1 b = (if b = x then view s y else view s b)"
    using store_ok [OF Suc.prems(1) D(1)] by blast
  obtain s2 where 2: "st y (view s x) s1 = Inr s2" "valid s2" "eqv s1 s2"
      "\<forall>b\<in>D. view s2 b = (if b = y then view s x else view s1 b)"
    using store_ok [OF 1(2) D(2)] by blast
  have ik: "Suc i + k \<le> n div 2" using Suc.prems(4) by simp
  obtain s3 where 3: "strrev_loop ld st k p (word_of_nat n) (word_of_nat (Suc i)) s2 = Inr s3"
      "valid s3" "eqv s2 s3"
      "\<forall>b\<in>D. view s3 b = (let j = unat (b - p) in
        if j < n \<and> (Suc i \<le> j \<and> j < Suc i + k \<or> Suc i \<le> n - 1 - j \<and> n - 1 - j < Suc i + k)
        then view s2 (p + word_of_nat (n - 1 - j)) else view s2 b)"
    using Suc.IH [OF 2(2) Suc.prems(2,3) ik] by blast
  have run: "strrev_loop ld st (Suc k) p (word_of_nat n) (word_of_nat i) s = Inr s3"
    using load_ok [OF Suc.prems(1) D(1)] load_ok [OF Suc.prems(1) D(2)] 1(1) 2(1) 3(1)
    by (simp add: xy add.commute flip: x_def)
  have "view s3 b = (let j = unat (b - p) in
        if j < n \<and> (i \<le> j \<and> j < i + Suc k \<or> i \<le> n - 1 - j \<and> n - 1 - j < i + Suc k)
        then view s (p + word_of_nat (n - 1 - j)) else view s b)" if b: "b \<in> D" for b
  proof -
    define j where "j = unat (b - p)"
    have bj: "b = p + word_of_nat j" by (simp add: j_def)
    have eq: "b = x \<longleftrightarrow> j = i" "b = y \<longleftrightarrow> j = n - 1 - i"
      using off unat_diff_inj [of b p x] unat_diff_inj [of b p y] by (simp_all add: j_def)
    have mir: "view s2 (p + word_of_nat (n - 1 - j)) = view s (p + word_of_nat (n - 1 - j))"
      if "j < n" "j \<noteq> i" "j \<noteq> n - 1 - i"
    proof -
      define c where "c = p + word_of_nat (n - 1 - j)"
      have "unat (c - p) = n - 1 - j"
        using that(1) Suc.prems(2) by (simp add: c_def unat_of_nat del: of_nat_diff)
      then have "c \<noteq> x" "c \<noteq> y" using off that i by auto
      moreover have "c \<in> D"
        using span_memI [of "n - 1 - j" n p] that(1) Suc.prems(2,3) by (auto simp: c_def)
      ultimately show ?thesis using 1(4) 2(4) unfolding c_def [symmetric] by simp
    qed
    consider "j = i" | "j = n - 1 - i" "j \<noteq> i" | "j \<noteq> i" "j \<noteq> n - 1 - i" by blast
    then show ?thesis
    proof cases
      case 1
      then have "view s3 b = view s2 b"
        using bspec [OF 3(4) b] i unfolding j_def [symmetric] Let_def by auto
      also have "\<dots> = view s y" using 1 eq ne \<open>\<forall>b\<in>D. view s1 b = _\<close> 2(4) b by auto
      finally show ?thesis using 1 i(1) unfolding j_def [symmetric] Let_def y_def by auto
    next
      case 2
      then have "view s3 b = view s2 b"
        using bspec [OF 3(4) b] i unfolding j_def [symmetric] Let_def by auto
      also have "\<dots> = view s x" using 2 eq \<open>\<forall>b\<in>D. view s2 b = _\<close> b by auto
      finally show ?thesis using 2 i(1,2) unfolding j_def [symmetric] Let_def x_def by auto
    next
      case 3
      have same: "view s2 b = view s b" using 3 eq 1(4) 2(4) b by simp
      have "n - 1 - j \<noteq> i" if "j < n" using 3 i that by linarith
      then show ?thesis
        using bspec [OF \<open>\<forall>b\<in>D. view s3 b = _\<close> b] mir 3 same
        unfolding j_def [symmetric] Let_def by auto
    qed
  qed
  then show ?case using run 1 2 3 by (blast intro: eqv_trans)
qed

lemma strrev_ok:
  assumes "valid s" and "is_cstring s p n"
  shows "\<exists>s'. strrev ld st p s = Inr s' \<and> valid s' \<and> eqv s s' \<and>
    (\<forall>b\<in>D. view s' b = (let j = unat (b - p) in
       if j < n then view s (p + word_of_nat (n - 1 - j)) else view s b))"
proof -
  have n: "n < 2 ^ 32" using assms(2) by (simp add: is_cstring_def)
  have "span p n \<subseteq> D"
    using assms(2) by (auto simp: is_cstring_def elim!: span_memE)
  from strrev_loop_ok [OF assms(1) n this, of 0 "n div 2"]
  obtain s' where s': "strrev_loop ld st (n div 2) p (word_of_nat n) 0 s = Inr s'" "valid s'" "eqv s s'"
    and v: "\<forall>b\<in>D. view s' b = (let j = unat (b - p) in
        if j < n \<and> (j < n div 2 \<or> n - 1 - j < n div 2)
        then view s (p + word_of_nat (n - 1 - j)) else view s b)"
    by auto
  have "unat (word_of_nat n div 2 :: u32) = n div 2"
    using n by (simp add: unat_div unat_of_nat)
  then have run: "strrev ld st p s = Inr s'"
    using s'(1) strlen_ok [OF assms] by (simp add: strrev_def)
  have "view s' b = (let j = unat (b - p) in
       if j < n then view s (p + word_of_nat (n - 1 - j)) else view s b)" if "b \<in> D" for b
  proof -
    define j where "j = unat (b - p)"
    have bj: "b = p + word_of_nat j" by (simp add: j_def)
    have "n - 1 - j = j" if "j < n" "\<not> j < n div 2" "\<not> n - 1 - j < n div 2" using that by linarith
    then show ?thesis
      using bspec [OF v \<open>b \<in> D\<close>] unfolding j_def [symmetric] Let_def by (auto simp: bj simp del: of_nat_diff)
  qed
  then show ?thesis using run s' by blast
qed

lemma strcpy_loop_ok:
  "valid s \<Longrightarrow> n < 2 ^ 32 \<Longrightarrow> n < k \<Longrightarrow> is_cstring s p n \<Longrightarrow> span d (Suc n) \<subseteq> D \<Longrightarrow>
   span d (Suc n) \<inter> span p (Suc n) = {} \<Longrightarrow> Suc n < 2 ^ 32 \<Longrightarrow>
   \<exists>s'. strcpy_loop ld st k d p s = Inr s' \<and> valid s' \<and> eqv s s' \<and>
     (\<forall>b\<in>D. view s' b = (if b \<in> span d (Suc n) then view s (p + (b - d)) else view s b))"
proof (induction n arbitrary: k d p s)
  case 0
  then obtain m where k: "k = Suc m" by (cases k) auto
  have p: "p \<in> D" "view s p = 0" and d: "d \<in> D"
    using 0 by (auto simp: is_cstring_def span_Suc)
  obtain s1 where 1: "st d 0 s = Inr s1" "valid s1" "eqv s s1"
      "\<forall>b\<in>D. view s1 b = (if b = d then 0 else view s b)"
    using store_ok [OF 0(1) d] by blast
  have "\<forall>b\<in>D. view s1 b = (if b \<in> span d (Suc 0) then view s (p + (b - d)) else view s b)"
    using 1(4) p by (auto simp: span_Suc)
  then show ?case using k 1 p load_ok [OF 0(1) p(1)] by simp
next
  case (Suc n)
  obtain m where k: "k = Suc m" "n < m" using Suc.prems(3) by (cases k) auto
  have n: "Suc n < 2 ^ 32" using Suc.prems(7) by simp
  note sp = span_Suc [OF n, of d] span_Suc [OF n, of p]
  have D: "d \<in> D" "span (d + 1) (Suc n) \<subseteq> D"
    and disj: "span (d + 1) (Suc n) \<inter> span (p + 1) (Suc n) = {}"
      "d \<notin> span (p + 1) (Suc n)" "d \<noteq> p"
    using Suc.prems(5,6) sp by auto
  have str: "p \<in> D" "view s p \<noteq> 0"
    using Suc.prems(4) by (auto simp: is_cstring_def dest: spec [of _ 0])
  obtain s1 where 1: "st d (view s p) s = Inr s1" "valid s1" "eqv s s1"
      "\<forall>b\<in>D. view s1 b = (if b = d then view s p else view s b)"
    using store_ok [OF Suc.prems(1) D(1)] by blast
  have same: "view s1 y = view s y" if "y \<in> D" "y \<in> span (p + 1) (Suc n)" for y
    using 1(4) that disj(2) by auto
  have cs: "is_cstring s1 (p + 1) n"
  proof -
    have eq: "p + 1 + word_of_nat i = p + word_of_nat (Suc i)" for i by simp
    have inD: "p + 1 + word_of_nat i \<in> D" if "i \<le> n" for i
      using Suc.prems(4) that unfolding eq is_cstring_def by (simp del: of_nat_Suc)
    have in_sp: "p + 1 + word_of_nat i \<in> span (p + 1) (Suc n)" if "i \<le> n" for i
      using that n by (intro span_memI) auto
    have v: "view s1 (p + 1 + word_of_nat i) = view s (p + word_of_nat (Suc i))" if "i \<le> n" for i
      using same [OF inD [OF that] in_sp [OF that]] unfolding eq .
    show ?thesis
      unfolding is_cstring_def using Suc.prems(4) inD v
      by (simp add: is_cstring_def del: of_nat_Suc)
  qed
  obtain s2 where 2: "strcpy_loop ld st m (d + 1) (p + 1) s1 = Inr s2" "valid s2" "eqv s1 s2"
      "\<forall>b\<in>D. view s2 b =
        (if b \<in> span (d + 1) (Suc n) then view s1 (p + 1 + (b - (d + 1))) else view s1 b)"
    using Suc.IH [OF 1(2) _ k(2) cs D(2) disj(1) n] n by auto
  have src: "view s1 (p + 1 + (b - (d + 1))) = view s (p + (b - d))"
    if "b \<in> span (d + 1) (Suc n)" for b
  proof -
    define y where "y = p + (b - d)"
    have y: "p + 1 + (b - (d + 1)) = y" "y - (p + 1) = b - (d + 1)" by (simp_all add: y_def)
    from that y(2) have sy: "y \<in> span (p + 1) (Suc n)" by (simp only: span_def mem_Collect_eq)
    then obtain i where i: "i < Suc n" "y = p + 1 + word_of_nat i" by (rule span_memE)
    have "y \<in> D" using i cs by (simp add: is_cstring_def)
    from same [OF this sy] show ?thesis by (simp only: y(1) y_def)
  qed
  have "strcpy_loop ld st k d p s = Inr s2"
    using k str 1(1) 2(1) load_ok [OF Suc.prems(1) str(1)] by simp
  moreover have "\<forall>b\<in>D. view s2 b =
      (if b \<in> span d (Suc (Suc n)) then view s (p + (b - d)) else view s b)"
    using 1(4) 2(4) src span_start_notin [OF n, of d] by (simp add: sp)
  ultimately show ?case using 1 2 by (auto intro: eqv_trans)
qed

lemma strcpy_ok:
  assumes "valid s" and "is_cstring s p n" and "Suc n < 2 ^ 32" and "span d (Suc n) \<subseteq> D"
    and "span d (Suc n) \<inter> span p (Suc n) = {}"
  shows "\<exists>s'. strcpy ld st d p s = Inr s' \<and> valid s' \<and> eqv s s' \<and>
    (\<forall>b\<in>D. view s' b = (if b \<in> span d (Suc n) then view s (p + (b - d)) else view s b))"
  unfolding strcpy_def using strcpy_loop_ok [OF assms(1) _ _ assms(2) assms(4,5,3)] assms(3) by simp

lemma strncmp_loop_zero:
  "valid s \<Longrightarrow> n < 2 ^ 32 \<Longrightarrow> span p n \<subseteq> D \<Longrightarrow> span q n \<subseteq> D \<Longrightarrow>
   \<exists>r. strncmp_loop ld n p q s = Inr r \<and>
     (r = 0 \<longleftrightarrow> (\<forall>i<n. view s (p + word_of_nat i) = view s (q + word_of_nat i)))"
proof (induction n arbitrary: p q)
  case 0
  then show ?case by simp
next
  case (Suc n)
  have n: "n < 2 ^ 32" using Suc.prems(2) by simp
  have D: "p \<in> D" "q \<in> D" "span (p + 1) n \<subseteq> D" "span (q + 1) n \<subseteq> D"
    using Suc.prems(3,4) span_Suc [OF n, of p] span_Suc [OF n, of q] by auto
  obtain r where r: "strncmp_loop ld n (p + 1) (q + 1) s = Inr r"
      "r = 0 \<longleftrightarrow> (\<forall>i<n. view s (p + 1 + word_of_nat i) = view s (q + 1 + word_of_nat i))"
    using Suc.IH [OF Suc.prems(1) n D(3,4)] by blast
  have "(\<forall>i<Suc n. view s (p + word_of_nat i) = view s (q + word_of_nat i)) \<longleftrightarrow>
      view s p = view s q \<and> (\<forall>i<n. view s (p + 1 + word_of_nat i) = view s (q + 1 + word_of_nat i))"
    by (subst all_less_Suc_split) (simp add: add.assoc)
  note split = this
  note ld = load_ok [OF Suc.prems(1) D(1)] load_ok [OF Suc.prems(1) D(2)]
  show ?case
  proof (cases "view s p = view s q")
    case True
    with r ld split show ?thesis by simp
  next
    case False
    then have "uint (view s p) - uint (view s q) \<noteq> 0" by (simp add: word_uint_eq_iff)
    with False ld split show ?thesis by simp
  qed
qed

lemma strncmp_zero:
  assumes "valid s" and "span p (unat n) \<subseteq> D" and "span q (unat n) \<subseteq> D"
  shows "\<exists>r. strncmp ld p q n s = Inr r \<and>
    (r = 0 \<longleftrightarrow> (\<forall>i<unat n. view s (p + word_of_nat i) = view s (q + word_of_nat i)))"
  unfolding strncmp_def using strncmp_loop_zero [OF assms(1) _ assms(2,3)] by simp

end

section \<open>Local arrays\<close>

text \<open>
  A local array is the list of its bytes, addressed from 0; an index outside it is
  \<open>Undefined\<close>, as in C.
\<close>

definition array_load :: "u32 \<Rightarrow> u8 list \<Rightarrow> stop + u8" where
  "array_load a xs = (if unat a < length xs then Inr (xs ! unat a) else Inl Undefined)"

definition array_store :: "u32 \<Rightarrow> u8 \<Rightarrow> u8 list \<Rightarrow> stop + u8 list" where
  "array_store a v xs = (if unat a < length xs then Inr (xs[unat a := v]) else Inl Undefined)"

interpretation arr: byte_memory array_load array_store "{a. unat a < n}" "\<lambda>xs. length xs = n"
  "\<lambda>xs a. xs ! unat a" "\<lambda>_ _. True" for n
  by unfold_locales
    (auto simp: array_load_def array_store_def nth_list_update word_unat_eq_iff)

text \<open>A list that starts with a C string and has room for its terminator.\<close>

lemma arr_is_cstring:
  assumes "length bs < length xs" and "length xs \<le> 2 ^ 32" and "take (length bs) xs = bs"
    and "0 \<notin> set bs" and "xs ! length bs = 0"
  shows "arr.is_cstring (length xs) xs 0 (length bs)"
proof -
  have "xs ! i = bs ! i" if "i < length bs" for i
    using that assms(3) nth_take [of i "length bs" xs] by simp
  then have "\<forall>i<length bs. xs ! i \<noteq> 0"
    using assms(4) by (metis nth_mem)
  then show ?thesis
    using assms(1,2,5) by (auto simp: arr.is_cstring_def unat_of_nat)
qed

lemma strlen_array:
  assumes "length bs < length xs" and "length xs \<le> 2 ^ 32" and "take (length bs) xs = bs"
    and "0 \<notin> set bs" and "xs ! length bs = 0"
  shows "strlen array_load 0 xs = Inr (word_of_nat (length bs))"
  by (rule arr.strlen_ok [OF refl arr_is_cstring [OF assms]])

lemma strrev_array:
  assumes "length bs < length xs" and "length xs \<le> 2 ^ 32" and "take (length bs) xs = bs"
    and "0 \<notin> set bs" and "xs ! length bs = 0"
  shows "strrev array_load array_store 0 xs = Inr (rev bs @ drop (length bs) xs)"
proof -
  from arr.strrev_ok [OF refl arr_is_cstring [OF assms]] obtain ys where
    ys: "strrev array_load array_store 0 xs = Inr ys" "length ys = length xs"
      "\<forall>b\<in>{a :: u32. unat a < length xs}. ys ! unat b = (let j = unat (b - 0) in
         if j < length bs then xs ! unat (0 + word_of_nat (length bs - 1 - j) :: u32) else xs ! unat b)"
    by blast
  have "ys ! j = (rev bs @ drop (length bs) xs) ! j" if j: "j < length xs" for j
  proof -
    have u: "unat (word_of_nat j :: u32) = j" using j assms(2) by (simp add: unat_of_nat)
    have m: "unat (word_of_nat (length bs - 1 - j) :: u32) = length bs - 1 - j"
      using assms(1,2) by (simp add: unat_of_nat del: of_nat_diff)
    have "ys ! j = (if j < length bs then xs ! (length bs - 1 - j) else xs ! j)"
      using bspec [OF ys(3), of "word_of_nat j"] j u m by (simp add: Let_def del: of_nat_diff)
    also have "\<dots> = (rev bs @ drop (length bs) xs) ! j"
      using assms(1,3) nth_take [of "length bs - 1 - j" "length bs" xs]
      by (auto simp: nth_append rev_nth)
    finally show ?thesis .
  qed
  then have "ys = rev bs @ drop (length bs) xs"
    using ys(2) assms(1) by (intro nth_equalityI) auto
  with ys(1) show ?thesis by simp
qed

section \<open>Properties\<close>

text \<open>
  C20: \<open>strrev\<close> reverses the C string at the start of an array and leaves the terminator and
  everything after it alone.
\<close>

theorem strrev_reverses:
  assumes "0 \<notin> set bs" and "length bs + length rest < 2 ^ 32"
  shows "strrev array_load array_store 0 (bs @ 0 # rest) = Inr (rev bs @ 0 # rest)"
  using strrev_array [of bs "bs @ 0 # rest"] assms by (simp add: nth_append)

theorem strrev_reverses_witness:
  "strrev array_load array_store 0 ([1, 2, 3] @ 0 # [9]) = Inr (rev [1, 2, 3] @ 0 # [9])"
  by (rule strrev_reverses) simp_all

text \<open>
  C21: \<open>strncmp\<close> does not stop at the terminator, which the C standard asks of it: two equal
  strings with different bytes behind their terminators compare as different.
\<close>

theorem strncmp_reads_past_terminator:
  assumes "0 \<notin> set bs" and "x \<noteq> y" and "2 * length bs + 4 < 2 ^ 32"
  shows "\<exists>r. strncmp array_load 0 (word_of_nat (length bs + 2)) (word_of_nat (length bs + 2))
    (bs @ [0, x] @ bs @ [0, y]) = Inr r \<and> r \<noteq> 0"
proof -
  define n where "n = length bs + 2"
  define s where "s = bs @ [0, x] @ bs @ [0, y]"
  have len: "length s = 2 * n" and n: "2 * n < 2 ^ 32"
    using assms(3) by (simp_all add: s_def n_def)
  have un: "unat (word_of_nat n :: u32) = n" using n by (simp add: unat_of_nat)
  have u: "unat (word_of_nat n + word_of_nat i :: u32) = n + i" if "i < n" for i
    using that n by (simp add: unat_of_nat flip: of_nat_add)
  have sp: "span 0 n \<subseteq> {a. unat a < 2 * n}" "span (word_of_nat n) n \<subseteq> {a. unat a < 2 * n}"
    using u by (auto simp: span_def elim!: span_memE [unfolded span_def])
  have at: "s ! (n - 1) = x" "s ! (n + (n - 1)) = y"
    by (simp_all add: s_def n_def nth_append)
  obtain r where r: "strncmp array_load 0 (word_of_nat n) (word_of_nat n) s = Inr r"
      "r = 0 \<longleftrightarrow> (\<forall>i<n. s ! unat (0 + word_of_nat i :: u32) = s ! unat (word_of_nat n + word_of_nat i :: u32))"
    using arr.strncmp_zero [OF len, of 0 "word_of_nat n" "word_of_nat n"] sp un by auto
  have n1: "n - 1 < n" by (simp add: n_def)
  have "r \<noteq> 0"
  proof
    assume "r = 0"
    then have "s ! unat (0 + word_of_nat (n - 1) :: u32) = s ! unat (word_of_nat n + word_of_nat (n - 1) :: u32)"
      using r(2) n1 by blast
    moreover have "unat (word_of_nat (n - 1) :: u32) = n - 1"
      using n by (simp add: unat_of_nat del: of_nat_diff)
    moreover have "unat (word_of_nat n + word_of_nat (n - 1) :: u32) = n + (n - 1)"
      by (rule u) (simp add: n_def)
    ultimately show False using at assms(2) by (simp del: of_nat_diff)
  qed
  with r(1) show ?thesis by (auto simp: n_def s_def)
qed

theorem strncmp_reads_past_terminator_witness:
  "\<exists>r. strncmp array_load 0 (word_of_nat (length [65 :: u8] + 2)) (word_of_nat (length [65 :: u8] + 2))
    ([65] @ [0, 1] @ [65] @ [0, 2]) = Inr r \<and> r \<noteq> 0"
  by (rule strncmp_reads_past_terminator) simp_all

end
