(* ===== verification/Logger.thy ===== *)
theory Logger
  imports CString
begin

text \<open>
  Port output (\<open>kernel/includes/io.h\<close>), the serial logger (\<open>kernel/logger.c\<close>,
  \<open>kernel/logger.asm\<close>) and \<open>panic\<close> (\<open>kernel/panic.c\<close>). The state is the trace of bytes
  written to the ports, oldest first; what has been logged are the bytes written to COM1.
\<close>

unbundle bit_operations_syntax

section \<open>Ports\<close>

record io =
  out :: "(u16 \<times> u8) list"

definition outb :: "u16 \<Rightarrow> u8 \<Rightarrow> io \<Rightarrow> io" where
  "outb port data s = s\<lparr>out := out s @ [(port, data)]\<rparr>"

definition COM1_BASE :: u16 where "COM1_BASE = 0x3f8"

definition init_serial_com1 :: "io \<Rightarrow> io" where
  "init_serial_com1 s =
     outb (COM1_BASE + 4) 0x0B (outb (COM1_BASE + 2) 0xC7 (outb (COM1_BASE + 3) 0x03
     (outb (COM1_BASE + 1) 0x00 (outb (COM1_BASE + 0) 0x03 (outb (COM1_BASE + 3) 0x80
     (outb (COM1_BASE + 1) 0x00 s))))))"

definition init_logger :: "io \<Rightarrow> io" where
  "init_logger s = init_serial_com1 s"

section \<open>Waiting for the transmitter\<close>

text \<open>
  \<open>lsr k\<close> is the value of the \<open>k\<close>-th read of the line status register, port 0x3fd. The
  loop of \<open>put_serial\<close> polls it until the transmit-empty bit is set; \<open>None\<close> is a loop that
  never ends. The result is the number of reads done so far and the ports.
\<close>

definition is_transmit_empty :: "u8 \<Rightarrow> u8" where
  "is_transmit_empty status = status AND 0x20"

partial_function (option) put_serial_poll :: "(nat \<Rightarrow> u8) \<Rightarrow> nat \<Rightarrow> u8 \<Rightarrow> io \<Rightarrow> (nat \<times> io) option" where
  "put_serial_poll lsr k a s =
     (if is_transmit_empty (lsr k) = 0 then put_serial_poll lsr (Suc k) a s
      else Some (Suc k, outb COM1_BASE a s))"

text \<open>What a call of \<open>put_serial\<close> does once the transmitter is ready.\<close>

definition put_serial :: "u8 \<Rightarrow> io \<Rightarrow> io" where
  "put_serial a s = outb COM1_BASE a s"

definition emit :: "u8 list \<Rightarrow> io \<Rightarrow> io" where
  "emit bs s = s\<lparr>out := out s @ map (Pair COM1_BASE) bs\<rparr>"

section \<open>Printing\<close>

fun print_serial_loop :: "nat \<Rightarrow> u32 \<Rightarrow> u8 list \<Rightarrow> io \<Rightarrow> stop + io" where
  "print_serial_loop 0 i str s = Inl Diverges"
| "print_serial_loop (Suc k) i str s =
     and_then (strlen array_load 0 str) (\<lambda>len.
       if i < len
       then and_then (array_load i str) (\<lambda>c. print_serial_loop k (i + 1) str (put_serial c s))
       else Inr s)"

text \<open>
  The loop stops at the latest when \<open>i\<close> has reached the length, which is below \<open>2 ^ 32\<close>.
\<close>

definition print_serial :: "u8 list \<Rightarrow> io \<Rightarrow> stop + io" where
  "print_serial str s = print_serial_loop (2 ^ 32) 0 str s"

text \<open>
  The decimal printer builds the digits backwards in the local array \<open>s[25]\<close>, whose first
  content is unknown (\<open>buf\<close>), then reverses it.
\<close>

function dec_loop :: "u32 \<Rightarrow> u32 \<Rightarrow> u8 list \<Rightarrow> stop + u32 \<times> u8 list" where
  "dec_loop n pos buf =
     (if n > 0
      then and_then (array_store pos (ucast (n mod 10) + 48) buf) (dec_loop (n div 10) (pos + 1))
      else Inr (pos, buf))"
  by pat_completeness auto
termination
proof (relation "measure (\<lambda>(n, _). unat n)")
  fix n :: u32
  assume "n > 0"
  then have "0 < unat n" by (simp add: word_less_nat_alt)
  then show "\<And>pos buf x. ((n div 10, pos + 1, x), n, pos, buf) \<in> measure (\<lambda>(n, _). unat n)"
    by (simp add: unat_div)
qed simp

declare dec_loop.simps [simp del]

definition print_serial_unsigned_decimal :: "u8 list \<Rightarrow> u32 \<Rightarrow> io \<Rightarrow> stop + io" where
  "print_serial_unsigned_decimal buf n s =
     (if n = 0
      then and_then (array_store 0 48 buf) (\<lambda>b. and_then (array_store 1 0 b) (\<lambda>b. print_serial b s))
      else and_then (dec_loop n 0 buf) (\<lambda>(pos, b).
           and_then (array_store pos 0 b) (\<lambda>b.
           and_then (strrev array_load array_store 0 b) (\<lambda>b. print_serial b s))))"

text \<open>
  The hexadecimal printer is assembly: each label prints the high half of its operand by a
  call of the next label, then falls through to it with the low half.
\<close>

definition hexdn :: "u32 \<Rightarrow> io \<Rightarrow> io" where
  "hexdn eax s =
     (let al = ucast (eax AND 0x0f) + 48 :: u8
      in put_serial (if al \<le> 57 then al else al + 7) s)"

definition hexdb :: "u32 \<Rightarrow> io \<Rightarrow> io" where
  "hexdb eax s = hexdn eax (hexdn (drop_bit 4 eax) s)"

definition hexdw :: "u32 \<Rightarrow> io \<Rightarrow> io" where
  "hexdw eax s = hexdb eax (hexdb (drop_bit 8 eax) s)"

definition hexdd :: "u32 \<Rightarrow> io \<Rightarrow> io" where
  "hexdd eax s = hexdw eax (hexdw (drop_bit 16 eax) s)"

definition print_serial_hex :: "u32 \<Rightarrow> io \<Rightarrow> io" where
  "print_serial_hex n s = hexdd n s"

section \<open>Formatted output\<close>

text \<open>
  The variable arguments: a string (its bytes without the terminator), a character, a number.
  A conversion without an argument of its kind is \<open>Undefined\<close>. A character after the percent
  sign that is no conversion is not skipped: the loop prints it, or, if it is a percent sign,
  reads it as the next conversion.
\<close>

datatype arg = Str "u8 list" | Chr u8 | Num u32

fun logf :: "u8 list \<Rightarrow> string \<Rightarrow> arg list \<Rightarrow> io \<Rightarrow> stop + io" where
  "logf buf [] as s = Inr s"
| "logf buf (c # fmt) as s =
     (if c \<noteq> CHR ''%'' then logf buf fmt as (put_serial (of_char c) s)
      else (case fmt of
        [] \<Rightarrow> Inr s
      | d # fmt' \<Rightarrow>
          if d = CHR ''s'' then (case as of
             Str bs # as' \<Rightarrow> and_then (print_serial (bs @ [0]) s) (logf buf fmt' as')
           | _ \<Rightarrow> Inl Undefined)
          else if d = CHR ''c'' then (case as of
             Chr a # as' \<Rightarrow> logf buf fmt' as' (put_serial a s)
           | _ \<Rightarrow> Inl Undefined)
          else if d = CHR ''x'' then (case as of
             Num n # as' \<Rightarrow> logf buf fmt' as'
               (print_serial_hex n (put_serial (of_char (CHR ''x'')) (put_serial (of_char (CHR ''0'')) s)))
           | _ \<Rightarrow> Inl Undefined)
          else if d = CHR ''u'' then (case as of
             Num n # as' \<Rightarrow> and_then (print_serial_unsigned_decimal buf n s) (logf buf fmt' as')
           | _ \<Rightarrow> Inl Undefined)
          else logf buf fmt as s))"

section \<open>What the printers print\<close>

text \<open>Decimal digits, least significant first, and the bytes of a number.\<close>

fun dec_rev :: "nat \<Rightarrow> nat list" where
  "dec_rev n = (if n = 0 then [] else (n mod 10) # dec_rev (n div 10))"

declare dec_rev.simps [simp del]

definition ascii_digit :: "nat \<Rightarrow> u8" where
  "ascii_digit d = word_of_nat d + 48"

definition dec_bytes :: "nat \<Rightarrow> u8 list" where
  "dec_bytes n = (if n = 0 then [48] else rev (map ascii_digit (dec_rev n)))"

definition hex_digit :: "u32 \<Rightarrow> u8" where
  "hex_digit d = (if d < 10 then ucast d + 48 else ucast d + 55)"

definition hex_bytes :: "u32 \<Rightarrow> u8 list" where
  "hex_bytes n = map (\<lambda>k. hex_digit (drop_bit (4 * k) n AND 0xF)) [7, 6, 5, 4, 3, 2, 1, 0]"

text \<open>The readers a user of the log applies.\<close>

definition parse_dec :: "u8 list \<Rightarrow> nat" where
  "parse_dec bs = foldl (\<lambda>a c. 10 * a + unat (c - 48)) 0 bs"

definition parse_hex :: "u8 list \<Rightarrow> nat" where
  "parse_hex bs = foldl (\<lambda>a c. 16 * a + unat (if c \<le> 57 then c - 48 else c - 55)) 0 bs"

text \<open>Formats whose conversions find their arguments, and the bytes they print.\<close>

fun fmt_ok :: "string \<Rightarrow> arg list \<Rightarrow> bool" where
  "fmt_ok [] as = True"
| "fmt_ok (c # fmt) as =
     (if c \<noteq> CHR ''%'' then fmt_ok fmt as
      else (case fmt of
        [] \<Rightarrow> True
      | d # fmt' \<Rightarrow>
          if d = CHR ''s'' then (case as of
             Str bs # as' \<Rightarrow> 0 \<notin> set bs \<and> length bs < 2 ^ 32 - 1 \<and> fmt_ok fmt' as' | _ \<Rightarrow> False)
          else if d = CHR ''c'' then (case as of Chr a # as' \<Rightarrow> fmt_ok fmt' as' | _ \<Rightarrow> False)
          else if d = CHR ''x'' \<or> d = CHR ''u'' then
            (case as of Num n # as' \<Rightarrow> fmt_ok fmt' as' | _ \<Rightarrow> False)
          else fmt_ok fmt as))"

fun fmt_bytes :: "string \<Rightarrow> arg list \<Rightarrow> u8 list" where
  "fmt_bytes [] as = []"
| "fmt_bytes (c # fmt) as =
     (if c \<noteq> CHR ''%'' then of_char c # fmt_bytes fmt as
      else (case fmt of
        [] \<Rightarrow> []
      | d # fmt' \<Rightarrow>
          if d = CHR ''s'' then (case as of Str bs # as' \<Rightarrow> bs @ fmt_bytes fmt' as' | _ \<Rightarrow> [])
          else if d = CHR ''c'' then (case as of Chr a # as' \<Rightarrow> a # fmt_bytes fmt' as' | _ \<Rightarrow> [])
          else if d = CHR ''x'' then
            (case as of Num n # as' \<Rightarrow> [48, 120] @ hex_bytes n @ fmt_bytes fmt' as' | _ \<Rightarrow> [])
          else if d = CHR ''u'' then
            (case as of Num n # as' \<Rightarrow> dec_bytes (unat n) @ fmt_bytes fmt' as' | _ \<Rightarrow> [])
          else fmt_bytes fmt as))"

text \<open>
  A call of \<open>logf\<close> in the other components: what it prints when the format is well formed
  (\<open>logf_ok\<close> below is the refinement).
\<close>

definition klog :: "string \<Rightarrow> arg list \<Rightarrow> io \<Rightarrow> io" where
  "klog fmt as s = emit (fmt_bytes fmt as) s"

text \<open>\<open>panic\<close> logs its message, disables interrupts and spins: nothing runs after it.\<close>

definition panic :: "string \<Rightarrow> stop + 'a" where
  "panic message = Inl (Panic message)"

definition panic_log :: "string \<Rightarrow> io \<Rightarrow> io" where
  "panic_log message s = klog ''[PANIC] - %s\<newline>'' [Str (map of_char message)] s"

section \<open>Lemmas\<close>

lemma emit_Nil [simp]: "emit [] s = s"
  by (simp add: emit_def)

lemma emit_emit [simp]: "emit bs (emit as s) = emit (as @ bs) s"
  by (simp add: emit_def)

lemma put_serial_emit: "put_serial a s = emit [a] s"
  by (simp add: put_serial_def emit_def outb_def)

lemma put_serial_poll_ready:
  "(\<forall>i<m. is_transmit_empty (lsr (k + i)) = 0) \<Longrightarrow> is_transmit_empty (lsr (k + m)) \<noteq> 0 \<Longrightarrow>
   put_serial_poll lsr k a s = Some (Suc (k + m), put_serial a s)"
proof (induction m arbitrary: k)
  case 0
  then show ?case by (subst put_serial_poll.simps) (simp add: put_serial_def)
next
  case (Suc m)
  have "put_serial_poll lsr (Suc k) a s = Some (Suc (Suc k + m), put_serial a s)"
    using Suc.prems by (intro Suc.IH) auto
  moreover have "is_transmit_empty (lsr k) = 0" using Suc.prems(1) by (auto dest: spec [of _ 0])
  ultimately show ?case by (subst put_serial_poll.simps) simp
qed

lemma put_serial_poll_stalled:
  assumes "put_serial_poll lsr k a s = Some r"
  shows "\<exists>m\<ge>k. is_transmit_empty (lsr m) \<noteq> 0"
proof (rule put_serial_poll.raw_induct
    [where P = "\<lambda>lsr k a s r. \<exists>m\<ge>k. is_transmit_empty (lsr m) \<noteq> 0", OF _ assms])
  fix f lsr k a s r
  assume IH: "\<And>lsr k a s r. f lsr k a s = Some r \<Longrightarrow> \<exists>m\<ge>k. is_transmit_empty (lsr m) \<noteq> 0"
    and eq: "(if is_transmit_empty (lsr k) = 0 then f lsr (Suc k) a s
      else Some (Suc k, outb COM1_BASE a s)) = Some r"
  show "\<exists>m\<ge>k. is_transmit_empty (lsr m) \<noteq> 0"
  proof (cases "is_transmit_empty (lsr k) = 0")
    case True
    with eq IH [of lsr "Suc k" a s r] show ?thesis by (auto dest: Suc_leD)
  qed auto
qed

lemma print_serial_loop_ok:
  "0 \<notin> set bs \<Longrightarrow> length bs < 2 ^ 32 \<Longrightarrow> i \<le> length bs \<Longrightarrow> length bs - i < k \<Longrightarrow>
   length (bs @ 0 # rest) \<le> 2 ^ 32 \<Longrightarrow>
   print_serial_loop k (word_of_nat i) (bs @ 0 # rest) s = Inr (emit (drop i bs) s)"
proof (induction k arbitrary: i s)
  case 0
  then show ?case by simp
next
  case (Suc k)
  have len: "strlen array_load 0 (bs @ 0 # rest) = Inr (word_of_nat (length bs))"
    using Suc.prems by (intro strlen_array) auto
  have ui: "unat (word_of_nat i :: u32) = i" and ul: "unat (word_of_nat (length bs) :: u32) = length bs"
    using Suc.prems(2,3) by (simp_all add: unat_of_nat)
  then have lt: "(word_of_nat i :: u32) < word_of_nat (length bs) \<longleftrightarrow> i < length bs"
    by (simp add: word_less_nat_alt)
  show ?case
  proof (cases "i < length bs")
    case False
    with Suc.prems(3) len show ?thesis by (simp add: lt)
  next
    case True
    have ld: "array_load (word_of_nat i) (bs @ 0 # rest) = Inr (bs ! i)"
      using True ui by (simp add: array_load_def nth_append)
    have ih: "print_serial_loop k (word_of_nat (Suc i)) (bs @ 0 # rest) s' = Inr (emit (drop (Suc i) bs) s')"
      for s' using Suc.prems True by (intro Suc.IH) auto
    have "bs ! i # drop (Suc i) bs = drop i bs" using True by (simp add: Cons_nth_drop_Suc)
    with True len ld ih [of "put_serial (bs ! i) s"] show ?thesis
      by (simp add: lt put_serial_emit add.commute)
  qed
qed

lemma print_serial_ok:
  assumes "0 \<notin> set bs" and "length (bs @ 0 # rest) \<le> 2 ^ 32"
  shows "print_serial (bs @ 0 # rest) s = Inr (emit bs s)"
  using print_serial_loop_ok [of bs 0 "2 ^ 32" rest s] assms by (simp add: print_serial_def)

subsection \<open>Decimal\<close>

lemma dec_rev_0 [simp]: "dec_rev 0 = []"
  by (simp add: dec_rev.simps)

lemma dec_rev_pos: "0 < n \<Longrightarrow> dec_rev n = (n mod 10) # dec_rev (n div 10)"
  by (subst dec_rev.simps) simp

lemma dec_rev_small: "d \<in> set (dec_rev n) \<Longrightarrow> d < 10"
proof (induction n rule: dec_rev.induct)
  case (1 n)
  then show ?case by (cases "n = 0") (auto simp: dec_rev_pos)
qed

lemma length_dec_rev: "n < 10 ^ k \<Longrightarrow> length (dec_rev n) \<le> k"
proof (induction k arbitrary: n)
  case 0
  then show ?case by simp
next
  case (Suc k)
  show ?case
  proof (cases "n = 0")
    case False
    have "n div 10 < 10 ^ k" using Suc.prems by (simp add: less_mult_imp_div_less mult.commute)
    from Suc.IH [OF this] False show ?thesis by (simp add: dec_rev_pos)
  qed simp
qed

lemma length_dec_rev_u32: "length (dec_rev (unat (n :: u32))) \<le> 10"
  by (rule length_dec_rev) (rule less_trans [OF unat_u32_bound], simp)

lemma unat_ascii_digit: "d < 10 \<Longrightarrow> unat (ascii_digit d) = d + 48"
  by (simp add: ascii_digit_def unat_word_ariths unat_of_nat)

lemma ascii_digit_nonzero: "d < 10 \<Longrightarrow> ascii_digit d \<noteq> 0"
  using unat_ascii_digit [of d] by auto

lemma dec_bytes_nonzero: "0 \<notin> set (dec_bytes n)"
proof -
  have "ascii_digit d \<noteq> 0" if "d \<in> set (dec_rev n)" for d
    using ascii_digit_nonzero [OF dec_rev_small [OF that]] .
  then show ?thesis by (auto simp: dec_bytes_def)
qed

lemma parse_dec_snoc: "parse_dec (bs @ [c]) = 10 * parse_dec bs + unat (c - 48)"
  by (simp add: parse_dec_def)

lemma parse_dec_rev: "parse_dec (rev (map ascii_digit (dec_rev n))) = n"
proof (induction n rule: dec_rev.induct)
  case (1 n)
  show ?case
  proof (cases "n = 0")
    case False
    have "unat (ascii_digit (n mod 10) - 48) = n mod 10"
      by (simp add: ascii_digit_def unat_of_nat)
    with False 1 show ?thesis by (simp add: dec_rev_pos parse_dec_snoc)
  qed (simp add: parse_dec_def)
qed

lemma parse_dec_bytes: "parse_dec (dec_bytes n) = n"
  by (simp add: dec_bytes_def parse_dec_rev) (simp add: parse_dec_def)

lemma length_dec_bytes: "length (dec_bytes (unat (n :: u32))) \<le> 10"
  using length_dec_rev_u32 [of n] by (simp add: dec_bytes_def)

lemma dec_loop_ok:
  "unat pos + length (dec_rev (unat n)) \<le> length buf \<Longrightarrow> length buf < 2 ^ 32 \<Longrightarrow>
   dec_loop n pos buf = Inr (pos + word_of_nat (length (dec_rev (unat n))),
     take (unat pos) buf @ map ascii_digit (dec_rev (unat n)) @
     drop (unat pos + length (dec_rev (unat n))) buf)"
proof (induction n pos buf rule: dec_loop.induct)
  case (1 n pos buf)
  show ?case
  proof (cases "n > 0")
    case False
    then have "n = 0" by (simp add: word_gt_0)
    then show ?thesis by (simp add: dec_loop.simps [of 0])
  next
    case True
    then have pos: "0 < unat n" by (simp add: word_less_nat_alt)
    define ds where "ds = dec_rev (unat n div 10)"
    have ds: "dec_rev (unat n) = (unat n mod 10) # ds" using pos by (simp add: dec_rev_pos ds_def)
    have len: "unat pos < length buf" using "1.prems"(1) ds by simp
    have st: "array_store pos (ucast (n mod 10) + 48) buf =
        Inr (buf[unat pos := ascii_digit (unat n mod 10)])"
    proof -
      have "(ucast (n mod 10) :: u8) = word_of_nat (unat n mod 10)"
        by (simp add: ucast_via_unat unat_mod)
      then show ?thesis using len by (simp add: array_store_def ascii_digit_def)
    qed
    have up: "unat (pos + 1) = Suc (unat pos)"
      using len "1.prems"(2) by (simp add: unat_word_ariths)
    have "dec_loop (n div 10) (pos + 1) (buf[unat pos := ascii_digit (unat n mod 10)]) =
      Inr (pos + 1 + word_of_nat (length ds),
        take (Suc (unat pos)) (buf[unat pos := ascii_digit (unat n mod 10)]) @
        map ascii_digit ds @ drop (Suc (unat pos) + length ds) buf)"
      using "1.IH" [OF True st] "1.prems" ds up by (simp add: unat_div ds_def)
    moreover have "take (Suc (unat pos)) (buf[unat pos := x]) = take (unat pos) buf @ [x]" for x
      using len by (simp add: take_Suc_conv_app_nth)
    ultimately show ?thesis
      using True st by (simp add: dec_loop.simps [of n] ds add.assoc)
  qed
qed

lemma print_serial_unsigned_decimal_ok:
  assumes "length buf = 25"
  shows "print_serial_unsigned_decimal buf n s = Inr (emit (dec_bytes (unat n)) s)"
proof (cases "n = 0")
  case True
  obtain a b rest where buf: "buf = a # b # rest" "length rest = 23"
    using assms by (auto simp: numeral_eq_Suc length_Suc_conv)
  have "array_store 1 0 (48 # b # rest) = Inr (48 # 0 # rest)"
    by (simp add: array_store_def)
  then show ?thesis
    using True buf print_serial_ok [of "[48]" rest s]
    by (simp add: print_serial_unsigned_decimal_def array_store_def dec_bytes_def)
next
  case False
  then have n0: "unat n \<noteq> 0" by (simp add: word_unat_eq_iff)
  define ds where "ds = dec_rev (unat n)"
  define bs where "bs = map ascii_digit ds"
  have l: "length ds \<le> 10" using length_dec_rev_u32 [of n] by (simp add: ds_def)
  obtain x rest where split: "drop (length ds) buf = x # rest"
    using l assms by (cases "drop (length ds) buf") auto
  have lr: "length rest = 24 - length ds"
    using arg_cong [OF split, of length] assms by simp
  have lb: "length bs = length ds" by (simp add: bs_def)
  have "dec_loop n 0 buf = Inr (word_of_nat (length ds), bs @ x # rest)"
    using dec_loop_ok [of 0 n buf] l assms split by (simp add: ds_def bs_def)
  moreover have "array_store (word_of_nat (length ds)) 0 (bs @ x # rest) = Inr (bs @ 0 # rest)"
    using l by (simp add: array_store_def unat_of_nat bs_def list_update_append)
  moreover have nz: "0 \<notin> set bs"
    using ascii_digit_nonzero dec_rev_small by (auto simp: bs_def ds_def)
  moreover have "strrev array_load array_store 0 (bs @ 0 # rest) = Inr (rev bs @ 0 # rest)"
    using strrev_array [of bs "bs @ 0 # rest"] nz l lr lb by (simp add: nth_append)
  moreover have "print_serial (rev bs @ 0 # rest) s = Inr (emit (rev bs) s)"
    using print_serial_ok [of "rev bs" rest s] nz l lr by (simp add: bs_def)
  ultimately show ?thesis
    using False n0 by (simp add: print_serial_unsigned_decimal_def dec_bytes_def bs_def ds_def)
qed

subsection \<open>Hexadecimal\<close>

lemma nibble_cases:
  assumes "d < (16 :: u32)"
  shows "d \<in> {0, 1, 2, 3, 4, 5, 6, 7, 8, 9, 10, 11, 12, 13, 14, 15}"
proof -
  have "unat d < 16" using assms by (simp add: word_less_nat_alt)
  then have "unat d \<in> {0, 1, 2, 3, 4, 5, 6, 7, 8, 9, 10, 11, 12, 13, 14, 15}"
    by (simp only: insert_iff empty_iff) arith
  then have "word_of_nat (unat d) \<in> (word_of_nat ` {0, 1, 2, 3, 4, 5, 6, 7, 8, 9, 10, 11, 12, 13, 14, 15} :: u32 set)"
    by (rule imageI)
  then show ?thesis by simp
qed

lemma nibble_less: "x AND 0xF < (16 :: u32)"
  by (rule le_less_trans [OF word_and_le1]) simp

lemma hexdn_emit: "hexdn eax s = emit [hex_digit (eax AND 0xF)] s"
  using nibble_cases [OF nibble_less [of eax]]
  by (auto simp: hexdn_def hex_digit_def put_serial_emit)

lemma print_serial_hex_ok: "print_serial_hex n s = emit (hex_bytes n) s"
  by (simp add: print_serial_hex_def hexdd_def hexdw_def hexdb_def hexdn_emit hex_bytes_def
      drop_bit_drop_bit)

lemma parse_hex_digit:
  assumes "d < (16 :: u32)"
  shows "unat (if hex_digit d \<le> 57 then hex_digit d - 48 else hex_digit d - 55) = unat d"
  using nibble_cases [OF assms] by (auto simp: hex_digit_def)

lemma parse_hex_snoc:
  "d < (16 :: u32) \<Longrightarrow> parse_hex (bs @ [hex_digit d]) = 16 * parse_hex bs + unat d"
  using parse_hex_digit [of d] by (simp add: parse_hex_def)

lemma unat_drop_bit_4: "unat (drop_bit 4 w) = unat w div 16" for w :: u32
  by (simp add: drop_bit_eq_div unat_div)

lemma hex_step: "16 * unat (drop_bit (k + 4) n) + unat (drop_bit k n AND 0xF) = unat (drop_bit k (n :: u32))"
proof -
  have "unat (drop_bit k n AND 0xF) = unat (drop_bit k n) mod 16"
    using take_bit_eq_mask [of 4 "unat (drop_bit k n)"]
    by (simp add: unsigned_and_eq take_bit_eq_mod mask_eq_exp_minus_1)
  moreover have "unat (drop_bit (k + 4) n) = unat (drop_bit k n) div 16"
    by (subst add.commute) (simp add: unat_drop_bit_4 flip: drop_bit_drop_bit)
  ultimately show ?thesis by simp
qed

lemma parse_hex_append_digit:
  "parse_hex bs = unat (drop_bit (k + 4) n) \<Longrightarrow>
   parse_hex (bs @ [hex_digit (drop_bit k n AND 0xF)]) = unat (drop_bit k n)"
  using parse_hex_snoc [OF nibble_less [of "drop_bit k n"], of bs] hex_step [of k n] by simp

lemma parse_hex_digits_from:
  "j \<le> 8 \<Longrightarrow> parse_hex (map (\<lambda>k. hex_digit (drop_bit (4 * k) n AND 0xF)) (rev [j..<8])) =
     unat (drop_bit (4 * j) n)"
proof (induction j rule: inc_induct)
  case base
  have "drop_bit 32 n = 0"
    using bit_imp_le_length [of n] by (intro bit_eqI) (auto simp: bit_drop_bit_eq)
  then show ?case by (simp add: parse_hex_def)
next
  case (step j)
  have "rev [j..<8] = rev [Suc j..<8] @ [j]"
    using step.hyps by (simp add: upt_conv_Cons)
  then show ?case
    using parse_hex_append_digit [of _ "4 * j" n] step.IH by (simp add: add.commute)
qed

lemma parse_hex_bytes: "parse_hex (hex_bytes n) = unat n"
proof -
  have "rev [0..<8] = [7, 6, 5, 4, 3, 2, 1, 0 :: nat]" by (simp add: upt_rec)
  then show ?thesis using parse_hex_digits_from [of 0 n] by (simp add: hex_bytes_def)
qed

lemma hex_digit_nonzero: "d < (16 :: u32) \<Longrightarrow> hex_digit d \<noteq> 0"
  using nibble_cases [of d] by (auto simp: hex_digit_def)

lemma hex_bytes_nonzero: "0 \<notin> set (hex_bytes n)"
  using hex_digit_nonzero [OF nibble_less] by (simp add: hex_bytes_def eq_commute [of 0])

lemma length_hex_bytes [simp]: "length (hex_bytes n) = 8"
  by (simp add: hex_bytes_def)

subsection \<open>Formats\<close>

lemma print_serial_string:
  "0 \<notin> set bs \<Longrightarrow> length bs < 2 ^ 32 - 1 \<Longrightarrow> print_serial (bs @ [0]) s = Inr (emit bs s)"
  using print_serial_ok [of bs "[]" s] by simp

lemma logf_fmt:
  "length buf = 25 \<Longrightarrow> fmt_ok fmt as \<Longrightarrow> logf buf fmt as s = Inr (emit (fmt_bytes fmt as) s)"
proof (induction buf fmt as s rule: logf.induct)
  case (1 buf as s)
  then show ?case by simp
next
  case (2 buf c fmt as s)
  show ?case
  proof (cases "c = CHR ''%''")
    case False
    with 2 show ?thesis by (simp add: put_serial_emit)
  next
    case True
    show ?thesis
    proof (cases fmt)
      case (Cons d fmt')
      consider "d = CHR ''s''" | "d = CHR ''c''" | "d = CHR ''x''" | "d = CHR ''u''"
        | "d \<notin> {CHR ''s'', CHR ''c'', CHR ''x'', CHR ''u''}" by blast
      then show ?thesis
      proof cases
        case 5
        with True Cons 2 show ?thesis by simp
      qed (use True Cons 2 in \<open>auto simp: print_serial_string print_serial_unsigned_decimal_ok
          print_serial_hex_ok put_serial_emit split: list.splits arg.splits\<close>)
    qed (use True in simp)
  qed
qed

section \<open>Properties\<close>

text \<open>
  C16: \<open>logf\<close>, run on a format whose conversions find their arguments and with any content in
  the local digit buffer, returns and has written to COM1 exactly the bytes the format stands
  for: strings as they are, numbers in decimal or in eight hexadecimal digits after 0x.
\<close>

theorem logf_prints_format:
  assumes "length buf = 25" and "fmt_ok fmt as"
  shows "logf buf fmt as s = Inr (klog fmt as s)"
  unfolding klog_def by (rule logf_fmt [OF assms])

theorem logf_prints_format_witness:
  "logf (replicate 25 7) ''n=%u %x%%s'' [Num 305, Num 255, Str [65]] \<lparr>out = []\<rparr> =
     Inr (klog ''n=%u %x%%s'' [Num 305, Num 255, Str [65]] \<lparr>out = []\<rparr>)"
  by (rule logf_prints_format) simp_all

text \<open>
  C17: the decimal printer never leaves its 25-byte buffer, whatever the buffer held, and prints
  at most ten characters that read back as the number.
\<close>

theorem decimal_round_trip:
  assumes "length buf = 25"
  shows "\<exists>bs. print_serial_unsigned_decimal buf n s = Inr (emit bs s) \<and>
    parse_dec bs = unat n \<and> length bs \<le> 10"
  using print_serial_unsigned_decimal_ok [OF assms] parse_dec_bytes length_dec_bytes by blast

theorem decimal_round_trip_witness:
  "\<exists>bs. print_serial_unsigned_decimal (replicate 25 9) 4294967295 \<lparr>out = []\<rparr> =
     Inr (emit bs \<lparr>out = []\<rparr>) \<and> parse_dec bs = unat (4294967295 :: u32) \<and> length bs \<le> 10"
  by (rule decimal_round_trip) simp

text \<open>
  C18: the hexadecimal printer prints eight characters that read back as the number.
\<close>

theorem hexadecimal_round_trip:
  "\<exists>bs. print_serial_hex n s = emit bs s \<and> length bs = 8 \<and> parse_hex bs = unat n"
  using print_serial_hex_ok parse_hex_bytes length_hex_bytes by blast

text \<open>
  C19: a call of \<open>put_serial\<close> returns exactly when the line status register shows an empty
  transmitter at some later poll, and then it has written the byte once.
\<close>

theorem put_serial_returns_iff_ready:
  "(\<exists>m\<ge>k. is_transmit_empty (lsr m) \<noteq> 0) \<longleftrightarrow>
     (\<exists>m. put_serial_poll lsr k a s = Some (m, put_serial a s))"
proof
  assume "\<exists>m\<ge>k. is_transmit_empty (lsr m) \<noteq> 0"
  then obtain d where d: "is_transmit_empty (lsr (k + d)) \<noteq> 0" by (auto simp: le_iff_add)
  define e where "e = (LEAST d. is_transmit_empty (lsr (k + d)) \<noteq> 0)"
  have "is_transmit_empty (lsr (k + e)) \<noteq> 0" and "\<forall>i<e. is_transmit_empty (lsr (k + i)) = 0"
    using LeastI [of "\<lambda>d. is_transmit_empty (lsr (k + d)) \<noteq> 0", OF d] not_less_Least
    by (auto simp: e_def)
  then show "\<exists>m. put_serial_poll lsr k a s = Some (m, put_serial a s)"
    using put_serial_poll_ready by blast
qed (auto dest: put_serial_poll_stalled)

end
