(* ===== verification/Machine.thy ===== *)
theory Machine
  imports Logger
begin

text \<open>
  The memory the C code runs on: physical bytes, the two control registers that
  \<open>kernel/utility.asm\<close> writes, and accesses through the two-level page walk of the processor.
  The interpretation at the end makes it an instance of the memory interface of the string
  functions.
\<close>

unbundle bit_operations_syntax

section \<open>State\<close>

text \<open>
  The interrupt handlers the kernel registers are function pointers; these are the functions.
\<close>

datatype handler = Page_fault_handler | Timer_callback | Keyboard_handler

text \<open>
  The record holds what every component shares. The global variables of a component are the
  fields by which its theory extends the record, so that an operation defined for all
  extensions of a record leaves the variables of later components alone by its type.
\<close>

record machine =
  dev :: io
  phys :: "u32 \<Rightarrow> u8"
  cr0 :: u32
  cr3 :: u32
  interrupt_handlers :: "u8 \<Rightarrow> handler option"

definition load32 :: "(u32 \<Rightarrow> u8) \<Rightarrow> u32 \<Rightarrow> u32" where
  "load32 m a = ucast (m a) OR push_bit 8 (ucast (m (a + 1))) OR
     push_bit 16 (ucast (m (a + 2))) OR push_bit 24 (ucast (m (a + 3)))"

definition store32 :: "u32 \<Rightarrow> u32 \<Rightarrow> (u32 \<Rightarrow> u8) \<Rightarrow> (u32 \<Rightarrow> u8)" where
  "store32 a v m = m(a := ucast v, a + 1 := ucast (drop_bit 8 v),
     a + 2 := ucast (drop_bit 16 v), a + 3 := ucast (drop_bit 24 v))"

section \<open>Control registers\<close>

text \<open>\<open>load_page_directory\<close> moves its argument to CR3, \<open>enable_paging\<close> sets bit 31 of CR0.\<close>

definition load_page_directory :: "u32 \<Rightarrow> 'a machine_scheme \<Rightarrow> 'a machine_scheme" where
  "load_page_directory pd s = s\<lparr>cr3 := pd\<rparr>"

definition enable_paging :: "'a machine_scheme \<Rightarrow> 'a machine_scheme" where
  "enable_paging s = s\<lparr>cr0 := cr0 s OR 0x80000000\<rparr>"

section \<open>The page walk of the processor\<close>

text \<open>
  With paging on, bits 22 to 31 of the address select an entry of the directory CR3 points to,
  bits 12 to 21 an entry of the table that entry points to; both must have bit 0 set. The walk
  is the one of the processor's manual for 4 KB pages; supervisor code ignores the write bit.
\<close>

definition pde_addr :: "u32 \<Rightarrow> u32 \<Rightarrow> u32" where
  "pde_addr pd va = pd + 4 * drop_bit 22 va"

definition pte_addr :: "u32 \<Rightarrow> u32 \<Rightarrow> u32" where
  "pte_addr pde va = page_of pde + 4 * (drop_bit 12 va AND 0x3FF)"

definition walk :: "(u32 \<Rightarrow> u8) \<Rightarrow> u32 \<Rightarrow> u32 \<Rightarrow> u32 option" where
  "walk m pd va =
     (let pde = load32 m (pde_addr pd va) in
      if \<not> bit pde 0 then None
      else let pte = load32 m (pte_addr pde va) in
        if \<not> bit pte 0 then None else Some (page_of pte OR offset_of va))"

definition paging_on :: "'a machine_scheme \<Rightarrow> bool" where
  "paging_on s \<longleftrightarrow> bit (cr0 s) 31"

definition translate :: "'a machine_scheme \<Rightarrow> u32 \<Rightarrow> u32 option" where
  "translate s va = (if paging_on s then walk (phys s) (page_of (cr3 s)) va else Some va)"

section \<open>Accesses\<close>

definition vload8 :: "u32 \<Rightarrow> 'a machine_scheme \<Rightarrow> stop + u8" where
  "vload8 a s = (case translate s a of None \<Rightarrow> Inl (Page_fault a) | Some p \<Rightarrow> Inr (phys s p))"

definition vstore8 :: "u32 \<Rightarrow> u8 \<Rightarrow> 'a machine_scheme \<Rightarrow> stop + 'a machine_scheme" where
  "vstore8 a v s =
     (case translate s a of
        None \<Rightarrow> Inl (Page_fault a)
      | Some p \<Rightarrow> Inr (s\<lparr>phys := (phys s)(p := v)\<rparr>))"

text \<open>
  A word is read byte by byte, since it may cross a page. The words the kernel writes are
  aligned, hence within a page, and translated once.
\<close>

definition vload32 :: "u32 \<Rightarrow> 'a machine_scheme \<Rightarrow> stop + u32" where
  "vload32 a s =
     and_then (vload8 a s) (\<lambda>b0. and_then (vload8 (a + 1) s) (\<lambda>b1.
     and_then (vload8 (a + 2) s) (\<lambda>b2. and_then (vload8 (a + 3) s) (\<lambda>b3.
     Inr (ucast b0 OR push_bit 8 (ucast b1) OR push_bit 16 (ucast b2) OR push_bit 24 (ucast b3))))))"

definition vstore32 :: "u32 \<Rightarrow> u32 \<Rightarrow> 'a machine_scheme \<Rightarrow> stop + 'a machine_scheme" where
  "vstore32 a v s =
     (case translate s a of
        None \<Rightarrow> Inl (Page_fault a)
      | Some p \<Rightarrow> Inr (s\<lparr>phys := store32 p v (phys s)\<rparr>))"

definition mlog :: "string \<Rightarrow> arg list \<Rightarrow> 'a machine_scheme \<Rightarrow> 'a machine_scheme" where
  "mlog fmt as s = s\<lparr>dev := klog fmt as (dev s)\<rparr>"

lemma mlog_simps [simp]:
  "phys (mlog fmt as s) = phys s" "cr0 (mlog fmt as s) = cr0 s" "cr3 (mlog fmt as s) = cr3 s"
  "interrupt_handlers (mlog fmt as s) = interrupt_handlers s"
  "dev (mlog fmt as s) = klog fmt as (dev s)" "machine.more (mlog fmt as s) = machine.more s"
  by (simp_all add: mlog_def)

section \<open>Words in memory\<close>

lemma add_small_ne: "a + 1 \<noteq> a" "a + 2 \<noteq> a" "a + 3 \<noteq> a" "a + 2 \<noteq> a + 1" "a + 3 \<noteq> a + 1"
  "a + 3 \<noteq> a + 2" for a :: u32
  by simp_all

lemma bytes_of_word:
  "(ucast (ucast v :: u8) :: u32) OR push_bit 8 (ucast (ucast (drop_bit 8 v) :: u8)) OR
   push_bit 16 (ucast (ucast (drop_bit 16 v) :: u8)) OR
   push_bit 24 (ucast (ucast (drop_bit 24 v) :: u8)) = (v :: u32)"
proof (rule bit_eqI)
  fix n
  assume "possible_bit TYPE(u32) n"
  then have "n < 32" by simp
  then consider "n < 8" | "8 \<le> n" "n < 16" | "16 \<le> n" "n < 24" | "24 \<le> n" "n < 32" by linarith
  then show "bit ((ucast (ucast v :: u8) :: u32) OR push_bit 8 (ucast (ucast (drop_bit 8 v) :: u8)) OR
     push_bit 16 (ucast (ucast (drop_bit 16 v) :: u8)) OR
     push_bit 24 (ucast (ucast (drop_bit 24 v) :: u8))) n = bit v n"
    by cases (auto simp: bit_simps not_le not_less)
qed

lemma load_store32 [simp]: "load32 (store32 a v m) a = v"
  by (simp add: load32_def store32_def bytes_of_word)

lemma load32_cong:
  "m a = m' a \<Longrightarrow> m (a + 1) = m' (a + 1) \<Longrightarrow> m (a + 2) = m' (a + 2) \<Longrightarrow> m (a + 3) = m' (a + 3) \<Longrightarrow>
   load32 m a = load32 m' a"
  by (simp add: load32_def)

text \<open>Distinct aligned words do not overlap.\<close>

definition word_aligned :: "u32 \<Rightarrow> bool" where
  "word_aligned a \<longleftrightarrow> a AND 3 = 0"

lemma word_aligned_add:
  assumes "word_aligned a" and "k \<le> 3"
  shows "(a + k) AND NOT 3 = a"
proof -
  have "k AND 3 = k"
  proof -
    have "unat k < 2 ^ 2" using assms(2) by (simp add: word_le_nat_alt)
    then have "take_bit 2 k = k"
      by (simp add: word_unat_eq_iff unsigned_take_bit_eq take_bit_nat_eq_self)
    then show ?thesis by (simp add: take_bit_eq_mask mask_eq_exp_minus_1)
  qed
  then have "a AND k = (a AND 3) AND k" by (metis and.assoc and.commute)
  then have "a AND k = 0" using assms(1) by (simp add: word_aligned_def)
  then have "a + k = a OR k" by (rule disjunctive_add_eq_or)
  moreover have "k AND NOT 3 = 0" using \<open>k AND 3 = k\<close> by (metis and.assoc and.right_neutral bit.conj_cancel_right and_zero_eq)
  moreover have "a AND NOT 3 = a"
  proof -
    have "a = (a AND 3) OR (a AND NOT 3)" by (simp flip: bit.conj_disj_distrib)
    then show ?thesis using assms(1) by (simp add: word_aligned_def)
  qed
  ultimately show ?thesis by (simp add: bit.conj_disj_distrib2)
qed

lemma word_aligned_disjoint:
  "word_aligned a \<Longrightarrow> word_aligned b \<Longrightarrow> a \<noteq> b \<Longrightarrow> k \<le> 3 \<Longrightarrow> l \<le> 3 \<Longrightarrow> a + k \<noteq> b + l"
  using word_aligned_add by metis

lemma load_store32_other:
  assumes "word_aligned a" "word_aligned b" "a \<noteq> b"
  shows "load32 (store32 a v m) b = load32 m b"
proof -
  have "b + l \<noteq> a + k" if "k \<le> 3" "l \<le> 3" for k l
    using word_aligned_disjoint [of b a l k] assms that by metis
  from this [of 0 0] this [of 1 0] this [of 2 0] this [of 3 0]
    this [of 0 1] this [of 1 1] this [of 2 1] this [of 3 1]
    this [of 0 2] this [of 1 2] this [of 2 2] this [of 3 2]
    this [of 0 3] this [of 1 3] this [of 2 3] this [of 3 3]
  show ?thesis by (intro load32_cong) (simp_all add: store32_def)
qed

lemma load_upd_other:
  assumes "\<And>k. k \<le> 3 \<Longrightarrow> a + k \<noteq> p"
  shows "load32 (m(p := v)) a = load32 m a"
  using assms [of 0] assms [of 1] assms [of 2] assms [of 3] by (intro load32_cong) simp_all

section \<open>Page tables in memory\<close>

lemma unat_mult4: "i < 1024 \<Longrightarrow> unat (4 * i) = 4 * unat (i :: u32)"
  by (simp add: unat_word_ariths word_less_nat_alt)

lemma index_bound: "i < 1024 \<Longrightarrow> k \<le> 3 \<Longrightarrow> 4 * i + k \<le> (0xFFF :: u32)"
  using unat_mult4 [of i] by (simp add: word_le_nat_alt word_less_nat_alt unat_word_ariths(1))

lemma index_bound0: "i < 1024 \<Longrightarrow> 4 * i \<le> (0xFFF :: u32)"
  using index_bound [of i 0] by simp

lemma mult4_inj: "i < 1024 \<Longrightarrow> j < 1024 \<Longrightarrow> 4 * i = 4 * j \<longleftrightarrow> i = (j :: u32)"
  using unat_mult4 [of i] unat_mult4 [of j] by (auto simp: word_unat_eq_iff)

lemma entry_page: "page_aligned p \<Longrightarrow> i < 1024 \<Longrightarrow> k \<le> 3 \<Longrightarrow> page_of (p + 4 * i + k) = p"
  using page_of_add [OF _ index_bound, of p i k] by (simp add: add.assoc)

lemma entry_page0: "page_aligned p \<Longrightarrow> i < 1024 \<Longrightarrow> page_of (p + 4 * i) = p"
  using entry_page [of p i 0] by simp

lemma word_aligned_unat: "word_aligned a \<longleftrightarrow> unat a mod 4 = 0"
proof -
  have "unat (a AND 3) = unat a mod 4"
    using take_bit_eq_mask [of 2 "unat a"] by (simp add: unsigned_and_eq take_bit_eq_mod mask_eq_exp_minus_1)
  then show ?thesis by (simp add: word_aligned_def word_unat_eq_iff)
qed

lemma page_aligned_unat: "page_aligned a \<longleftrightarrow> unat a mod 4096 = 0"
  by (simp add: page_aligned_def word_unat_eq_iff unat_mod)

lemma entry_word_aligned: "page_aligned p \<Longrightarrow> word_aligned (p + 4 * i)"
proof -
  assume "page_aligned p"
  then have "unat p mod 4096 mod 4 = 0" by (simp add: page_aligned_unat)
  then have p: "unat p mod 4 = 0" by (simp add: mod_mod_cancel)
  have "unat (p + 4 * i) mod 4 = (unat p + 4 * unat i) mod 2 ^ 32 mod 4"
    by (simp add: unat_word_ariths mod_simps)
  also have "\<dots> = (unat p + 4 * unat i) mod 4" by (rule mod_mod_cancel) simp
  also have "\<dots> = 0" using p by (simp add: mod_add_eq [symmetric])
  finally show ?thesis by (simp add: word_aligned_unat)
qed

lemma entry_inj:
  "page_aligned p \<Longrightarrow> page_aligned q \<Longrightarrow> i < 1024 \<Longrightarrow> j < 1024 \<Longrightarrow>
   p + 4 * i = q + 4 * j \<longleftrightarrow> p = q \<and> i = j"
  using page_add_inj [of p q "4 * i" "4 * j"] mult4_inj [of i j] by (simp add: index_bound0)

lemma load_store_entry:
  "page_aligned p \<Longrightarrow> page_aligned q \<Longrightarrow> i < 1024 \<Longrightarrow> j < 1024 \<Longrightarrow>
   load32 (store32 (p + 4 * i) v m) (q + 4 * j) = (if p = q \<and> i = j then v else load32 m (q + 4 * j))"
  using entry_inj [of p q i j] by (auto simp: load_store32_other entry_word_aligned)

lemma pd_index_less [simp]: "drop_bit 22 va < (1024 :: u32)"
proof -
  have "unat (drop_bit 22 va) = unat va div 2 ^ 22" by (simp add: drop_bit_eq_div unat_div)
  also have "\<dots> < 1024" using unat_u32_bound [of va] by (simp add: less_mult_imp_div_less)
  finally show ?thesis by (simp add: word_less_nat_alt)
qed

lemma pt_index_less [simp]: "x AND 0x3FF < (1024 :: u32)"
  by (rule le_less_trans [OF word_and_le1]) simp

text \<open>The pages that hold the directory and the tables its present entries point to.\<close>

definition table_pages :: "(u32 \<Rightarrow> u8) \<Rightarrow> u32 \<Rightarrow> u32 set" where
  "table_pages m pd = insert pd
     {page_of (load32 m (pd + 4 * i)) | i. i < 1024 \<and> bit (load32 m (pd + 4 * i)) 0}"

text \<open>The walk reads nothing else.\<close>

lemma load32_agree:
  assumes "\<And>a. page_of a \<in> T \<Longrightarrow> m' a = m a" and "page_aligned p" and "p \<in> T" and "i < 1024"
  shows "load32 m' (p + 4 * i) = load32 m (p + 4 * i)"
proof -
  have "m' (p + 4 * i + k) = m (p + 4 * i + k)" if "k \<le> 3" for k
    using assms(1) [of "p + 4 * i + k"] entry_page [OF assms(2,4) that] assms(3) by simp
  from this [of 0] this [of 1] this [of 2] this [of 3] show ?thesis
    by (intro load32_cong) simp_all
qed

lemma table_pages_agree:
  assumes "page_aligned pd" and "\<And>a. page_of a \<in> table_pages m pd \<Longrightarrow> m' a = m a"
  shows "table_pages m' pd = table_pages m pd"
proof -
  have "load32 m' (pd + 4 * i) = load32 m (pd + 4 * i)" if "i < 1024" for i
    by (rule load32_agree [where T = "table_pages m pd", OF assms(2,1) _ that])
      (simp_all add: table_pages_def)
  then show ?thesis unfolding table_pages_def by (metis (no_types, lifting))
qed

lemma walk_agree:
  assumes "page_aligned pd" and "\<And>a. page_of a \<in> table_pages m pd \<Longrightarrow> m' a = m a"
  shows "walk m' pd va = walk m pd va"
proof -
  define pde where "pde = load32 m (pde_addr pd va)"
  have 1: "load32 m' (pde_addr pd va) = pde"
    unfolding pde_def pde_addr_def
    by (rule load32_agree [where T = "table_pages m pd", OF assms(2,1)]) (simp_all add: table_pages_def)
  have 2: "load32 m' (pte_addr pde va) = load32 m (pte_addr pde va)" if "bit pde 0"
  proof -
    have "page_of pde \<in> table_pages m pd"
      using that unfolding table_pages_def pde_def pde_addr_def
      by (intro insertI2 CollectI exI [of _ "drop_bit 22 va"]) simp
    then show ?thesis
      unfolding pte_addr_def
      by (intro load32_agree [where T = "table_pages m pd", OF assms(2)]) simp_all
  qed
  show ?thesis
    using 1 2 by (simp add: walk_def Let_def flip: pde_def)
qed

section \<open>Regions of ordinary memory\<close>

text \<open>
  On the region \<open>D\<close> the machine behaves as plain memory: every address translates, no two to
  the same physical byte, and none to a byte the page walk reads.
\<close>

definition flat :: "u32 set \<Rightarrow> 'a machine_scheme \<Rightarrow> bool" where
  "flat D s \<longleftrightarrow> (\<forall>a\<in>D. translate s a \<noteq> None) \<and> inj_on (translate s) D \<and>
     (paging_on s \<longrightarrow> (\<forall>a\<in>D. page_of (the (translate s a)) \<notin> table_pages (phys s) (page_of (cr3 s))))"

definition vview :: "'a machine_scheme \<Rightarrow> u32 \<Rightarrow> u8" where
  "vview s a = phys s (the (translate s a))"

text \<open>What stores into \<open>D\<close> leave alone.\<close>

definition same_but :: "u32 set \<Rightarrow> 'a machine_scheme \<Rightarrow> 'a machine_scheme \<Rightarrow> bool" where
  "same_but D s s' \<longleftrightarrow> s' = s\<lparr>phys := phys s'\<rparr> \<and> translate s' = translate s \<and>
     (\<forall>p. (\<forall>a\<in>D. translate s a \<noteq> Some p) \<longrightarrow> phys s' p = phys s p)"

lemma translate_store:
  assumes "paging_on s \<longrightarrow> page_of p \<notin> table_pages (phys s) (page_of (cr3 s))"
  shows "translate (s\<lparr>phys := (phys s)(p := v)\<rparr>) = translate s"
    and "paging_on s \<Longrightarrow> table_pages ((phys s)(p := v)) (page_of (cr3 s)) = table_pages (phys s) (page_of (cr3 s))"
proof -
  have "walk ((phys s)(p := v)) (page_of (cr3 s)) va = walk (phys s) (page_of (cr3 s)) va"
    if "paging_on s" for va using assms that by (intro walk_agree) auto
  then show "translate (s\<lparr>phys := (phys s)(p := v)\<rparr>) = translate s"
    by (auto simp: translate_def paging_on_def fun_eq_iff)
  show "table_pages ((phys s)(p := v)) (page_of (cr3 s)) = table_pages (phys s) (page_of (cr3 s))"
    if "paging_on s" using assms that by (intro table_pages_agree) auto
qed

lemma flat_store:
  assumes "flat D s" and "a \<in> D"
  shows "\<exists>s'. vstore8 a v s = Inr s' \<and> flat D s' \<and> same_but D s s' \<and>
    (\<forall>b\<in>D. vview s' b = (if b = a then v else vview s b))"
proof -
  obtain p where p: "translate s a = Some p" using assms by (auto simp: flat_def)
  define s' where "s' = s\<lparr>phys := (phys s)(p := v)\<rparr>"
  have safe: "paging_on s \<longrightarrow> page_of p \<notin> table_pages (phys s) (page_of (cr3 s))"
    using assms p by (auto simp: flat_def)
  have tr: "translate s' = translate s" unfolding s'_def by (rule translate_store(1) [OF safe])
  have "flat D s'"
    using assms(1) translate_store(2) [OF safe] unfolding flat_def tr
    by (auto simp: s'_def paging_on_def)
  moreover have "same_but D s s'"
    using p assms(2) tr by (auto simp: same_but_def s'_def)
  moreover have "vview s' b = (if b = a then v else vview s b)" if b: "b \<in> D" for b
  proof -
    have "translate s b = Some p \<longleftrightarrow> b = a"
      using assms b p unfolding flat_def inj_on_def by metis
    moreover obtain q where "translate s b = Some q" using assms(1) b by (auto simp: flat_def)
    ultimately show ?thesis using p by (auto simp: vview_def tr) (auto simp: s'_def)
  qed
  ultimately show ?thesis using p by (auto simp: vstore8_def s'_def)
qed

lemma same_but_trans: "same_but D s s' \<Longrightarrow> same_but D s' s'' \<Longrightarrow> same_but D s s''"
proof -
  assume 1: "same_but D s s'" and 2: "same_but D s' s''"
  have "s'' = s'\<lparr>phys := phys s''\<rparr>" using 2 by (simp add: same_but_def)
  also have "\<dots> = s\<lparr>phys := phys s'\<rparr>\<lparr>phys := phys s''\<rparr>" using 1 by (simp add: same_but_def)
  finally have "s'' = s\<lparr>phys := phys s''\<rparr>" by simp
  with 1 2 show "same_but D s s''" unfolding same_but_def by simp
qed

interpretation vm: byte_memory vload8 vstore8 D "flat D" vview "same_but D" for D
proof
  fix s a v
  assume s: "flat D s" and a: "a \<in> D"
  then show "vload8 a s = Inr (vview s a)" by (auto simp: flat_def vload8_def vview_def)
  show "\<exists>s'. vstore8 a v s = Inr s' \<and> flat D s' \<and> same_but D s s' \<and>
      (\<forall>b\<in>D. vview s' b = (if b = a then v else vview s b))"
    by (rule flat_store [OF s a])
next
  show "same_but D s s" for s by (simp add: same_but_def)
  show "same_but D s s' \<Longrightarrow> same_but D s' s'' \<Longrightarrow> same_but D s s''" for s s' s''
    by (rule same_but_trans)
qed

text \<open>With paging off, the whole address space is one flat region.\<close>

lemma translate_off: "\<not> paging_on s \<Longrightarrow> translate s a = Some a"
  by (simp add: translate_def)

lemma flat_off: "\<not> paging_on s \<Longrightarrow> flat D s"
  by (auto simp: flat_def translate_off inj_on_def)

lemma vview_off: "\<not> paging_on s \<Longrightarrow> vview s = phys s"
  by (simp add: vview_def translate_off fun_eq_iff)

end
