(* ===== verification/Page_Walk.thy ===== *)
theory Page_Walk
  imports Machine
begin

text \<open>
  How the page walk changes when an entry is written, and accesses at addresses that translate
  to themselves. The memory manager writes no table in any other way.
\<close>

unbundle bit_operations_syntax

section \<open>Indices of an address\<close>

lemma page_of_shift: "page_of a = push_bit 12 (drop_bit 12 a)"
proof -
  have m: "(0xFFFFF000 :: u32) = NOT (mask 12)" by (simp add: mask_eq_exp_minus_1)
  show ?thesis
    unfolding page_of_def m by (intro bit_eqI) (auto simp: bit_simps)
qed

lemma page_eq_shift: "page_of a = page_of b \<longleftrightarrow> drop_bit 12 a = drop_bit 12 b"
proof
  assume "page_of a = page_of b"
  then have "drop_bit 12 (push_bit 12 (drop_bit 12 a)) = drop_bit 12 (push_bit 12 (drop_bit 12 b))"
    by (simp only: page_of_shift)
  moreover have "drop_bit 12 (push_bit 12 (drop_bit 12 x)) = drop_bit 12 x" for x :: u32
    by (intro bit_eqI) (auto simp: bit_simps dest: bit_imp_le_length)
  ultimately show "drop_bit 12 a = drop_bit 12 b" by simp
qed (simp add: page_of_shift)

lemma page_eq_iff_indices:
  "page_of a = page_of b \<longleftrightarrow>
     drop_bit 22 a = drop_bit 22 b \<and> drop_bit 12 a AND 0x3FF = drop_bit 12 b AND 0x3FF"
proof -
  have t: "x AND 0x3FF = take_bit 10 x" for x :: u32
    by (simp add: take_bit_eq_mask mask_eq_exp_minus_1)
  have d: "drop_bit 22 x = drop_bit 10 (drop_bit 12 x)" for x :: u32
    by (simp add: drop_bit_drop_bit)
  have "x = y" if "drop_bit 10 x = drop_bit 10 y" "take_bit 10 x = take_bit 10 y" for x y :: u32
    using that bits_ident [of 10 x] bits_ident [of 10 y] by metis
  then show ?thesis unfolding page_eq_shift t d by metis
qed

section \<open>Writing entries\<close>

lemma walk_set_pte:
  assumes "page_aligned pd" "page_aligned pt" "pt \<noteq> pd" "idx < 1024"
  shows "walk (store32 (pt + 4 * idx) v m) pd va =
    (let pde = load32 m (pde_addr pd va) in
     if bit pde 0 \<and> page_of pde = pt \<and> drop_bit 12 va AND 0x3FF = idx
     then (if bit v 0 then Some (page_of v OR offset_of va) else None)
     else walk m pd va)"
proof -
  let ?m = "store32 (pt + 4 * idx) v m"
  have 1: "load32 ?m (pde_addr pd va) = load32 m (pde_addr pd va)"
    unfolding pde_addr_def using assms by (simp add: load_store_entry)
  have 2: "load32 ?m (pte_addr pde va) =
      (if page_of pde = pt \<and> drop_bit 12 va AND 0x3FF = idx then v else load32 m (pte_addr pde va))" for pde
    unfolding pte_addr_def using assms by (auto simp: load_store_entry)
  show ?thesis unfolding walk_def Let_def 1 2 by auto
qed

text \<open>No present entry of the directory points back to the directory.\<close>

definition clean_dir :: "(u32 \<Rightarrow> u8) \<Rightarrow> u32 \<Rightarrow> bool" where
  "clean_dir m pd \<longleftrightarrow> page_aligned pd \<and>
     (\<forall>i<1024. bit (load32 m (pd + 4 * i)) 0 \<longrightarrow> page_of (load32 m (pd + 4 * i)) \<noteq> pd)"

lemma walk_set_pde:
  assumes "clean_dir m pd" "i < 1024" "page_of v \<noteq> pd"
  shows "walk (store32 (pd + 4 * i) v m) pd va =
    (if drop_bit 22 va = i
     then (if \<not> bit v 0 then None
           else let pte = load32 m (pte_addr v va) in
             if \<not> bit pte 0 then None else Some (page_of pte OR offset_of va))
     else walk m pd va)"
proof -
  let ?m = "store32 (pd + 4 * i) v m"
  have pd: "page_aligned pd" using assms(1) by (simp add: clean_dir_def)
  have 1: "load32 ?m (pde_addr pd va) = (if drop_bit 22 va = i then v else load32 m (pde_addr pd va))"
    unfolding pde_addr_def using pd assms(2) by (auto simp: load_store_entry)
  have 2: "load32 ?m (pte_addr pde va) = load32 m (pte_addr pde va)" if "page_of pde \<noteq> pd" for pde
    unfolding pte_addr_def using pd assms(2) that by (simp add: load_store_entry)
  show ?thesis
  proof (cases "drop_bit 22 va = i")
    case True
    then show ?thesis using 1 2 [OF assms(3)] by (simp add: walk_def Let_def)
  next
    case False
    then have "page_of (load32 m (pde_addr pd va)) \<noteq> pd" if "bit (load32 m (pde_addr pd va)) 0"
      using assms(1) that by (simp add: clean_dir_def pde_addr_def)
    then show ?thesis using False 1 2 by (simp add: walk_def Let_def)
  qed
qed

lemma clean_dir_set_pte:
  assumes "clean_dir m pd" "page_aligned pt" "pt \<noteq> pd" "idx < 1024"
  shows "clean_dir (store32 (pt + 4 * idx) v m) pd"
  using assms by (auto simp: clean_dir_def load_store_entry)

lemma clean_dir_set_pde:
  assumes "clean_dir m pd" "i < 1024" "bit v 0 \<longrightarrow> page_of v \<noteq> pd"
  shows "clean_dir (store32 (pd + 4 * i) v m) pd"
  using assms by (auto simp: clean_dir_def load_store_entry)

text \<open>A store outside the page of the directory does not change its entries.\<close>

lemma load32_entry_store:
  assumes "page_aligned p" "i < 1024" "\<And>k. k \<le> 3 \<Longrightarrow> page_of (a + k) \<noteq> p"
  shows "load32 (store32 a v m) (p + 4 * i) = load32 m (p + 4 * i)"
proof -
  have "p + 4 * i + l \<noteq> a + k" if "l \<le> 3" "k \<le> 3" for l k
    using entry_page [OF assms(1,2) that(1)] assms(3) [OF that(2)] by auto
  from this [of 0 0] this [of 1 0] this [of 2 0] this [of 3 0]
    this [of 0 1] this [of 1 1] this [of 2 1] this [of 3 1]
    this [of 0 2] this [of 1 2] this [of 2 2] this [of 3 2]
    this [of 0 3] this [of 1 3] this [of 2 3] this [of 3 3]
  show ?thesis by (intro load32_cong) (simp_all add: store32_def)
qed

lemma store32_elsewhere:
  assumes "\<And>k. k \<le> 3 \<Longrightarrow> b \<noteq> a + k"
  shows "store32 a v m b = m b"
  using assms [of 0] assms [of 1] assms [of 2] assms [of 3] by (simp add: store32_def)

section \<open>Addresses that translate to themselves\<close>

definition ident_pages :: "u32 set \<Rightarrow> 'a machine_scheme \<Rightarrow> bool" where
  "ident_pages P s \<longleftrightarrow> (\<forall>a. page_of a \<in> P \<longrightarrow> translate s a = Some a)"

lemma ident_pages_off: "\<not> paging_on s \<Longrightarrow> ident_pages P s"
  by (simp add: ident_pages_def translate_off)

lemma ident_pages_mono: "ident_pages P s \<Longrightarrow> Q \<subseteq> P \<Longrightarrow> ident_pages Q s"
  by (auto simp: ident_pages_def)

lemma vload32_ident:
  assumes "\<And>k. k \<le> 3 \<Longrightarrow> translate s (a + k) = Some (a + k)"
  shows "vload32 a s = Inr (load32 (phys s) a)"
  using assms [of 0] assms [of 1] assms [of 2] assms [of 3]
  by (simp add: vload32_def vload8_def load32_def)

lemma vstore32_ident:
  "translate s a = Some a \<Longrightarrow> vstore32 a v s = Inr (s\<lparr>phys := store32 a v (phys s)\<rparr>)"
  by (simp add: vstore32_def)

lemma vload32_entry:
  "ident_pages P s \<Longrightarrow> page_aligned p \<Longrightarrow> p \<in> P \<Longrightarrow> i < 1024 \<Longrightarrow>
   vload32 (p + 4 * i) s = Inr (load32 (phys s) (p + 4 * i))"
  by (rule vload32_ident) (simp add: ident_pages_def entry_page)

lemma vstore32_entry:
  "ident_pages P s \<Longrightarrow> page_aligned p \<Longrightarrow> p \<in> P \<Longrightarrow> i < 1024 \<Longrightarrow>
   vstore32 (p + 4 * i) v s = Inr (s\<lparr>phys := store32 (p + 4 * i) v (phys s)\<rparr>)"
  by (rule vstore32_ident) (simp add: ident_pages_def entry_page0)

text \<open>The log has no part in address translation.\<close>

lemma translate_cong:
  "phys s = phys s' \<Longrightarrow> cr0 s = cr0 s' \<Longrightarrow> cr3 s = cr3 s' \<Longrightarrow> translate s = translate s'"
  by (intro ext) (simp add: translate_def paging_on_def)

lemma translate_mlog [simp]: "translate (mlog fmt as s) = translate s"
  by (rule translate_cong) simp_all

lemma paging_on_mlog [simp]: "paging_on (mlog fmt as s) = paging_on s"
  by (simp add: paging_on_def)

lemma ident_pages_mlog [simp]: "ident_pages P (mlog fmt as s) = ident_pages P s"
  by (simp add: ident_pages_def)

lemma vload_mlog [simp]: "vload8 a (mlog fmt as s) = vload8 a s" "vload32 a (mlog fmt as s) = vload32 a s"
proof -
  show 8: "vload8 a (mlog fmt as s) = vload8 a s" for a by (simp add: vload8_def split: option.split)
  show "vload32 a (mlog fmt as s) = vload32 a s" by (simp add: vload32_def 8)
qed

end
