(* ===== verification/Bitmap.thy ===== *)
theory Bitmap
  imports Page_Walk
begin

text \<open>
  The bitmap search of the page frame and page table allocators of \<open>kernel/memory.c\<close>, and the
  allocator of indices it implements: the least free index, marked as used.
\<close>

unbundle bit_operations_syntax

section \<open>What memory operations leave alone\<close>

text \<open>
  The operations below the heap change memory and the log, nothing else.
\<close>

definition mem_only :: "'a machine_scheme \<Rightarrow> 'a machine_scheme \<Rightarrow> bool" where
  "mem_only s s' \<longleftrightarrow> s' = s\<lparr>dev := dev s', phys := phys s'\<rparr>"

lemma mem_only_refl [simp]: "mem_only s s"
  by (simp add: mem_only_def)

lemma mem_only_trans: "mem_only s s' \<Longrightarrow> mem_only s' s'' \<Longrightarrow> mem_only s s''"
proof -
  assume 1: "mem_only s s'" and 2: "mem_only s' s''"
  have "s'' = s'\<lparr>dev := dev s'', phys := phys s''\<rparr>" using 2 by (simp add: mem_only_def)
  also have "\<dots> = s\<lparr>dev := dev s', phys := phys s'\<rparr>\<lparr>dev := dev s'', phys := phys s''\<rparr>"
    using 1 by (simp add: mem_only_def)
  finally show "mem_only s s''" by (simp add: mem_only_def)
qed

lemma mem_only_upd [simp]: "mem_only s (s\<lparr>phys := m\<rparr>)" "mem_only s (mlog fmt as s)"
  by (simp_all add: mem_only_def mlog_def)

lemma mem_only_mlog [simp]: "mem_only (mlog fmt as s) s' \<longleftrightarrow> mem_only s s'"
  by (simp add: mem_only_def mlog_def)

lemma mem_only_same:
  assumes "mem_only s s'"
  shows "cr0 s' = cr0 s" "cr3 s' = cr3 s" "interrupt_handlers s' = interrupt_handlers s"
    "machine.more s' = machine.more s"
  by (subst assms [unfolded mem_only_def], simp)+

section \<open>Bitmap search\<close>

text \<open>
  Both allocators search their bitmap in the same two loops: the first word that is not full,
  in it the first clear bit, which they set. They differ in the array and in that the frame
  allocator logs each word it looks at (\<open>look\<close>).
\<close>

fun scan_word :: "nat \<Rightarrow> u32 \<Rightarrow> nat \<Rightarrow> nat option" where
  "scan_word 0 w j = None"
| "scan_word (Suc k) w j = (if w AND push_bit j 1 = 0 then Some j else scan_word k w (Suc j))"

fun bitmap_scan :: "u32 \<Rightarrow> (nat \<Rightarrow> u32 \<Rightarrow> 'a machine_scheme \<Rightarrow> 'a machine_scheme) \<Rightarrow> nat \<Rightarrow> nat \<Rightarrow>
    'a machine_scheme \<Rightarrow> stop + nat option \<times> 'a machine_scheme" where
  "bitmap_scan bitmap look 0 i s = Inr (None, s)"
| "bitmap_scan bitmap look (Suc k) i s =
     and_then (vload32 (bitmap + 4 * word_of_nat i) s) (\<lambda>w.
       let s = look i w s in
       if w \<noteq> 0xFFFFFFFF
       then (case scan_word 32 w 0 of
           Some j \<Rightarrow> and_then (vstore32 (bitmap + 4 * word_of_nat i) (w OR push_bit j 1) s)
             (\<lambda>s. Inr (Some (i * 32 + j), s))
         | None \<Rightarrow> Inr (None, s))
       else bitmap_scan bitmap look k (Suc i) s)"

lemma scan_word_Some:
  "scan_word k w j = Some r \<Longrightarrow> j + k \<le> 32 \<Longrightarrow>
   j \<le> r \<and> r < j + k \<and> \<not> bit w r \<and> (\<forall>l. j \<le> l \<and> l < r \<longrightarrow> bit w l)"
proof (induction k arbitrary: j)
  case (Suc k)
  show ?case
  proof (cases "bit w j")
    case True
    with Suc.prems have "scan_word k w (Suc j) = Some r"
      by (auto simp: push_bit_eq_mult and_exp_eq_0_iff_not_bit split: if_splits)
    from Suc.IH [OF this] Suc.prems(2)
    have ih: "Suc j \<le> r" "r < Suc j + k" "\<not> bit w r" "\<forall>l. Suc j \<le> l \<and> l < r \<longrightarrow> bit w l" by auto
    have "bit w l" if "j \<le> l" "l < r" for l
      using ih(4) True that by (cases "l = j") auto
    with ih(1-3) show ?thesis by auto
  next
    case False
    with Suc.prems show ?thesis
      by (auto simp: push_bit_eq_mult and_exp_eq_0_iff_not_bit split: if_splits)
  qed
qed simp

lemma scan_word_None:
  "scan_word k w j = None \<Longrightarrow> j \<le> l \<Longrightarrow> l < j + k \<Longrightarrow> bit w l"
proof (induction k arbitrary: j)
  case (Suc k)
  then have "bit w j" "scan_word k w (Suc j) = None"
    by (auto simp: push_bit_eq_mult and_exp_eq_0_iff_not_bit split: if_splits)
  with Suc show ?case by (cases "l = j") auto
qed simp

lemma full_word_iff: "w = (0xFFFFFFFF :: u32) \<longleftrightarrow> (\<forall>l<32. bit w l)"
proof -
  have "(0xFFFFFFFF :: u32) = - 1" by simp
  then show ?thesis
    by (auto simp only: bit_eq_iff possible_bit_word bit_minus_1_iff) simp_all
qed

section \<open>The bitmap in memory\<close>

definition bitmap_word :: "(u32 \<Rightarrow> u8) \<Rightarrow> u32 \<Rightarrow> nat \<Rightarrow> u32" where
  "bitmap_word m base i = load32 m (base + 4 * word_of_nat i)"

definition bitmap_bit :: "(u32 \<Rightarrow> u8) \<Rightarrow> u32 \<Rightarrow> nat \<Rightarrow> bool" where
  "bitmap_bit m base k = bit (bitmap_word m base (k div 32)) (k mod 32)"

definition used :: "(u32 \<Rightarrow> u8) \<Rightarrow> u32 \<Rightarrow> nat \<Rightarrow> nat set" where
  "used m base n = {k. k < 32 * n \<and> bitmap_bit m base k}"

definition mark :: "(u32 \<Rightarrow> u8) \<Rightarrow> u32 \<Rightarrow> nat \<Rightarrow> (u32 \<Rightarrow> u8)" where
  "mark m base r = store32 (base + 4 * word_of_nat (r div 32))
     (bitmap_word m base (r div 32) OR push_bit (r mod 32) 1) m"

text \<open>The words of the bitmap translate to themselves and are no page table.\<close>

definition bitmap_ok :: "u32 \<Rightarrow> nat \<Rightarrow> 'a machine_scheme \<Rightarrow> bool" where
  "bitmap_ok base n s \<longleftrightarrow> word_aligned base \<and> n \<le> 2 ^ 28 \<and>
     (\<forall>i<n. \<forall>k\<le>3. translate s (base + 4 * word_of_nat i + k) = Some (base + 4 * word_of_nat i + k) \<and>
        (paging_on s \<longrightarrow> page_of (base + 4 * word_of_nat i + k) \<notin> table_pages (phys s) (page_of (cr3 s))))"

lemma bitmap_ok_cong:
  "phys s = phys s' \<Longrightarrow> cr0 s = cr0 s' \<Longrightarrow> cr3 s = cr3 s' \<Longrightarrow> bitmap_ok base n s = bitmap_ok base n s'"
  using translate_cong [of s s'] by (simp add: bitmap_ok_def paging_on_def)

lemma bitmap_addr_inj:
  "i < n \<Longrightarrow> j < n \<Longrightarrow> n \<le> 2 ^ 28 \<Longrightarrow> base + 4 * word_of_nat i = base + 4 * (word_of_nat j :: u32) \<longleftrightarrow> i = j"
proof -
  assume "i < n" "j < n" "n \<le> 2 ^ 28"
  then have "unat (4 * word_of_nat i :: u32) = 4 * i" "unat (4 * word_of_nat j :: u32) = 4 * j"
    by (simp_all add: unat_word_ariths unat_of_nat)
  then show ?thesis by (metis add_left_cancel mult_cancel1 zero_neq_numeral)
qed

lemma bitmap_addr_aligned: "word_aligned base \<Longrightarrow> word_aligned (base + 4 * i)"
proof -
  assume b: "word_aligned base"
  have "unat (base + 4 * i) mod 4 = (unat base + 4 * unat i) mod 2 ^ 32 mod 4"
    by (simp add: unat_word_ariths mod_simps)
  also have "\<dots> = (unat base + 4 * unat i) mod 4" by (rule mod_mod_cancel) simp
  also have "\<dots> = unat base mod 4" by simp
  finally show ?thesis using b by (simp add: word_aligned_unat)
qed

lemma bitmap_word_mark:
  assumes "word_aligned base" "n \<le> 2 ^ 28" "r < 32 * n" "i < n"
  shows "bitmap_word (mark m base r) base i =
    (if i = r div 32 then bitmap_word m base i OR push_bit (r mod 32) 1 else bitmap_word m base i)"
proof -
  have r: "r div 32 < n" using assms(3) by (simp add: less_mult_imp_div_less mult.commute)
  show ?thesis
    using bitmap_addr_inj [OF r assms(4,2), of base] assms(1)
    by (auto simp: bitmap_word_def mark_def load_store32_other bitmap_addr_aligned)
qed

lemma used_mark:
  assumes "word_aligned base" "n \<le> 2 ^ 28" "r < 32 * n"
  shows "used (mark m base r) base n = insert r (used m base n)"
proof -
  have "bitmap_bit (mark m base r) base k \<longleftrightarrow> k = r \<or> bitmap_bit m base k" if k: "k < 32 * n" for k
  proof -
    have "k div 32 < n" using k by (simp add: less_mult_imp_div_less mult.commute)
    moreover have "k = r \<longleftrightarrow> k div 32 = r div 32 \<and> k mod 32 = r mod 32"
      by (metis div_mult_mod_eq)
    ultimately show ?thesis
      using bitmap_word_mark [OF assms, of "k div 32"]
      by (auto simp: bitmap_bit_def bit_or_iff bit_exp_iff push_bit_eq_mult)
  qed
  then show ?thesis using assms(3) by (auto simp: used_def)
qed

section \<open>The search\<close>

lemma word_full_bits:
  "bitmap_word m base i = 0xFFFFFFFF \<longleftrightarrow> (\<forall>l. 32 * i \<le> l \<and> l < 32 * Suc i \<longrightarrow> bitmap_bit m base l)"
proof -
  have dm: "(32 * i + l) div 32 = i" "(32 * i + l) mod 32 = l" if "l < 32" for l using that by simp_all
  have "(\<forall>l<32. bit (bitmap_word m base i) l) \<longleftrightarrow>
      (\<forall>l. 32 * i \<le> l \<and> l < 32 * Suc i \<longrightarrow> bitmap_bit m base l)" (is "?L \<longleftrightarrow> ?R")
  proof
    assume L: ?L
    have "bitmap_bit m base l" if "32 * i \<le> l" "l < 32 * Suc i" for l
    proof -
      have "l div 32 = i" using that by (simp add: div_nat_eqI)
      then show ?thesis using L by (simp add: bitmap_bit_def)
    qed
    then show ?R by blast
  next
    assume R: ?R
    have "bit (bitmap_word m base i) l" if "l < 32" for l
      using R dm [OF that] that by (auto simp: bitmap_bit_def dest!: spec [of _ "32 * i + l"])
    then show ?L by blast
  qed
  then show ?thesis by (simp add: full_word_iff)
qed

lemma bitmap_scan_step:
  assumes "bitmap_ok base n s" and "i < n"
  shows "vload32 (base + 4 * word_of_nat i) s = Inr (bitmap_word (phys s) base i)"
    and "vstore32 (base + 4 * word_of_nat i) v s =
      Inr (s\<lparr>phys := store32 (base + 4 * word_of_nat i) v (phys s)\<rparr>)"
proof -
  have tr: "translate s (base + 4 * word_of_nat i + k) = Some (base + 4 * word_of_nat i + k)"
    if "k \<le> 3" for k using assms that by (auto simp: bitmap_ok_def)
  show "vload32 (base + 4 * word_of_nat i) s = Inr (bitmap_word (phys s) base i)"
    unfolding bitmap_word_def by (rule vload32_ident) (rule tr)
  show "vstore32 (base + 4 * word_of_nat i) v s =
      Inr (s\<lparr>phys := store32 (base + 4 * word_of_nat i) v (phys s)\<rparr>)"
    using tr [of 0] by (intro vstore32_ident) simp
qed

lemma bitmap_scan_free:
  assumes look: "\<And>i w s. \<exists>d. look i w s = s\<lparr>dev := d\<rparr>"
  shows "bitmap_ok base n s \<Longrightarrow> i + k = n \<Longrightarrow> 32 * i \<le> r \<Longrightarrow> r < 32 * n \<Longrightarrow>
    \<not> bitmap_bit (phys s) base r \<Longrightarrow> \<forall>l. 32 * i \<le> l \<and> l < r \<longrightarrow> bitmap_bit (phys s) base l \<Longrightarrow>
    \<exists>d. bitmap_scan base look k i s = Inr (Some r, s\<lparr>dev := d, phys := mark (phys s) base r\<rparr>)"
proof (induction k arbitrary: i s)
  case 0
  then show ?case by simp
next
  case (Suc k)
  have i: "i < n" using Suc.prems(2) by simp
  define w where "w = bitmap_word (phys s) base i"
  obtain d where d: "look i w s = s\<lparr>dev := d\<rparr>" using look by blast
  have ok: "bitmap_ok base n (s\<lparr>dev := d\<rparr>)"
    using Suc.prems(1) bitmap_ok_cong [of s "s\<lparr>dev := d\<rparr>"] by simp
  note acc = bitmap_scan_step(1) [OF Suc.prems(1) i] bitmap_scan_step(2) [OF ok i]
  show ?case
  proof (cases "w = 0xFFFFFFFF")
    case True
    then have "\<forall>l. 32 * i \<le> l \<and> l < 32 * Suc i \<longrightarrow> bitmap_bit (phys s) base l"
      unfolding w_def by (simp only: word_full_bits)
    then have "32 * Suc i \<le> r" using Suc.prems(3,5) by (meson not_le)
    then obtain d' where "bitmap_scan base look k (Suc i) (s\<lparr>dev := d\<rparr>) =
        Inr (Some r, s\<lparr>dev := d\<rparr>\<lparr>dev := d', phys := mark (phys (s\<lparr>dev := d\<rparr>)) base r\<rparr>)"
      using Suc.IH [OF ok, of "Suc i"] Suc.prems(2,4-6) by fastforce
    then show ?thesis using True d acc(1) by (simp flip: w_def) blast
  next
    case False
    obtain j where j: "scan_word 32 w 0 = Some j"
      using False scan_word_None [of 32 w 0] by (cases "scan_word 32 w 0") (auto simp: full_word_iff)
    from scan_word_Some [OF j] have jj: "j < 32" "\<not> bit w j" "\<forall>l<j. bit w l" by auto
    have bits: "bitmap_bit (phys s) base (32 * i + l) \<longleftrightarrow> bit w l" if "l < 32" for l
      using that by (simp add: bitmap_bit_def w_def)
    have "r = 32 * i + j"
    proof (rule antisym)
      show "r \<le> 32 * i + j"
        using Suc.prems(6) bits [OF jj(1)] jj(2) by (metis le_add1 not_le)
      show "32 * i + j \<le> r"
      proof (rule ccontr)
        assume "\<not> 32 * i + j \<le> r"
        then obtain l where "r = 32 * i + l" "l < j"
          using Suc.prems(3) by (metis add_less_cancel_left le_Suc_ex not_le)
        with bits [of l] jj Suc.prems(5) show False by simp
      qed
    qed
    then show ?thesis
      using False d j jj(1) acc by (simp add: mark_def flip: w_def) (metis mult.commute)
  qed
qed

lemma bitmap_scan_full:
  assumes look: "\<And>i w s. \<exists>d. look i w s = s\<lparr>dev := d\<rparr>"
  shows "bitmap_ok base n s \<Longrightarrow> i + k = n \<Longrightarrow>
    \<forall>l. 32 * i \<le> l \<and> l < 32 * n \<longrightarrow> bitmap_bit (phys s) base l \<Longrightarrow>
    \<exists>d. bitmap_scan base look k i s = Inr (None, s\<lparr>dev := d\<rparr>)"
proof (induction k arbitrary: i s)
  case 0
  have "s = s\<lparr>dev := dev s\<rparr>" by simp
  then show ?case by (metis bitmap_scan.simps(1))
next
  case (Suc k)
  have i: "i < n" using Suc.prems(2) by simp
  define w where "w = bitmap_word (phys s) base i"
  have w: "w = 0xFFFFFFFF"
    unfolding w_def word_full_bits using Suc.prems(3) i by auto
  obtain d where d: "look i w s = s\<lparr>dev := d\<rparr>" using look by blast
  have ok: "bitmap_ok base n (s\<lparr>dev := d\<rparr>)"
    using Suc.prems(1) bitmap_ok_cong [of s "s\<lparr>dev := d\<rparr>"] by simp
  from Suc.IH [OF ok, of "Suc i"] Suc.prems(2,3)
  obtain d' where "bitmap_scan base look k (Suc i) (s\<lparr>dev := d\<rparr>) = Inr (None, s\<lparr>dev := d\<rparr>\<lparr>dev := d'\<rparr>)"
    by fastforce
  then show ?case using w d bitmap_scan_step(1) [OF Suc.prems(1) i] by (simp flip: w_def) blast
qed

text \<open>The whole search: the least unused index, or none.\<close>

lemma bitmap_scan_alloc:
  assumes look: "\<And>i w s. \<exists>d. look i w s = s\<lparr>dev := d\<rparr>" and ok: "bitmap_ok base n s"
    and free: "\<exists>k<32 * n. k \<notin> used (phys s) base n"
  defines "r \<equiv> (LEAST k. k \<notin> used (phys s) base n)"
  shows "r < 32 * n" "r \<notin> used (phys s) base n"
    and "\<exists>d. bitmap_scan base look n 0 s = Inr (Some r, s\<lparr>dev := d, phys := mark (phys s) base r\<rparr>)"
proof -
  obtain k where k: "k < 32 * n" "k \<notin> used (phys s) base n" using free by blast
  show r: "r \<notin> used (phys s) base n" unfolding r_def by (rule LeastI) (rule k(2))
  have "r \<le> k" unfolding r_def by (rule Least_le) (rule k(2))
  then show rn: "r < 32 * n" using k(1) by simp
  have "l \<in> used (phys s) base n" if "l < r" for l
    using not_less_Least that unfolding r_def by blast
  then have "bitmap_bit (phys s) base l" if "l < r" for l
    using that by (simp add: used_def)
  then show "\<exists>d. bitmap_scan base look n 0 s = Inr (Some r, s\<lparr>dev := d, phys := mark (phys s) base r\<rparr>)"
    using r rn by (intro bitmap_scan_free [OF look ok]) (auto simp: used_def)
qed

lemma bitmap_scan_none:
  assumes look: "\<And>i w s. \<exists>d. look i w s = s\<lparr>dev := d\<rparr>" and ok: "bitmap_ok base n s"
    and full: "{..<32 * n} \<subseteq> used (phys s) base n"
  shows "\<exists>d. bitmap_scan base look n 0 s = Inr (None, s\<lparr>dev := d\<rparr>)"
  using full by (intro bitmap_scan_full [OF look ok]) (auto simp: used_def)

text \<open>Marking an index keeps the bitmap usable: its words are no page tables.\<close>

lemma translate_store32:
  assumes "paging_on s \<longrightarrow> (\<forall>k\<le>3. page_of (a + k) \<notin> table_pages (phys s) (page_of (cr3 s)))"
  shows "translate (s\<lparr>phys := store32 a v (phys s)\<rparr>) = translate s"
    and "paging_on s \<Longrightarrow>
      table_pages (store32 a v (phys s)) (page_of (cr3 s)) = table_pages (phys s) (page_of (cr3 s))"
proof -
  have eq: "store32 a v (phys s) b = phys s b"
    if "paging_on s" "page_of b \<in> table_pages (phys s) (page_of (cr3 s))" for b
  proof (rule store32_elsewhere)
    show "b \<noteq> a + k" if "k \<le> 3" for k
      using assms \<open>paging_on s\<close> \<open>page_of b \<in> _\<close> that by auto
  qed
  have "walk (store32 a v (phys s)) (page_of (cr3 s)) va = walk (phys s) (page_of (cr3 s)) va"
    if "paging_on s" for va using eq [OF that] by (intro walk_agree) auto
  then show "translate (s\<lparr>phys := store32 a v (phys s)\<rparr>) = translate s"
    by (auto simp: translate_def paging_on_def fun_eq_iff)
  show "table_pages (store32 a v (phys s)) (page_of (cr3 s)) = table_pages (phys s) (page_of (cr3 s))"
    if "paging_on s" using eq [OF that] by (intro table_pages_agree) auto
qed

lemma mark_keeps:
  assumes "bitmap_ok base n s" and "r < 32 * n"
  shows "translate (s\<lparr>dev := d, phys := mark (phys s) base r\<rparr>) = translate s"
    and "bitmap_ok base n (s\<lparr>dev := d, phys := mark (phys s) base r\<rparr>)"
    and "paging_on s \<Longrightarrow>
      table_pages (mark (phys s) base r) (page_of (cr3 s)) = table_pages (phys s) (page_of (cr3 s))"
proof -
  have "r div 32 < n" using assms(2) by (simp add: less_mult_imp_div_less mult.commute)
  then have safe: "paging_on s \<longrightarrow> (\<forall>k\<le>3. page_of (base + 4 * word_of_nat (r div 32) + k)
      \<notin> table_pages (phys s) (page_of (cr3 s)))"
    using assms(1) by (simp add: bitmap_ok_def)
  note k = translate_store32 [OF safe, of "bitmap_word (phys s) base (r div 32) OR push_bit (r mod 32) 1",
      folded mark_def]
  show tp: "paging_on s \<Longrightarrow>
      table_pages (mark (phys s) base r) (page_of (cr3 s)) = table_pages (phys s) (page_of (cr3 s))"
    by (rule k(2))
  show tr: "translate (s\<lparr>dev := d, phys := mark (phys s) base r\<rparr>) = translate s"
    unfolding k(1) [symmetric] by (rule translate_cong) simp_all
  show "bitmap_ok base n (s\<lparr>dev := d, phys := mark (phys s) base r\<rparr>)"
    using assms(1) tp unfolding bitmap_ok_def tr by (simp add: paging_on_def)
qed

section \<open>The allocator interface\<close>

text \<open>
  What the two allocators promise: an allocation returns the least free index and takes it, and
  fails only when all are taken.
\<close>

locale index_allocator =
  fixes alloc :: "'s \<Rightarrow> stop + nat option \<times> 's"
    and taken :: "'s \<Rightarrow> nat set"
    and capacity :: nat
    and valid :: "'s \<Rightarrow> bool"
  assumes alloc_free: "valid s \<Longrightarrow> \<exists>k<capacity. k \<notin> taken s \<Longrightarrow>
      \<exists>s'. alloc s = Inr (Some (LEAST k. k \<notin> taken s), s') \<and> valid s' \<and>
        taken s' = insert (LEAST k. k \<notin> taken s) (taken s)"
    and alloc_full: "valid s \<Longrightarrow> {..<capacity} \<subseteq> taken s \<Longrightarrow>
      \<exists>s'. alloc s = Inr (None, s') \<and> valid s' \<and> taken s' = taken s"
    and taken_bound: "taken s \<subseteq> {..<capacity}"

fun alloc_many :: "('s \<Rightarrow> stop + nat option \<times> 's) \<Rightarrow> nat \<Rightarrow> 's \<Rightarrow> stop + nat option list \<times> 's" where
  "alloc_many alloc 0 s = Inr ([], s)"
| "alloc_many alloc (Suc n) s =
     and_then (alloc s) (\<lambda>(k, s). and_then (alloc_many alloc n s) (\<lambda>(ks, s). Inr (k # ks, s)))"

context index_allocator
begin

lemma alloc_many_distinct:
  "valid s \<Longrightarrow> card (taken s) + n \<le> capacity \<Longrightarrow>
   \<exists>ks s'. alloc_many alloc n s = Inr (map Some ks, s') \<and> length ks = n \<and> distinct ks \<and>
     set ks \<inter> taken s = {} \<and> set ks \<subseteq> {..<capacity} \<and> taken s' = taken s \<union> set ks"
proof (induction n arbitrary: s)
  case 0
  then show ?case by (auto intro: exI [of _ "[]"])
next
  case (Suc n)
  define k where "k = (LEAST k. k \<notin> taken s)"
  have fin: "finite (taken s)" using taken_bound [of s] finite_subset by blast
  have free: "\<exists>k<capacity. k \<notin> taken s"
  proof (rule ccontr)
    assume "\<not> (\<exists>k<capacity. k \<notin> taken s)"
    then have "card {..<capacity} \<le> card (taken s)" by (intro card_mono fin) auto
    with Suc.prems(2) show False by simp
  qed
  from alloc_free [OF Suc.prems(1) free]
  obtain s1 where 1: "alloc s = Inr (Some k, s1)" "valid s1" "taken s1 = insert k (taken s)"
    by (auto simp: k_def)
  have kn: "k \<notin> taken s" "k < capacity"
  proof -
    from free obtain x where "x \<notin> taken s" by blast
    then show "k \<notin> taken s" unfolding k_def by (rule LeastI)
    show "k < capacity" using taken_bound [of s1] 1(3) by blast
  qed
  then have "card (taken s1) + n \<le> capacity" using Suc.prems(2) 1(3) fin by simp
  from Suc.IH [OF 1(2) this] obtain ks s2 where
    2: "alloc_many alloc n s1 = Inr (map Some ks, s2)" "length ks = n" "distinct ks"
      "set ks \<inter> taken s1 = {}" "set ks \<subseteq> {..<capacity}" "taken s2 = taken s1 \<union> set ks" by blast
  show ?case
    using 1 2 kn by (intro exI [of _ "k # ks"] exI [of _ s2]) auto
qed

end

interpretation bm: index_allocator
  "bitmap_scan base look n 0" "\<lambda>s. used (phys s) base n" "32 * n"
  "\<lambda>s. bitmap_ok base n s \<and> (\<forall>i w s. \<exists>d. look i w s = s\<lparr>dev := d\<rparr>)" for base look n
proof
  fix s :: "'a machine_scheme"
  assume v: "bitmap_ok base n s \<and> (\<forall>i w s. \<exists>d. look i w s = s\<lparr>dev := d\<rparr>)"
  then have ok: "bitmap_ok base n s" and look: "\<And>i w s. \<exists>d. look i w s = s\<lparr>dev := d\<rparr>" by auto
  show "\<exists>s'. bitmap_scan base look n 0 s = Inr (Some (LEAST k. k \<notin> used (phys s) base n), s') \<and>
      (bitmap_ok base n s' \<and> (\<forall>i w s. \<exists>d. look i w s = s\<lparr>dev := d\<rparr>)) \<and>
      used (phys s') base n = insert (LEAST k. k \<notin> used (phys s) base n) (used (phys s) base n)"
    if free: "\<exists>k<32 * n. k \<notin> used (phys s) base n"
  proof -
    note a = bitmap_scan_alloc [where look = look, OF look ok free]
    have "word_aligned base" "n \<le> 2 ^ 28" using ok by (auto simp: bitmap_ok_def)
    from used_mark [OF this a(1)] mark_keeps(2) [OF ok a(1)] a(3) v show ?thesis by auto
  qed
  show "\<exists>s'. bitmap_scan base look n 0 s = Inr (None, s') \<and>
      (bitmap_ok base n s' \<and> (\<forall>i w s. \<exists>d. look i w s = s\<lparr>dev := d\<rparr>)) \<and>
      used (phys s') base n = used (phys s) base n"
    if full: "{..<32 * n} \<subseteq> used (phys s) base n"
  proof -
    obtain d where "bitmap_scan base look n 0 s = Inr (None, s\<lparr>dev := d\<rparr>)"
      using bitmap_scan_none [where look = look, OF look ok full] by blast
    moreover have "bitmap_ok base n (s\<lparr>dev := d\<rparr>)"
      using ok bitmap_ok_cong [of s "s\<lparr>dev := d\<rparr>"] by simp
    ultimately show ?thesis using v by auto
  qed
qed (auto simp: used_def)

end
