(* ===== verification/Memory.thy ===== *)
theory Memory
  imports Bitmap
begin

text \<open>
  The memory manager, \<open>kernel/memory.c\<close> with the constants of
  \<open>kernel/includes/memory.h\<close>: the page frame and page table allocators, the page tables, the
  heap and the set-up of paging.
\<close>

unbundle bit_operations_syntax

section \<open>State\<close>

abbreviation PAGE_SIZE :: u32 where "PAGE_SIZE \<equiv> 4096"
abbreviation KERNEL_START :: u32 where "KERNEL_START \<equiv> 0x00100000"
abbreviation KERNEL_END :: u32 where "KERNEL_END \<equiv> 0x00300000"
abbreviation PAGE_TABLE_AREA_START :: u32 where "PAGE_TABLE_AREA_START \<equiv> 0x00500000"
abbreviation PAGE_TABLE_AREA_END :: u32 where "PAGE_TABLE_AREA_END \<equiv> 0x00900000"
abbreviation PAGE_FRAME_ALLOCATOR_AREA_START :: u32 where "PAGE_FRAME_ALLOCATOR_AREA_START \<equiv> 0x00900000"
abbreviation PAGE_FRAME_ALLOCATOR_AREA_END :: u32 where "PAGE_FRAME_ALLOCATOR_AREA_END \<equiv> 0x0F000000"
abbreviation HEAP_ALLOCATOR_AREA_START :: u32 where "HEAP_ALLOCATOR_AREA_START \<equiv> 0x0F000000"
abbreviation HEAP_ALLOCATOR_AREA_END :: u32 where "HEAP_ALLOCATOR_AREA_END \<equiv> 0x11000000"

text \<open>
  The arrays live in memory, at the addresses the linker gives them; the sizes of the bitmaps
  are counted in words.
\<close>

abbreviation PAGE_FRAME_BITMAP_SIZE :: nat where "PAGE_FRAME_BITMAP_SIZE \<equiv> 1848"
abbreviation PAGE_TABLE_BITMAP_SIZE :: nat where "PAGE_TABLE_BITMAP_SIZE \<equiv> 32"

record symbols =
  page_directory :: u32
  first_page_table :: u32
  second_page_table :: u32
  page_frame_bitmap :: u32
  page_table_bitmap :: u32

record mm = machine +
  syms :: symbols
  heap_current :: u32
  heap_mapped :: u32

section \<open>Page table entries\<close>

definition new_page_directory_entry :: u32 where "new_page_directory_entry = 0x00000000"

definition get_page_table_address :: "u32 \<Rightarrow> u32" where
  "get_page_table_address entry = entry AND 0xFFFFF000"

definition get_page_table_index :: "u32 \<Rightarrow> u32" where
  "get_page_table_index virtual_address = drop_bit 12 virtual_address AND 0x03FF"

definition is_present :: "u32 \<Rightarrow> bool" where
  "is_present entry \<longleftrightarrow> entry AND push_bit 0 1 \<noteq> 0"

definition set_present :: "u32 \<Rightarrow> u32" where "set_present entry = entry OR push_bit 0 1"
definition unset_present :: "u32 \<Rightarrow> u32" where "unset_present entry = entry AND NOT (push_bit 0 1)"
definition set_read_write :: "u32 \<Rightarrow> u32" where "set_read_write entry = entry OR push_bit 1 1"
definition set_user_mode :: "u32 \<Rightarrow> u32" where "set_user_mode entry = entry OR push_bit 2 1"

section \<open>Page tables\<close>

definition page_table_allocate :: "'a mm_scheme \<Rightarrow> stop + u32 \<times> 'a mm_scheme" where
  "page_table_allocate s =
     and_then (bitmap_scan (page_table_bitmap (syms s)) (\<lambda>_ _ s. s) PAGE_TABLE_BITMAP_SIZE 0 s)
       (\<lambda>(index, s). case index of
          None \<Rightarrow> panic ''Trying to allocate page tables but no page tables left to allocate!''
        | Some i \<Rightarrow> Inr (PAGE_TABLE_AREA_START + PAGE_SIZE * word_of_nat i, s))"

definition map_page :: "u32 \<Rightarrow> u32 \<Rightarrow> u32 \<Rightarrow> 'a mm_scheme \<Rightarrow> stop + 'a mm_scheme" where
  "map_page kernel_page_directory virtual_address physical_address s =
     (if virtual_address mod PAGE_SIZE \<noteq> 0
      then panic ''Trying to map a virtual address that is not page aligned!''
      else if physical_address mod PAGE_SIZE \<noteq> 0
      then panic ''Trying to map a physical address that is not page aligned!''
      else let page_directory_index = drop_bit 22 virtual_address;
               entry = kernel_page_directory + 4 * page_directory_index
        in and_then (vload32 entry s) (\<lambda>pde.
           and_then
             (if \<not> is_present pde
              then let s = mlog ''Page table not present for virtual address: %x\<newline>'' [Num virtual_address] s;
                       s = mlog ''Adding a new page table at page_directory_index: %x\<newline>''
                             [Num page_directory_index] s
                in and_then (page_table_allocate s) (\<lambda>(new_page_table, s).
                   let s = mlog ''New page table allocated at v_addr: %x\<newline>'' [Num new_page_table] s
                   in and_then (vstore32 entry (new_page_table OR 3) s) (\<lambda>s.
                      and_then (vload32 entry s) (\<lambda>pde. Inr (pde, s))))
              else Inr (pde, s))
             (\<lambda>(pde, s).
              let page_table = get_page_table_address pde;
                  page_table_index = drop_bit 12 virtual_address AND 0x03FF;
                  physical_address = set_read_write (set_present physical_address)
              in vstore32 (page_table + 4 * page_table_index) physical_address s)))"

definition unmap_page :: "u32 \<Rightarrow> u32 \<Rightarrow> 'a mm_scheme \<Rightarrow> stop + 'a mm_scheme" where
  "unmap_page kernel_page_directory virtual_address s =
     (if virtual_address mod PAGE_SIZE \<noteq> 0
      then panic ''Trying to unmap a virtual address that is not page aligned!''
      else and_then (vload32 (kernel_page_directory + 4 * drop_bit 22 virtual_address) s) (\<lambda>pde.
        if \<not> is_present pde
        then panic ''Trying to unmap a virtual address that does not have a page directory entry!''
        else let page_table = get_page_table_address pde;
                 page_table_index = get_page_table_index virtual_address
          in and_then (vload32 (page_table + 4 * page_table_index) s) (\<lambda>physical_address.
             if \<not> is_present physical_address
             then panic ''Trying to unmap a virtual address that has not been mapped yet!''
             else vstore32 (page_table + 4 * page_table_index) (unset_present physical_address) s)))"

text \<open>
  The loop variable of \<open>identity_map_range\<close> wraps when the range ends in the last page of the
  address space; the loop then starts again from 0 and never ends.
\<close>

function identity_map_range :: "u32 \<Rightarrow> u32 \<Rightarrow> u32 \<Rightarrow> 'a mm_scheme \<Rightarrow> stop + 'a mm_scheme" where
  "identity_map_range kernel_page_directory addr end_address s =
     (if addr < end_address
      then and_then (map_page kernel_page_directory addr addr s) (\<lambda>s.
        if addr + PAGE_SIZE < addr then Inl Diverges
        else identity_map_range kernel_page_directory (addr + PAGE_SIZE) end_address s)
      else Inr s)"
  by pat_completeness auto
termination
proof (relation "measure (\<lambda>(_, addr, end_address, _). unat end_address - unat addr)")
  fix kpd addr end_address :: u32 and s s' :: "'a mm_scheme"
  assume "addr < end_address" and "\<not> addr + PAGE_SIZE < addr"
  moreover have "addr + PAGE_SIZE \<noteq> addr" by simp
  ultimately have "addr < end_address" and "addr < addr + PAGE_SIZE"
    by (metis linorder_neqE)+
  then have "unat addr < unat end_address" and "unat addr < unat (addr + PAGE_SIZE)"
    by (simp_all only: word_less_nat_alt)
  then show "((kpd, addr + PAGE_SIZE, end_address, s'), (kpd, addr, end_address, s))
      \<in> measure (\<lambda>(_, addr, end_address, _). unat end_address - unat addr)"
    by simp
qed simp

declare identity_map_range.simps [simp del]

section \<open>Page frames\<close>

definition init_page_frame_allocator :: "'a mm_scheme \<Rightarrow> stop + 'a mm_scheme" where
  "init_page_frame_allocator s =
     and_then (memset vstore8 (page_frame_bitmap (syms s)) 0 (4 * word_of_nat PAGE_FRAME_BITMAP_SIZE) s)
       (\<lambda>s. if PAGE_FRAME_ALLOCATOR_AREA_START mod PAGE_SIZE \<noteq> 0
            then panic ''Page Frame Allocator does not start at a page aligned address!''
            else if PAGE_FRAME_ALLOCATOR_AREA_END mod PAGE_SIZE \<noteq> 0
            then panic ''Page Frame Allocator does not end at a page aligned address!''
            else Inr s)"

definition look_at_frames :: "nat \<Rightarrow> u32 \<Rightarrow> 'a machine_scheme \<Rightarrow> 'a machine_scheme" where
  "look_at_frames i w s = mlog ''Looking at page_frame_bitmap %u: %x\<newline>'' [Num (word_of_nat i), Num w] s"

definition page_frame_allocate :: "u32 \<Rightarrow> 'a mm_scheme \<Rightarrow> stop + u32 \<times> 'a mm_scheme" where
  "page_frame_allocate virtual_address s =
     (if virtual_address mod PAGE_SIZE \<noteq> 0
      then panic ''Trying to allocate page frame at unaligned address!''
      else and_then (bitmap_scan (page_frame_bitmap (syms s)) look_at_frames PAGE_FRAME_BITMAP_SIZE 0 s)
        (\<lambda>(index, s). case index of
           None \<Rightarrow> panic ''Page frame allocator has run out of space!''
         | Some page_index \<Rightarrow>
             let physical_address = PAGE_FRAME_ALLOCATOR_AREA_START + PAGE_SIZE * word_of_nat page_index
             in and_then (map_page (page_directory (syms s)) virtual_address physical_address s) (\<lambda>s.
                and_then (memset vstore8 virtual_address 0 PAGE_SIZE s) (\<lambda>s.
                Inr (virtual_address, s)))))"

text \<open>
  The size given to \<open>memset\<close> here is that of the frame bitmap, as in the source: 7392 bytes from
  the start of the 128 bytes of the table bitmap.
\<close>

definition init_page_table_allocator :: "'a mm_scheme \<Rightarrow> stop + 'a mm_scheme" where
  "init_page_table_allocator s =
     and_then (identity_map_range (page_directory (syms s)) PAGE_TABLE_AREA_START PAGE_TABLE_AREA_END s)
       (\<lambda>s. and_then (memset vstore8 (page_table_bitmap (syms s)) 0
              (4 * word_of_nat PAGE_FRAME_BITMAP_SIZE) s)
       (\<lambda>s. if PAGE_TABLE_AREA_START mod PAGE_SIZE \<noteq> 0
            then panic ''Page Table Allocator does not start at a page aligned address!''
            else if PAGE_TABLE_AREA_END mod PAGE_SIZE \<noteq> 0
            then panic ''Page Table Allocator does not end at a page aligned address!''
            else Inr s))"

section \<open>What these operations leave alone\<close>

lemma mem_only_mm:
  fixes s s' :: "'a mm_scheme"
  assumes "mem_only s s'"
  shows "syms s' = syms s" "heap_current s' = heap_current s" "heap_mapped s' = heap_mapped s"
  by (subst assms [unfolded mem_only_def], simp)+

lemma mem_only_vstore: "vstore8 a v s = Inr s' \<Longrightarrow> mem_only s s'"
  "vstore32 a w s = Inr s' \<Longrightarrow> mem_only s s'"
  by (auto simp: vstore8_def vstore32_def split: option.splits)

lemma mem_only_memset_loop: "memset_loop vstore8 n p v s = Inr s' \<Longrightarrow> mem_only s s'"
  by (induction n arbitrary: p s) (auto simp: result_simps intro: mem_only_trans mem_only_vstore)

lemma mem_only_memset: "memset vstore8 p v n s = Inr s' \<Longrightarrow> mem_only s s'"
  by (auto simp: memset_def intro: mem_only_memset_loop)

lemma mem_only_look: "mem_only s (look_at_frames i w s)"
  by (simp add: look_at_frames_def)

lemma mem_only_bitmap_scan:
  "bitmap_scan bitmap look k i s = Inr (r, s') \<Longrightarrow> (\<And>i w s. mem_only s (look i w s)) \<Longrightarrow> mem_only s s'"
proof (induction k arbitrary: i s)
  case (Suc k)
  obtain w where w: "vload32 (bitmap + 4 * word_of_nat i) s = Inr w"
    using Suc.prems(1) by (auto simp: result_simps)
  have "mem_only (look i w s) s'"
    using Suc.prems w Suc.IH [of "Suc i" "look i w s"]
    by (auto simp: result_simps Let_def split: if_splits option.splits intro: mem_only_vstore)
  with Suc.prems(2) show ?case by (rule mem_only_trans)
qed simp

lemma mem_only_page_table_allocate: "page_table_allocate s = Inr (t, s') \<Longrightarrow> mem_only s s'"
  by (auto simp: page_table_allocate_def panic_def result_simps split: option.splits
      intro: mem_only_bitmap_scan)

lemma mem_only_map_page: "map_page pd va pa s = Inr s' \<Longrightarrow> mem_only s s'"
  by (auto simp: map_page_def panic_def result_simps Let_def split: if_splits
      dest!: mem_only_page_table_allocate mem_only_vstore)
    (blast intro: mem_only_trans)+

lemma mem_only_page_frame_allocate:
  "page_frame_allocate va s = Inr (r, s') \<Longrightarrow> mem_only s s'"
  by (auto simp: page_frame_allocate_def panic_def result_simps split: if_splits option.splits
      dest!: mem_only_map_page mem_only_memset mem_only_bitmap_scan [OF _ mem_only_look])
    (blast intro: mem_only_trans)+

section \<open>The heap\<close>

definition init_heap_allocator :: "'a mm_scheme \<Rightarrow> stop + 'a mm_scheme" where
  "init_heap_allocator s =
     (if HEAP_ALLOCATOR_AREA_START mod PAGE_SIZE \<noteq> 0
      then panic ''Heap allocator does not start at a page aligned address!''
      else if HEAP_ALLOCATOR_AREA_END mod PAGE_SIZE \<noteq> 0
      then panic ''Heap allocator does not end at a page aligned address!''
      else Inr (s\<lparr>heap_current := HEAP_ALLOCATOR_AREA_START, heap_mapped := HEAP_ALLOCATOR_AREA_START\<rparr>))"

text \<open>
  The loop that maps pages until \<open>target\<close>, the end of the new block, is covered. Its caller has
  checked that \<open>target\<close> is at most the end of the heap, so \<open>heap_mapped\<close> does not wrap; the loop
  repeats the check only to be total.
\<close>

function heap_grow :: "u32 \<Rightarrow> 'a mm_scheme \<Rightarrow> stop + 'a mm_scheme" where
  "heap_grow target s =
     (if target \<le> HEAP_ALLOCATOR_AREA_END \<and> target > heap_mapped s
      then and_then (page_frame_allocate (heap_mapped s) s) (\<lambda>(_, s).
        heap_grow target (s\<lparr>heap_mapped := heap_mapped s + PAGE_SIZE\<rparr>))
      else Inr s)"
  by pat_completeness auto
termination
proof (relation "measure (\<lambda>(target, s). unat target - unat (heap_mapped s))")
  fix target :: u32 and s :: "'a mm_scheme" and r s' x
  assume c: "target \<le> HEAP_ALLOCATOR_AREA_END \<and> target > heap_mapped s"
    and "page_frame_allocate (heap_mapped s) s = Inr r" and "(x, s') = r"
  then have "heap_mapped s' = heap_mapped s"
    by (auto dest: mem_only_page_frame_allocate mem_only_mm(3))
  moreover have "unat (heap_mapped s + PAGE_SIZE) = unat (heap_mapped s) + 4096"
    using c by (simp add: word_less_nat_alt word_le_nat_alt unat_word_ariths(1))
  ultimately show "((target, s'\<lparr>heap_mapped := heap_mapped s' + PAGE_SIZE\<rparr>), (target, s))
      \<in> measure (\<lambda>(target, s). unat target - unat (heap_mapped s))"
    using c by (auto simp: word_less_nat_alt intro!: diff_less_mono2)
qed simp

declare heap_grow.simps [simp del]

definition heap_allocate :: "u32 \<Rightarrow> 'a mm_scheme \<Rightarrow> stop + u32 \<times> 'a mm_scheme" where
  "heap_allocate sz s =
     (let s = mlog ''Heap allocation of size %x bytes at address %x\<newline>'' [Num sz, Num (heap_current s)] s
      in if heap_current s + sz > HEAP_ALLOCATOR_AREA_END
         then panic ''Heap is overflowing! Cannot allocate!''
         else and_then (heap_grow (heap_current s + sz) s) (\<lambda>s.
              and_then (memset vstore8 (heap_current s) 0 sz s) (\<lambda>s.
              let ret = heap_current s
              in Inr (ret, s\<lparr>heap_current := heap_current s + sz\<rparr>))))"

section \<open>Setting up paging\<close>

definition register_interrupt_handler :: "u8 \<Rightarrow> handler \<Rightarrow> 'a machine_scheme \<Rightarrow> 'a machine_scheme" where
  "register_interrupt_handler n h s =
     (let s = mlog ''Registering interrupt handler for interrupt %x\<newline>'' [Num (ucast n)] s
      in s\<lparr>interrupt_handlers := (interrupt_handlers s)(n := Some h)\<rparr>)"

text \<open>The handler logs and spins.\<close>

definition page_fault_handler :: "'a machine_scheme \<Rightarrow> stop + 'a machine_scheme" where
  "page_fault_handler s = Inl Hang"

fun clear_directory :: "nat \<Rightarrow> nat \<Rightarrow> 'a mm_scheme \<Rightarrow> stop + 'a mm_scheme" where
  "clear_directory 0 i s = Inr s"
| "clear_directory (Suc k) i s =
     and_then (vstore32 (page_directory (syms s) + 4 * word_of_nat i) 0x00000002 s)
       (clear_directory k (Suc i))"

definition init_paging :: "'a mm_scheme \<Rightarrow> stop + 'a mm_scheme" where
  "init_paging s =
     (let s = mlog ''%x\<newline>'' [Num (word_of_nat PAGE_FRAME_BITMAP_SIZE)] s;
          s = register_interrupt_handler 14 Page_fault_handler s
      in and_then (clear_directory 1024 0 s) (\<lambda>s.
         and_then (vstore32 (page_directory (syms s)) (first_page_table (syms s) OR 3) s) (\<lambda>s.
         and_then (vstore32 (page_directory (syms s) + 4) (second_page_table (syms s) OR 3) s) (\<lambda>s.
         and_then (identity_map_range (page_directory (syms s)) KERNEL_START KERNEL_END s) (\<lambda>s.
         and_then (init_page_frame_allocator s) (\<lambda>s.
         and_then (init_page_table_allocator s) (\<lambda>s.
         and_then (init_heap_allocator s) (\<lambda>s.
         and_then (map_page (page_directory (syms s)) 0xb8000 0xb8000 s) (\<lambda>s.
         Inr (enable_paging (load_page_directory (page_directory (syms s)) s)))))))))))"

end
