(* ===== verification/Paging.thy ===== *)
theory Paging
  imports Memory
begin

text \<open>
  What \<open>map_page\<close> and \<open>unmap_page\<close> of \<open>kernel/memory.c\<close> do to the translation the processor
  computes from the page tables, and the two allocators on their bitmaps.
\<close>

unbundle bit_operations_syntax

section \<open>Entries\<close>

lemma is_present_bit: "is_present e \<longleftrightarrow> bit e 0"
  by (simp add: is_present_def bit_0 and_one_eq odd_iff_mod_2_eq_one)

lemma set_flags: "set_read_write (set_present pa) = pa OR 3"
  by (simp add: set_read_write_def set_present_def or.assoc)

lemma bit_flags [simp]: "bit (pa OR 3) 0" for pa :: u32
  by (simp add: bit_or_iff)

lemma page_of_flags: "page_aligned pa \<Longrightarrow> page_of (pa OR 3) = pa"
  using page_of_aligned [of pa] small_page [of 3] by (simp add: page_of_def bit.conj_disj_distrib2)

lemma page_aligned_mod: "a mod PAGE_SIZE = 0 \<longleftrightarrow> page_aligned a"
  by (simp add: page_aligned_def)

lemma entry_addr: "get_page_table_address pde + 4 * (drop_bit 12 va AND 0x3FF) = pte_addr pde va"
  by (simp add: pte_addr_def get_page_table_address_def page_of_def)

lemma unset_present_bit: "\<not> bit (unset_present e) 0"
  by (simp add: unset_present_def bit_and_iff bit_not_iff)

section \<open>Conditions\<close>

text \<open>
  \<open>directory pd P s\<close>: the kernel can use the directory at \<open>pd\<close> with the tables in the pages
  \<open>P\<close>. They translate to themselves, \<open>pd\<close> is what the processor walks once paging is on, and no
  entry points back to the directory.
\<close>

definition directory :: "u32 \<Rightarrow> u32 set \<Rightarrow> 'a machine_scheme \<Rightarrow> bool" where
  "directory pd P s \<longleftrightarrow> clean_dir (phys s) pd \<and> pd \<in> P \<and> ident_pages P s \<and>
     (paging_on s \<longrightarrow> page_of (cr3 s) = pd)"

text \<open>The table of the \<open>i\<close>-th directory entry is not shared with another entry.\<close>

definition exclusive :: "(u32 \<Rightarrow> u8) \<Rightarrow> u32 \<Rightarrow> u32 \<Rightarrow> bool" where
  "exclusive m pd i \<longleftrightarrow> (\<forall>j<1024. j \<noteq> i \<and> bit (load32 m (pd + 4 * j)) 0 \<longrightarrow>
     page_of (load32 m (pd + 4 * j)) \<noteq> page_of (load32 m (pd + 4 * i)))"

lemma directory_mlog [simp]: "directory pd P (mlog fmt as s) = directory pd P s"
  by (simp add: directory_def)

lemma directory_aligned: "directory pd P s \<Longrightarrow> page_aligned pd"
  by (simp add: directory_def clean_dir_def)

lemma directory_entry:
  "directory pd P s \<Longrightarrow> i < 1024 \<Longrightarrow> vload32 (pd + 4 * i) s = Inr (load32 (phys s) (pd + 4 * i))"
  using vload32_entry [of P s pd i] directory_aligned [of pd P s] by (simp add: directory_def)

section \<open>\<open>map_page\<close>, the table present\<close>

lemma map_page_present:
  assumes "directory pd P s" "page_aligned va" "page_aligned pa"
    and "bit (load32 (phys s) (pde_addr pd va)) 0" "page_of (load32 (phys s) (pde_addr pd va)) \<in> P"
  shows "map_page pd va pa s =
    Inr (s\<lparr>phys := store32 (pte_addr (load32 (phys s) (pde_addr pd va)) va) (pa OR 3) (phys s)\<rparr>)"
proof -
  define pde where "pde = load32 (phys s) (pde_addr pd va)"
  have ld: "vload32 (pd + 4 * drop_bit 22 va) s = Inr pde"
    using directory_entry [OF assms(1)] by (simp add: pde_def pde_addr_def)
  have "vstore32 (pte_addr pde va) w s = Inr (s\<lparr>phys := store32 (pte_addr pde va) w (phys s)\<rparr>)" for w
    unfolding pte_addr_def
    using assms(1,5) by (intro vstore32_entry [of P]) (simp_all add: directory_def pde_def)
  then show ?thesis
    using assms(2-4) ld
    by (simp add: map_page_def Let_def page_aligned_mod is_present_bit entry_addr set_flags
        flip: pde_def)
qed

lemma walk_after_write:
  assumes "clean_dir m pd" "page_aligned va"
    and "bit (load32 m (pde_addr pd va)) 0" "exclusive m pd (drop_bit 22 va)"
  shows "walk (store32 (pte_addr (load32 m (pde_addr pd va)) va) v m) pd va' =
    (if page_of va' = va then (if bit v 0 then Some (page_of v OR offset_of va') else None)
     else walk m pd va')"
proof -
  define pde where "pde = load32 m (pde_addr pd va)"
  define pde' where "pde' = load32 m (pde_addr pd va')"
  have pt: "page_of pde \<noteq> pd"
    using assms(1,3) unfolding clean_dir_def pde_def pde_addr_def by simp
  have same: "bit pde' 0 \<and> page_of pde' = page_of pde \<longleftrightarrow> drop_bit 22 va' = drop_bit 22 va"
    if "bit pde' 0 \<or> drop_bit 22 va' = drop_bit 22 va"
  proof
    assume "drop_bit 22 va' = drop_bit 22 va"
    then show "bit pde' 0 \<and> page_of pde' = page_of pde"
      using assms(3) by (simp add: pde_def pde'_def pde_addr_def)
  next
    assume "bit pde' 0 \<and> page_of pde' = page_of pde"
    then show "drop_bit 22 va' = drop_bit 22 va"
      using assms(4) unfolding exclusive_def pde_def pde'_def pde_addr_def
      by (auto dest: spec [of _ "drop_bit 22 va'"])
  qed
  have "page_of va' = va \<longleftrightarrow>
      drop_bit 22 va' = drop_bit 22 va \<and> drop_bit 12 va' AND 0x3FF = drop_bit 12 va AND 0x3FF"
    using page_eq_iff_indices [of va' va] page_of_aligned [OF assms(2)] by simp
  with same have "bit pde' 0 \<and> page_of pde' = page_of pde \<and>
      drop_bit 12 va' AND 0x3FF = drop_bit 12 va AND 0x3FF \<longleftrightarrow> page_of va' = va" by auto
  moreover have "page_aligned pd" using assms(1) by (simp add: clean_dir_def)
  ultimately show ?thesis
    using walk_set_pte [of pd "page_of pde" "drop_bit 12 va AND 0x3FF" v m va'] pt
    by (simp add: pte_addr_def Let_def flip: pde_def pde'_def)
qed

lemma walk_after_map:
  assumes "clean_dir m pd" "page_aligned va" "page_aligned pa"
    and "bit (load32 m (pde_addr pd va)) 0" "exclusive m pd (drop_bit 22 va)"
  shows "walk (store32 (pte_addr (load32 m (pde_addr pd va)) va) (pa OR 3) m) pd va' =
    (if page_of va' = va then Some (pa OR offset_of va') else walk m pd va')"
  using walk_after_write [OF assms(1,2,4,5), of "pa OR 3"] page_of_flags [OF assms(3)] by simp

section \<open>\<open>unmap_page\<close>\<close>

lemma unmap_page_present:
  assumes "directory pd P s" "page_aligned va"
    and "bit (load32 (phys s) (pde_addr pd va)) 0" "page_of (load32 (phys s) (pde_addr pd va)) \<in> P"
    and "bit (load32 (phys s) (pte_addr (load32 (phys s) (pde_addr pd va)) va)) 0"
  shows "unmap_page pd va s =
    Inr (s\<lparr>phys := store32 (pte_addr (load32 (phys s) (pde_addr pd va)) va)
      (unset_present (load32 (phys s) (pte_addr (load32 (phys s) (pde_addr pd va)) va))) (phys s)\<rparr>)"
proof -
  define pde where "pde = load32 (phys s) (pde_addr pd va)"
  have ld: "vload32 (pd + 4 * drop_bit 22 va) s = Inr pde"
    using directory_entry [OF assms(1)] by (simp add: pde_def pde_addr_def)
  have acc: "vload32 (pte_addr pde va) s = Inr (load32 (phys s) (pte_addr pde va))"
      "vstore32 (pte_addr pde va) w s = Inr (s\<lparr>phys := store32 (pte_addr pde va) w (phys s)\<rparr>)" for w
    unfolding pte_addr_def
    using assms(1,4) vload32_entry [of P s] vstore32_entry [of P s]
    by (simp_all add: directory_def pde_def)
  then show ?thesis
    using assms(2,3,5) ld
    by (simp add: unmap_page_def Let_def page_aligned_mod is_present_bit entry_addr
        get_page_table_index_def flip: pde_def)
qed

text \<open>Writing the entry keeps the conditions.\<close>

lemma store_pte_keeps:
  assumes "clean_dir m pd" "bit (load32 m (pde_addr pd va)) 0" "i < 1024"
  shows "load32 (store32 (pte_addr (load32 m (pde_addr pd va)) va) v m) (pd + 4 * i) = load32 m (pd + 4 * i)"
    and "load32 (store32 (pte_addr (load32 m (pde_addr pd va)) va) v m) (pte_addr (load32 m (pde_addr pd va)) va) = v"
proof -
  have "page_of (load32 m (pde_addr pd va)) \<noteq> pd" "page_aligned pd"
    using assms(1,2) unfolding clean_dir_def pde_addr_def by simp_all
  then show "load32 (store32 (pte_addr (load32 m (pde_addr pd va)) va) v m) (pd + 4 * i) = load32 m (pd + 4 * i)"
    unfolding pte_addr_def using assms(3) by (simp add: load_store_entry)
qed simp

section \<open>Ranges of pages\<close>

lemma aligned_no_wrap: "page_aligned a \<Longrightarrow> unat a + 4096 \<le> 4294967296"
proof -
  assume "page_aligned a"
  then obtain q where "unat a = 4096 * q" by (auto simp: page_aligned_unat elim: dvdE)
  then show ?thesis using unat_u32_bound [of a] by simp
qed

lemma unat_aligned_add: "page_aligned a \<Longrightarrow> k \<le> 0xFFF \<Longrightarrow> unat (a + k) = unat a + unat k"
  using aligned_no_wrap [of a] by (simp add: unat_word_ariths(1) word_le_nat_alt)

lemma page_of_eq_iff: "page_aligned a \<Longrightarrow> page_of va = (a :: u32) \<longleftrightarrow> a \<le> va \<and> va \<le> a + 0xFFF"
proof
  assume a: "page_aligned a" and "page_of va = a"
  then have va: "va = a + offset_of va" using page_offset_add [of va] by simp
  have "unat va = unat a + unat (offset_of va)"
    using unat_aligned_add [OF a offset_of_le [of va]] va by simp
  moreover have "unat (a + 0xFFF) = unat a + 0xFFF" using unat_aligned_add [OF a, where k = "0xFFF"] by simp
  moreover have "unat (offset_of va) \<le> 0xFFF" using offset_of_le [of va] by (simp add: word_le_nat_alt)
  ultimately show "a \<le> va \<and> va \<le> a + 0xFFF" by (simp add: word_le_nat_alt)
next
  assume a: "page_aligned a" and r: "a \<le> va \<and> va \<le> a + 0xFFF"
  then have "unat (va - a) = unat va - unat a" by (simp add: unat_sub)
  moreover have "unat (a + 0xFFF) = unat a + 0xFFF" using unat_aligned_add [OF a, where k = "0xFFF"] by simp
  ultimately have "va - a \<le> 0xFFF" using r by (simp add: word_le_nat_alt le_diff_conv)
  from page_of_add [OF a this] show "page_of va = a" by simp
qed

lemma page_aligned_step: "page_aligned a \<Longrightarrow> page_aligned (a + PAGE_SIZE)"
proof -
  assume "page_aligned a"
  then have "unat (a + PAGE_SIZE) mod 4096 = (unat a + 4096) mod 2 ^ 32 mod 4096"
    by (simp add: unat_word_ariths(1))
  also have "\<dots> = (unat a + 4096) mod 4096" by (rule mod_mod_cancel) simp
  finally show ?thesis using \<open>page_aligned a\<close> by (simp add: page_aligned_unat)
qed

lemma page_step:
  assumes "page_aligned a" "page_aligned e" "a < e"
  shows "unat (a + PAGE_SIZE) = unat a + 4096" "\<not> a + PAGE_SIZE < a" "a + PAGE_SIZE \<le> e"
proof -
  obtain q r where q: "unat a = 4096 * q" and r: "unat e = 4096 * r"
    using assms(1,2) by (auto simp: page_aligned_unat elim!: dvdE)
  have "q < r" using assms(3) q r by (simp add: word_less_nat_alt)
  then have le: "unat a + 4096 \<le> unat e" using q r by simp
  moreover have "unat e < 4294967296" by (rule unat_u32_bound)
  ultimately have "unat a + 4096 < 4294967296" by linarith
  then show u: "unat (a + PAGE_SIZE) = unat a + 4096"
    by (simp add: unat_word_ariths(1))
  show "\<not> a + PAGE_SIZE < a" "a + PAGE_SIZE \<le> e"
    using u le by (simp_all add: word_less_nat_alt word_le_nat_alt)
qed

lemma page_range_step:
  assumes "page_aligned a" "page_aligned e" "a < e"
  shows "a \<le> va \<and> va < e \<longleftrightarrow> page_of va = a \<or> a + PAGE_SIZE \<le> va \<and> va < e"
  using page_step [OF assms] page_of_eq_iff [OF assms(1), of va] unat_aligned_add [OF assms(1), where k = "0xFFF"]
  by (auto simp: word_le_nat_alt word_less_nat_alt)

section \<open>\<open>identity_map_range\<close>\<close>

text \<open>What mapping the range \<open>[a, e)\<close> with tables already present makes of a memory \<open>m\<close>.\<close>

definition identity_mapped :: "u32 \<Rightarrow> u32 \<Rightarrow> u32 \<Rightarrow> (u32 \<Rightarrow> u8) \<Rightarrow> (u32 \<Rightarrow> u8) \<Rightarrow> bool" where
  "identity_mapped pd a e m m' \<longleftrightarrow>
     (\<forall>i<1024. load32 m' (pd + 4 * i) = load32 m (pd + 4 * i)) \<and>
     (\<forall>va. walk m' pd va = (if a \<le> va \<and> va < e then Some va else walk m pd va)) \<and>
     (\<forall>p. m' p \<noteq> m p \<longrightarrow> page_of p \<in> {page_of (load32 m (pde_addr pd va)) | va. a \<le> va \<and> va < e})"

lemma page_or_offset: "page_of va = a \<Longrightarrow> a OR offset_of va = va"
  using page_offset_or [of va] by simp

lemma clean_dir_same:
  assumes "\<forall>i<1024. load32 m' (pd + 4 * i) = load32 m (pd + 4 * i)"
  shows "clean_dir m' pd = clean_dir m pd" "i < 1024 \<Longrightarrow> exclusive m' pd i = exclusive m pd i"
  using assms by (auto simp: clean_dir_def exclusive_def)

lemma map_page_identity:
  assumes "\<not> paging_on s" "clean_dir (phys s) pd" "page_aligned a" "page_aligned e" "a < e"
    and "bit (load32 (phys s) (pde_addr pd a)) 0" "exclusive (phys s) pd (drop_bit 22 a)"
  shows "\<exists>m. map_page pd a a s = Inr (s\<lparr>phys := m\<rparr>) \<and> identity_mapped pd a (a + PAGE_SIZE) (phys s) m"
proof -
  have dir: "directory pd UNIV s"
    using assms(1,2) by (simp add: directory_def ident_pages_off)
  define m where "m = store32 (pte_addr (load32 (phys s) (pde_addr pd a)) a) (a OR 3) (phys s)"
  have "map_page pd a a s = Inr (s\<lparr>phys := m\<rparr>)"
    using map_page_present [OF dir assms(3,3,6)] by (simp add: m_def)
  moreover have "identity_mapped pd a (a + PAGE_SIZE) (phys s) m"
    unfolding identity_mapped_def
  proof (intro conjI allI impI)
    show "load32 m (pd + 4 * i) = load32 (phys s) (pd + 4 * i)" if "i < 1024" for i
      unfolding m_def by (rule store_pte_keeps(1) [OF assms(2,6) that])
    have r: "a \<le> va \<and> va < a + PAGE_SIZE \<longleftrightarrow> page_of va = a" for va
      using page_range_step [OF assms(3) page_aligned_step [OF assms(3)], of va]
        page_step(1) [OF assms(3-5)] by (auto simp: word_less_nat_alt word_le_nat_alt)
    show "walk m pd va = (if a \<le> va \<and> va < a + PAGE_SIZE then Some va else walk (phys s) pd va)" for va
      using walk_after_map [OF assms(2,3,3,6,7), of va] page_or_offset [of va a]
      unfolding r m_def by simp
    fix p assume "m p \<noteq> phys s p"
    then obtain k where "k \<le> 3" "p = pte_addr (load32 (phys s) (pde_addr pd a)) a + k"
      unfolding m_def using store32_elsewhere by metis
    then have "page_of p = page_of (load32 (phys s) (pde_addr pd a))"
      unfolding pte_addr_def using entry_page [OF page_aligned_page_of pt_index_less] by simp
    moreover have "a \<le> a \<and> a < a + PAGE_SIZE" using r [of a] page_of_aligned [OF assms(3)] by simp
    ultimately show "page_of p \<in>
        {page_of (load32 (phys s) (pde_addr pd va)) | va. a \<le> va \<and> va < a + PAGE_SIZE}" by blast
  qed
  ultimately show ?thesis by blast
qed

lemma identity_mapped_trans:
  assumes "identity_mapped pd a b m m1" "identity_mapped pd b e m1 m2" "a \<le> b" "b \<le> e"
  shows "identity_mapped pd a e m m2"
proof -
  have e: "load32 m1 (pde_addr pd va) = load32 m (pde_addr pd va)" for va
    using assms(1) by (simp add: identity_mapped_def pde_addr_def)
  show ?thesis
    unfolding identity_mapped_def
  proof (intro conjI allI impI)
    show "load32 m2 (pd + 4 * i) = load32 m (pd + 4 * i)" if "i < 1024" for i
      using assms(1,2) that by (simp add: identity_mapped_def)
    show "walk m2 pd va = (if a \<le> va \<and> va < e then Some va else walk m pd va)" for va
      using assms by (auto simp: identity_mapped_def)
    fix p assume "m2 p \<noteq> m p"
    then have "m2 p \<noteq> m1 p \<or> m1 p \<noteq> m p" by auto
    then show "page_of p \<in> {page_of (load32 m (pde_addr pd va)) | va. a \<le> va \<and> va < e}"
    proof
      assume "m2 p \<noteq> m1 p"
      then obtain va where "page_of p = page_of (load32 m1 (pde_addr pd va))" "b \<le> va" "va < e"
        using assms(2) unfolding identity_mapped_def by blast
      then show ?thesis using e [of va] assms(3) order_trans by fastforce
    next
      assume "m1 p \<noteq> m p"
      then obtain va where "page_of p = page_of (load32 m (pde_addr pd va))" "a \<le> va" "va < b"
        using assms(1) unfolding identity_mapped_def by blast
      then show ?thesis using assms(4) less_le_trans by fastforce
    qed
  qed
qed

lemma identity_map_range_present:
  "\<not> paging_on s \<Longrightarrow> clean_dir (phys s) pd \<Longrightarrow> page_aligned a \<Longrightarrow> page_aligned e \<Longrightarrow> a \<le> e \<Longrightarrow>
   (\<And>va. a \<le> va \<Longrightarrow> va < e \<Longrightarrow>
      bit (load32 (phys s) (pde_addr pd va)) 0 \<and> exclusive (phys s) pd (drop_bit 22 va)) \<Longrightarrow>
   \<exists>m. identity_map_range pd a e s = Inr (s\<lparr>phys := m\<rparr>) \<and> identity_mapped pd a e (phys s) m"
proof (induction pd a e s rule: identity_map_range.induct)
  case (1 pd a e s)
  show ?case
  proof (cases "a < e")
    case False
    with "1.prems"(5) have "a = e" by simp
    then show ?thesis
      by (intro exI [of _ "phys s"]) (auto simp: identity_map_range.simps identity_mapped_def)
  next
    case True
    note step = page_step [OF "1.prems"(3,4) True]
    obtain m where m: "map_page pd a a s = Inr (s\<lparr>phys := m\<rparr>)"
        "identity_mapped pd a (a + PAGE_SIZE) (phys s) m"
      using map_page_identity [OF "1.prems"(1-4) True] "1.prems"(6) [of a] True by auto
    have ent: "\<forall>i<1024. load32 m (pd + 4 * i) = load32 (phys s) (pd + 4 * i)"
      using m(2) by (simp add: identity_mapped_def)
    have le: "a \<le> a + PAGE_SIZE" using step(2) by simp
    have "\<exists>m'. identity_map_range pd (a + PAGE_SIZE) e (s\<lparr>phys := m\<rparr>) =
        Inr (s\<lparr>phys := m\<rparr>\<lparr>phys := m'\<rparr>) \<and> identity_mapped pd (a + PAGE_SIZE) e (phys (s\<lparr>phys := m\<rparr>)) m'"
    proof (rule "1.IH" [OF True m(1) step(2)])
      show "\<not> paging_on (s\<lparr>phys := m\<rparr>)" using "1.prems"(1) by (simp add: paging_on_def)
      show "clean_dir (phys (s\<lparr>phys := m\<rparr>)) pd"
        using "1.prems"(2) clean_dir_same(1) [OF ent] by simp
      show "page_aligned (a + PAGE_SIZE)" by (rule page_aligned_step [OF "1.prems"(3)])
      show "page_aligned e" "a + PAGE_SIZE \<le> e" by (rule "1.prems"(4), rule step(3))
      show "bit (load32 (phys (s\<lparr>phys := m\<rparr>)) (pde_addr pd va)) 0 \<and>
          exclusive (phys (s\<lparr>phys := m\<rparr>)) pd (drop_bit 22 va)" if "a + PAGE_SIZE \<le> va" "va < e" for va
        using "1.prems"(6) [OF order_trans [OF le that(1)] that(2)] ent clean_dir_same(2) [OF ent]
        by (simp add: pde_addr_def)
    qed
    then obtain m' where m': "identity_map_range pd (a + PAGE_SIZE) e (s\<lparr>phys := m\<rparr>) = Inr (s\<lparr>phys := m'\<rparr>)"
        "identity_mapped pd (a + PAGE_SIZE) e m m'" by auto
    have "identity_map_range pd a e s = Inr (s\<lparr>phys := m'\<rparr>)"
      using True m(1) m'(1) step(2) by (simp add: identity_map_range.simps [of pd a])
    then show ?thesis using identity_mapped_trans [OF m(2) m'(2) le step(3)] by blast
  qed
qed

end
