(* ===== verification/Init_Paging.thy ===== *)
theory Init_Paging
  imports Paging
begin

text \<open>
  \<open>init_paging\<close> of \<open>kernel/memory.c\<close>: the address space it sets up from the memory the boot
  loader leaves, and the state of the allocators afterwards.
\<close>

unbundle bit_operations_syntax

section \<open>\<open>map_page\<close>, the table absent\<close>

text \<open>No word of the bitmap lies in one of the pages \<open>T\<close>.\<close>

definition away :: "u32 \<Rightarrow> nat \<Rightarrow> u32 set \<Rightarrow> bool" where
  "away base n T \<longleftrightarrow> (\<forall>i<n. \<forall>k\<le>3. page_of (base + 4 * word_of_nat i + k) \<notin> T)"

lemma mark_elsewhere:
  assumes "away base n T" "r < 32 * n" "page_of a \<in> T"
  shows "mark m base r a = m a"
  unfolding mark_def
proof (rule store32_elsewhere)
  fix k :: u32 assume "k \<le> 3"
  moreover have "r div 32 < n" using assms(2) by (simp add: less_mult_imp_div_less mult.commute)
  ultimately show "a \<noteq> base + 4 * word_of_nat (r div 32) + k"
    using assms(1,3) by (auto simp: away_def)
qed

lemma load32_page_cong:
  "page_aligned p \<Longrightarrow> i < 1024 \<Longrightarrow> (\<And>a. page_of a = p \<Longrightarrow> m' a = m a) \<Longrightarrow>
   load32 m' (p + 4 * i) = load32 m (p + 4 * i)"
  by (rule load32_agree [where T = "{p}"]) auto

lemma page_table_allocate_least:
  assumes "bitmap_ok (page_table_bitmap (syms s)) 32 s"
    and "\<exists>k<1024. k \<notin> used (phys s) (page_table_bitmap (syms s)) 32"
  defines "r \<equiv> (LEAST k. k \<notin> used (phys s) (page_table_bitmap (syms s)) 32)"
  shows "\<exists>d. page_table_allocate s = Inr (PAGE_TABLE_AREA_START + PAGE_SIZE * word_of_nat r,
      s\<lparr>dev := d, phys := mark (phys s) (page_table_bitmap (syms s)) r\<rparr>)" and "r < 1024"
proof -
  have look: "\<exists>d. (\<lambda>_ _ s. s) i w s = s\<lparr>dev := d\<rparr>" for i :: nat and w :: u32 and s :: "'a mm_scheme"
    by (rule exI [of _ "dev s"]) simp
  have free: "\<exists>k<32 * 32. k \<notin> used (phys s) (page_table_bitmap (syms s)) 32" using assms(2) by simp
  note a = bitmap_scan_alloc [where look = "\<lambda>_ _ s. s", OF look assms(1) free, folded r_def]
  show "r < 1024" using a(1) by simp
  show "\<exists>d. page_table_allocate s = Inr (PAGE_TABLE_AREA_START + PAGE_SIZE * word_of_nat r,
      s\<lparr>dev := d, phys := mark (phys s) (page_table_bitmap (syms s)) r\<rparr>)"
    using a(3) by (auto simp: page_table_allocate_def)
qed

lemma map_page_fresh:
  fixes s :: "'a mm_scheme"
  defines "tb \<equiv> page_table_bitmap (syms s)"
  defines "r \<equiv> (LEAST k. k \<notin> used (phys s) tb 32)"
  defines "t \<equiv> PAGE_TABLE_AREA_START + PAGE_SIZE * word_of_nat r"
  assumes dir: "directory pd P s" and va: "page_aligned va" and pa: "page_aligned pa"
    and absent: "\<not> bit (load32 (phys s) (pde_addr pd va)) 0"
    and t: "page_aligned t" "t \<in> P" "t \<noteq> pd"
    and apart: "paging_on s \<longrightarrow> (\<forall>a. page_of a \<in> {pd, t} \<longrightarrow> drop_bit 22 a \<noteq> drop_bit 22 va)"
    and ok: "bitmap_ok tb 32 s" "away tb 32 {pd}" and free: "\<exists>k<1024. k \<notin> used (phys s) tb 32"
  shows "\<exists>d. map_page pd va pa s = Inr (s\<lparr>dev := d, phys :=
    store32 (pte_addr t va) (pa OR 3) (store32 (pde_addr pd va) (t OR 3) (mark (phys s) tb r))\<rparr>)"
proof -
  define s1 where "s1 = mlog ''Adding a new page table at page_directory_index: %x\<newline>'' [Num (drop_bit 22 va)]
    (mlog ''Page table not present for virtual address: %x\<newline>'' [Num va] s)"
  have s1: "phys s1 = phys s" "cr0 s1 = cr0 s" "cr3 s1 = cr3 s" "syms s1 = syms s" "\<exists>d. s1 = s\<lparr>dev := d\<rparr>"
    by (simp_all add: s1_def) (auto simp: mlog_def)
  have pd: "page_aligned pd" by (rule directory_aligned [OF dir])
  have "bitmap_ok tb 32 s1" using bitmap_ok_cong [of s1 s] s1 ok(1) by simp
  from page_table_allocate_least(1) [of s1] this free s1 page_table_allocate_least(2) [of s1]
  obtain d where d: "page_table_allocate s1 = Inr (t, s1\<lparr>dev := d, phys := mark (phys s) tb r\<rparr>)"
    and r: "r < 1024" by (auto simp: tb_def r_def t_def)
  define s2 where "s2 = mlog ''New page table allocated at v_addr: %x\<newline>'' [Num t]
    (s1\<lparr>dev := d, phys := mark (phys s) tb r\<rparr>)"
  obtain d' where d': "s2 = s\<lparr>dev := d', phys := mark (phys s) tb r\<rparr>"
    using s1(5) that [of "dev s2"] by (auto simp: s2_def mlog_def)
  then have s2: "phys s2 = mark (phys s) tb r" "\<exists>d. s2 = s\<lparr>dev := d, phys := mark (phys s) tb r\<rparr>"
    by auto
  then have on2: "paging_on s2 = paging_on s" "cr3 s2 = cr3 s" by (auto simp: paging_on_def)
  have tr2: "translate s2 = translate s"
    using mark_keeps(1) [OF ok(1)] r s2(2) by auto
  have ent: "load32 (phys s2) (pd + 4 * i) = load32 (phys s) (pd + 4 * i)" if "i < 1024" for i
    unfolding s2(1) using mark_elsewhere [OF ok(2)] r by (intro load32_page_cong [OF pd that]) simp
  have id2: "ident_pages P s2" using dir by (simp add: directory_def ident_pages_def tr2)
  have pdP: "pd \<in> P" using dir by (simp add: directory_def)
  define s3 where "s3 = s2\<lparr>phys := store32 (pde_addr pd va) (t OR 3) (phys s2)\<rparr>"
  have st2: "vstore32 (pd + 4 * drop_bit 22 va) (t OR 3) s2 = Inr s3"
    unfolding s3_def pde_addr_def by (rule vstore32_entry [OF id2 pd pdP]) simp
  have tr3: "translate s3 a = Some a" if a: "page_of a \<in> {pd, t}" for a
  proof -
    have "translate s2 a = Some a" using id2 a pdP t(2) by (auto simp: ident_pages_def)
    moreover have "walk (phys s3) pd a = walk (phys s2) pd a" if on: "paging_on s"
    proof -
      have "clean_dir (phys s2) pd" using dir ent by (simp add: directory_def clean_dir_def)
      moreover have "drop_bit 22 a \<noteq> drop_bit 22 va" using apart on a by blast
      ultimately show ?thesis
        using walk_set_pde [of "phys s2" pd "drop_bit 22 va" "t OR 3" a] page_of_flags [OF t(1)] t(3)
        by (simp add: s3_def pde_addr_def)
    qed
    moreover have "paging_on s \<Longrightarrow> page_of (cr3 s) = pd" using dir by (simp add: directory_def)
    ultimately show ?thesis
      using on2 by (auto simp: translate_def s3_def paging_on_def)
  qed
  have id3: "ident_pages {pd, t} s3" using tr3 by (simp add: ident_pages_def)
  have ld3: "vload32 (pd + 4 * drop_bit 22 va) s3 = Inr (t OR 3)"
    using vload32_entry [OF id3 pd, of "drop_bit 22 va"] by (simp add: s3_def pde_addr_def)
  have st3: "vstore32 (pte_addr t va) (pa OR 3) s3 =
      Inr (s3\<lparr>phys := store32 (pte_addr t va) (pa OR 3) (phys s3)\<rparr>)"
    unfolding pte_addr_def using id3 t(1) by (intro vstore32_entry [of "{pd, t}"]) (simp_all add: page_of_aligned)
  have ad: "get_page_table_address (t OR 3) + 4 * (drop_bit 12 va AND 0x3FF) = pte_addr t va"
    using page_of_flags [OF t(1)] page_of_aligned [OF t(1)] by (simp add: entry_addr pte_addr_def)
  have "vload32 (pd + 4 * drop_bit 22 va) s = Inr (load32 (phys s) (pde_addr pd va))"
    using directory_entry [OF dir, of "drop_bit 22 va"] by (simp add: pde_addr_def)
  then have "map_page pd va pa s = Inr (s3\<lparr>phys := store32 (pte_addr t va) (pa OR 3) (phys s3)\<rparr>)"
    using va pa absent d st2 ld3 st3
    by (simp add: map_page_def Let_def page_aligned_mod is_present_bit set_flags ad
        flip: s1_def s2_def)
  then show ?thesis using s2 by (auto simp: s3_def)
qed

text \<open>What the page \<open>t\<close>, taken as a page table with the contents it has, makes of an address.\<close>

definition leftover :: "(u32 \<Rightarrow> u8) \<Rightarrow> u32 \<Rightarrow> u32 \<Rightarrow> u32 option" where
  "leftover m t a = (let pte = load32 m (pte_addr t a) in if \<not> bit pte 0 then None else Some (page_of pte OR offset_of a))"

lemma pte_addr_flags: "page_aligned t \<Longrightarrow> pte_addr (t OR 3) a = pte_addr t a"
  by (simp add: pte_addr_def page_of_flags page_of_aligned)

lemma leftover_agree: "page_aligned t \<Longrightarrow> (\<And>b. page_of b = t \<Longrightarrow> m' b = m b) \<Longrightarrow> leftover m' t a = leftover m t a"
  using load32_page_cong [of t "drop_bit 12 a AND 0x3FF" m' m] pt_index_less by (simp add: leftover_def pte_addr_def page_of_aligned)

lemma walk_new_table:
  assumes cd: "clean_dir m pd" and va: "page_aligned va" and pa: "page_aligned pa" and t: "page_aligned t" "t \<notin> table_pages m pd"
  shows "walk (store32 (pte_addr t va) (pa OR 3) (store32 (pde_addr pd va) (t OR 3) m)) pd a =
    (if page_of a = va then Some (pa OR offset_of a)
     else if drop_bit 22 a = drop_bit 22 va then leftover m t a else walk m pd a)"
proof -
  define m1 where "m1 = store32 (pde_addr pd va) (t OR 3) m"
  have pd: "page_aligned pd" and tpd: "page_of (t OR 3) \<noteq> pd" using cd t by (auto simp: clean_dir_def page_of_flags table_pages_def)
  have w1: "walk m1 pd a = (if drop_bit 22 a = drop_bit 22 va then leftover m t a else walk m pd a)" for a
    using walk_set_pde [OF cd pd_index_less tpd, of va a] t(1)
    by (simp add: m1_def pde_addr_def leftover_def pte_addr_flags Let_def)
  have ent: "load32 m1 (pd + 4 * i) = (if i = drop_bit 22 va then t OR 3 else load32 m (pd + 4 * i))" if "i < 1024" for i
    using load_store_entry [OF pd pd pd_index_less that, of va "t OR 3" m] by (auto simp: m1_def pde_addr_def)
  have pde: "load32 m1 (pde_addr pd va) = t OR 3" using ent [of "drop_bit 22 va"] by (simp add: pde_addr_def)
  have cd1: "clean_dir m1 pd" unfolding m1_def pde_addr_def using tpd by (intro clean_dir_set_pde [OF cd]) simp_all
  have ex: "exclusive m1 pd (drop_bit 22 va)"
    unfolding exclusive_def using t pde by (auto simp: ent page_of_flags table_pages_def)
  have "bit (load32 m1 (pde_addr pd va)) 0" by (simp add: pde)
  from walk_after_map [OF cd1 va pa this ex, of a] show ?thesis
    unfolding pde pte_addr_flags [OF t(1)] w1 by (simp add: m1_def)
qed

text \<open>
  The table the allocator hands out next, and what \<open>map_page\<close> needs: either the table is there and no other entry of the
  directory shares it, or there is a page for a new one that is not in use as a table, and the bitmap lies elsewhere.
\<close>

definition next_table :: "'a mm_scheme \<Rightarrow> u32" where
  "next_table s = PAGE_TABLE_AREA_START + PAGE_SIZE * word_of_nat (LEAST k. k \<notin> used (phys s) (page_table_bitmap (syms s)) 32)"

definition mappable :: "u32 \<Rightarrow> u32 set \<Rightarrow> u32 \<Rightarrow> 'a mm_scheme \<Rightarrow> bool" where
  "mappable pd P va s \<longleftrightarrow>
     (let pde = load32 (phys s) (pde_addr pd va); tb = page_table_bitmap (syms s); t = next_table s in
      if bit pde 0 then page_of pde \<in> P \<and> exclusive (phys s) pd (drop_bit 22 va)
      else t \<in> P \<and> t \<notin> table_pages (phys s) pd \<and> bitmap_ok tb 32 s \<and> (\<exists>k<1024. k \<notin> used (phys s) tb 32) \<and>
        away tb 32 (insert t (table_pages (phys s) pd)) \<and>
        (paging_on s \<longrightarrow> (\<forall>a. page_of a \<in> {pd, t} \<longrightarrow> drop_bit 22 a \<noteq> drop_bit 22 va)))"

lemma page_aligned_table: "page_aligned (PAGE_TABLE_AREA_START + PAGE_SIZE * word_of_nat r)"
proof -
  have "unat (PAGE_TABLE_AREA_START + PAGE_SIZE * word_of_nat r) mod 4096 = (0x500000 + 4096 * unat (word_of_nat r :: u32)) mod 2 ^ 32 mod 4096"
    by (simp add: unat_word_ariths mod_simps)
  also have "\<dots> = (0x500000 + 4096 * unat (word_of_nat r :: u32)) mod 4096" by (rule mod_mod_cancel) simp
  finally show ?thesis by (simp add: page_aligned_unat mod_eq_0_iff_dvd)
qed

text \<open>What \<open>map_page\<close> does to the translation, whether it finds the table or takes a new one.\<close>

lemma map_page_walk:
  fixes s :: "'a mm_scheme"
  assumes dir: "directory pd P s" and va: "page_aligned va" and pa: "page_aligned pa" and m: "mappable pd P va s"
  shows "\<exists>d m. map_page pd va pa s = Inr (s\<lparr>dev := d, phys := m\<rparr>) \<and>
    (\<forall>a. walk m pd a =
      (if page_of a = va then Some (pa OR offset_of a)
       else if \<not> bit (load32 (phys s) (pde_addr pd va)) 0 \<and> drop_bit 22 a = drop_bit 22 va then leftover (phys s) (next_table s) a
       else walk (phys s) pd a))"
proof (cases "bit (load32 (phys s) (pde_addr pd va)) 0")
  case True
  then have p: "page_of (load32 (phys s) (pde_addr pd va)) \<in> P" "exclusive (phys s) pd (drop_bit 22 va)"
    using m by (simp_all add: mappable_def Let_def)
  let ?m = "store32 (pte_addr (load32 (phys s) (pde_addr pd va)) va) (pa OR 3) (phys s)"
  have "map_page pd va pa s = Inr (s\<lparr>dev := dev s, phys := ?m\<rparr>)" using map_page_present [OF dir va pa True p(1)] by simp
  moreover have "clean_dir (phys s) pd" using dir by (simp add: directory_def)
  moreover from this have "walk ?m pd a = (if page_of a = va then Some (pa OR offset_of a) else walk (phys s) pd a)" for a
    by (intro walk_after_map [OF _ va pa True p(2)])
  ultimately show ?thesis using True by (intro exI [of _ "dev s"] exI [of _ ?m] conjI) simp_all
next
  case False
  let ?tb = "page_table_bitmap (syms s)" and ?t = "next_table s"
  let ?r = "LEAST k. k \<notin> used (phys s) ?tb 32"
  let ?m0 = "mark (phys s) ?tb ?r" and ?T = "table_pages (phys s) pd"
  have t: "?t \<in> P" "?t \<notin> ?T" "bitmap_ok ?tb 32 s" "\<exists>k<1024. k \<notin> used (phys s) ?tb 32" "away ?tb 32 (insert ?t ?T)"
    "paging_on s \<longrightarrow> (\<forall>a. page_of a \<in> {pd, ?t} \<longrightarrow> drop_bit 22 a \<noteq> drop_bit 22 va)"
    using m False by (simp_all add: mappable_def Let_def)
  have al: "page_aligned ?t" unfolding next_table_def by (rule page_aligned_table)
  have pd: "page_aligned pd" "pd \<in> ?T" using directory_aligned [OF dir] by (simp_all add: table_pages_def)
  have "away ?tb 32 {pd}" "?t \<noteq> pd" using t(2,5) pd(2) by (auto simp: away_def)
  from map_page_fresh [OF dir va pa False, folded next_table_def, OF al t(1) this(2) t(6,3) this(1) t(4)]
  obtain d where d: "map_page pd va pa s = Inr (s\<lparr>dev := d, phys := store32 (pte_addr ?t va) (pa OR 3) (store32 (pde_addr pd va) (?t OR 3) ?m0)\<rparr>)" ..
  have r: "?r < 1024" using page_table_allocate_least(2) [OF t(3,4)] .
  have same: "?m0 b = phys s b" if "page_of b \<in> insert ?t ?T" for b using mark_elsewhere [OF t(5) _ that] r by simp
  have w: "walk ?m0 pd a = walk (phys s) pd a" for a using same by (intro walk_agree [OF pd(1)]) simp
  have l: "leftover ?m0 ?t a = leftover (phys s) ?t a" for a using same by (intro leftover_agree [OF al]) simp
  have ent: "load32 ?m0 (pd + 4 * i) = load32 (phys s) (pd + 4 * i)" if "i < 1024" for i
    using same pd(2) by (intro load32_page_cong [OF pd(1) that]) simp
  have "clean_dir ?m0 pd" using dir ent by (simp add: directory_def clean_dir_def)
  moreover have "table_pages ?m0 pd = ?T" unfolding table_pages_def using ent by (metis (lifting))
  ultimately show ?thesis
    using d walk_new_table [OF _ va pa al, of ?m0 pd] t(2) False by (intro exI [of _ d] exI conjI) (auto simp: w l)
qed

section \<open>The layout of the kernel image\<close>

text \<open>
  Where the linker puts the arrays: inside the kernel area, the tables on pages of their own.
  The bytes that \<open>init_page_table_allocator\<close> clears behind the table bitmap must not be part
  of a table either.
\<close>

definition in_kernel :: "u32 \<Rightarrow> nat \<Rightarrow> bool" where
  "in_kernel a n \<longleftrightarrow> 0x100000 \<le> unat a \<and> unat a + n \<le> 0x300000"

definition no_overlap :: "u32 \<Rightarrow> nat \<Rightarrow> u32 \<Rightarrow> nat \<Rightarrow> bool" where
  "no_overlap a n b m \<longleftrightarrow> unat a + n \<le> unat b \<or> unat b + m \<le> unat a"

definition clear_of_tables :: "symbols \<Rightarrow> u32 \<Rightarrow> nat \<Rightarrow> bool" where
  "clear_of_tables sy a n \<longleftrightarrow> no_overlap a n (page_directory sy) 4096 \<and>
     no_overlap a n (first_page_table sy) 4096 \<and> no_overlap a n (second_page_table sy) 4096"

definition layout_ok :: "symbols \<Rightarrow> bool" where
  "layout_ok sy \<longleftrightarrow>
     page_aligned (page_directory sy) \<and> page_aligned (first_page_table sy) \<and>
     page_aligned (second_page_table sy) \<and> page_directory sy \<noteq> first_page_table sy \<and>
     page_directory sy \<noteq> second_page_table sy \<and> first_page_table sy \<noteq> second_page_table sy \<and>
     in_kernel (page_directory sy) 4096 \<and> in_kernel (first_page_table sy) 4096 \<and>
     in_kernel (second_page_table sy) 4096 \<and>
     word_aligned (page_frame_bitmap sy) \<and> word_aligned (page_table_bitmap sy) \<and>
     in_kernel (page_frame_bitmap sy) 7392 \<and> in_kernel (page_table_bitmap sy) 7392 \<and>
     clear_of_tables sy (page_frame_bitmap sy) 7392 \<and> clear_of_tables sy (page_table_bitmap sy) 7392 \<and>
     no_overlap (page_frame_bitmap sy) 7392 (page_table_bitmap sy) 128"

lemma span_iff:
  "unat a + n \<le> 2 ^ 32 \<Longrightarrow> b \<in> span a n \<longleftrightarrow> unat a \<le> unat b \<and> unat b < unat a + n"
proof -
  assume n: "unat a + n \<le> 2 ^ 32"
  show ?thesis
  proof (cases "a \<le> b")
    case True
    then show ?thesis by (auto simp: span_def unat_sub word_le_nat_alt)
  next
    case False
    then have "unat (b - a) = unat b + 2 ^ 32 - unat a"
      by (simp add: unat_sub_if_size word_size word_le_nat_alt)
    then show ?thesis using False n by (auto simp: span_def word_le_nat_alt)
  qed
qed

lemma page_range:
  "page_aligned p \<Longrightarrow> page_of b = p \<longleftrightarrow> unat p \<le> unat b \<and> unat b < unat p + 4096"
  using page_of_eq_iff [of p b] unat_aligned_add [of p "0xFFF"] by (auto simp: word_le_nat_alt)

lemma span_not_page:
  "b \<in> span a n \<Longrightarrow> no_overlap a n p 4096 \<Longrightarrow> in_kernel a n \<Longrightarrow> page_aligned p \<Longrightarrow> page_of b \<noteq> p"
  by (auto simp: span_iff in_kernel_def no_overlap_def page_range)

lemma span_not_above:
  "b \<in> span a n \<Longrightarrow> in_kernel a n \<Longrightarrow> page_aligned p \<Longrightarrow> 0x300000 \<le> p \<Longrightarrow> page_of b \<noteq> p"
  by (auto simp: span_iff in_kernel_def page_range word_le_nat_alt)

section \<open>Stages of the set-up\<close>

text \<open>
  The directory has the entries \<open>E\<close>, the addresses in \<open>W\<close> translate to themselves, and \<open>G\<close> is the
  translation of every other address.
\<close>

definition stage :: "u32 \<Rightarrow> (u32 \<Rightarrow> u32) \<Rightarrow> u32 set \<Rightarrow> (u32 \<Rightarrow> u32 option) \<Rightarrow> (u32 \<Rightarrow> u8) \<Rightarrow> bool" where
  "stage pd E W G m \<longleftrightarrow> (\<forall>i<1024. load32 m (pd + 4 * i) = E i) \<and>
     (\<forall>va\<in>W. walk m pd va = Some va) \<and> (\<forall>va. va \<notin> W \<longrightarrow> walk m pd va = G va)"

definition entry_pages :: "(u32 \<Rightarrow> u32) \<Rightarrow> u32 set" where
  "entry_pages E = {page_of (E i) | i. i < 1024 \<and> bit (E i) 0}"

lemma stage_table_pages: "stage pd E W G m \<Longrightarrow> table_pages m pd = insert pd (entry_pages E)"
  unfolding stage_def table_pages_def entry_pages_def by (metis (lifting))

lemma stage_agree:
  assumes "stage pd E W G m" "page_aligned pd"
    and "\<And>a. page_of a \<in> insert pd (entry_pages E) \<Longrightarrow> m' a = m a"
  shows "stage pd E W G m'"
proof -
  have agree: "\<And>a. page_of a \<in> table_pages m pd \<Longrightarrow> m' a = m a"
    using assms(3) by (simp add: stage_table_pages [OF assms(1)])
  have "walk m' pd va = walk m pd va" for va by (rule walk_agree [OF assms(2) agree])
  moreover have "load32 m' (pd + 4 * i) = load32 m (pd + 4 * i)" if "i < 1024" for i
    by (rule load32_agree [where T = "table_pages m pd", OF agree assms(2) _ that])
      (simp_all add: table_pages_def)
  ultimately show ?thesis using assms(1) by (simp add: stage_def)
qed

lemma stage_clean:
  "stage pd E W G m \<Longrightarrow> page_aligned pd \<Longrightarrow> pd \<notin> entry_pages E \<Longrightarrow> clean_dir m pd"
  by (auto simp: stage_def clean_dir_def entry_pages_def)

lemma stage_range:
  fixes s :: "'a mm_scheme"
  assumes "stage pd E W G (phys s)" and off: "\<not> paging_on s"
    and pd: "page_aligned pd" "pd \<notin> entry_pages E"
    and r: "page_aligned a" "page_aligned e" "a \<le> e"
    and ent: "\<And>va. a \<le> va \<Longrightarrow> va < e \<Longrightarrow> bit (E (drop_bit 22 va)) 0 \<and>
      (\<forall>j<1024. j \<noteq> drop_bit 22 va \<and> bit (E j) 0 \<longrightarrow> page_of (E j) \<noteq> page_of (E (drop_bit 22 va)))"
    and T: "\<And>va. a \<le> va \<Longrightarrow> va < e \<Longrightarrow> page_of (E (drop_bit 22 va)) = T"
  shows "\<exists>m. identity_map_range pd a e s = Inr (s\<lparr>phys := m\<rparr>) \<and>
    stage pd E (W \<union> {a..<e}) G m \<and> (\<forall>p. page_of p \<noteq> T \<longrightarrow> m p = phys s p)"
proof -
  have E: "load32 (phys s) (pd + 4 * i) = E i" if "i < 1024" for i
    using assms(1) that by (simp add: stage_def)
  obtain m where m: "identity_map_range pd a e s = Inr (s\<lparr>phys := m\<rparr>)"
      "identity_mapped pd a e (phys s) m"
    using identity_map_range_present [OF off stage_clean [OF assms(1) pd] r] ent
    by (auto simp: pde_addr_def E exclusive_def)
  have "stage pd E (W \<union> {a..<e}) G m"
    using m(2) assms(1) by (auto simp: identity_mapped_def stage_def)
  moreover have "m p = phys s p" if "page_of p \<noteq> T" for p
    using m(2) T that unfolding identity_mapped_def by (force simp: pde_addr_def E)
  ultimately show ?thesis using m(1) by blast
qed

lemma identity_map_range_split:
  "page_aligned a \<Longrightarrow> page_aligned b \<Longrightarrow> a \<le> b \<Longrightarrow> b \<le> e \<Longrightarrow>
   identity_map_range pd a e s = and_then (identity_map_range pd a b s) (identity_map_range pd b e)"
proof (induction pd a b s rule: identity_map_range.induct)
  case (1 pd a b s)
  show ?case
  proof (cases "a < b")
    case False
    with "1.prems"(3) have "a = b" by simp
    then show ?thesis by (simp add: identity_map_range.simps [of pd b b])
  next
    case True
    then have ae: "a < e" using "1.prems"(4) by simp
    note step = page_step [OF "1.prems"(1,2) True]
    show ?thesis
    proof (cases "map_page pd a a s")
      case (Inr s')
      show ?thesis
        using "1.IH" [OF True Inr step(2) page_aligned_step [OF "1.prems"(1)] "1.prems"(2) step(3) "1.prems"(4)]
          True ae Inr step(2)
        by (simp add: identity_map_range.simps [of pd a])
    qed (simp add: identity_map_range.simps [of pd a] True ae)
  qed
qed

lemma memset_off:
  fixes s :: "'a mm_scheme"
  assumes "\<not> paging_on s"
  shows "\<exists>m. memset vstore8 p v n s = Inr (s\<lparr>phys := m\<rparr>) \<and>
    (\<forall>b. m b = (if b \<in> span p (unat n) then ucast v else phys s b))"
proof -
  obtain s' where s': "memset vstore8 p v n s = Inr s'" "same_but UNIV s s'"
      "\<forall>b. vview s' b = (if b \<in> span p (unat n) then ucast v else vview s b)"
    using vm.memset_ok [of UNIV s p n v] flat_off [OF assms] by auto
  have eq: "s' = s\<lparr>phys := phys s'\<rparr>" using s'(2) by (simp add: same_but_def)
  then have "\<not> paging_on s'" using assms by (metis paging_on_def machine.select_convs(3) machine.surjective machine.update_convs(2))
  then show ?thesis using s' eq assms by (auto simp: vview_off)
qed

lemma clear_directory_off:
  fixes s :: "'a mm_scheme"
  shows "\<not> paging_on s \<Longrightarrow> page_aligned (page_directory (syms s)) \<Longrightarrow> i + k \<le> 1024 \<Longrightarrow>
   \<exists>m. clear_directory k i s = Inr (s\<lparr>phys := m\<rparr>) \<and>
     (\<forall>j<1024. load32 m (page_directory (syms s) + 4 * j) =
        (if i \<le> unat j \<and> unat j < i + k then 2 else load32 (phys s) (page_directory (syms s) + 4 * j))) \<and>
     (\<forall>p. page_of p \<noteq> page_directory (syms s) \<longrightarrow> m p = phys s p)"
proof (induction k arbitrary: i s)
  case 0
  show ?case by (rule exI [of _ "phys s"]) auto
next
  case (Suc k)
  define pd where "pd = page_directory (syms s)"
  have pd: "page_aligned pd" using Suc.prems(2) by (simp add: pd_def)
  define m1 where "m1 = store32 (pd + 4 * word_of_nat i) 2 (phys s)"
  have i: "word_of_nat i < (1024 :: u32)" "unat (word_of_nat i :: u32) = i"
    using Suc.prems(3) by (simp_all add: word_less_nat_alt unat_of_nat)
  have 1: "vstore32 (pd + 4 * word_of_nat i) 2 s = Inr (s\<lparr>phys := m1\<rparr>)"
    using Suc.prems(1) unfolding m1_def by (intro vstore32_ident translate_off)
  have off: "\<not> paging_on (s\<lparr>phys := m1\<rparr>)" using Suc.prems(1) by (simp add: paging_on_def)
  from Suc.IH [OF off, of "Suc i"] Suc.prems(2,3) obtain m where
    m: "clear_directory k (Suc i) (s\<lparr>phys := m1\<rparr>) = Inr (s\<lparr>phys := m\<rparr>)"
      "\<forall>j<1024. load32 m (pd + 4 * j) =
        (if Suc i \<le> unat j \<and> unat j < Suc i + k then 2 else load32 m1 (pd + 4 * j))"
      "\<forall>p. page_of p \<noteq> pd \<longrightarrow> m p = m1 p" by (auto simp: pd_def)
  have "load32 m (pd + 4 * j) = (if i \<le> unat j \<and> unat j < i + Suc k then 2 else load32 (phys s) (pd + 4 * j))"
    if "j < 1024" for j
  proof -
    have "word_of_nat i = j \<longleftrightarrow> i = unat j" using i(2) by auto
    then show ?thesis
      using m(2) that pd i(1) by (auto simp: m1_def load_store_entry simp del: of_nat_Suc)
  qed
  moreover have "m p = phys s p" if "page_of p \<noteq> pd" for p
  proof -
    have "m1 p = phys s p" unfolding m1_def
      using entry_page [OF pd i(1)] that by (intro store32_elsewhere) auto
    then show ?thesis using m(3) that by simp
  qed
  ultimately show ?case using 1 m(1) by (auto simp flip: pd_def)
qed

lemma load32_zero: "(\<And>k. k \<le> 3 \<Longrightarrow> m (a + k) = 0) \<Longrightarrow> load32 m a = 0"
proof -
  assume z: "\<And>k. k \<le> 3 \<Longrightarrow> m (a + k) = 0"
  show ?thesis using z [of 0] z [of 1] z [of 2] z [of 3] by (simp add: load32_def)
qed

lemma bitmap_in_span:
  "in_kernel a n \<Longrightarrow> 4 * w \<le> n \<Longrightarrow> i < w \<Longrightarrow> k \<le> 3 \<Longrightarrow> a + 4 * word_of_nat i + k \<in> span a (4 * w)"
proof -
  assume a: "in_kernel a n" "4 * w \<le> n" "i < w" "k \<le> 3"
  have "unat (4 * word_of_nat i + k :: u32) = 4 * i + unat k"
    using a by (simp add: unat_word_ariths unat_of_nat in_kernel_def word_le_nat_alt)
  then show ?thesis
    using a by (simp add: span_def word_le_nat_alt add.assoc)
qed

lemma used_zero:
  assumes "in_kernel a n" "4 * w \<le> n" "\<And>b. b \<in> span a (4 * w) \<Longrightarrow> m b = 0"
  shows "used m a w = {}"
proof -
  have "bitmap_word m a i = 0" if "i < w" for i
    unfolding bitmap_word_def using bitmap_in_span [OF assms(1,2) that] assms(3) by (intro load32_zero) blast
  then show ?thesis by (auto simp: used_def bitmap_bit_def less_mult_imp_div_less mult.commute)
qed

section \<open>\<open>init_paging\<close>\<close>

definition kernel_address :: "u32 \<Rightarrow> bool" where
  "kernel_address a \<longleftrightarrow> KERNEL_START \<le> a \<and> a < KERNEL_END \<or> PAGE_TABLE_AREA_START \<le> a \<and> a < 0x800000 \<or>
     page_of a = 0xb8000"

definition first_entries :: "symbols \<Rightarrow> u32 \<Rightarrow> u32" where
  "first_entries sy i = (if i = 0 then first_page_table sy OR 3
     else if i = 1 then second_page_table sy OR 3 else 2)"

lemma bit_2_0 [simp]: "\<not> bit (2 :: u32) 0"
  by (simp add: bit_0)

lemma layout_aligned:
  "layout_ok sy \<Longrightarrow> page_aligned (page_directory sy) \<and> page_aligned (first_page_table sy) \<and>
     page_aligned (second_page_table sy)"
  by (simp add: layout_ok_def)

lemma entry_pages_first:
  "layout_ok sy \<Longrightarrow> entry_pages (first_entries sy) = {first_page_table sy, second_page_table sy}"
proof -
  assume l: "layout_ok sy"
  have "i < 1024 \<and> bit (first_entries sy i) 0 \<longleftrightarrow> i = 0 \<or> i = 1" for i
    by (auto simp: first_entries_def)
  then have "entry_pages (first_entries sy) = {page_of (first_entries sy i) | i. i = 0 \<or> i = 1}"
    unfolding entry_pages_def by (simp only: conj_assoc)
  also have "\<dots> = {page_of (first_entries sy 0), page_of (first_entries sy 1)}" by blast
  finally show ?thesis
    using layout_aligned [OF l] by (simp add: first_entries_def page_of_flags)
qed

text \<open>The directory with the two static tables: nothing translates, the tables being empty.\<close>

lemma first_stage:
  fixes s :: "'a mm_scheme"
  assumes off: "\<not> paging_on s" and l: "layout_ok (syms s)"
    and zero: "\<And>a. page_of a \<in> {first_page_table (syms s), second_page_table (syms s)} \<Longrightarrow> phys s a = 0"
  defines "pd \<equiv> page_directory (syms s)"
  shows "\<exists>m. and_then (clear_directory 1024 0 s) (\<lambda>t.
      and_then (vstore32 pd (first_page_table (syms s) OR 3) t)
        (vstore32 (pd + 4) (second_page_table (syms s) OR 3))) = Inr (s\<lparr>phys := m\<rparr>) \<and>
    stage pd (first_entries (syms s)) {} (\<lambda>_. None) m \<and> (\<forall>p. page_of p \<noteq> pd \<longrightarrow> m p = phys s p)"
proof -
  have pd: "page_aligned pd" using layout_aligned [OF l] by (simp add: pd_def)
  obtain m0 where m0: "clear_directory 1024 0 s = Inr (s\<lparr>phys := m0\<rparr>)"
    "\<forall>j<1024. load32 m0 (pd + 4 * j) = 2" "\<forall>p. page_of p \<noteq> pd \<longrightarrow> m0 p = phys s p"
    using clear_directory_off [OF off, of 0 1024] pd by (auto simp: pd_def word_less_nat_alt)
  define m1 where "m1 = store32 pd (first_page_table (syms s) OR 3) m0"
  define m2 where "m2 = store32 (pd + 4) (second_page_table (syms s) OR 3) m1"
  have st: "vstore32 a v (s\<lparr>phys := m\<rparr>) = Inr (s\<lparr>phys := store32 a v m\<rparr>)" for a v m
    using off vstore32_ident [of "s\<lparr>phys := m\<rparr>" a v] by (simp add: translate_off paging_on_def)
  have ent: "load32 m2 (pd + 4 * i) = first_entries (syms s) i" if "i < 1024" for i
    using load_store_entry [OF pd pd, of 0 i] load_store_entry [OF pd pd, of 1 i] that m0(2)
    by (auto simp: m2_def m1_def first_entries_def)
  have out: "m2 p = phys s p" if "page_of p \<noteq> pd" for p
  proof -
    have "p \<noteq> pd + 4 * i + k" if "i < 1024" "k \<le> 3" for i k
      using entry_page [OF pd that] \<open>page_of p \<noteq> pd\<close> by auto
    from this [of 0] this [of 1] show ?thesis
      using m0(3) that by (simp add: m2_def m1_def store32_elsewhere)
  qed
  have "walk m2 pd va = None" for va
  proof (rule ccontr)
    define pde where "pde = load32 m2 (pde_addr pd va)"
    assume "walk m2 pd va \<noteq> None"
    then have w: "bit pde 0" "bit (load32 m2 (pte_addr pde va)) 0"
      by (auto simp: walk_def Let_def pde_def split: if_splits)
    have "pde = first_entries (syms s) (drop_bit 22 va)" by (simp add: pde_def pde_addr_def ent)
    then have "page_of pde \<in> entry_pages (first_entries (syms s))"
      using w(1) unfolding entry_pages_def by auto
    then have t: "page_of pde \<in> {first_page_table (syms s), second_page_table (syms s)}"
      by (simp only: entry_pages_first [OF l])
    have "m2 (pte_addr pde va + k) = 0" if "k \<le> 3" for k
    proof -
      have "page_of (pte_addr pde va + k) = page_of pde"
        unfolding pte_addr_def using entry_page [OF page_aligned_page_of pt_index_less that] .
      moreover have "page_of pde \<noteq> pd" using t l by (auto simp: layout_ok_def pd_def)
      ultimately show ?thesis using out zero t by metis
    qed
    then have "load32 m2 (pte_addr pde va) = 0" by (intro load32_zero)
    with w(2) show False by simp
  qed
  then have "stage pd (first_entries (syms s)) {} (\<lambda>_. None) m2" using ent by (simp add: stage_def)
  moreover have "and_then (clear_directory 1024 0 s) (\<lambda>t.
      and_then (vstore32 pd (first_page_table (syms s) OR 3) t)
        (vstore32 (pd + 4) (second_page_table (syms s) OR 3))) = Inr (s\<lparr>phys := m2\<rparr>)"
    using m0(1) by (simp add: st m1_def m2_def)
  ultimately show ?thesis using out by blast
qed

text \<open>
  The first page behind the range of the second static table: a page table is allocated for it,
  the first of the area since the bitmap is zero at boot.
\<close>

definition grown_entries :: "symbols \<Rightarrow> u32 \<Rightarrow> u32" where
  "grown_entries sy = (first_entries sy)(2 := 0x500003)"

lemma layout_below: "layout_ok sy \<Longrightarrow> page_directory sy < 0x300000 \<and>
    first_page_table sy < 0x300000 \<and> second_page_table sy < 0x300000"
  by (auto simp: layout_ok_def in_kernel_def word_less_nat_alt)

lemma page_of_500003 [simp]: "page_of 0x500003 = 0x500000"
  by (simp add: page_of_def)

lemma entry_pages_grown:
  assumes "layout_ok sy"
  shows "entry_pages (grown_entries sy) = {first_page_table sy, second_page_table sy, 0x500000}"
proof -
  have "bit (0x500003 :: u32) 0" by (simp add: bit_0)
  then have "i < 1024 \<and> bit (grown_entries sy i) 0 \<longleftrightarrow> i = 0 \<or> i = 1 \<or> i = 2" for i
    by (auto simp: grown_entries_def first_entries_def)
  then have "entry_pages (grown_entries sy) = {page_of (grown_entries sy i) | i. i = 0 \<or> i = 1 \<or> i = 2}"
    unfolding entry_pages_def by (simp only: conj_assoc)
  also have "\<dots> = {page_of (grown_entries sy 0), page_of (grown_entries sy 1), page_of (grown_entries sy 2)}"
    by blast
  finally show ?thesis
    using layout_aligned [OF assms] by (simp add: grown_entries_def first_entries_def page_of_flags)
qed

lemma layout_tb_away:
  assumes "layout_ok sy" "page_aligned p"
    and "p \<in> {page_directory sy, first_page_table sy, second_page_table sy} \<or> 0x300000 \<le> p"
    and "b \<in> span (page_table_bitmap sy) 7392 \<or> b \<in> span (page_frame_bitmap sy) 7392"
  shows "page_of b \<noteq> p"
proof -
  have "page_of b \<noteq> p" if "0x300000 \<le> p" "b \<in> span a 7392" "in_kernel a 7392" for a
    using span_not_above [OF that(2,3) assms(2) that(1)] .
  moreover have "page_of b \<noteq> p" if "p \<in> {page_directory sy, first_page_table sy, second_page_table sy}"
    "b \<in> span a 7392" "in_kernel a 7392" "clear_of_tables sy a 7392" for a
    using span_not_page [OF that(2) _ that(3) assms(2)] that(1,4) by (auto simp: clear_of_tables_def)
  ultimately show ?thesis using assms(1,3,4) unfolding layout_ok_def by blast
qed

lemma table_bitmap_span: "layout_ok sy \<Longrightarrow> i < 32 \<Longrightarrow> k \<le> 3 \<Longrightarrow>
   page_table_bitmap sy + 4 * word_of_nat i + k \<in> span (page_table_bitmap sy) 128"
  using bitmap_in_span [of "page_table_bitmap sy" 7392 32 i k] by (simp add: layout_ok_def)

lemma away_layout:
  assumes "layout_ok sy"
    and "\<And>p. p \<in> T \<Longrightarrow> page_aligned p \<and>
      (p \<in> {page_directory sy, first_page_table sy, second_page_table sy} \<or> 0x300000 \<le> p)"
  shows "away (page_table_bitmap sy) 32 T"
  unfolding away_def
proof (intro allI impI notI)
  fix i :: nat and k :: u32
  assume ik: "i < 32" "k \<le> 3"
  assume p: "page_of (page_table_bitmap sy + 4 * word_of_nat i + k) \<in> T"
  have "page_table_bitmap sy + 4 * word_of_nat i + k \<in> span (page_table_bitmap sy) 7392"
    using table_bitmap_span [OF assms(1) ik] span_mono [of 128 7392] by auto
  with layout_tb_away [OF assms(1)] assms(2) [OF p] show False by blast
qed

text \<open>That page is not cleared: what it holds decides the translation of the rest of 8 MB to 12 MB.\<close>

definition table_leftover :: "(u32 \<Rightarrow> u8) \<Rightarrow> u32 \<Rightarrow> u32 option" where
  "table_leftover m a = (if drop_bit 22 a = 2 then leftover m 0x500000 a else None)"

lemma table_leftover_agree:
  assumes "\<And>b. page_of b = 0x500000 \<Longrightarrow> m' b = m b"
  shows "table_leftover m' = table_leftover m"
proof
  fix a
  have "leftover m' 0x500000 a = leftover m 0x500000 a" by (rule leftover_agree [OF _ assms]) (simp_all add: page_aligned_def)
  then show "table_leftover m' a = table_leftover m a" by (simp add: table_leftover_def)
qed

lemma second_stage:
  fixes s :: "'a mm_scheme"
  assumes off: "\<not> paging_on s" and l: "layout_ok (syms s)"
    and zero: "\<And>b. b \<in> span (page_table_bitmap (syms s)) 128 \<Longrightarrow> phys s b = 0"
    and st: "stage (page_directory (syms s)) (first_entries (syms s)) W (\<lambda>_. None) (phys s)"
    and W: "\<And>va. va \<in> W \<Longrightarrow> drop_bit 22 va \<noteq> 2"
  defines "pd \<equiv> page_directory (syms s)"
  shows "\<exists>d m. map_page pd 0x800000 0x800000 s = Inr (s\<lparr>dev := d, phys := m\<rparr>) \<and>
    stage pd (grown_entries (syms s)) (W \<union> {0x800000..<0x801000}) (table_leftover (phys s)) m \<and>
    (\<forall>p. page_of p \<notin> {pd, 0x500000} \<and> p \<notin> span (page_table_bitmap (syms s)) 128 \<longrightarrow> m p = phys s p)"
proof -
  define tb where "tb = page_table_bitmap (syms s)"
  define va :: u32 where "va = 0x800000"
  have va: "page_aligned va" "drop_bit 22 va = 2" by (simp_all add: va_def page_aligned_def drop_bit_eq_div)
  have pd: "page_aligned pd" "pd \<noteq> 0x500000" "0x500000 \<notin> {first_page_table (syms s), second_page_table (syms s)}"
    "pd \<notin> {first_page_table (syms s), second_page_table (syms s)}"
    using layout_aligned [OF l] layout_below [OF l] l by (auto simp: pd_def layout_ok_def)
  have cd: "clean_dir (phys s) pd"
    using stage_clean [OF st] pd unfolding pd_def by (simp add: entry_pages_first [OF l])
  have dir: "directory pd UNIV s" using off cd by (simp add: directory_def ident_pages_off)
  have E: "load32 (phys s) (pd + 4 * i) = first_entries (syms s) i" if "i < 1024" for i
    using st that by (simp add: stage_def pd_def)
  have tbk: "in_kernel tb 7392" using l by (simp add: layout_ok_def tb_def)
  have used: "used (phys s) tb 32 = {}"
    using zero by (intro used_zero [OF tbk]) (simp_all add: tb_def)
  have ok: "bitmap_ok tb 32 s"
    using l off by (simp add: bitmap_ok_def layout_ok_def tb_def translate_off)
  define ma where "ma = mark (phys s) tb 0"
  define mb where "mb = store32 (pde_addr pd va) 0x500003 ma"
  define mc where "mc = store32 (pte_addr 0x500000 va) (va OR 3) mb"
  have away: "away tb 32 {pd}" unfolding tb_def pd_def using layout_aligned [OF l] by (intro away_layout [OF l]) simp
  have or3: "(0x500000 OR 3 :: u32) = 0x500003" by simp
  have ex: "\<exists>k. k < (1024 :: nat)" by (rule exI [of _ 0]) simp
  have m: "\<exists>d. map_page pd va va s = Inr (s\<lparr>dev := d, phys := mc\<rparr>)"
    using map_page_fresh [OF dir va(1,1)] E [of 2] va(2) pd(2) off ok away used ex
    by (simp add: tb_def mc_def mb_def ma_def or3 pde_addr_def page_aligned_def first_entries_def)
  have outa: "ma p = phys s p" if "p \<notin> span tb 128" for p
    unfolding ma_def mark_def
  proof (rule store32_elsewhere)
    fix k :: u32 assume "k \<le> 3"
    then show "p \<noteq> tb + 4 * word_of_nat (0 div 32) + k"
      using table_bitmap_span [OF l, of 0 k] that by (auto simp: tb_def)
  qed
  have spanT: "page_of p \<noteq> q" if "p \<in> span tb 128" "q \<in> insert pd (entry_pages (first_entries (syms s)))" for p q
  proof -
    have "p \<in> span (page_table_bitmap (syms s)) 7392"
      using that(1) span_mono [of 128 7392 tb] by (auto simp: tb_def)
    moreover have "page_aligned q \<and> q \<in> {page_directory (syms s), first_page_table (syms s), second_page_table (syms s)}"
      using that(2) layout_aligned [OF l] by (auto simp: entry_pages_first [OF l] pd_def)
    ultimately show ?thesis using layout_tb_away [OF l] by blast
  qed
  have sta: "stage pd (first_entries (syms s)) W (\<lambda>_. None) ma"
  proof (rule stage_agree)
    show "stage pd (first_entries (syms s)) W (\<lambda>_. None) (phys s)" unfolding pd_def by (rule st)
    show "ma a = phys s a" if "page_of a \<in> insert pd (entry_pages (first_entries (syms s)))" for a
      using outa spanT that by blast
  qed (rule pd(1))
  have cda: "clean_dir ma pd" using stage_clean [OF sta pd(1)] pd by (simp add: entry_pages_first [OF l])
  have new: "0x500000 \<notin> table_pages ma pd" using stage_table_pages [OF sta] pd(2,3) by (auto simp: entry_pages_first [OF l])
  have t: "page_aligned 0x500000" by (simp add: page_aligned_def)
  have left: "leftover ma 0x500000 a = leftover (phys s) 0x500000 a" for a
  proof (rule leftover_agree [OF t])
    fix b assume b: "page_of b = 0x500000"
    have "b \<notin> span tb 128"
    proof
      assume "b \<in> span tb 128"
      then have "b \<in> span tb 7392" using span_mono [of 128 7392 tb] by auto
      then show False using span_not_above [OF _ tbk t] b by simp
    qed
    then show "ma b = phys s b" by (rule outa)
  qed
  have wc: "walk mc pd a = (if page_of a = va then Some (va OR offset_of a) else if drop_bit 22 a = 2 then leftover (phys s) 0x500000 a else walk ma pd a)" for a
    using walk_new_table [OF cda va(1,1) t new, of a] va(2) by (simp add: mc_def mb_def or3 left)
  have Eb: "load32 mb (pd + 4 * i) = grown_entries (syms s) i" if "i < 1024" for i
    using load_store_entry [OF pd(1,1) pd_index_less that, of va "0x500003" ma] sta that va(2)
    by (auto simp: mb_def pde_addr_def stage_def grown_entries_def)
  have cdb: "clean_dir mb pd"
    unfolding mb_def pde_addr_def using pd(2) by (intro clean_dir_set_pde [OF cda]) auto
  have pdeb: "load32 mb (pde_addr pd va) = 0x500003"
    using Eb [of 2] va(2) by (simp add: pde_addr_def grown_entries_def)
  have pres: "bit (load32 mb (pde_addr pd va)) 0" by (simp add: pdeb bit_0)
  have Ec: "load32 mc (pd + 4 * i) = grown_entries (syms s) i" if "i < 1024" for i
    using store_pte_keeps(1) [OF cdb pres that] Eb [OF that] by (simp add: mc_def pdeb pte_addr_def page_of_def)
  have pr: "page_of a = va \<longleftrightarrow> a \<in> {0x800000..<0x801000}" for a
    using page_range [OF va(1), of a] by (simp add: va_def word_le_nat_alt word_less_nat_alt)
  have "stage pd (grown_entries (syms s)) (W \<union> {0x800000..<0x801000}) (table_leftover (phys s)) mc"
    unfolding stage_def
  proof (intro conjI allI impI ballI)
    show "load32 mc (pd + 4 * i) = grown_entries (syms s) i" if "i < 1024" for i by (rule Ec [OF that])
    show "walk mc pd a = Some a" if "a \<in> W \<union> {0x800000..<0x801000}" for a
    proof (cases "page_of a = va")
      case True then show ?thesis using wc [of a] page_or_offset [of a va] by simp
    next
      case False
      then have "a \<in> W" using that pr by blast
      then show ?thesis using wc [of a] False W sta by (simp add: stage_def)
    qed
    show "walk mc pd a = table_leftover (phys s) a" if "a \<notin> W \<union> {0x800000..<0x801000}" for a
      using that wc [of a] pr [of a] sta by (auto simp: stage_def table_leftover_def)
  qed
  moreover have "mc p = phys s p" if "page_of p \<notin> {pd, 0x500000}" "p \<notin> span tb 128" for p
  proof -
    have "p \<noteq> pte_addr 0x500000 va + k" "p \<noteq> pde_addr pd va + k" if "k \<le> 3" for k
      using entry_page [OF pd(1) pd_index_less that, of va]
        entry_page [OF page_aligned_page_of pt_index_less that, of "0x500000" "drop_bit 12 va"]
        \<open>page_of p \<notin> _\<close>
      by (auto simp: pte_addr_def pde_addr_def page_of_def)
    then show ?thesis
      using outa [OF that(2)] by (simp add: mc_def mb_def store32_elsewhere)
  qed
  ultimately show ?thesis using m by (auto simp: tb_def va_def)
qed

text \<open>The range and the two bitmaps, in terms of stages.\<close>

lemma dir_index: "unat (drop_bit 22 va) = unat va div 4194304" for va :: u32
  by (simp add: drop_bit_eq_div unat_div)

lemma dir_index_eq:
  "k * 4194304 \<le> unat va \<Longrightarrow> unat va < Suc k * 4194304 \<Longrightarrow> k < 1024 \<Longrightarrow> drop_bit 22 va = (word_of_nat k :: u32)"
  by (simp add: word_unat_eq_iff dir_index unat_of_nat div_nat_eqI)

lemma entry_present:
  "bit (first_entries sy i) 0 \<longleftrightarrow> i = 0 \<or> i = 1"
  "bit (grown_entries sy i) 0 \<longleftrightarrow> i = 0 \<or> i = 1 \<or> i = 2"
  by (auto simp: first_entries_def grown_entries_def bit_0 [of "0x500003"])

lemma entry_tables:
  assumes "layout_ok sy"
  shows "page_of (first_entries sy 0) = first_page_table sy" "page_of (first_entries sy 1) = second_page_table sy"
    "page_of (grown_entries sy 0) = first_page_table sy" "page_of (grown_entries sy 1) = second_page_table sy"
    "page_of (grown_entries sy 2) = 0x500000"
  using layout_aligned [OF assms] by (simp_all add: first_entries_def grown_entries_def page_of_flags)

lemma entries_exclusive:
  assumes "layout_ok sy" "E = first_entries sy \<or> E = grown_entries sy"
    and "bit (E i) 0" "bit (E j) 0" "j \<noteq> i"
  shows "page_of (E j) \<noteq> page_of (E i)"
proof -
  have "first_page_table sy \<noteq> second_page_table sy" "first_page_table sy \<noteq> 0x500000"
    "second_page_table sy \<noteq> 0x500000"
    using assms(1) layout_below [OF assms(1)] by (auto simp: layout_ok_def)
  then show ?thesis
    using assms(2-5) entry_tables [OF assms(1)] by (auto simp: entry_present)
qed

lemma stage_range_table:
  fixes s :: "'a mm_scheme"
  assumes st: "stage (page_directory (syms s)) E W G (phys s)" and off: "\<not> paging_on s"
    and l: "layout_ok (syms s)" and E: "E = first_entries (syms s) \<or> E = grown_entries (syms s)"
    and r: "page_aligned a" "page_aligned e" "a \<le> e"
    and idx: "k < 3" "k * 4194304 \<le> unat a" "unat e \<le> Suc k * 4194304" "k = 2 \<longrightarrow> E = grown_entries (syms s)"
  shows "\<exists>m. identity_map_range (page_directory (syms s)) a e s = Inr (s\<lparr>phys := m\<rparr>) \<and>
    stage (page_directory (syms s)) E (W \<union> {a..<e}) G m \<and>
    (\<forall>p. page_of p \<noteq> page_of (E (word_of_nat k)) \<longrightarrow> m p = phys s p)"
proof (rule stage_range [OF st off])
  show "page_aligned (page_directory (syms s))" using layout_aligned [OF l] by simp
  show "page_directory (syms s) \<notin> entry_pages E"
    using E l layout_below [OF l] by (auto simp: entry_pages_first entry_pages_grown layout_ok_def)
  show "page_aligned a" "page_aligned e" "a \<le> e" by (rule r)+
  fix va assume va: "a \<le> va" "va < e"
  have i: "drop_bit 22 va = word_of_nat k"
    using va idx by (intro dir_index_eq) (auto simp: word_le_nat_alt word_less_nat_alt)
  then show "page_of (E (drop_bit 22 va)) = page_of (E (word_of_nat k))" by simp
  have "k = 0 \<or> k = 1 \<or> k = 2" using idx(1) by auto
  then have "bit (E (drop_bit 22 va)) 0" unfolding i using E idx(4) by (auto simp: entry_present)
  then show "bit (E (drop_bit 22 va)) 0 \<and> (\<forall>j<1024. j \<noteq> drop_bit 22 va \<and> bit (E j) 0 \<longrightarrow>
      page_of (E j) \<noteq> page_of (E (drop_bit 22 va)))"
    using entries_exclusive [OF l E] by blast
qed

lemma stage_memset:
  fixes s :: "'a mm_scheme"
  assumes st: "stage (page_directory (syms s)) E W G (phys s)" and off: "\<not> paging_on s"
    and l: "layout_ok (syms s)" and E: "E = first_entries (syms s) \<or> E = grown_entries (syms s)"
    and b: "b = page_frame_bitmap (syms s) \<or> b = page_table_bitmap (syms s)"
  shows "\<exists>m. memset vstore8 b 0 (4 * word_of_nat PAGE_FRAME_BITMAP_SIZE) s = Inr (s\<lparr>phys := m\<rparr>) \<and>
    stage (page_directory (syms s)) E W G m \<and>
    (\<forall>p. m p = (if p \<in> span b 7392 then 0 else phys s p))"
proof -
  have "unat (4 * word_of_nat PAGE_FRAME_BITMAP_SIZE :: u32) = 7392" by simp
  then obtain m where m: "memset vstore8 b 0 (4 * word_of_nat PAGE_FRAME_BITMAP_SIZE) s = Inr (s\<lparr>phys := m\<rparr>)"
    "\<forall>p. m p = (if p \<in> span b 7392 then 0 else phys s p)"
    using memset_off [OF off, of b 0 "4 * word_of_nat PAGE_FRAME_BITMAP_SIZE"] by auto
  have "stage (page_directory (syms s)) E W G m"
  proof (rule stage_agree [OF st])
    show "page_aligned (page_directory (syms s))" using layout_aligned [OF l] by simp
    fix p assume p: "page_of p \<in> insert (page_directory (syms s)) (entry_pages E)"
    then have "page_of p \<in> {page_directory (syms s), first_page_table (syms s), second_page_table (syms s)} \<or>
        0x300000 \<le> page_of p"
      using E by (auto simp: entry_pages_first [OF l] entry_pages_grown [OF l])
    then have "p \<notin> span b 7392" using layout_tb_away [OF l page_aligned_page_of] b by blast
    then show "m p = phys s p" using m(2) by simp
  qed
  then show ?thesis using m by blast
qed

lemma identity_map_range_page:
  "a < a + PAGE_SIZE \<Longrightarrow> identity_map_range pd a (a + PAGE_SIZE) s = map_page pd a a s"
  by (cases "map_page pd a a s") (auto simp: identity_map_range.simps)

text \<open>The same facts with the resulting state named, so that they chain.\<close>

definition booting :: "symbols \<Rightarrow> 'a mm_scheme \<Rightarrow> bool" where
  "booting sy s \<longleftrightarrow> \<not> paging_on s \<and> syms s = sy \<and> layout_ok sy"

lemma booting_mem_only: "booting sy s \<Longrightarrow> mem_only s s' \<Longrightarrow> booting sy s'"
  by (simp add: booting_def paging_on_def mem_only_same mem_only_mm)

lemma named_result: "\<exists>m. r = Inr (s\<lparr>phys := m\<rparr>) \<and> P m \<Longrightarrow> \<exists>s'. r = Inr s' \<and> mem_only s s' \<and> P (phys s')"
  by (auto simp: mem_only_def)

lemma boot_range:
  assumes b: "booting sy s" and st: "stage (page_directory sy) E W G (phys s)"
    and E: "E = first_entries sy \<or> E = grown_entries sy"
    and r: "page_aligned a" "page_aligned e" "a \<le> e"
    and idx: "k < 3" "k * 4194304 \<le> unat a" "unat e \<le> Suc k * 4194304" "k = 2 \<longrightarrow> E = grown_entries sy"
  shows "\<exists>s'. identity_map_range (page_directory sy) a e s = Inr s' \<and> mem_only s s' \<and>
    stage (page_directory sy) E (W \<union> {a..<e}) G (phys s') \<and>
    (\<forall>p. page_of p \<noteq> page_of (E (word_of_nat k)) \<longrightarrow> phys s' p = phys s p)"
proof -
  have eq: "syms s = sy" and off: "\<not> paging_on s" and l: "layout_ok (syms s)"
    using b by (auto simp: booting_def)
  show ?thesis
    using named_result [OF stage_range_table [of s E W G a e k, unfolded eq,
      OF st off l [unfolded eq] E r idx]] .
qed

lemma boot_memset:
  assumes b: "booting sy s" and st: "stage (page_directory sy) E W G (phys s)"
    and E: "E = first_entries sy \<or> E = grown_entries sy"
    and p: "p = page_frame_bitmap sy \<or> p = page_table_bitmap sy"
  shows "\<exists>s'. memset vstore8 p 0 (4 * word_of_nat PAGE_FRAME_BITMAP_SIZE) s = Inr s' \<and> mem_only s s' \<and>
    stage (page_directory sy) E W G (phys s') \<and>
    (\<forall>b. phys s' b = (if b \<in> span p 7392 then 0 else phys s b))"
proof -
  have eq: "syms s = sy" and off: "\<not> paging_on s" and l: "layout_ok (syms s)"
    using b by (auto simp: booting_def)
  show ?thesis
    using named_result [OF stage_memset [of s E W G p, unfolded eq, OF st off l [unfolded eq] E p]] .
qed

lemma boot_new_table:
  assumes b: "booting sy s" and st: "stage (page_directory sy) (first_entries sy) W (\<lambda>_. None) (phys s)"
    and zero: "\<And>b. b \<in> span (page_table_bitmap sy) 128 \<Longrightarrow> phys s b = 0"
    and W: "\<And>va. va \<in> W \<Longrightarrow> drop_bit 22 va \<noteq> 2"
  shows "\<exists>s'. map_page (page_directory sy) 0x800000 0x800000 s = Inr s' \<and> mem_only s s' \<and>
    stage (page_directory sy) (grown_entries sy) (W \<union> {0x800000..<0x801000}) (table_leftover (phys s)) (phys s') \<and>
    (\<forall>p. page_of p \<notin> {page_directory sy, 0x500000} \<and> p \<notin> span (page_table_bitmap sy) 128 \<longrightarrow>
       phys s' p = phys s p)"
proof -
  have eq: "syms s = sy" and off: "\<not> paging_on s" and l: "layout_ok (syms s)"
    using b by (auto simp: booting_def)
  have "\<exists>d m. map_page (page_directory sy) 0x800000 0x800000 s = Inr (s\<lparr>dev := d, phys := m\<rparr>) \<and>
    stage (page_directory sy) (grown_entries sy) (W \<union> {0x800000..<0x801000}) (table_leftover (phys s)) m \<and>
    (\<forall>p. page_of p \<notin> {page_directory sy, 0x500000} \<and> p \<notin> span (page_table_bitmap sy) 128 \<longrightarrow> m p = phys s p)"
    by (rule second_stage [of s, unfolded eq, OF off l [unfolded eq] zero st W])
  then show ?thesis by (auto simp: mem_only_def)
qed

definition mapped_at_boot :: "u32 set" where
  "mapped_at_boot = {KERNEL_START..<KERNEL_END} \<union> {PAGE_TABLE_AREA_START..<0x800000} \<union> {0x800000..<0x801000} \<union>
     {0x801000..<PAGE_TABLE_AREA_END} \<union> {0xb8000..<0xb9000}"

lemma boot_table_area:
  assumes b: "booting sy s"
    and st: "stage (page_directory sy) (first_entries sy) {KERNEL_START..<KERNEL_END} (\<lambda>_. None) (phys s)"
    and zero: "\<And>b. b \<in> span (page_table_bitmap sy) 128 \<Longrightarrow> phys s b = 0"
  shows "\<exists>s'. identity_map_range (page_directory sy) PAGE_TABLE_AREA_START PAGE_TABLE_AREA_END s = Inr s' \<and>
    mem_only s s' \<and> stage (page_directory sy) (grown_entries sy)
      ({KERNEL_START..<KERNEL_END} \<union> {PAGE_TABLE_AREA_START..<0x800000} \<union> {0x800000..<0x801000} \<union>
       {0x801000..<PAGE_TABLE_AREA_END}) (table_leftover (phys s)) (phys s') \<and>
    (\<forall>p. page_of p \<notin> {page_directory sy, second_page_table sy, 0x500000} \<and>
       p \<notin> span (page_table_bitmap sy) 128 \<longrightarrow> phys s' p = phys s p)"
proof -
  let ?pd = "page_directory sy"
  have l: "layout_ok sy" using b by (simp add: booting_def)
  obtain s1 where s1: "identity_map_range ?pd PAGE_TABLE_AREA_START 0x800000 s = Inr s1" "mem_only s s1"
    "stage ?pd (first_entries sy) ({KERNEL_START..<KERNEL_END} \<union> {PAGE_TABLE_AREA_START..<0x800000}) (\<lambda>_. None) (phys s1)"
    "\<forall>p. page_of p \<noteq> second_page_table sy \<longrightarrow> phys s1 p = phys s p"
    using boot_range [OF b st, of PAGE_TABLE_AREA_START "0x800000" 1] entry_tables(2) [OF l]
    by (auto simp: page_aligned_def)
  have b1: "booting sy s1" by (rule booting_mem_only [OF b s1(2)])
  have tbz: "phys s1 b = 0" if "b \<in> span (page_table_bitmap sy) 128" for b
  proof -
    have "b \<in> span (page_table_bitmap sy) 7392" using that span_mono [of 128 7392] by auto
    then have "page_of b \<noteq> second_page_table sy"
      using layout_tb_away [OF l, of _ b] layout_aligned [OF l] by blast
    then show ?thesis using s1(4) zero [OF that] by simp
  qed
  have W: "drop_bit 22 va \<noteq> 2" if "va \<in> {KERNEL_START..<KERNEL_END} \<union> {PAGE_TABLE_AREA_START..<0x800000}"
    for va :: u32
  proof -
    have "unat va < 0x800000" using that by (auto simp: word_le_nat_alt word_less_nat_alt)
    then have "unat (drop_bit 22 va) < 2" by (simp add: dir_index less_mult_imp_div_less)
    then show ?thesis by auto
  qed
  obtain s2 where s2: "map_page ?pd 0x800000 0x800000 s1 = Inr s2" "mem_only s1 s2"
    "stage ?pd (grown_entries sy) ({KERNEL_START..<KERNEL_END} \<union> {PAGE_TABLE_AREA_START..<0x800000} \<union>
       {0x800000..<0x801000}) (table_leftover (phys s1)) (phys s2)"
    "\<forall>p. page_of p \<notin> {?pd, 0x500000} \<and> p \<notin> span (page_table_bitmap sy) 128 \<longrightarrow> phys s2 p = phys s1 p"
    using boot_new_table [OF b1 s1(3) tbz W] by blast
  have b2: "booting sy s2" by (rule booting_mem_only [OF b1 s2(2)])
  obtain s3 where s3: "identity_map_range ?pd 0x801000 PAGE_TABLE_AREA_END s2 = Inr s3" "mem_only s2 s3"
    "stage ?pd (grown_entries sy) ({KERNEL_START..<KERNEL_END} \<union> {PAGE_TABLE_AREA_START..<0x800000} \<union>
       {0x800000..<0x801000} \<union> {0x801000..<PAGE_TABLE_AREA_END}) (table_leftover (phys s1)) (phys s3)"
    "\<forall>p. page_of p \<noteq> 0x500000 \<longrightarrow> phys s3 p = phys s2 p"
    using boot_range [OF b2 s2(3), of "0x801000" PAGE_TABLE_AREA_END 2] entry_tables(5) [OF l]
    by (auto simp: page_aligned_def)
  have left: "table_leftover (phys s1) = table_leftover (phys s)"
  proof (rule table_leftover_agree)
    fix b assume "page_of b = 0x500000"
    moreover have "second_page_table sy \<noteq> 0x500000" using layout_below [OF l] by auto
    ultimately show "phys s1 b = phys s b" using s1(4) by simp
  qed
  have "identity_map_range ?pd PAGE_TABLE_AREA_START PAGE_TABLE_AREA_END s =
      and_then (identity_map_range ?pd PAGE_TABLE_AREA_START 0x800000 s)
        (identity_map_range ?pd 0x800000 PAGE_TABLE_AREA_END)"
    by (rule identity_map_range_split) (simp_all add: page_aligned_def)
  moreover have "identity_map_range ?pd 0x800000 PAGE_TABLE_AREA_END s1 = Inr s3"
    using s2(1) s3(1) by (simp add: identity_map_range.simps [of _ "0x800000"])
  ultimately have "identity_map_range ?pd PAGE_TABLE_AREA_START PAGE_TABLE_AREA_END s = Inr s3"
    using s1(1) by simp
  moreover have "mem_only s s3" using s1(2) s2(2) s3(2) mem_only_trans by blast
  ultimately show ?thesis using s1(4) s2(4) s3(3,4) unfolding left by auto
qed

lemma span_bitmaps:
  assumes "layout_ok sy" "b \<in> span (page_frame_bitmap sy) 7392 \<or> b \<in> span (page_table_bitmap sy) 7392"
  shows "page_of b \<notin> {page_directory sy, first_page_table sy, second_page_table sy, 0x500000}"
  using layout_tb_away [OF assms(1) page_aligned_page_of, of b b] assms(2) by auto

lemma mem_only_clear_directory: "clear_directory k i s = Inr s' \<Longrightarrow> mem_only s s'"
  by (induction k arbitrary: i s) (auto simp: result_simps intro: mem_only_trans mem_only_vstore)

lemma init_paging_stage:
  fixes s :: "'a mm_scheme"
  assumes off: "\<not> paging_on s" and l: "layout_ok (syms s)"
    and zt: "\<And>a. page_of a \<in> {first_page_table (syms s), second_page_table (syms s)} \<Longrightarrow> phys s a = 0"
    and zb: "\<And>b. b \<in> span (page_table_bitmap (syms s)) 128 \<Longrightarrow> phys s b = 0"
  shows "\<exists>d m. init_paging s = Inr (s\<lparr>dev := d, phys := m, cr0 := cr0 s OR 0x80000000,
      cr3 := page_directory (syms s), interrupt_handlers := (interrupt_handlers s)(14 := Some Page_fault_handler),
      heap_current := HEAP_ALLOCATOR_AREA_START, heap_mapped := HEAP_ALLOCATOR_AREA_START\<rparr>) \<and>
    stage (page_directory (syms s)) (grown_entries (syms s)) mapped_at_boot (table_leftover (phys s)) m \<and>
    (\<forall>b. b \<in> span (page_frame_bitmap (syms s)) 7392 \<union> span (page_table_bitmap (syms s)) 128 \<longrightarrow> m b = 0)"
proof -
  define sy where "sy = syms s"
  let ?pd = "page_directory sy"
  define s0 where "s0 = register_interrupt_handler 14 Page_fault_handler
    (mlog ''%x\<newline>'' [Num 1848] s)"
  obtain d0 where s0: "s0 = s\<lparr>dev := d0, interrupt_handlers := (interrupt_handlers s)(14 := Some Page_fault_handler)\<rparr>"
    using that [of "dev s0"] by (simp add: s0_def register_interrupt_handler_def Let_def mlog_def)
  have b0: "booting sy s0" using off l by (simp add: booting_def s0 paging_on_def sy_def)
  have l: "layout_ok sy" using l by (simp add: sy_def)
  obtain s1 where s1: "and_then (clear_directory 1024 0 s0) (\<lambda>t.
      and_then (vstore32 ?pd (first_page_table sy OR 3) t)
        (vstore32 (?pd + 4) (second_page_table sy OR 3))) = Inr s1" "mem_only s0 s1"
    "stage ?pd (first_entries sy) {} (\<lambda>_. None) (phys s1)" "\<forall>p. page_of p \<noteq> ?pd \<longrightarrow> phys s1 p = phys s0 p"
    using named_result [OF first_stage [of s0]] b0 zt by (auto simp: booting_def s0 sy_def)
  have b1: "booting sy s1" by (rule booting_mem_only [OF b0 s1(2)])
  obtain s2 where s2: "identity_map_range ?pd KERNEL_START KERNEL_END s1 = Inr s2" "mem_only s1 s2"
    "stage ?pd (first_entries sy) {KERNEL_START..<KERNEL_END} (\<lambda>_. None) (phys s2)"
    "\<forall>p. page_of p \<noteq> first_page_table sy \<longrightarrow> phys s2 p = phys s1 p"
    using boot_range [OF b1 s1(3), of KERNEL_START KERNEL_END 0] entry_tables(1) [OF l]
    by (auto simp: page_aligned_def)
  have b2: "booting sy s2" by (rule booting_mem_only [OF b1 s2(2)])
  obtain s3 where s3: "memset vstore8 (page_frame_bitmap sy) 0 (4 * word_of_nat PAGE_FRAME_BITMAP_SIZE) s2 = Inr s3"
    "mem_only s2 s3" "stage ?pd (first_entries sy) {KERNEL_START..<KERNEL_END} (\<lambda>_. None) (phys s3)"
    "\<forall>b. phys s3 b = (if b \<in> span (page_frame_bitmap sy) 7392 then 0 else phys s2 b)"
    using boot_memset [OF b2 s2(3)] by blast
  have b3: "booting sy s3" by (rule booting_mem_only [OF b2 s3(2)])
  have tbz: "phys s3 b = 0" if "b \<in> span (page_table_bitmap sy) 128" for b
  proof -
    have "b \<in> span (page_table_bitmap sy) 7392" using that span_mono [of 128 7392] by auto
    then show ?thesis
      using span_bitmaps [OF l, of b] s1(4) s2(4) s3(4) zb that by (simp add: s0 sy_def)
  qed
  have left: "table_leftover (phys s3) = table_leftover (phys s)"
  proof (rule table_leftover_agree)
    fix b assume b: "page_of b = 0x500000"
    then have "b \<notin> span (page_frame_bitmap sy) 7392" using span_bitmaps [OF l, of b] by auto
    moreover have "page_directory sy \<noteq> 0x500000" "first_page_table sy \<noteq> 0x500000" using layout_below [OF l] by auto
    ultimately show "phys s3 b = phys s b" using b s1(4) s2(4) s3(4) by (simp add: s0)
  qed
  obtain s4 where s4: "identity_map_range ?pd PAGE_TABLE_AREA_START PAGE_TABLE_AREA_END s3 = Inr s4"
    "mem_only s3 s4" "stage ?pd (grown_entries sy)
      ({KERNEL_START..<KERNEL_END} \<union> {PAGE_TABLE_AREA_START..<0x800000} \<union> {0x800000..<0x801000} \<union>
       {0x801000..<PAGE_TABLE_AREA_END}) (table_leftover (phys s3)) (phys s4)"
    "\<forall>p. page_of p \<notin> {?pd, second_page_table sy, 0x500000} \<and> p \<notin> span (page_table_bitmap sy) 128
       \<longrightarrow> phys s4 p = phys s3 p"
    using boot_table_area [OF b3 s3(3) tbz] by blast
  have b4: "booting sy s4" by (rule booting_mem_only [OF b3 s4(2)])
  obtain s5 where s5: "memset vstore8 (page_table_bitmap sy) 0 (4 * word_of_nat PAGE_FRAME_BITMAP_SIZE) s4 = Inr s5"
    "mem_only s4 s5" "stage ?pd (grown_entries sy)
      ({KERNEL_START..<KERNEL_END} \<union> {PAGE_TABLE_AREA_START..<0x800000} \<union> {0x800000..<0x801000} \<union>
       {0x801000..<PAGE_TABLE_AREA_END}) (table_leftover (phys s3)) (phys s5)"
    "\<forall>b. phys s5 b = (if b \<in> span (page_table_bitmap sy) 7392 then 0 else phys s4 b)"
    using boot_memset [OF b4 s4(3)] by blast
  define s6 where "s6 = s5\<lparr>heap_current := HEAP_ALLOCATOR_AREA_START, heap_mapped := HEAP_ALLOCATOR_AREA_START\<rparr>"
  have b6: "booting sy s6"
    using booting_mem_only [OF b4 s5(2)] by (simp add: booting_def s6_def paging_on_def)
  have p6: "phys s6 = phys s5" by (simp add: s6_def)
  obtain s7 where s7: "identity_map_range ?pd 0xb8000 0xb9000 s6 = Inr s7" "mem_only s6 s7"
    "stage ?pd (grown_entries sy) mapped_at_boot (table_leftover (phys s3)) (phys s7)"
    "\<forall>p. page_of p \<noteq> first_page_table sy \<longrightarrow> phys s7 p = phys s6 p"
    using boot_range [OF b6 s5(3) [folded p6], of "0xb8000" "0xb9000" 0] entry_tables(3) [OF l]
    by (auto simp: page_aligned_def mapped_at_boot_def)
  have "map_page ?pd 0xb8000 0xb8000 s6 = Inr s7"
    using s7(1) identity_map_range_page [of "0xb8000" ?pd s6] by simp
  moreover have syms: "syms s1 = sy" "syms s2 = sy" "syms s3 = sy" "syms s4 = sy" "syms s5 = sy" "syms s6 = sy"
      "syms s7 = sy" "syms s0 = sy" "syms s = sy"
    using b0 b1 b2 b3 b4 booting_mem_only [OF b4 s5(2)] b6 booting_mem_only [OF b6 s7(2)]
    by (simp_all add: booting_def sy_def)
  moreover obtain sa sb where "clear_directory 1024 0 s0 = Inr sa"
      "vstore32 ?pd (first_page_table sy OR 3) sa = Inr sb"
      "vstore32 (?pd + 4) (second_page_table sy OR 3) sb = Inr s1"
    using s1(1) by (auto simp: result_simps)
  moreover from this have "syms sa = sy" "syms sb = sy"
    using syms by (metis mem_only_clear_directory mem_only_mm(1), metis mem_only_clear_directory mem_only_mm(1) mem_only_vstore(2))
  ultimately have "init_paging s = Inr (enable_paging (load_page_directory ?pd s7))"
    using s2(1) s3(1) s4(1) s5(1)
    by (simp add: init_paging_def Let_def init_page_frame_allocator_def init_page_table_allocator_def
        init_heap_allocator_def flip: s0_def s6_def)
  moreover have "s7 = s\<lparr>dev := dev s7, phys := phys s7,
      interrupt_handlers := (interrupt_handlers s)(14 := Some Page_fault_handler),
      heap_current := HEAP_ALLOCATOR_AREA_START, heap_mapped := HEAP_ALLOCATOR_AREA_START\<rparr>"
  proof -
    have "mem_only s0 s5" using s1(2) s2(2) s3(2) s4(2) s5(2) mem_only_trans by blast
    then have "s5 = s0\<lparr>dev := dev s5, phys := phys s5\<rparr>" by (simp only: mem_only_def)
    moreover have "s7 = s6\<lparr>dev := dev s7, phys := phys s7\<rparr>" using s7(2) by (simp only: mem_only_def)
    ultimately have "s7 = s0\<lparr>dev := dev s5, phys := phys s5\<rparr>\<lparr>heap_current := HEAP_ALLOCATOR_AREA_START,
      heap_mapped := HEAP_ALLOCATOR_AREA_START\<rparr>\<lparr>dev := dev s7, phys := phys s7\<rparr>"
      unfolding s6_def by metis
    then show ?thesis by (rule trans) (simp add: s0)
  qed
  moreover have "phys s7 b = 0"
    if "b \<in> span (page_frame_bitmap sy) 7392 \<union> span (page_table_bitmap sy) 128" for b
  proof -
    have "b \<in> span (page_frame_bitmap sy) 7392 \<or> b \<in> span (page_table_bitmap sy) 7392"
      using that span_mono [of 128 7392 "page_table_bitmap sy"] by auto
    note away = span_bitmaps [OF l this]
    show ?thesis
    proof (cases "b \<in> span (page_table_bitmap sy) 7392")
      case True
      then show ?thesis using away s7(4) s5(4) p6 by simp
    next
      case False
      then have "b \<notin> span (page_table_bitmap sy) 128" "b \<in> span (page_frame_bitmap sy) 7392"
        using that span_mono [of 128 7392 "page_table_bitmap sy"] by auto
      then show ?thesis using False away s7(4) s5(4) p6 s4(4) s3(4) by simp
    qed
  qed
  ultimately have z: "\<forall>b. b \<in> span (page_frame_bitmap sy) 7392 \<union> span (page_table_bitmap sy) 128 \<longrightarrow> phys s7 b = 0"
      and i: "init_paging s = Inr (enable_paging (load_page_directory ?pd s7))"
      and eq: "s7 = s\<lparr>dev := dev s7, phys := phys s7,
        interrupt_handlers := (interrupt_handlers s)(14 := Some Page_fault_handler),
        heap_current := HEAP_ALLOCATOR_AREA_START, heap_mapped := HEAP_ALLOCATOR_AREA_START\<rparr>"
    by blast+
  have "init_paging s = Inr (s\<lparr>dev := dev s7, phys := phys s7, cr0 := cr0 s OR 0x80000000,
      cr3 := ?pd, interrupt_handlers := (interrupt_handlers s)(14 := Some Page_fault_handler),
      heap_current := HEAP_ALLOCATOR_AREA_START, heap_mapped := HEAP_ALLOCATOR_AREA_START\<rparr>)"
    unfolding i by (subst eq) (simp add: enable_paging_def load_page_directory_def)
  then show ?thesis using s7(3) [unfolded left] z unfolding sy_def by blast
qed

end
