(* ===== verification/Heap.thy ===== *)
theory Heap
  imports Init_Paging
begin

text \<open>
  The heap of \<open>kernel/memory.c\<close> after \<open>init_paging\<close>: the invariant of the page tables under heap
  growth, and \<open>heap_allocate\<close> as a bump allocator of zeroed memory.
\<close>

unbundle bit_operations_syntax

section \<open>Addresses of the heap\<close>

lemma unat_heap_page: "p \<le> 8192 \<Longrightarrow> unat (HEAP_ALLOCATOR_AREA_START + PAGE_SIZE * word_of_nat p) = 0xF000000 + 4096 * p"
  by (simp add: unat_word_ariths unat_of_nat)

lemma unat_frame: "p \<le> 8192 \<Longrightarrow> unat (PAGE_FRAME_ALLOCATOR_AREA_START + PAGE_SIZE * word_of_nat p) = 0x900000 + 4096 * p"
  by (simp add: unat_word_ariths unat_of_nat)

lemma unat_heap_pte: "p \<le> 8192 \<Longrightarrow> unat (PAGE_TABLE_AREA_START + 4 * word_of_nat p) = 0x500000 + 4 * p"
  by (simp add: unat_word_ariths unat_of_nat)

lemma unat_heap_table: "j \<le> 8 \<Longrightarrow> unat (PAGE_TABLE_AREA_START + PAGE_SIZE * word_of_nat j) = 0x500000 + 4096 * j"
  by (simp add: unat_word_ariths unat_of_nat)

lemma heap_pages_aligned:
  "p \<le> 8192 \<Longrightarrow> page_aligned (HEAP_ALLOCATOR_AREA_START + PAGE_SIZE * word_of_nat p)"
  "p \<le> 8192 \<Longrightarrow> page_aligned (PAGE_FRAME_ALLOCATOR_AREA_START + PAGE_SIZE * word_of_nat p)"
  "j \<le> 8 \<Longrightarrow> page_aligned (PAGE_TABLE_AREA_START + PAGE_SIZE * word_of_nat j)"
  by (simp_all only: page_aligned_unat unat_heap_page unat_frame unat_heap_table) simp_all

lemma pt_index: "unat (drop_bit 12 va AND 0x3FF) = unat va div 4096 mod 1024" for va :: u32
proof -
  have "drop_bit 12 va AND 0x3FF = take_bit 10 (drop_bit 12 va)"
    by (simp add: take_bit_eq_mask mask_eq_exp_minus_1)
  then show ?thesis by (simp add: take_bit_eq_mod drop_bit_eq_div unat_div unat_mod)
qed

text \<open>The table entries of the heap pages follow each other in memory.\<close>

lemma heap_pte_addr:
  assumes "p < 8192"
  shows "PAGE_TABLE_AREA_START + 4 * word_of_nat p =
    (PAGE_TABLE_AREA_START + PAGE_SIZE * word_of_nat (p div 1024)) + 4 * (word_of_nat (p mod 1024) :: u32)"
proof -
  have "word_of_nat p = (1024 * word_of_nat (p div 1024) + word_of_nat (p mod 1024) :: u32)"
    by (metis mult_div_mod_eq of_nat_add of_nat_mult of_nat_numeral)
  then show ?thesis by (simp add: algebra_simps)
qed

lemma heap_indices:
  assumes "p < 8192" "page_of va = HEAP_ALLOCATOR_AREA_START + PAGE_SIZE * word_of_nat p"
  shows "drop_bit 22 va = word_of_nat (60 + p div 1024)" "drop_bit 12 va AND 0x3FF = word_of_nat (p mod 1024)"
proof -
  have "unat va div 4096 = 61440 + p"
    using page_range [OF heap_pages_aligned(1), of p va] assms by (simp add: unat_heap_page div_nat_eqI)
  moreover have "unat va div 4194304 = unat va div 4096 div 1024" by (simp add: div_mult2_eq [symmetric])
  moreover have "(61440 + p) mod 1024 = p mod 1024"
    using mod_add_left_eq [of 61440 1024 p] by simp
  moreover have "(61440 + p) div 1024 = 60 + p div 1024" by simp
  ultimately have "unat (drop_bit 22 va) = 60 + p div 1024" "unat (drop_bit 12 va AND 0x3FF) = p mod 1024"
    by (simp_all only: dir_index pt_index)
  then show "drop_bit 22 va = word_of_nat (60 + p div 1024)" "drop_bit 12 va AND 0x3FF = word_of_nat (p mod 1024)"
    by (metis of_nat_unat ucast_id)+
qed

section \<open>The invariant of the tables\<close>

text \<open>
  With \<open>n\<close> heap tables: the entries of the directory. The first heap table is also the table of
  entry 2, see \<open>init_page_table_allocator\<close>.
\<close>

definition heap_entries :: "symbols \<Rightarrow> nat \<Rightarrow> u32 \<Rightarrow> u32" where
  "heap_entries sy n i =
     (if 60 \<le> unat i \<and> unat i < 60 + n
      then (PAGE_TABLE_AREA_START + PAGE_SIZE * word_of_nat (unat i - 60)) OR 3 else grown_entries sy i)"

text \<open>
  \<open>tables_inv sy n k m\<close>: the first \<open>n\<close> heap tables are in place, and the first \<open>k\<close> heap pages are
  mapped to the first \<open>k\<close> page frames.
\<close>

definition tables_inv :: "symbols \<Rightarrow> nat \<Rightarrow> nat \<Rightarrow> (u32 \<Rightarrow> u8) \<Rightarrow> bool" where
  "tables_inv sy n k m \<longleftrightarrow> n \<le> 8 \<and> k \<le> 1024 * n \<and>
     (\<forall>i<1024. load32 m (page_directory sy + 4 * i) = heap_entries sy n i) \<and>
     (\<forall>a. kernel_address a \<longrightarrow> walk m (page_directory sy) a = Some a) \<and>
     (\<forall>p<k. load32 m (PAGE_TABLE_AREA_START + 4 * word_of_nat p) =
        (PAGE_FRAME_ALLOCATOR_AREA_START + PAGE_SIZE * word_of_nat p) OR 3) \<and>
     used m (page_table_bitmap sy) 32 = {..<n}"

text \<open>The memory the invariant is about.\<close>

definition table_memory :: "symbols \<Rightarrow> u32 set" where
  "table_memory sy = {a. page_of a \<in> {page_directory sy, first_page_table sy, second_page_table sy} \<or>
     0x500000 \<le> a \<and> a < 0x508000 \<or> a \<in> span (page_table_bitmap sy) 128}"

lemma heap_entry_tables:
  assumes "layout_ok sy" "n \<le> 8" "i < 1024" "bit (heap_entries sy n i) 0"
  shows "page_of (heap_entries sy n i) \<in> {first_page_table sy, second_page_table sy} \<or>
    (\<exists>j\<le>7. page_of (heap_entries sy n i) = PAGE_TABLE_AREA_START + PAGE_SIZE * word_of_nat j)"
proof (cases "60 \<le> unat i \<and> unat i < 60 + n")
  case True
  then have "unat i - 60 \<le> 7" using assms(2) by arith
  moreover from this have "page_of (heap_entries sy n i) = PAGE_TABLE_AREA_START + PAGE_SIZE * word_of_nat (unat i - 60)"
    using True heap_pages_aligned(3) [of "unat i - 60"] by (simp add: heap_entries_def page_of_flags del: of_nat_diff)
  ultimately show ?thesis by blast
next
  case False
  then have "i = 0 \<or> i = 1 \<or> i = 2"
    using assms(4) by (auto simp: heap_entries_def entry_present)
  then show ?thesis
    using False entry_tables [OF assms(1)] by (auto simp: heap_entries_def intro: exI [of _ 0])
qed

lemma heap_table_pages:
  assumes "layout_ok sy" "tables_inv sy n k m" "p \<in> table_pages m (page_directory sy)"
  shows "p \<in> {page_directory sy, first_page_table sy, second_page_table sy} \<or>
    0x500000 \<le> p \<and> p < 0x508000"
proof -
  have area: "PAGE_TABLE_AREA_START \<le> PAGE_TABLE_AREA_START + PAGE_SIZE * word_of_nat j \<and>
      PAGE_TABLE_AREA_START + PAGE_SIZE * word_of_nat j < (0x508000 :: u32)" if "j \<le> 7" for j
    unfolding word_le_nat_alt word_less_nat_alt using unat_heap_table [of j] that by simp
  from assms(3) consider "p = page_directory sy"
    | i where "i < 1024" "bit (heap_entries sy n i) 0" "p = page_of (heap_entries sy n i)"
    using assms(2) by (auto simp: table_pages_def tables_inv_def)
  then show ?thesis
  proof cases
    case 2
    then show ?thesis
      using heap_entry_tables [OF assms(1) _ 2(1,2)] assms(2) area by (auto simp: tables_inv_def)
  qed simp
qed

lemma heap_pte_range:
  "p < 8192 \<Longrightarrow> k \<le> 3 \<Longrightarrow> 0x500000 \<le> PAGE_TABLE_AREA_START + 4 * word_of_nat p + k \<and>
    PAGE_TABLE_AREA_START + 4 * word_of_nat p + k < (0x508000 :: u32)"
  using unat_heap_pte [of p] by (simp add: word_le_nat_alt word_less_nat_alt unat_word_ariths(1))

lemma heap_pte_above:
  "p < 8192 \<Longrightarrow> k \<le> 3 \<Longrightarrow> b < 0x300000 \<Longrightarrow> b \<noteq> PAGE_TABLE_AREA_START + 4 * word_of_nat p + (k :: u32)"
proof
  assume "p < 8192" "k \<le> 3" "b < 0x300000" and eq: "b = PAGE_TABLE_AREA_START + 4 * word_of_nat p + k"
  have "0x500000 \<le> b" using heap_pte_range [OF \<open>p < 8192\<close> \<open>k \<le> 3\<close>] unfolding eq by blast
  with \<open>b < 0x300000\<close> show False by (simp add: word_le_nat_alt word_less_nat_alt)
qed

lemma tables_inv_agree:
  assumes l: "layout_ok sy" and i: "tables_inv sy n k m"
    and agree: "\<And>a. a \<in> table_memory sy \<Longrightarrow> m' a = m a"
  shows "tables_inv sy n k m'"
proof -
  let ?pd = "page_directory sy"
  have pd: "page_aligned ?pd" using layout_aligned [OF l] by simp
  have k: "k \<le> 8192" using i by (simp add: tables_inv_def)
  have tp: "m' a = m a" if "page_of a \<in> table_pages m ?pd" for a
  proof (rule agree)
    have "page_aligned (0x508000 :: u32)" by (simp add: page_aligned_def)
    moreover have "page_of a \<le> a" "a \<le> page_of a + 0xFFF"
      using page_of_eq_iff [OF page_aligned_page_of, of a a] by auto
    moreover have "page_of a + 0xFFF < 0x508000" if "page_of a < 0x508000"
      using page_step(3) [OF page_aligned_page_of \<open>page_aligned 0x508000\<close> that] page_step(1) [OF page_aligned_page_of \<open>page_aligned 0x508000\<close> that]
        unat_aligned_add [OF page_aligned_page_of, of "0xFFF" a]
      by (simp add: word_le_nat_alt word_less_nat_alt)
    ultimately show "a \<in> table_memory sy"
      using heap_table_pages [OF l i that] by (auto simp: table_memory_def)
  qed
  have "walk m' ?pd a = walk m ?pd a" for a by (rule walk_agree [OF pd tp])
  moreover have "load32 m' (?pd + 4 * i) = load32 m (?pd + 4 * i)" if "i < 1024" for i
    by (rule load32_agree [where T = "table_pages m ?pd", OF tp pd _ that]) (simp_all add: table_pages_def)
  moreover have "load32 m' (PAGE_TABLE_AREA_START + 4 * word_of_nat p) =
      load32 m (PAGE_TABLE_AREA_START + 4 * word_of_nat p)" if "p < k" for p
  proof -
    have "m' (PAGE_TABLE_AREA_START + 4 * word_of_nat p + x) = m (PAGE_TABLE_AREA_START + 4 * word_of_nat p + x)"
      if "x \<le> 3" for x
      using heap_pte_range [of p x] that \<open>p < k\<close> k by (intro agree) (auto simp: table_memory_def)
    from this [of 0] this [of 1] this [of 2] this [of 3] show ?thesis by (intro load32_cong) simp_all
  qed
  moreover have "used m' (page_table_bitmap sy) 32 = used m (page_table_bitmap sy) 32"
  proof -
    have "bitmap_word m' (page_table_bitmap sy) i = bitmap_word m (page_table_bitmap sy) i" if "i < 32" for i
    proof -
      have "m' (page_table_bitmap sy + 4 * word_of_nat i + x) = m (page_table_bitmap sy + 4 * word_of_nat i + x)"
        if "x \<le> 3" for x
        using table_bitmap_span [OF l \<open>i < 32\<close> that] by (intro agree) (simp add: table_memory_def)
      from this [of 0] this [of 1] this [of 2] this [of 3] show ?thesis
        unfolding bitmap_word_def by (intro load32_cong) simp_all
    qed
    then show ?thesis by (auto simp: used_def bitmap_bit_def less_mult_imp_div_less)
  qed
  ultimately show ?thesis using i by (simp add: tables_inv_def)
qed

text \<open>The address space \<open>init_paging\<close> leaves satisfies it, with nothing mapped in the heap.\<close>

lemma kernel_address_mapped: "kernel_address a \<Longrightarrow> a \<in> mapped_at_boot"
proof -
  assume "kernel_address a"
  moreover have "page_of a = 0xb8000 \<Longrightarrow> a \<in> {0xb8000..<0xb9000}"
    using page_range [of "0xb8000" a] by (simp add: page_aligned_def word_le_nat_alt word_less_nat_alt)
  ultimately show ?thesis by (auto simp: kernel_address_def mapped_at_boot_def)
qed

lemma tables_inv_init:
  assumes l: "layout_ok sy" and st: "stage (page_directory sy) (grown_entries sy) mapped_at_boot G m"
    and zero: "\<And>b. b \<in> span (page_table_bitmap sy) 128 \<Longrightarrow> m b = 0"
  shows "tables_inv sy 0 0 m"
proof -
  have "used m (page_table_bitmap sy) 32 = {}"
    using l zero by (intro used_zero [of _ 7392]) (simp_all add: layout_ok_def)
  then show ?thesis
    using st kernel_address_mapped by (auto simp: tables_inv_def stage_def heap_entries_def)
qed

text \<open>A new table, marked in the bitmap and entered in the directory.\<close>

lemma kernel_index: "kernel_address a \<Longrightarrow> drop_bit 22 a = 0 \<or> drop_bit 22 a = (1 :: u32)"
proof -
  assume "kernel_address a"
  then have "unat a < 0x800000"
    using page_range [of "0xb8000" a]
    by (auto simp: kernel_address_def page_aligned_def word_le_nat_alt word_less_nat_alt)
  then have "unat (drop_bit 22 a) < 2" by (simp add: dir_index less_mult_imp_div_less)
  then have "unat (drop_bit 22 a) = 0 \<or> unat (drop_bit 22 a) = 1" by auto
  then show ?thesis by (auto simp: word_unat_eq_iff)
qed

lemma tables_inv_clean:
  assumes l: "layout_ok sy" and i: "tables_inv sy n k m"
  shows "clean_dir m (page_directory sy)"
proof -
  have "page_of (heap_entries sy n j) \<noteq> page_directory sy" if "j < 1024" "bit (heap_entries sy n j) 0" for j
  proof -
    have "n \<le> 8" using i by (simp add: tables_inv_def)
    from heap_entry_tables [OF l this that] consider
      "page_of (heap_entries sy n j) \<in> {first_page_table sy, second_page_table sy}"
      | q where "q \<le> 7" "page_of (heap_entries sy n j) = PAGE_TABLE_AREA_START + PAGE_SIZE * word_of_nat q"
      by blast
    then show ?thesis
    proof cases
      case 2
      then have "0x500000 \<le> unat (page_of (heap_entries sy n j))" using unat_heap_table [of q] by simp
      then show ?thesis using layout_below [OF l] by (auto simp: word_less_nat_alt)
    qed (use l in \<open>auto simp: layout_ok_def\<close>)
  qed
  then show ?thesis
    using i layout_aligned [OF l] by (simp add: clean_dir_def tables_inv_def)
qed

lemma table_bitmap_pages:
  assumes "layout_ok sy" "b \<in> span (page_table_bitmap sy) 128"
  shows "page_of b \<notin> {page_directory sy, first_page_table sy, second_page_table sy}" "b < 0x300000"
proof -
  have b: "b \<in> span (page_table_bitmap sy) 7392" using assms(2) span_mono [of 128 7392] by auto
  then show "page_of b \<notin> {page_directory sy, first_page_table sy, second_page_table sy}"
    using span_bitmaps [OF assms(1), of b] by blast
  show "b < 0x300000"
    using b assms(1) by (auto simp: layout_ok_def in_kernel_def span_iff word_less_nat_alt)
qed

lemma mark_table_elsewhere:
  assumes "layout_ok sy" "r < 1024" "b \<notin> span (page_table_bitmap sy) 128"
  shows "mark m (page_table_bitmap sy) r b = m b"
  unfolding mark_def
proof (rule store32_elsewhere)
  fix k :: u32 assume "k \<le> 3"
  moreover have "r div 32 < 32" using assms(2) by (simp add: less_mult_imp_div_less)
  ultimately show "b \<noteq> page_table_bitmap sy + 4 * word_of_nat (r div 32) + k"
    using table_bitmap_span [OF assms(1), of "r div 32" k] assms(3) by auto
qed

lemma store_entry_elsewhere:
  "page_aligned p \<Longrightarrow> i < 1024 \<Longrightarrow> page_of b \<noteq> p \<Longrightarrow> store32 (p + 4 * i) v m b = m b"
  by (rule store32_elsewhere) (use entry_page in auto)

lemma load32_outside:
  assumes "\<And>k. k \<le> 3 \<Longrightarrow> m' (a + k) = m (a + k)"
  shows "load32 m' a = load32 m a"
  using assms [of 0] assms [of 1] assms [of 2] assms [of 3] by (intro load32_cong) simp_all

lemma used_agree:
  assumes "layout_ok sy" "\<And>b. b \<in> span (page_table_bitmap sy) 128 \<Longrightarrow> m' b = m b"
  shows "used m' (page_table_bitmap sy) 32 = used m (page_table_bitmap sy) 32"
proof -
  have "bitmap_word m' (page_table_bitmap sy) i = bitmap_word m (page_table_bitmap sy) i" if "i < 32" for i
    unfolding bitmap_word_def using table_bitmap_span [OF assms(1) that] assms(2)
    by (intro load32_outside) blast
  then show ?thesis by (auto simp: used_def bitmap_bit_def less_mult_imp_div_less)
qed

lemma heap_pte_page: "p < 8192 \<Longrightarrow> k \<le> 3 \<Longrightarrow>
   page_of (PAGE_TABLE_AREA_START + 4 * word_of_nat p + k) = PAGE_TABLE_AREA_START + PAGE_SIZE * word_of_nat (p div 1024)"
  unfolding heap_pte_addr
  by (rule entry_page [OF heap_pages_aligned(3)])
    (auto simp: word_less_nat_alt unat_of_nat less_mult_imp_div_less intro: less_imp_le)

lemma heap_table_not_static:
  assumes "layout_ok sy" "j \<le> 8"
  shows "PAGE_TABLE_AREA_START + PAGE_SIZE * word_of_nat j \<notin>
    {page_directory sy, first_page_table sy, second_page_table sy}"
  using layout_below [OF assms(1)] unat_heap_table [OF assms(2)] by (auto simp: word_less_nat_alt)

lemma tables_inv_new_table:
  assumes l: "layout_ok sy" and i: "tables_inv sy n k m" and n: "n < 8"
  defines "t \<equiv> PAGE_TABLE_AREA_START + PAGE_SIZE * word_of_nat n"
  shows "tables_inv sy (Suc n) k
    (store32 (page_directory sy + 4 * word_of_nat (60 + n)) (t OR 3) (mark m (page_table_bitmap sy) n))"
proof -
  let ?pd = "page_directory sy" and ?tb = "page_table_bitmap sy"
  let ?m1 = "mark m ?tb n"
  let ?m2 = "store32 (?pd + 4 * word_of_nat (60 + n)) (t OR 3) ?m1"
  have pd: "page_aligned ?pd" using layout_aligned [OF l] by simp
  have ix: "word_of_nat (60 + n) < (1024 :: u32)" "unat (word_of_nat (60 + n) :: u32) = 60 + n"
    using n by (simp_all add: word_less_nat_alt unat_of_nat del: of_nat_add)
  have t: "page_aligned t" "t \<noteq> ?pd"
    unfolding t_def using n heap_table_not_static [OF l, of n] heap_pages_aligned(3) [of n] by auto
  have k: "k \<le> 8192" using i by (simp add: tables_inv_def)
  have out1: "?m1 b = m b" if "b \<notin> span ?tb 128" for b
    using mark_table_elsewhere [OF l _ that] n by simp
  have out2: "?m2 b = ?m1 b" if "page_of b \<noteq> ?pd" for b by (rule store_entry_elsewhere [OF pd ix(1) that])
  have tb1: "page_of b \<notin> {?pd, first_page_table sy, second_page_table sy}" "b < 0x300000" if "b \<in> span ?tb 128" for b
    by (rule table_bitmap_pages [OF l that])+
  have E1: "load32 ?m1 (?pd + 4 * j) = heap_entries sy n j" if "j < 1024" for j
  proof -
    have "load32 ?m1 (?pd + 4 * j) = load32 m (?pd + 4 * j)"
      using that tb1(1) out1 by (intro load32_page_cong [OF pd]) blast+
    then show ?thesis using i that by (simp add: tables_inv_def)
  qed
  have E2: "load32 ?m2 (?pd + 4 * j) = heap_entries sy (Suc n) j" if "j < 1024" for j
  proof (cases "j = word_of_nat (60 + n)")
    case True
    then show ?thesis using ix(2) by (simp add: heap_entries_def t_def del: of_nat_add)
  next
    case False
    then have "unat j \<noteq> 60 + n" using ix(2) by (metis word_unat_eq_iff)
    then show ?thesis
      using False load_store_entry [OF pd pd ix(1) that, of "t OR 3" ?m1] E1 [OF that]
      by (auto simp: heap_entries_def)
  qed
  have W1: "walk ?m1 ?pd a = walk m ?pd a" for a
  proof (rule walk_agree [OF pd])
    fix b assume p: "page_of b \<in> table_pages m ?pd"
    show "?m1 b = m b"
    proof (rule out1, rule notI)
      assume b: "b \<in> span ?tb 128"
      have "page_of b \<le> b" using page_of_eq_iff [OF page_aligned_page_of, of b b] by simp
      with tb1(2) [OF b] have "page_of b < 0x300000" by (metis le_less_trans)
      with heap_table_pages [OF l i p] tb1(1) [OF b] show False
        by (auto simp: word_le_nat_alt word_less_nat_alt)
    qed
  qed
  have "\<forall>j<1024. load32 ?m1 (?pd + 4 * j) = load32 m (?pd + 4 * j)"
    using E1 i by (simp add: tables_inv_def)
  then have cd1: "clean_dir ?m1 ?pd" using clean_dir_same(1) tables_inv_clean [OF l i] by blast
  have W2: "walk ?m2 ?pd a = Some a" if "kernel_address a" for a
  proof -
    have "unat (drop_bit 22 a) \<le> 1" using kernel_index [OF that] by auto
    then have "drop_bit 22 a \<noteq> word_of_nat (60 + n)" using ix(2) by (auto simp del: of_nat_add)
    then have "walk ?m2 ?pd a = walk ?m1 ?pd a"
      using walk_set_pde [OF cd1 ix(1), of "t OR 3" a] page_of_flags [OF t(1)] t(2) by simp
    then show ?thesis using W1 i that by (simp add: tables_inv_def)
  qed
  have P: "load32 ?m2 (PAGE_TABLE_AREA_START + 4 * word_of_nat p) =
      load32 m (PAGE_TABLE_AREA_START + 4 * word_of_nat p)" if "p < k" for p
  proof (rule load32_outside)
    fix x :: u32 assume x: "x \<le> 3"
    have p: "p < 8192" using that k by simp
    have "page_of (PAGE_TABLE_AREA_START + 4 * word_of_nat p + x) \<noteq> ?pd"
      unfolding heap_pte_page [OF p x] using heap_table_not_static [OF l, of "p div 1024"] p by auto
    moreover have "PAGE_TABLE_AREA_START + 4 * word_of_nat p + x \<notin> span ?tb 128"
      using tb1(2) heap_pte_above [OF p x] by blast
    ultimately show "?m2 (PAGE_TABLE_AREA_START + 4 * word_of_nat p + x) =
        m (PAGE_TABLE_AREA_START + 4 * word_of_nat p + x)" using out1 out2 by simp
  qed
  have "used ?m2 ?tb 32 = used ?m1 ?tb 32" using tb1(1) out2 by (intro used_agree [OF l]) blast
  also have "\<dots> = {..<Suc n}"
    using used_mark [of ?tb 32 n m] l n i by (auto simp: layout_ok_def tables_inv_def)
  finally have U: "used ?m2 ?tb 32 = {..<Suc n}" .
  show ?thesis
    using i n E2 W2 P U by (simp add: tables_inv_def)
qed

lemma tables_inv_map:
  assumes l: "layout_ok sy" and i: "tables_inv sy n k m" and k: "k < 1024 * n"
  shows "tables_inv sy n (Suc k) (store32 (PAGE_TABLE_AREA_START + 4 * word_of_nat k)
    ((PAGE_FRAME_ALLOCATOR_AREA_START + PAGE_SIZE * word_of_nat k) OR 3) m)"
proof -
  let ?pd = "page_directory sy" and ?tb = "page_table_bitmap sy"
  let ?a = "PAGE_TABLE_AREA_START + 4 * word_of_nat k :: u32"
  let ?v = "(PAGE_FRAME_ALLOCATOR_AREA_START + PAGE_SIZE * word_of_nat k) OR 3 :: u32"
  let ?pt = "PAGE_TABLE_AREA_START + PAGE_SIZE * word_of_nat (k div 1024) :: u32"
  let ?m = "store32 ?a ?v m"
  have n: "n \<le> 8" using i by (simp add: tables_inv_def)
  have k8: "k < 8192" "k div 1024 \<le> 8" using n k by auto
  have pd: "page_aligned ?pd" using layout_aligned [OF l] by simp
  have pt: "page_aligned ?pt" "?pt \<notin> {?pd, first_page_table sy, second_page_table sy}"
    using heap_pages_aligned(3) heap_table_not_static [OF l] k8(2) by auto
  have a: "?a = ?pt + 4 * word_of_nat (k mod 1024)" "word_of_nat (k mod 1024) < (1024 :: u32)"
    using heap_pte_addr [OF k8(1)] by (simp_all add: word_less_nat_alt unat_of_nat)
  have E: "load32 ?m (?pd + 4 * j) = load32 m (?pd + 4 * j)" if "j < 1024" for j
    unfolding a(1) using load_store_entry [OF pt(1) pd a(2) that] pt(2) by auto
  have W: "walk ?m ?pd x = Some x" if "kernel_address x" for x
  proof -
    have w: "walk ?m ?pd x = (let pde = load32 m (pde_addr ?pd x) in
       if bit pde 0 \<and> page_of pde = ?pt \<and> drop_bit 12 x AND 0x3FF = word_of_nat (k mod 1024)
       then (if bit ?v 0 then Some (page_of ?v OR offset_of x) else None) else walk m ?pd x)"
      unfolding a(1) using pt(2) by (intro walk_set_pte [OF pd pt(1) _ a(2)]) auto
    have "load32 m (pde_addr ?pd x) = heap_entries sy n (drop_bit 22 x)"
      using i by (simp add: tables_inv_def pde_addr_def)
    also have "page_of \<dots> \<in> {first_page_table sy, second_page_table sy}"
      using kernel_index [OF that] entry_tables [OF l] by (auto simp: heap_entries_def)
    finally have "page_of (load32 m (pde_addr ?pd x)) \<noteq> ?pt" using pt(2) by auto
    then show ?thesis using w i that by (simp add: Let_def tables_inv_def)
  qed
  have P: "load32 ?m (PAGE_TABLE_AREA_START + 4 * word_of_nat p) =
      (if p = k then ?v else load32 m (PAGE_TABLE_AREA_START + 4 * word_of_nat p))" if "p \<le> k" for p
  proof (cases "p = k")
    case False
    have "PAGE_TABLE_AREA_START + 4 * word_of_nat p \<noteq> ?a"
    proof
      assume "PAGE_TABLE_AREA_START + 4 * word_of_nat p = ?a"
      then have "unat (PAGE_TABLE_AREA_START + 4 * word_of_nat p :: u32) = unat ?a" by (rule arg_cong)
      then show False
        using False that k8(1) by (simp add: unat_heap_pte)
    qed
    moreover have "word_aligned (PAGE_TABLE_AREA_START + 4 * x)" for x
      by (rule bitmap_addr_aligned) (simp add: word_aligned_def)
    ultimately show ?thesis using False by (simp add: load_store32_other)
  qed simp
  have "?m b = m b" if "b \<in> span ?tb 128" for b
    using heap_pte_above [OF k8(1) _ table_bitmap_pages(2) [OF l that]] by (rule store32_elsewhere)
  then have "used ?m ?tb 32 = used m ?tb 32" by (rule used_agree [OF l])
  then show ?thesis
    using i k E W P by (simp add: tables_inv_def less_Suc_eq_le)
qed

section \<open>The address space while the heap grows\<close>

definition pages_inv :: "nat \<Rightarrow> nat \<Rightarrow> nat \<Rightarrow> 'a mm_scheme \<Rightarrow> bool" where
  "pages_inv n k f s \<longleftrightarrow> layout_ok (syms s) \<and> paging_on s \<and> cr3 s = page_directory (syms s) \<and>
     tables_inv (syms s) n k (phys s) \<and> used (phys s) (page_frame_bitmap (syms s)) PAGE_FRAME_BITMAP_SIZE = {..<f}"

lemma pages_walk: "pages_inv n k f s \<Longrightarrow> translate s a = walk (phys s) (page_directory (syms s)) a"
  using layout_aligned [of "syms s"] page_of_aligned [of "page_directory (syms s)"]
  by (simp add: pages_inv_def translate_def)

lemma pages_kernel: "pages_inv n k f s \<Longrightarrow> kernel_address a \<Longrightarrow> translate s a = Some a"
  by (simp add: pages_walk) (simp add: pages_inv_def tables_inv_def)

lemma pages_heap_page:
  assumes i: "pages_inv n k f s" and p: "p < k"
    and a: "page_of a = HEAP_ALLOCATOR_AREA_START + PAGE_SIZE * word_of_nat p"
  shows "translate s a = Some ((PAGE_FRAME_ALLOCATOR_AREA_START + PAGE_SIZE * word_of_nat p) OR offset_of a)"
proof -
  let ?sy = "syms s" and ?m = "phys s"
  have inv: "tables_inv ?sy n k ?m" and n: "n \<le> 8" "k \<le> 1024 * n"
    using i by (simp_all add: pages_inv_def tables_inv_def)
  have p8: "p < 8192" "p div 1024 < n" using p n by auto
  note ix = heap_indices [OF p8(1) a]
  have u: "unat (word_of_nat (60 + p div 1024) :: u32) = 60 + p div 1024"
    using p8 n by (simp add: unat_of_nat del: of_nat_add)
  have t: "page_aligned (PAGE_TABLE_AREA_START + PAGE_SIZE * word_of_nat (p div 1024))"
    using p8 n by (intro heap_pages_aligned) simp
  have pde: "load32 ?m (pde_addr (page_directory ?sy) a) =
      (PAGE_TABLE_AREA_START + PAGE_SIZE * word_of_nat (p div 1024)) OR 3"
  proof -
    have "word_of_nat (60 + p div 1024) < (1024 :: u32)"
      unfolding word_less_nat_alt u using p8(2) n by simp
    then have "load32 ?m (pde_addr (page_directory ?sy) a) = heap_entries ?sy n (word_of_nat (60 + p div 1024))"
      unfolding pde_addr_def ix(1) using inv by (simp only: tables_inv_def)
    then show ?thesis using p8(2) u by (simp add: heap_entries_def del: of_nat_add)
  qed
  have "pte_addr ((PAGE_TABLE_AREA_START + PAGE_SIZE * word_of_nat (p div 1024)) OR 3) a =
      PAGE_TABLE_AREA_START + 4 * word_of_nat p"
    using page_of_flags [OF t] heap_pte_addr [OF p8(1)] by (simp add: pte_addr_def ix(2))
  then have "load32 ?m (pte_addr ((PAGE_TABLE_AREA_START + PAGE_SIZE * word_of_nat (p div 1024)) OR 3) a) =
      (PAGE_FRAME_ALLOCATOR_AREA_START + PAGE_SIZE * word_of_nat p) OR 3"
    using inv p by (simp add: tables_inv_def)
  then show ?thesis
    using page_of_flags [OF heap_pages_aligned(2), of p] p8
    by (simp add: pages_walk [OF i] walk_def Let_def pde)
qed

lemma heap_page_of:
  assumes "0xF000000 \<le> unat a" "unat a < 0xF000000 + 4096 * k" "k \<le> 8192"
  shows "\<exists>p<k. page_of a = HEAP_ALLOCATOR_AREA_START + PAGE_SIZE * word_of_nat p"
proof -
  define p where "p = (unat a - 0xF000000) div 4096"
  have p: "p < k" using assms by (simp add: p_def less_mult_imp_div_less)
  have d: "4096 * p \<le> unat a - 0xF000000" "unat a - 0xF000000 < 4096 * p + 4096"
    unfolding p_def by (simp_all add: dividend_less_times_div [of 4096, simplified add.commute])
  then have "0xF000000 + 4096 * p \<le> unat a" "unat a < 0xF000000 + 4096 * p + 4096"
    using assms(1) by arith+
  then have "page_of a = HEAP_ALLOCATOR_AREA_START + PAGE_SIZE * word_of_nat p"
    using page_range [OF heap_pages_aligned(1), of p a] p assms(3) by (simp add: unat_heap_page)
  with p show ?thesis by blast
qed

text \<open>A mapped heap address translates to the frame area at the same offset.\<close>

lemma pages_heap:
  assumes i: "pages_inv n k f s" and a: "0xF000000 \<le> unat a" "unat a < 0xF000000 + 4096 * k"
  shows "translate s a = Some (a - HEAP_ALLOCATOR_AREA_START + PAGE_FRAME_ALLOCATOR_AREA_START)"
proof -
  have k: "k \<le> 8192" using i by (simp add: pages_inv_def tables_inv_def)
  obtain p where p: "p < k" "page_of a = HEAP_ALLOCATOR_AREA_START + PAGE_SIZE * word_of_nat p"
    using heap_page_of [OF a k] by blast
  have "a = HEAP_ALLOCATOR_AREA_START + PAGE_SIZE * word_of_nat p + offset_of a"
    using page_offset_add [of a] p(2) by simp
  then have "a - HEAP_ALLOCATOR_AREA_START + PAGE_FRAME_ALLOCATOR_AREA_START =
      (PAGE_FRAME_ALLOCATOR_AREA_START + PAGE_SIZE * word_of_nat p) + offset_of a"
    by (simp add: algebra_simps)
  also have "\<dots> = (PAGE_FRAME_ALLOCATOR_AREA_START + PAGE_SIZE * word_of_nat p) OR offset_of a"
    using p k by (intro aligned_add_or heap_pages_aligned offset_of_le) simp
  finally show ?thesis using pages_heap_page [OF i p] by simp
qed

text \<open>The kernel can use the directory and the bitmaps.\<close>

definition kernel_pages :: "u32 set" where
  "kernel_pages = {p. \<forall>a. page_of a = p \<longrightarrow> kernel_address a}"

lemma kernel_pageI: "page_aligned p \<Longrightarrow> 0x100000 \<le> unat p \<and> unat p + 4096 \<le> 0x300000 \<or>
    0x500000 \<le> unat p \<and> unat p + 4096 \<le> 0x800000 \<Longrightarrow> p \<in> kernel_pages"
  by (auto simp: kernel_pages_def kernel_address_def page_range word_le_nat_alt word_less_nat_alt)

lemma pages_directory:
  assumes "pages_inv n k f s"
  shows "directory (page_directory (syms s)) kernel_pages s"
proof -
  have l: "layout_ok (syms s)" using assms by (simp add: pages_inv_def)
  have pd: "page_aligned (page_directory (syms s))" using layout_aligned [OF l] by simp
  have "page_directory (syms s) \<in> kernel_pages"
    using l by (intro kernel_pageI [OF pd]) (simp add: layout_ok_def in_kernel_def)
  moreover have "ident_pages kernel_pages s"
    using pages_kernel [OF assms] by (simp add: ident_pages_def kernel_pages_def)
  ultimately show ?thesis
    using assms tables_inv_clean [OF l] page_of_aligned [OF pd]
    by (auto simp: directory_def pages_inv_def)
qed

lemma pages_bitmap:
  assumes i: "pages_inv n k f s"
    and b: "b = page_frame_bitmap (syms s) \<and> w = PAGE_FRAME_BITMAP_SIZE \<or> b = page_table_bitmap (syms s) \<and> w = 32"
  shows "bitmap_ok b w s"
  unfolding bitmap_ok_def
proof (intro conjI allI impI)
  have l: "layout_ok (syms s)" using i by (simp add: pages_inv_def)
  show "word_aligned b" "w \<le> 2 ^ 28" using l b by (auto simp: layout_ok_def)
  fix x :: nat and y :: u32
  assume xy: "x < w" "y \<le> 3"
  define a where "a = b + 4 * word_of_nat x + y"
  have bk: "in_kernel b 7392" "4 * w \<le> 7392" using l b by (auto simp: layout_ok_def)
  have a: "a \<in> span b 7392"
    using bitmap_in_span [OF bk xy] span_mono [OF bk(2)] by (auto simp: a_def)
  then have ua: "0x100000 \<le> unat a" "unat a < 0x300000"
    using bk(1) by (auto simp: span_iff in_kernel_def)
  then have "kernel_address a" by (simp add: kernel_address_def word_le_nat_alt word_less_nat_alt)
  then show "translate s (b + 4 * word_of_nat x + y) = Some (b + 4 * word_of_nat x + y)"
    using pages_kernel [OF i] by (simp add: a_def)
  have pd: "page_of (cr3 s) = page_directory (syms s)"
    using i layout_aligned [OF l] by (simp add: pages_inv_def page_of_aligned)
  have "a \<in> span (page_frame_bitmap (syms s)) 7392 \<or> a \<in> span (page_table_bitmap (syms s)) 7392"
    using a b by auto
  then have "page_of a \<notin> {page_directory (syms s), first_page_table (syms s), second_page_table (syms s)}"
    using span_bitmaps [OF l] by blast
  moreover have "page_of a < 0x300000"
    using page_of_eq_iff [OF page_aligned_page_of, of a a] ua(2) by (simp add: word_le_nat_alt word_less_nat_alt)
  ultimately show "page_of (b + 4 * word_of_nat x + y) \<notin> table_pages (phys s) (page_of (cr3 s))"
    using heap_table_pages [OF l, of n k "phys s" "page_of a"] i unfolding pd a_def [symmetric]
    by (auto simp: pages_inv_def word_le_nat_alt word_less_nat_alt)
qed

section \<open>A new heap page\<close>

text \<open>The bookkeeping an allocation writes to.\<close>

definition heap_meta :: "symbols \<Rightarrow> u32 set" where
  "heap_meta sy = {b. page_of b = page_directory sy \<or> b \<in> span (page_frame_bitmap sy) 7392 \<or>
     b \<in> span (page_table_bitmap sy) 128 \<or> 0x500000 \<le> b \<and> b < 0x508000}"

lemma mark_frame_elsewhere:
  assumes "layout_ok sy" "r < 32 * PAGE_FRAME_BITMAP_SIZE" "b \<notin> span (page_frame_bitmap sy) 7392"
  shows "mark m (page_frame_bitmap sy) r b = m b"
  unfolding mark_def
proof (rule store32_elsewhere)
  fix k :: u32 assume "k \<le> 3"
  moreover have "r div 32 < PAGE_FRAME_BITMAP_SIZE" using assms(2) by (simp add: less_mult_imp_div_less mult.commute)
  moreover have "in_kernel (page_frame_bitmap sy) 7392" using assms(1) by (simp add: layout_ok_def)
  ultimately show "b \<noteq> page_frame_bitmap sy + 4 * word_of_nat (r div 32) + k"
    using bitmap_in_span [of "page_frame_bitmap sy" 7392 PAGE_FRAME_BITMAP_SIZE "r div 32" k] assms(3) by auto
qed

lemma frame_bitmap_apart:
  assumes "layout_ok sy" "b \<in> span (page_frame_bitmap sy) 7392"
  shows "b \<notin> table_memory sy" "b < 0x300000"
proof -
  have k: "in_kernel (page_frame_bitmap sy) 7392" "in_kernel (page_table_bitmap sy) 7392"
    using assms(1) by (simp_all add: layout_ok_def)
  then show lt: "b < 0x300000" using assms(2) by (auto simp: in_kernel_def span_iff word_less_nat_alt)
  moreover have "b \<notin> span (page_table_bitmap sy) 128"
  proof -
    have "no_overlap (page_frame_bitmap sy) 7392 (page_table_bitmap sy) 128"
      using assms(1) by (simp add: layout_ok_def)
    then show ?thesis using assms(2) k by (auto simp: in_kernel_def span_iff no_overlap_def)
  qed
  moreover have "page_of b \<notin> {page_directory sy, first_page_table sy, second_page_table sy}"
    using span_bitmaps [OF assms(1), of b] assms(2) by blast
  moreover have "\<not> 0x500000 \<le> b" using lt by (simp add: word_le_nat_alt word_less_nat_alt)
  ultimately show "b \<notin> table_memory sy" by (auto simp: table_memory_def)
qed

lemma pages_scan_frame:
  assumes i: "pages_inv n k k s" and k: "k < 8192"
  shows "\<exists>d. bitmap_scan (page_frame_bitmap (syms s)) look_at_frames PAGE_FRAME_BITMAP_SIZE 0 s =
      Inr (Some k, s\<lparr>dev := d, phys := mark (phys s) (page_frame_bitmap (syms s)) k\<rparr>) \<and>
    pages_inv n k (Suc k) (s\<lparr>dev := d, phys := mark (phys s) (page_frame_bitmap (syms s)) k\<rparr>)"
proof -
  let ?fb = "page_frame_bitmap (syms s)"
  have l: "layout_ok (syms s)" and u: "used (phys s) ?fb PAGE_FRAME_BITMAP_SIZE = {..<k}"
    and ti: "tables_inv (syms s) n k (phys s)" using i by (simp_all add: pages_inv_def)
  have ok: "bitmap_ok ?fb PAGE_FRAME_BITMAP_SIZE s" using pages_bitmap [OF i] by blast
  have look: "\<exists>d. look_at_frames i w s = s\<lparr>dev := d\<rparr>" for i w and s :: "'a mm_scheme"
    by (auto simp: look_at_frames_def mlog_def)
  have least: "(LEAST x. x \<notin> {..<k}) = k" by (rule Least_equality) auto
  have free: "\<exists>x<32 * PAGE_FRAME_BITMAP_SIZE. x \<notin> used (phys s) ?fb PAGE_FRAME_BITMAP_SIZE"
    using u k by (intro exI [of _ k]) simp
  obtain d where d: "bitmap_scan ?fb look_at_frames PAGE_FRAME_BITMAP_SIZE 0 s =
      Inr (Some k, s\<lparr>dev := d, phys := mark (phys s) ?fb k\<rparr>)"
    using bitmap_scan_alloc(3) [where look = look_at_frames, OF look ok free] unfolding u least by blast
  have "tables_inv (syms s) n k (mark (phys s) ?fb k)"
  proof (rule tables_inv_agree [OF l ti])
    fix b assume "b \<in> table_memory (syms s)"
    then show "mark (phys s) ?fb k b = phys s b"
      using frame_bitmap_apart(1) [OF l, of b] k by (intro mark_frame_elsewhere [OF l]) auto
  qed
  moreover have "used (mark (phys s) ?fb k) ?fb PAGE_FRAME_BITMAP_SIZE = {..<Suc k}"
    using used_mark [of ?fb PAGE_FRAME_BITMAP_SIZE k "phys s"] ok u k by (auto simp: bitmap_ok_def)
  ultimately show ?thesis using i d by (auto simp: pages_inv_def paging_on_def)
qed

lemma used_frames_agree:
  assumes "layout_ok sy" "\<And>b. b \<in> span (page_frame_bitmap sy) 7392 \<Longrightarrow> m' b = m b"
  shows "used m' (page_frame_bitmap sy) PAGE_FRAME_BITMAP_SIZE = used m (page_frame_bitmap sy) PAGE_FRAME_BITMAP_SIZE"
proof -
  have k: "in_kernel (page_frame_bitmap sy) 7392" using assms(1) by (simp add: layout_ok_def)
  have "bitmap_word m' (page_frame_bitmap sy) i = bitmap_word m (page_frame_bitmap sy) i"
    if "i < PAGE_FRAME_BITMAP_SIZE" for i
    unfolding bitmap_word_def
  proof (rule load32_outside, rule assms(2))
    fix x :: u32 assume "x \<le> 3"
    then show "page_frame_bitmap sy + 4 * word_of_nat i + x \<in> span (page_frame_bitmap sy) 7392"
      using bitmap_in_span [OF k _ that] by simp
  qed
  then show ?thesis by (auto simp: used_def bitmap_bit_def less_mult_imp_div_less)
qed

text \<open>
  \<open>map_page\<close> on the next heap page: the page table is allocated first when the page is the first
  of its table.
\<close>

lemma pages_map:
  assumes i: "pages_inv n k f s" and k: "k < 8192" and n: "n = (k + 1023) div 1024"
  shows "\<exists>d m. map_page (page_directory (syms s)) (HEAP_ALLOCATOR_AREA_START + PAGE_SIZE * word_of_nat k)
      (PAGE_FRAME_ALLOCATOR_AREA_START + PAGE_SIZE * word_of_nat k) s = Inr (s\<lparr>dev := d, phys := m\<rparr>) \<and>
    pages_inv ((Suc k + 1023) div 1024) (Suc k) f (s\<lparr>dev := d, phys := m\<rparr>) \<and>
    (\<forall>b. b \<notin> heap_meta (syms s) \<longrightarrow> m b = phys s b)"
proof -
  let ?sy = "syms s" and ?m = "phys s"
  let ?pd = "page_directory ?sy" and ?tb = "page_table_bitmap ?sy"
  define va where "va = HEAP_ALLOCATOR_AREA_START + PAGE_SIZE * (word_of_nat k :: u32)"
  define fr where "fr = PAGE_FRAME_ALLOCATOR_AREA_START + PAGE_SIZE * (word_of_nat k :: u32)"
  define t where "t = PAGE_TABLE_AREA_START + PAGE_SIZE * (word_of_nat (k div 1024) :: u32)"
  define ix :: u32 where "ix = word_of_nat (60 + k div 1024)"
  have l: "layout_ok ?sy" and ti: "tables_inv ?sy n k ?m" using i by (simp_all add: pages_inv_def)
  have pd: "page_aligned ?pd" using layout_aligned [OF l] by simp
  have k8: "k div 1024 < 8" "k div 1024 \<le> 8" using k by auto
  have al: "page_aligned va" "page_aligned fr" "page_aligned t"
    using k k8 heap_pages_aligned by (auto simp: va_def fr_def t_def)
  have vai: "drop_bit 22 va = ix" "drop_bit 12 va AND 0x3FF = word_of_nat (k mod 1024)"
    using heap_indices [OF k, of va] page_of_aligned [OF al(1)] by (auto simp: va_def ix_def)
  have uix: "unat ix = 60 + k div 1024" "ix < 1024"
    using k8 by (simp_all add: ix_def unat_of_nat word_less_nat_alt del: of_nat_add)
  have pte: "pte_addr t va = PAGE_TABLE_AREA_START + 4 * word_of_nat k"
    using heap_pte_addr [OF k] page_of_aligned [OF al(3)] by (simp add: pte_addr_def vai t_def)
  have pteF: "pte_addr (t OR 3) va = PAGE_TABLE_AREA_START + 4 * word_of_nat k"
    using pte page_of_flags [OF al(3)] page_of_aligned [OF al(3)] by (simp add: pte_addr_def)
  have pde: "load32 ?m (pde_addr ?pd va) = heap_entries ?sy n ix"
    using ti uix(2) by (simp add: tables_inv_def pde_addr_def vai)
  have tK: "t \<in> kernel_pages"
    using unat_heap_table [OF k8(2)] k8 by (intro kernel_pageI [OF al(3)]) (simp add: t_def)
  have ptes: "store32 (PAGE_TABLE_AREA_START + 4 * word_of_nat k) v m' b = m' b" if "b \<notin> heap_meta ?sy" for v m' b
    using heap_pte_range [OF k] that by (intro store32_elsewhere) (auto simp: heap_meta_def)
  have fbs: "store32 (PAGE_TABLE_AREA_START + 4 * word_of_nat k) v m' b = m' b" if "b < 0x300000" for v m' b
    using heap_pte_above [OF k _ that] by (rule store32_elsewhere)
  show ?thesis
  proof (cases "k < 1024 * n")
    case True
    have nk: "k div 1024 < n" using True by (simp add: less_mult_imp_div_less)
    then have nn: "(Suc k + 1023) div 1024 = n"
      using True n by (simp add: div_nat_eqI)
    define m where "m = store32 (PAGE_TABLE_AREA_START + 4 * word_of_nat k) (fr OR 3) ?m"
    have E: "load32 ?m (pde_addr ?pd va) = t OR 3"
      using nk uix(1) unfolding pde heap_entries_def by (simp add: t_def)
    have "map_page ?pd va fr s = Inr (s\<lparr>phys := m\<rparr>)"
      using map_page_present [OF pages_directory [OF i] al(1,2)] E page_of_flags [OF al(3)] tK
      by (simp add: pteF m_def)
    moreover have "pages_inv ((Suc k + 1023) div 1024) (Suc k) f (s\<lparr>phys := m\<rparr>)"
    proof -
      have "used m (page_frame_bitmap ?sy) PAGE_FRAME_BITMAP_SIZE = used ?m (page_frame_bitmap ?sy) PAGE_FRAME_BITMAP_SIZE"
        unfolding m_def using fbs frame_bitmap_apart(2) [OF l] by (intro used_frames_agree [OF l]) blast
      then show ?thesis
        using tables_inv_map [OF l ti True] i unfolding nn
        by (simp add: pages_inv_def m_def fr_def paging_on_def)
    qed
    moreover have "m b = ?m b" if "b \<notin> heap_meta ?sy" for b unfolding m_def by (rule ptes [OF that])
    moreover have "s\<lparr>phys := m\<rparr> = s\<lparr>dev := dev s, phys := m\<rparr>" by simp
    ultimately show ?thesis unfolding va_def fr_def by metis
  next
    case False
    then have nk: "k = 1024 * n" "k div 1024 = n" "n < 8" using n k by auto
    have nn: "(Suc k + 1023) div 1024 = Suc n" using nk(1) by simp
    have least: "(LEAST x. x \<notin> used ?m ?tb 32) = n"
      using ti by (intro Least_equality) (auto simp: tables_inv_def)
    have free: "\<exists>x<1024. x \<notin> used ?m ?tb 32" using ti nk by (intro exI [of _ n]) (simp add: tables_inv_def)
    define m1 where "m1 = store32 (?pd + 4 * ix) (t OR 3) (mark ?m ?tb n)"
    define m where "m = store32 (PAGE_TABLE_AREA_START + 4 * word_of_nat k) (fr OR 3) m1"
    have absent: "\<not> bit (load32 ?m (pde_addr ?pd va)) 0"
    proof -
      have "heap_entries ?sy n ix = grown_entries ?sy ix" using uix(1) nk by (simp add: heap_entries_def)
      moreover have "ix \<noteq> 0" "ix \<noteq> 1" "ix \<noteq> 2" using uix(1) by auto
      ultimately show ?thesis unfolding pde by (simp add: entry_present)
    qed
    have t': "t \<noteq> ?pd" using heap_table_not_static [OF l k8(2)] by (auto simp: t_def)
    have tn: "PAGE_TABLE_AREA_START + PAGE_SIZE * word_of_nat n = t" using nk(2) by (simp add: t_def)
    have apart: "drop_bit 22 a \<noteq> drop_bit 22 va" if "page_of a \<in> {?pd, t}" for a
    proof -
      have "kernel_address a"
        using that tK pages_directory [OF i] by (auto simp: directory_def kernel_pages_def)
      then show ?thesis using kernel_index [of a] uix(1) vai(1) by auto
    qed
    have away: "away ?tb 32 {?pd}" using pd by (intro away_layout [OF l]) simp
    have pb: "bitmap_ok ?tb 32 s" using pages_bitmap [OF i] by blast
    obtain d where d: "map_page ?pd va fr s = Inr (s\<lparr>dev := d, phys := m\<rparr>)"
      using map_page_fresh [OF pages_directory [OF i] al(1,2) absent, unfolded least tn,
          OF al(3) tK t' _ pb away free] apart
      by (auto simp: m_def m1_def pte pde_addr_def vai)
    have "tables_inv ?sy (Suc n) k m1"
      using tables_inv_new_table [OF l ti nk(3)] by (simp add: m1_def ix_def nk(2) tn del: of_nat_add)
    from tables_inv_map [OF l this] have tm: "tables_inv ?sy (Suc n) (Suc k) m"
      using nk(1) by (simp add: m_def fr_def)
    have out: "m1 b = ?m b" if "page_of b \<noteq> ?pd" "b \<notin> span ?tb 128" for b
      unfolding m1_def
      using store_entry_elsewhere [OF pd uix(2) that(1)] mark_table_elsewhere [OF l _ that(2)] nk(3) by simp
    have "used m (page_frame_bitmap ?sy) PAGE_FRAME_BITMAP_SIZE = used ?m (page_frame_bitmap ?sy) PAGE_FRAME_BITMAP_SIZE"
    proof (rule used_frames_agree [OF l])
      fix b assume b: "b \<in> span (page_frame_bitmap ?sy) 7392"
      have "m1 b = ?m b"
        using frame_bitmap_apart(1) [OF l b] by (intro out) (auto simp: table_memory_def)
      then show "m b = ?m b" using fbs frame_bitmap_apart(2) [OF l b] by (simp add: m_def)
    qed
    then have "pages_inv ((Suc k + 1023) div 1024) (Suc k) f (s\<lparr>dev := d, phys := m\<rparr>)"
      using tm i unfolding nn by (simp add: pages_inv_def paging_on_def)
    moreover have "m b = ?m b" if "b \<notin> heap_meta ?sy" for b
      using ptes [OF that] out [of b] that by (simp add: m_def heap_meta_def)
    ultimately show ?thesis using d unfolding va_def fr_def by metis
  qed
qed

section \<open>The heap as memory\<close>

definition heap_range :: "nat \<Rightarrow> u32 set" where
  "heap_range n = {a. 0xF000000 \<le> unat a \<and> unat a < 0xF000000 + n}"

lemma table_pages_low:
  assumes "pages_inv n k f s" "p \<in> table_pages (phys s) (page_of (cr3 s))"
  shows "unat p < 0x508000"
proof -
  have l: "layout_ok (syms s)" and "tables_inv (syms s) n k (phys s)"
    and "page_of (cr3 s) = page_directory (syms s)"
    using assms(1) layout_aligned [of "syms s"] by (auto simp: pages_inv_def page_of_aligned)
  then show ?thesis
    using heap_table_pages [OF l, of n k "phys s" p] assms(2) layout_below [OF l]
    by (auto simp: word_less_nat_alt word_le_nat_alt)
qed

lemma frame_address:
  "a \<in> heap_range (4096 * k) \<Longrightarrow> k \<le> 8192 \<Longrightarrow>
   unat (a - HEAP_ALLOCATOR_AREA_START + PAGE_FRAME_ALLOCATOR_AREA_START) = unat a - 0xF000000 + 0x900000"
  by (simp add: heap_range_def unat_word_ariths unat_sub word_le_nat_alt)

lemma pages_flat:
  assumes "pages_inv n k f s"
  shows "flat (heap_range (4096 * k)) s"
  unfolding flat_def
proof (intro conjI ballI impI)
  have k: "k \<le> 8192" using assms by (simp add: pages_inv_def tables_inv_def)
  have tr: "translate s a = Some (a - HEAP_ALLOCATOR_AREA_START + PAGE_FRAME_ALLOCATOR_AREA_START)"
    if "a \<in> heap_range (4096 * k)" for a
    using pages_heap [OF assms] that by (simp add: heap_range_def)
  show "translate s a \<noteq> None" if "a \<in> heap_range (4096 * k)" for a using tr [OF that] by simp
  show "inj_on (translate s) (heap_range (4096 * k))" by (auto simp: inj_on_def tr)
  fix a assume a: "a \<in> heap_range (4096 * k)"
  let ?p = "a - HEAP_ALLOCATOR_AREA_START + PAGE_FRAME_ALLOCATOR_AREA_START"
  have "0x900000 \<le> unat ?p" using frame_address [OF a k] by simp
  moreover have "unat ?p \<le> unat (page_of ?p) + 0xFFF"
    using page_range [OF page_aligned_page_of, of ?p ?p] by simp
  ultimately have "\<not> unat (page_of ?p) < 0x508000" by simp
  then show "page_of (the (translate s a)) \<notin> table_pages (phys s) (page_of (cr3 s))"
    using table_pages_low [OF assms] tr [OF a] by auto
qed

lemma table_memory_low: "layout_ok sy \<Longrightarrow> b \<in> table_memory sy \<Longrightarrow> unat b < 0x508000"
proof -
  assume l: "layout_ok sy" and b: "b \<in> table_memory sy"
  have "unat b < 0x300000" if "page_of b = p" "page_aligned p" "p < 0x300000" for p
  proof -
    have "unat b < unat p + 4096" using page_range [OF that(2), of b] that(1) by simp
    moreover have "unat p + 4096 \<le> 0x300000"
      using page_step(3) [OF that(2) _ that(3)] page_step(1) [OF that(2) _ that(3)]
      by (simp add: page_aligned_def word_le_nat_alt)
    ultimately show ?thesis by simp
  qed
  then show ?thesis
    using b layout_below [OF l] layout_aligned [OF l] table_bitmap_pages(2) [OF l, of b]
    by (force simp: table_memory_def word_less_nat_alt)
qed

lemma heap_meta_low: "layout_ok sy \<Longrightarrow> b \<in> heap_meta sy \<Longrightarrow> unat b < 0x508000"
  using table_memory_low [of sy b] frame_bitmap_apart(2) [of sy b]
  by (auto simp: heap_meta_def table_memory_def word_less_nat_alt)

lemma pages_agree:
  assumes "pages_inv n k f s" and "s' = s\<lparr>dev := d, phys := m\<rparr>" and "\<And>b. unat b < 0x508000 \<Longrightarrow> m b = phys s b"
  shows "pages_inv n k f s'"
proof -
  have l: "layout_ok (syms s)" using assms(1) by (simp add: pages_inv_def)
  have "used m (page_frame_bitmap (syms s)) PAGE_FRAME_BITMAP_SIZE =
      used (phys s) (page_frame_bitmap (syms s)) PAGE_FRAME_BITMAP_SIZE"
    using heap_meta_low [OF l] assms(3) by (intro used_frames_agree [OF l]) (simp add: heap_meta_def)
  moreover have "tables_inv (syms s) n k m"
    using tables_inv_agree [OF l, of n k "phys s" m] table_memory_low [OF l] assms(1,3)
    by (simp add: pages_inv_def)
  ultimately show ?thesis using assms(1) by (simp add: assms(2) pages_inv_def paging_on_def)
qed

text \<open>Clearing a mapped block.\<close>

lemma pages_memset:
  fixes s :: "'a mm_scheme"
  assumes i: "pages_inv n k f s" and r: "span p (unat len) \<subseteq> heap_range (4096 * k)"
  shows "\<exists>s'. memset vstore8 p v len s = Inr s' \<and> mem_only s s' \<and> pages_inv n k f s' \<and>
    (\<forall>b\<in>heap_range (4096 * k). vview s' b = (if b \<in> span p (unat len) then ucast v else vview s b)) \<and>
    (\<forall>b. unat b < 0x900000 \<longrightarrow> phys s' b = phys s b)"
proof -
  let ?D = "heap_range (4096 * k)"
  have k: "k \<le> 8192" using i by (simp add: pages_inv_def tables_inv_def)
  obtain s' where s': "memset vstore8 p v len s = Inr s'" "same_but ?D s s'"
    "\<forall>b\<in>?D. vview s' b = (if b \<in> span p (unat len) then ucast v else vview s b)"
    using vm.memset_ok [of ?D s p len v] pages_flat [OF i] r by blast
  have eq0: "s' = s\<lparr>phys := phys s'\<rparr>" using s'(2) by (simp add: same_but_def)
  then have eq: "s' = s\<lparr>dev := dev s, phys := phys s'\<rparr>" by simp
  have "mem_only s s'" by (subst eq0) simp
  moreover have low: "phys s' b = phys s b" if b: "unat b < 0x900000" for b
  proof -
    have "translate s a \<noteq> Some b" if a: "a \<in> ?D" for a
    proof -
      have "translate s a = Some (a - HEAP_ALLOCATOR_AREA_START + PAGE_FRAME_ALLOCATOR_AREA_START)"
        using pages_heap [OF i] a by (simp add: heap_range_def)
      then show ?thesis using frame_address [OF a k] b by auto
    qed
    then show ?thesis using s'(2) unfolding same_but_def by blast
  qed
  moreover have "pages_inv n k f s'" using low by (intro pages_agree [OF i eq]) simp
  ultimately show ?thesis using s' by blast
qed

lemma heap_view:
  assumes "pages_inv n k f s" "a \<in> heap_range (4096 * k)"
  shows "vview s a = phys s (a - HEAP_ALLOCATOR_AREA_START + PAGE_FRAME_ALLOCATOR_AREA_START)"
  using pages_heap [OF assms(1)] assms(2) by (simp add: vview_def heap_range_def)

lemma heap_page_span:
  assumes "k < 8192"
  shows "span (HEAP_ALLOCATOR_AREA_START + PAGE_SIZE * word_of_nat k) 4096 =
    {a. 0xF000000 + 4096 * k \<le> unat a \<and> unat a < 0xF000000 + 4096 * Suc k}"
  using span_iff [of "HEAP_ALLOCATOR_AREA_START + PAGE_SIZE * word_of_nat k" 4096] unat_heap_page [of k] assms
  by (auto simp del: of_nat_Suc)

lemma pages_frame_allocate:
  fixes s :: "'a mm_scheme"
  assumes i: "pages_inv ((k + 1023) div 1024) k k s" and k: "k < 8192"
  defines "va \<equiv> HEAP_ALLOCATOR_AREA_START + PAGE_SIZE * word_of_nat k"
  shows "\<exists>s'. page_frame_allocate va s = Inr (va, s') \<and> mem_only s s' \<and>
    pages_inv ((Suc k + 1023) div 1024) (Suc k) (Suc k) s' \<and>
    (\<forall>a\<in>heap_range (4096 * k). vview s' a = vview s a) \<and>
    (\<forall>a\<in>span va 4096. vview s' a = 0) \<and>
    (\<forall>b. b \<notin> heap_meta (syms s) \<and> unat b < 0x900000 \<longrightarrow> phys s' b = phys s b)"
proof -
  let ?n = "(k + 1023) div 1024" and ?n' = "(Suc k + 1023) div 1024"
  have va: "va mod PAGE_SIZE = 0" using k heap_pages_aligned(1) by (simp add: va_def page_aligned_def)
  have l: "layout_ok (syms s)" using i by (simp add: pages_inv_def)
  define s1 where "s1 d = s\<lparr>dev := d, phys := mark (phys s) (page_frame_bitmap (syms s)) k\<rparr>" for d
  obtain d1 where 1: "bitmap_scan (page_frame_bitmap (syms s)) look_at_frames PAGE_FRAME_BITMAP_SIZE 0 s =
      Inr (Some k, s1 d1)" "pages_inv ?n k (Suc k) (s1 d1)"
    using pages_scan_frame [OF i k] unfolding s1_def by blast
  have s1: "syms (s1 d1) = syms s" "mem_only s (s1 d1)" by (simp_all add: s1_def mem_only_def)
  obtain d2 m2 where 2: "map_page (page_directory (syms s)) va
      (PAGE_FRAME_ALLOCATOR_AREA_START + PAGE_SIZE * word_of_nat k) (s1 d1) = Inr (s1 d1\<lparr>dev := d2, phys := m2\<rparr>)"
    "pages_inv ?n' (Suc k) (Suc k) (s1 d1\<lparr>dev := d2, phys := m2\<rparr>)"
    "\<forall>b. b \<notin> heap_meta (syms s) \<longrightarrow> m2 b = phys (s1 d1) b"
    using pages_map [OF 1(2) k refl] unfolding s1(1) va_def by blast
  define s2 where "s2 = s1 d1\<lparr>dev := d2, phys := m2\<rparr>"
  have m2: "m2 b = phys s b" if "b \<notin> heap_meta (syms s)" for b
  proof -
    have "b \<notin> span (page_frame_bitmap (syms s)) 7392" using that by (auto simp: heap_meta_def)
    then show ?thesis using 2(3) that mark_frame_elsewhere [OF l] k by (simp add: s1_def)
  qed
  have i2: "pages_inv ?n' (Suc k) (Suc k) s2" using 2(2) by (simp add: s2_def)
  have sub: "span va (unat PAGE_SIZE) \<subseteq> heap_range (4096 * Suc k)"
    using heap_page_span [OF k] by (auto simp: va_def heap_range_def simp del: of_nat_Suc)
  obtain s3 where 3: "memset vstore8 va 0 PAGE_SIZE s2 = Inr s3" "mem_only s2 s3" "pages_inv ?n' (Suc k) (Suc k) s3"
    "\<forall>b\<in>heap_range (4096 * Suc k). vview s3 b = (if b \<in> span va (unat PAGE_SIZE) then 0 else vview s2 b)"
    "\<forall>b. unat b < 0x900000 \<longrightarrow> phys s3 b = phys s2 b"
    using pages_memset [OF i2 sub, of 0] by auto
  have "mem_only (s1 d1) s2" by (simp add: s2_def mem_only_def)
  then have mo: "mem_only s s3" using s1(2) 3(2) mem_only_trans by blast
  have "page_frame_allocate va s = Inr (va, s3)"
    using va 1(1) 2(1) 3(1) s1(1) by (simp add: page_frame_allocate_def Let_def flip: s2_def)
  moreover have "vview s3 a = vview s a" if a: "a \<in> heap_range (4096 * k)" for a
  proof -
    have a': "a \<in> heap_range (4096 * Suc k)" "a \<notin> span va (unat PAGE_SIZE)"
      using a heap_page_span [OF k] by (auto simp: heap_range_def va_def simp del: of_nat_Suc)
    let ?p = "a - HEAP_ALLOCATOR_AREA_START + PAGE_FRAME_ALLOCATOR_AREA_START"
    have "unat ?p \<ge> 0x900000" using frame_address [OF a] k by simp
    then have "?p \<notin> heap_meta (syms s)" using heap_meta_low [OF l, of ?p] by auto
    then show ?thesis
      using 3(4) a' heap_view [OF i2 a'(1)] heap_view [OF i a] m2 by (simp add: s2_def)
  qed
  moreover have "vview s3 a = 0" if "a \<in> span va 4096" for a using 3(4) that sub by auto
  moreover have "phys s3 b = phys s b" if "b \<notin> heap_meta (syms s)" "unat b < 0x900000" for b
    using 3(5) that m2 by (simp add: s2_def)
  ultimately show ?thesis using 3(3) mo by (intro exI [of _ s3] conjI ballI allI impI) simp_all
qed

section \<open>\<open>heap_allocate\<close>\<close>

definition heap_pages :: "nat \<Rightarrow> 'a mm_scheme \<Rightarrow> bool" where
  "heap_pages k s \<longleftrightarrow> pages_inv ((k + 1023) div 1024) k k s \<and>
     heap_mapped s = HEAP_ALLOCATOR_AREA_START + PAGE_SIZE * word_of_nat k \<and>
     0xF000000 \<le> unat (heap_current s) \<and> unat (heap_current s) \<le> 0xF000000 + 4096 * k"

definition heap_inv :: "'a mm_scheme \<Rightarrow> bool" where
  "heap_inv s \<longleftrightarrow> (\<exists>k. heap_pages k s)"

lemma heap_pages_bound: "heap_pages k s \<Longrightarrow> k \<le> 8192"
  by (simp add: heap_pages_def pages_inv_def tables_inv_def)

lemma heap_pages_mapped: "heap_pages k s \<Longrightarrow> unat (heap_mapped s) = 0xF000000 + 4096 * k"
  using unat_heap_page [of k] heap_pages_bound [of k s] by (simp add: heap_pages_def)

text \<open>What an allocation does not touch: every other variable of the kernel.\<close>

definition heap_only :: "'a mm_scheme \<Rightarrow> 'a mm_scheme \<Rightarrow> bool" where
  "heap_only s s' \<longleftrightarrow> s' = s\<lparr>dev := dev s', phys := phys s',
     heap_current := heap_current s', heap_mapped := heap_mapped s'\<rparr>"

lemma heap_only_trans: "heap_only s s' \<Longrightarrow> heap_only s' s'' \<Longrightarrow> heap_only s s''"
proof -
  assume 1: "heap_only s s'" and 2: "heap_only s' s''"
  have "s'' = s'\<lparr>dev := dev s'', phys := phys s'', heap_current := heap_current s'',
    heap_mapped := heap_mapped s''\<rparr>" using 2 by (simp add: heap_only_def)
  also have "\<dots> = s\<lparr>dev := dev s', phys := phys s', heap_current := heap_current s', heap_mapped := heap_mapped s'\<rparr>
    \<lparr>dev := dev s'', phys := phys s'', heap_current := heap_current s'', heap_mapped := heap_mapped s''\<rparr>"
    using 1 by (simp add: heap_only_def)
  finally show "heap_only s s''" by (simp add: heap_only_def)
qed

lemma heap_only_mem: "mem_only s s' \<Longrightarrow> heap_only s s'"
proof -
  assume "mem_only s s'"
  then have "s' = s\<lparr>dev := dev s', phys := phys s'\<rparr>" "heap_current s' = heap_current s" "heap_mapped s' = heap_mapped s"
    by (auto simp: mem_only_mm) (simp add: mem_only_def)
  then show "heap_only s s'" by (simp add: heap_only_def)
qed

lemma heap_only_upd [simp]: "heap_only s (s\<lparr>heap_mapped := x\<rparr>)" "heap_only s (s\<lparr>heap_current := x\<rparr>)"
  "heap_only s (mlog fmt as s)" "heap_only s s"
  by (simp_all add: heap_only_def mlog_def)

lemma heap_only_same:
  assumes "heap_only s s'"
  shows "syms s' = syms s" "cr0 s' = cr0 s" "cr3 s' = cr3 s" "interrupt_handlers s' = interrupt_handlers s"
    "mm.more s' = mm.more s"
  by (subst assms [unfolded heap_only_def], simp)+

text \<open>The loop maps pages until \<open>target\<close> is covered, and keeps what the heap holds.\<close>

lemma pages_inv_cong:
  "phys s = phys s' \<Longrightarrow> cr0 s = cr0 s' \<Longrightarrow> cr3 s = cr3 s' \<Longrightarrow> syms s = syms s' \<Longrightarrow>
   pages_inv n k f s = pages_inv n k f s'"
  by (simp add: pages_inv_def paging_on_def)

lemma vview_cong:
  "phys s = phys s' \<Longrightarrow> cr0 s = cr0 s' \<Longrightarrow> cr3 s = cr3 s' \<Longrightarrow> vview s = vview s'"
  using translate_cong [of s s'] by (simp add: vview_def fun_eq_iff)

lemma heap_grow_ok:
  "heap_pages k s \<Longrightarrow> unat target \<le> 0x11000000 \<Longrightarrow>
   \<exists>s' k'. heap_grow target s = Inr s' \<and> heap_pages k' s' \<and> k \<le> k' \<and> unat target \<le> 0xF000000 + 4096 * k' \<and>
     heap_only s s' \<and> heap_current s' = heap_current s \<and>
     (\<forall>a\<in>heap_range (4096 * k). vview s' a = vview s a) \<and>
     (\<forall>b. b \<notin> heap_meta (syms s) \<and> unat b < 0x900000 \<longrightarrow> phys s' b = phys s b)"
proof (induction "8192 - k" arbitrary: k s rule: less_induct)
  case less
  note m = heap_pages_mapped [OF less.prems(1)]
  show ?case
  proof (cases "target > heap_mapped s")
    case False
    then show ?thesis
      using less.prems m by (intro exI [of _ s] exI [of _ k])
        (simp add: heap_grow.simps [of target s] word_less_nat_alt)
  next
    case True
    then have k: "k < 8192" using m less.prems(2) by (simp add: word_less_nat_alt)
    let ?va = "HEAP_ALLOCATOR_AREA_START + PAGE_SIZE * word_of_nat k :: u32"
    have va: "heap_mapped s = ?va" using less.prems(1) by (simp add: heap_pages_def)
    have i: "pages_inv ((k + 1023) div 1024) k k s" using less.prems(1) by (simp add: heap_pages_def)
    obtain s1 where 1: "page_frame_allocate ?va s = Inr (?va, s1)" "mem_only s s1"
      "pages_inv ((Suc k + 1023) div 1024) (Suc k) (Suc k) s1"
      "\<forall>a\<in>heap_range (4096 * k). vview s1 a = vview s a"
      "\<forall>b. b \<notin> heap_meta (syms s) \<and> unat b < 0x900000 \<longrightarrow> phys s1 b = phys s b"
      using pages_frame_allocate [OF i k] by blast
    define s2 where "s2 = s1\<lparr>heap_mapped := heap_mapped s1 + PAGE_SIZE\<rparr>"
    have same: "heap_mapped s1 = ?va" "heap_current s1 = heap_current s" "syms s1 = syms s"
      using mem_only_mm [OF 1(2)] va by auto
    have i2: "pages_inv ((Suc k + 1023) div 1024) (Suc k) (Suc k) s2"
      using 1(3) pages_inv_cong [of s1 s2] by (simp add: s2_def)
    have v2: "vview s2 = vview s1" "phys s2 = phys s1" "syms s2 = syms s" "heap_current s2 = heap_current s"
      using vview_cong [of s2 s1] same by (simp_all add: s2_def)
    have hp: "heap_pages (Suc k) s2"
      using i2 less.prems(1) same unfolding heap_pages_def v2(4)
      by (auto simp: s2_def distrib_left add.commute add.left_commute)
    have d: "8192 - Suc k < 8192 - k" using k by arith
    from less.hyps [OF d hp less.prems(2)] obtain s3 k' where
      3: "heap_grow target s2 = Inr s3" "heap_pages k' s3" "Suc k \<le> k'" "unat target \<le> 0xF000000 + 4096 * k'"
        "heap_only s2 s3" "heap_current s3 = heap_current s2"
        "\<forall>a\<in>heap_range (4096 * Suc k). vview s3 a = vview s2 a"
        "\<forall>b. b \<notin> heap_meta (syms s2) \<and> unat b < 0x900000 \<longrightarrow> phys s3 b = phys s2 b" by blast
    have "heap_grow target s = Inr s3"
      using True 1(1) 3(1) less.prems(2) unfolding heap_grow.simps [of target s]
      by (simp add: va word_le_nat_alt flip: s2_def)
    moreover have "heap_only s s3"
    proof -
      have "heap_only s1 s2" by (simp add: s2_def)
      then show ?thesis using heap_only_mem [OF 1(2)] 3(5) heap_only_trans by blast
    qed
    moreover have "vview s3 a = vview s a" if a: "a \<in> heap_range (4096 * k)" for a
    proof -
      have "a \<in> heap_range (4096 * Suc k)" using a by (simp add: heap_range_def)
      then show ?thesis using 3(7) 1(4) a v2(1) by simp
    qed
    moreover have "phys s3 b = phys s b" if "b \<notin> heap_meta (syms s)" "unat b < 0x900000" for b
      using 3(8) 1(5) that v2 by simp
    ultimately show ?thesis using 3(2-4,6) v2(4) by (intro exI [of _ s3] exI [of _ k']) simp
  qed
qed

text \<open>
  The contract of the heap: the block starts where the last one ended, is mapped and zeroed,
  and what the earlier blocks hold stays.
\<close>

lemma heap_pages_load:
  "heap_pages k s \<Longrightarrow> a \<in> heap_range (4096 * k) \<Longrightarrow> vload8 a s = Inr (vview s a)"
  using pages_heap [of _ k k s a]
  by (auto simp: heap_pages_def heap_range_def vload8_def vview_def)

lemma heap_allocate_ok:
  fixes s :: "'a mm_scheme"
  assumes inv: "heap_inv s" and room: "unat (heap_current s) + unat sz \<le> 0x11000000"
  shows "\<exists>s'. heap_allocate sz s = Inr (heap_current s, s') \<and> heap_inv s' \<and> heap_only s s' \<and>
    unat (heap_current s') = unat (heap_current s) + unat sz \<and>
    (\<forall>a. unat (heap_current s) \<le> unat a \<and> unat a < unat (heap_current s') \<longrightarrow> vload8 a s' = Inr 0) \<and>
    (\<forall>a. 0xF000000 \<le> unat a \<and> unat a < unat (heap_current s) \<longrightarrow> vload8 a s' = vload8 a s) \<and>
    (\<forall>b. b \<notin> heap_meta (syms s) \<and> unat b < 0x900000 \<longrightarrow> phys s' b = phys s b)"
proof -
  obtain k where k: "heap_pages k s" using inv by (auto simp: heap_inv_def)
  define c where "c = heap_current s"
  define s0 where "s0 = mlog ''Heap allocation of size %x bytes at address %x\<newline>'' [Num sz, Num c] s"
  have c: "0xF000000 \<le> unat c" "unat c \<le> 0xF000000 + 4096 * k" using k by (simp_all add: heap_pages_def c_def)
  have cs: "unat (c + sz) = unat c + unat sz" using room by (simp add: unat_word_ariths c_def)
  have p0: "heap_pages k s0" "heap_current s0 = c" "syms s0 = syms s" "phys s0 = phys s" "vview s0 = vview s"
    using k pages_inv_cong [of s0 s] vview_cong [of s0 s] by (simp_all add: s0_def heap_pages_def c_def mlog_def)
  have tgt: "unat (c + sz) \<le> 0x11000000" using cs room by (simp add: c_def)
  obtain s1 k1 where 1: "heap_grow (c + sz) s0 = Inr s1" "heap_pages k1 s1" "k \<le> k1"
    "unat (c + sz) \<le> 0xF000000 + 4096 * k1" "heap_only s0 s1" "heap_current s1 = c"
    "\<forall>a\<in>heap_range (4096 * k). vview s1 a = vview s a"
    "\<forall>b. b \<notin> heap_meta (syms s) \<and> unat b < 0x900000 \<longrightarrow> phys s1 b = phys s b"
    using heap_grow_ok [OF p0(1) tgt] unfolding p0 by blast
  have i1: "pages_inv ((k1 + 1023) div 1024) k1 k1 s1" using 1(2) by (simp add: heap_pages_def)
  have blk: "a \<in> span c (unat sz) \<longleftrightarrow> unat c \<le> unat a \<and> unat a < unat c + unat sz" for a
    using span_iff [of c "unat sz" a] room by (simp add: c_def)
  have sub: "span c (unat sz) \<subseteq> heap_range (4096 * k1)"
    using c cs 1(4) by (auto simp: blk heap_range_def)
  obtain s2 where 2: "memset vstore8 c 0 sz s1 = Inr s2" "mem_only s1 s2"
    "pages_inv ((k1 + 1023) div 1024) k1 k1 s2"
    "\<forall>b\<in>heap_range (4096 * k1). vview s2 b = (if b \<in> span c (unat sz) then 0 else vview s1 b)"
    "\<forall>b. unat b < 0x900000 \<longrightarrow> phys s2 b = phys s1 b"
    using pages_memset [OF i1 sub, of 0] by auto
  define s3 where "s3 = s2\<lparr>heap_current := c + sz\<rparr>"
  note same2 = mem_only_mm [OF 2(2)]
  have hp: "heap_pages k1 s3"
    using 2(3) pages_inv_cong [of s3 s2] 1(2,4,6) same2 c cs
    by (simp add: heap_pages_def s3_def)
  have v3: "vview s3 = vview s2" using vview_cong [of s3 s2] by (simp add: s3_def)
  have ho: "heap_only s s3"
  proof -
    have "heap_only s s0" "heap_only s2 s3" by (simp_all add: s0_def s3_def)
    then show ?thesis using 1(5) heap_only_mem [OF 2(2)] heap_only_trans by blast
  qed
  have "heap_allocate sz s = Inr (c, s3)"
  proof -
    have "\<not> HEAP_ALLOCATOR_AREA_END < c + sz" using tgt by (simp add: word_less_nat_alt)
    then show ?thesis
      using 1(1,6) 2(1) p0(2) same2(2)
      by (simp add: heap_allocate_def Let_def s3_def flip: s0_def c_def)
  qed
  moreover have "vload8 a s3 = Inr 0" if "unat c \<le> unat a" "unat a < unat (c + sz)" for a
  proof -
    have "a \<in> heap_range (4096 * k1)" "a \<in> span c (unat sz)" using that sub by (auto simp: blk cs)
    then show ?thesis using heap_pages_load [OF hp] 2(4) v3 by simp
  qed
  moreover have "vload8 a s3 = vload8 a s" if "0xF000000 \<le> unat a" "unat a < unat c" for a
  proof -
    have a: "a \<in> heap_range (4096 * k)" "a \<in> heap_range (4096 * k1)" "a \<notin> span c (unat sz)"
      using that c 1(3) by (auto simp: heap_range_def blk)
    then show ?thesis
      using heap_pages_load [OF hp a(2)] heap_pages_load [OF k a(1)] 2(4) v3 1(7) by simp
  qed
  moreover have "phys s3 b = phys s b" if "b \<notin> heap_meta (syms s)" "unat b < 0x900000" for b
    using 2(5) 1(8) that by (simp add: s3_def)
  moreover have "heap_inv s3" using hp by (auto simp: heap_inv_def)
  moreover have "heap_current s3 = c + sz" by (simp add: s3_def)
  ultimately show ?thesis
    using ho cs unfolding c_def by (intro exI [of _ s3]) simp
qed

text \<open>Too much for the heap is refused before anything is mapped.\<close>

lemma heap_allocate_overflow:
  assumes "0x11000000 < unat (heap_current s) + unat sz" "unat (heap_current s) + unat sz < 2 ^ 32"
  shows "heap_allocate sz s = Inl (Panic ''Heap is overflowing! Cannot allocate!'')"
proof -
  have "unat (heap_current s + sz) = unat (heap_current s) + unat sz" using assms by (simp add: unat_word_ariths)
  then show ?thesis
    using assms(1) by (simp add: heap_allocate_def Let_def panic_def word_less_nat_alt mlog_def)
qed

section \<open>The interface of a bump allocator\<close>

text \<open>
  What the clients of the heap rely on: \<open>top\<close> grows by the size asked for, the block is zero,
  and loads from earlier blocks are unaffected.
\<close>

locale bump_allocator =
  fixes alloc :: "u32 \<Rightarrow> 's \<Rightarrow> stop + u32 \<times> 's"
    and inv :: "'s \<Rightarrow> bool"
    and top :: "'s \<Rightarrow> u32"
    and load :: "u32 \<Rightarrow> 's \<Rightarrow> stop + u8"
    and base limit :: nat
  assumes top_base: "inv s \<Longrightarrow> base \<le> unat (top s)"
    and alloc_ok: "inv s \<Longrightarrow> unat (top s) + unat n \<le> limit \<Longrightarrow>
      \<exists>s'. alloc n s = Inr (top s, s') \<and> inv s' \<and> unat (top s') = unat (top s) + unat n \<and>
        (\<forall>a. unat (top s) \<le> unat a \<and> unat a < unat (top s') \<longrightarrow> load a s' = Inr 0) \<and>
        (\<forall>a. base \<le> unat a \<and> unat a < unat (top s) \<longrightarrow> load a s' = load a s)"

fun alloc_all :: "(u32 \<Rightarrow> 's \<Rightarrow> stop + u32 \<times> 's) \<Rightarrow> u32 list \<Rightarrow> 's \<Rightarrow> stop + u32 list \<times> 's" where
  "alloc_all alloc [] s = Inr ([], s)"
| "alloc_all alloc (n # ns) s =
     and_then (alloc n s) (\<lambda>(p, s). and_then (alloc_all alloc ns s) (\<lambda>(ps, s). Inr (p # ps, s)))"

text \<open>Blocks, as pairs of address and size, one behind the other.\<close>

fun consecutive :: "nat \<Rightarrow> (u32 \<times> u32) list \<Rightarrow> bool" where
  "consecutive t [] \<longleftrightarrow> True"
| "consecutive t ((p, n) # bs) \<longleftrightarrow> unat p = t \<and> consecutive (t + unat n) bs"

context bump_allocator
begin

lemma alloc_all_ok:
  "inv s \<Longrightarrow> unat (top s) + sum_list (map unat ns) \<le> limit \<Longrightarrow>
   \<exists>ps s'. alloc_all alloc ns s = Inr (ps, s') \<and> length ps = length ns \<and> inv s' \<and>
     consecutive (unat (top s)) (zip ps ns) \<and> unat (top s') = unat (top s) + sum_list (map unat ns) \<and>
     (\<forall>a. unat (top s) \<le> unat a \<and> unat a < unat (top s') \<longrightarrow> load a s' = Inr 0) \<and>
     (\<forall>a. base \<le> unat a \<and> unat a < unat (top s) \<longrightarrow> load a s' = load a s)"
proof (induction ns arbitrary: s)
  case Nil
  then show ?case by (intro exI [of _ "[]"] exI [of _ s]) auto
next
  case (Cons n ns)
  have "unat (top s) + unat n \<le> limit" using Cons.prems(2) by simp
  from alloc_ok [OF Cons.prems(1) this] obtain s1 where
    1: "alloc n s = Inr (top s, s1)" "inv s1" "unat (top s1) = unat (top s) + unat n"
      "\<forall>a. unat (top s) \<le> unat a \<and> unat a < unat (top s1) \<longrightarrow> load a s1 = Inr 0"
      "\<forall>a. base \<le> unat a \<and> unat a < unat (top s) \<longrightarrow> load a s1 = load a s" by blast
  have "unat (top s1) + sum_list (map unat ns) \<le> limit" using Cons.prems(2) 1(3) by simp
  from Cons.IH [OF 1(2) this] obtain ps s2 where
    2: "alloc_all alloc ns s1 = Inr (ps, s2)" "length ps = length ns" "inv s2"
      "consecutive (unat (top s1)) (zip ps ns)" "unat (top s2) = unat (top s1) + sum_list (map unat ns)"
      "\<forall>a. unat (top s1) \<le> unat a \<and> unat a < unat (top s2) \<longrightarrow> load a s2 = Inr 0"
      "\<forall>a. base \<le> unat a \<and> unat a < unat (top s1) \<longrightarrow> load a s2 = load a s1" by blast
  have z: "load a s2 = Inr 0" if "unat (top s) \<le> unat a" "unat a < unat (top s2)" for a
    using 1(4) 2(6,7) that top_base [OF Cons.prems(1)] by (cases "unat a < unat (top s1)") auto
  have "load a s2 = load a s" if "base \<le> unat a" "unat a < unat (top s)" for a
    using 1(3,5) 2(7) that by simp
  with z show ?case
    using 1(1,3) 2(1-5) by (intro exI [of _ "top s # ps"] exI [of _ s2]) simp
qed

end

interpretation heap: bump_allocator heap_allocate heap_inv heap_current vload8 "0xF000000" "0x11000000"
proof (unfold_locales, goal_cases)
  case (1 s)
  then show ?case by (auto simp: heap_inv_def heap_pages_def)
next
  case (2 s n)
  from heap_allocate_ok [OF 2] show ?case by blast
qed

end
