(* ===== verification/Memory_Properties.thy ===== *)
theory Memory_Properties
  imports Heap
begin

text \<open>
  The properties of the memory manager: what paging is after \<open>init_paging\<close>, what \<open>map_page\<close>,
  \<open>unmap_page\<close> and the allocators do, and what the heap promises its clients. The witnesses use the
  state \<open>boot_state\<close>, a kernel image at concrete addresses with all memory zero.
\<close>

unbundle bit_operations_syntax

section \<open>A concrete boot state\<close>

definition boot_symbols :: symbols where
  "boot_symbols = \<lparr>page_directory = 0x200000, first_page_table = 0x201000, second_page_table = 0x202000,
     page_frame_bitmap = 0x210000, page_table_bitmap = 0x220000\<rparr>"

definition boot_state :: mm where
  "boot_state = \<lparr>dev = \<lparr>out = []\<rparr>, phys = (\<lambda>_. 0), cr0 = 0x11, cr3 = 0, interrupt_handlers = (\<lambda>_. None),
     syms = boot_symbols, heap_current = 0, heap_mapped = 0\<rparr>"

lemma boot_layout: "layout_ok boot_symbols"
  by (simp add: layout_ok_def boot_symbols_def page_aligned_def word_aligned_def in_kernel_def
      clear_of_tables_def no_overlap_def)

lemma boot_paging_off: "\<not> paging_on boot_state"
  by (simp add: paging_on_def boot_state_def bit_iff_odd_drop_bit)

lemma boot_fields [simp]: "phys boot_state a = 0" "syms boot_state = boot_symbols"
  by (simp_all add: boot_state_def)

text \<open>What the set-up relies on: paging off, the layout, and zeroed tables and table bitmap.\<close>

definition boots :: "'a mm_scheme \<Rightarrow> bool" where
  "boots s \<longleftrightarrow> \<not> paging_on s \<and> layout_ok (syms s) \<and>
     (\<forall>a. page_of a \<in> {first_page_table (syms s), second_page_table (syms s)} \<longrightarrow> phys s a = 0) \<and>
     (\<forall>b. b \<in> span (page_table_bitmap (syms s)) 128 \<longrightarrow> phys s b = 0)"

lemma boots_boot_state: "boots boot_state"
  using boot_layout boot_paging_off by (simp add: boots_def)

lemma init_paging_pages:
  fixes s :: "'a mm_scheme"
  assumes "boots s"
  shows "\<exists>s'. init_paging s = Inr s' \<and> heap_pages 0 s' \<and> heap_current s' = HEAP_ALLOCATOR_AREA_START \<and>
    interrupt_handlers s' = (interrupt_handlers s)(14 := Some Page_fault_handler) \<and> syms s' = syms s \<and>
    mm.more s' = mm.more s \<and>
    (\<forall>a. a \<in> mapped_at_boot \<longrightarrow> translate s' a = Some a) \<and>
    (\<forall>a. a \<notin> mapped_at_boot \<longrightarrow> translate s' a = table_leftover (phys s) a)"
proof -
  have off: "\<not> paging_on s" and l: "layout_ok (syms s)" using assms by (simp_all add: boots_def)
  obtain d m where m: "init_paging s = Inr (s\<lparr>dev := d, phys := m, cr0 := cr0 s OR 0x80000000,
      cr3 := page_directory (syms s), interrupt_handlers := (interrupt_handlers s)(14 := Some Page_fault_handler),
      heap_current := HEAP_ALLOCATOR_AREA_START, heap_mapped := HEAP_ALLOCATOR_AREA_START\<rparr>)"
    "stage (page_directory (syms s)) (grown_entries (syms s)) mapped_at_boot (table_leftover (phys s)) m"
    "\<forall>b. b \<in> span (page_frame_bitmap (syms s)) 7392 \<union> span (page_table_bitmap (syms s)) 128 \<longrightarrow> m b = 0"
    using init_paging_stage [OF off l] assms by (auto simp: boots_def)
  define s' where "s' = s\<lparr>dev := d, phys := m, cr0 := cr0 s OR 0x80000000,
      cr3 := page_directory (syms s), interrupt_handlers := (interrupt_handlers s)(14 := Some Page_fault_handler),
      heap_current := HEAP_ALLOCATOR_AREA_START, heap_mapped := HEAP_ALLOCATOR_AREA_START\<rparr>"
  have "tables_inv (syms s) 0 0 m" using m(3) by (intro tables_inv_init [OF l m(2)]) blast
  moreover have "used m (page_frame_bitmap (syms s)) PAGE_FRAME_BITMAP_SIZE = {}"
    using l m(3) by (intro used_zero [of _ 7392]) (simp_all add: layout_ok_def)
  moreover have "bit (cr0 s OR 0x80000000) 31" by (simp add: bit_or_iff bit_iff_odd_drop_bit [of "0x80000000"])
  ultimately have i: "pages_inv 0 0 0 s'" using l by (simp add: pages_inv_def s'_def paging_on_def)
  then have "heap_pages 0 s'" by (simp add: heap_pages_def s'_def)
  moreover have "translate s' a = walk m (page_directory (syms s)) a" for a
    using pages_walk [OF i, of a] by (simp add: s'_def)
  ultimately show ?thesis
    using m(1,2) by (intro exI [of _ s']) (simp add: s'_def stage_def)
qed

text \<open>States with an empty heap.\<close>

lemma boots_extend: "boots (mm.extend boot_state x)"
  using boots_boot_state by (simp add: boots_def mm.defs paging_on_def boot_state_def)

lemma booted_extend:
  "\<exists>s. init_paging (mm.extend boot_state x) = Inr s \<and> heap_pages 0 s \<and> heap_inv s \<and>
    heap_current s = 0xF000000 \<and> syms s = boot_symbols \<and> mm.more s = x \<and>
    (\<forall>a. a \<notin> mapped_at_boot \<and> drop_bit 22 a \<noteq> 2 \<longrightarrow> translate s a = None)"
proof -
  obtain s where s: "init_paging (mm.extend boot_state x) = Inr s" "heap_pages 0 s" "heap_current s = 0xF000000"
    "syms s = syms (mm.extend boot_state x)" "mm.more s = mm.more (mm.extend boot_state x)"
    "\<forall>a. a \<notin> mapped_at_boot \<and> drop_bit 22 a \<noteq> 2 \<longrightarrow> translate s a = None"
    using init_paging_pages [OF boots_extend, of x] by (elim exE conjE) (simp add: table_leftover_def)
  moreover from this have "heap_inv s" unfolding heap_inv_def by blast
  ultimately show ?thesis by (intro exI [of _ s]) (simp add: mm.defs)
qed

lemma booted:
  "\<exists>s. init_paging boot_state = Inr s \<and> heap_pages 0 s \<and> heap_inv s \<and> heap_current s = 0xF000000"
proof -
  obtain s where "init_paging boot_state = Inr s" "heap_pages 0 s" "heap_current s = 0xF000000"
    using init_paging_pages [OF boots_boot_state] by (elim exE conjE)
  moreover from this have "heap_inv s" unfolding heap_inv_def by blast
  ultimately show ?thesis by blast
qed

section \<open>Properties\<close>

text \<open>
  C1: \<open>init_paging\<close> returns with paging on and this address space: the kernel, the page table area and the VGA page translate to
  themselves. From 9 MB to 12 MB an address translates as the words say that were in memory from 5 MB on before, since the page taken there for
  the table is not cleared. Nothing else translates. The page fault handler is registered, and the heap starts empty at its area.
\<close>

theorem init_paging_address_space:
  assumes "boots s"
  shows "\<exists>s'. init_paging s = Inr s' \<and> paging_on s' \<and>
    (\<forall>a. translate s' a =
      (if 0x100000 \<le> a \<and> a < 0x300000 \<or> 0x500000 \<le> a \<and> a < 0x900000 \<or> 0xb8000 \<le> a \<and> a < 0xb9000 then Some a
       else if 0x900000 \<le> a \<and> a < 0xC00000 then leftover (phys s) 0x500000 a else None)) \<and>
    interrupt_handlers s' 14 = Some Page_fault_handler \<and>
    heap_current s' = 0xF000000 \<and> heap_mapped s' = 0xF000000"
proof -
  have mb: "a \<in> mapped_at_boot \<longleftrightarrow>
      0x100000 \<le> a \<and> a < 0x300000 \<or> 0x500000 \<le> a \<and> a < 0x900000 \<or> 0xb8000 \<le> a \<and> a < 0xb9000" for a
    by (auto simp: mapped_at_boot_def word_le_nat_alt word_less_nat_alt)
  have two: "drop_bit 22 a = 2 \<longleftrightarrow> 0x800000 \<le> a \<and> a < 0xC00000" for a :: u32
  proof -
    have "drop_bit 22 a = 2 \<longleftrightarrow> unat a div 4194304 = 2" using dir_index [of a] by (simp add: word_unat_eq_iff)
    also have "\<dots> \<longleftrightarrow> 0x800000 \<le> unat a \<and> unat a < 0xC00000" by auto
    finally show ?thesis by (simp add: word_le_nat_alt word_less_nat_alt)
  qed
  have left: "table_leftover (phys s) a = (if 0x900000 \<le> a \<and> a < 0xC00000 then leftover (phys s) 0x500000 a else None)"
    if "a \<notin> mapped_at_boot" for a
    using that unfolding table_leftover_def two mb by (auto simp: word_le_nat_alt word_less_nat_alt)
  obtain s' where s': "init_paging s = Inr s'" "heap_pages 0 s'" "heap_current s' = HEAP_ALLOCATOR_AREA_START"
    "interrupt_handlers s' = (interrupt_handlers s)(14 := Some Page_fault_handler)"
    "\<forall>a. a \<in> mapped_at_boot \<longrightarrow> translate s' a = Some a"
    "\<forall>a. a \<notin> mapped_at_boot \<longrightarrow> translate s' a = table_leftover (phys s) a"
    using init_paging_pages [OF assms] by (elim exE conjE)
  have "translate s' a = (if 0x100000 \<le> a \<and> a < 0x300000 \<or> 0x500000 \<le> a \<and> a < 0x900000 \<or> 0xb8000 \<le> a \<and> a < 0xb9000 then Some a
       else if 0x900000 \<le> a \<and> a < 0xC00000 then leftover (phys s) 0x500000 a else None)" for a
    unfolding mb [symmetric] using s'(5,6) left by simp
  then show ?thesis using s'(1-4) by (intro exI [of _ s']) (simp add: heap_pages_def pages_inv_def)
qed

theorem init_paging_address_space_witness:
  "\<exists>s'. init_paging boot_state = Inr s' \<and> translate s' 0xb8000 = Some 0xb8000 \<and> translate s' 0 = None \<and> translate s' 0x900000 = None"
proof -
  obtain s' where s': "init_paging boot_state = Inr s'"
    "\<forall>a. translate s' a =
      (if 0x100000 \<le> a \<and> a < 0x300000 \<or> 0x500000 \<le> a \<and> a < 0x900000 \<or> 0xb8000 \<le> a \<and> a < 0xb9000 then Some a
       else if 0x900000 \<le> a \<and> a < 0xC00000 then leftover (phys boot_state) 0x500000 a else None)"
    using init_paging_address_space [OF boots_boot_state] by blast
  have "leftover (phys boot_state) 0x500000 0x900000 = None" by (simp add: leftover_def load32_zero)
  then show ?thesis using s'(1) spec [OF s'(2), of "0xb8000"] spec [OF s'(2), of 0] spec [OF s'(2), of "0x900000"] by simp
qed

text \<open>
  C2: the heap contract. As long as the request fits the heap area, \<open>heap_allocate\<close> returns the old
  end of the heap; the block reads as zero, what earlier blocks hold stays, and no other variable
  of the kernel changes. In particular page frames and page tables never run out.
\<close>

theorem heap_allocate_block:
  assumes "heap_inv s" and "unat (heap_current s) + unat sz \<le> 0x11000000"
  shows "\<exists>s'. heap_allocate sz s = Inr (heap_current s, s') \<and> heap_inv s' \<and> heap_only s s' \<and>
    unat (heap_current s') = unat (heap_current s) + unat sz \<and>
    (\<forall>a. unat (heap_current s) \<le> unat a \<and> unat a < unat (heap_current s') \<longrightarrow> vload8 a s' = Inr 0) \<and>
    (\<forall>a. 0xF000000 \<le> unat a \<and> unat a < unat (heap_current s) \<longrightarrow> vload8 a s' = vload8 a s)"
  using heap_allocate_ok [OF assms] by blast

theorem heap_allocate_block_witness:
  "\<exists>(s :: mm) p s'. heap_allocate 5000 s = Inr (p, s') \<and> p = 0xF000000 \<and> vload8 0xF001000 s' = Inr 0"
proof -
  obtain s :: mm where inv: "heap_inv s" and s: "heap_pages 0 s" "heap_current s = 0xF000000"
    using booted by blast
  have room: "unat (heap_current s) + unat (5000 :: u32) \<le> 0x11000000" by (simp add: s(2))
  obtain s' where s': "heap_allocate 5000 s = Inr (heap_current s, s')"
    "unat (heap_current s') = unat (heap_current s) + unat (5000 :: u32)"
    "\<forall>a. unat (heap_current s) \<le> unat a \<and> unat a < unat (heap_current s') \<longrightarrow> vload8 a s' = Inr 0"
    using heap_allocate_block [OF inv room] by blast
  have "vload8 0xF001000 s' = Inr 0" using spec [OF s'(3), of "0xF001000"] s'(2) by (simp add: s(2))
  then show ?thesis using s'(1) s(2) by auto
qed

text \<open>
  C3: any sequence of requests that fits the heap succeeds; the blocks lie one behind the other, so
  no two overlap, and all of them read as zero at the end.
\<close>

theorem heap_blocks_consecutive:
  assumes "heap_inv s" and "unat (heap_current s) + sum_list (map unat ns) \<le> 0x11000000"
  shows "\<exists>ps s'. alloc_all heap_allocate ns s = Inr (ps, s') \<and> length ps = length ns \<and>
    consecutive (unat (heap_current s)) (zip ps ns) \<and>
    (\<forall>a. unat (heap_current s) \<le> unat a \<and> unat a < unat (heap_current s) + sum_list (map unat ns)
       \<longrightarrow> vload8 a s' = Inr 0)"
  using heap.alloc_all_ok [OF assms] by auto

theorem heap_blocks_consecutive_witness:
  "\<exists>(s :: mm) s'. alloc_all heap_allocate [16, 8192, 4] s = Inr ([0xF000000, 0xF000010, 0xF002010], s')"
proof -
  obtain s :: mm where inv: "heap_inv s" and s: "heap_pages 0 s" "heap_current s = 0xF000000"
    using booted by blast
  have room: "unat (heap_current s) + sum_list (map unat [16, 8192, 4 :: u32]) \<le> 0x11000000"
    by (simp add: s(2))
  obtain ps s' where
    ps: "alloc_all heap_allocate [16, 8192, 4] s = Inr (ps, s')" "length ps = length [16, 8192, 4 :: u32]"
      "consecutive (unat (heap_current s)) (zip ps [16, 8192, 4])"
    using heap_blocks_consecutive [OF inv room] by blast
  then obtain p q r where "ps = [p, q, r]" by (auto simp: length_Suc_conv)
  with ps(1,3) have "alloc_all heap_allocate [16, 8192, 4] s = Inr ([0xF000000, 0xF000010, 0xF002010], s')"
    by (simp add: s(2) word_unat_eq_iff [of p] word_unat_eq_iff [of q] word_unat_eq_iff [of r])
  then show ?thesis by blast
qed

text \<open>
  A request beyond the end of the heap panics before a page is mapped, as long as the end of
  the block is an address of the machine.
\<close>

theorem heap_allocate_panics:
  assumes "0x11000000 < unat (heap_current s) + unat sz" and "unat (heap_current s) + unat sz < 2 ^ 32"
  shows "heap_allocate sz s = Inl (Panic ''Heap is overflowing! Cannot allocate!'')"
  using heap_allocate_overflow [OF assms] .

theorem heap_allocate_panics_witness:
  "heap_allocate 0x11000001 boot_state = Inl (Panic ''Heap is overflowing! Cannot allocate!'')"
  by (rule heap_allocate_panics) (simp_all add: boot_state_def)

text \<open>
  C14: the check wraps. On the empty heap a request of \<open>0xF1000000\<close> bytes or more passes it, no page is
  mapped, and clearing the block faults.
\<close>

theorem heap_allocate_wraps:
  assumes "heap_pages 0 s" and "heap_current s = 0xF000000" and "0xF1000000 \<le> sz"
  shows "heap_allocate sz s = Inl (Page_fault 0xF000000)"
proof -
  define s0 where "s0 = mlog ''Heap allocation of size %x bytes at address %x\<newline>'' [Num sz, Num 0xF000000] s"
  have "unat (0xF000000 + sz :: u32) = (0xF000000 + unat sz) mod 4294967296" by (simp add: unat_word_ariths)
  also have "\<dots> = 0xF000000 + unat sz - 4294967296"
    using assms(3) unat_u32_bound [of sz] by (simp add: word_le_nat_alt mod_if [of _ "4294967296"] del: unat_u32_bound)
  finally have t: "unat (0xF000000 + sz) \<le> 0xEFFFFFF" using unat_u32_bound [of sz] by linarith
  have hm: "heap_mapped s = 0xF000000" and i: "pages_inv 0 0 0 s"
    using assms(1) by (simp_all add: heap_pages_def)
  have "heap_grow (0xF000000 + sz) s0 = Inr s0"
    using t hm by (simp add: heap_grow.simps [of "0xF000000 + sz"] word_less_nat_alt s0_def mlog_def)
  moreover have "memset vstore8 0xF000000 0 sz s0 = Inl (Page_fault 0xF000000)"
  proof -
    have "drop_bit 22 (0xF000000 :: u32) = 60" by (simp add: drop_bit_eq_div)
    moreover have "load32 (phys s) (page_directory (syms s) + 4 * 60) = heap_entries (syms s) 0 60"
    proof -
      have "\<forall>i<1024. load32 (phys s) (page_directory (syms s) + 4 * i) = heap_entries (syms s) 0 i"
        using i by (simp add: pages_inv_def tables_inv_def)
      then show ?thesis by (rule allE [of _ 60]) (simp add: word_less_nat_alt)
    qed
    ultimately have "\<not> bit (load32 (phys s) (pde_addr (page_directory (syms s)) 0xF000000)) 0"
      unfolding pde_addr_def by (simp add: heap_entries_def entry_present)
    then have "translate s0 0xF000000 = None"
      using pages_walk [OF i, of "0xF000000"] by (simp add: s0_def walk_def)
    moreover obtain n where "unat sz = Suc n"
      using assms(3) by (cases "unat sz") (auto simp: word_le_nat_alt)
    ultimately show ?thesis by (simp add: memset_def vstore8_def)
  qed
  ultimately show ?thesis
    using assms(2) t by (simp add: heap_allocate_def Let_def word_less_nat_alt flip: s0_def) (simp add: s0_def mlog_def)
qed

theorem heap_allocate_wraps_witness:
  "\<exists>s :: mm. init_paging boot_state = Inr s \<and> heap_allocate 0xFFFFFFFF s = Inl (Page_fault 0xF000000)"
proof -
  obtain s :: mm where s: "init_paging boot_state = Inr s" "heap_pages 0 s" "heap_current s = 0xF000000"
    using booted by blast
  have "heap_allocate 0xFFFFFFFF s = Inl (Page_fault 0xF000000)"
    by (rule heap_allocate_wraps [OF s(2,3)]) simp
  with s(1) show ?thesis by blast
qed

text \<open>
  C15: \<open>init_page_table_allocator\<close> clears the table bitmap after it has allocated the table of 8 MB to
  12 MB. The first heap allocation therefore gets the same table, and the end of the page table
  area, which translated to itself, then translates to the page frame of the heap.
\<close>

theorem first_heap_page_shares_table:
  assumes "boots s" and "0 < sz" and "unat sz \<le> 0x2000000"
  shows "\<exists>s1 s2. init_paging s = Inr s1 \<and> translate s1 0x800000 = Some 0x800000 \<and>
    heap_allocate sz s1 = Inr (0xF000000, s2) \<and>
    translate s2 0x800000 = Some 0x900000 \<and> translate s2 0xF000000 = Some 0x900000"
proof -
  obtain s1 where 1: "init_paging s = Inr s1" "heap_pages 0 s1" "heap_current s1 = 0xF000000"
    "\<forall>a. a \<in> mapped_at_boot \<longrightarrow> translate s1 a = Some a"
    using init_paging_pages [OF assms(1)] by (elim exE conjE)
  have inv: "heap_inv s1" using 1(2) unfolding heap_inv_def by blast
  have room: "unat (heap_current s1) + unat sz \<le> 0x11000000" using assms(3) 1(3) by simp
  obtain s2 where 2: "heap_allocate sz s1 = Inr (heap_current s1, s2)" "heap_inv s2"
    "unat (heap_current s2) = unat (heap_current s1) + unat sz"
    using heap_allocate_ok [OF inv room] by (elim exE conjE)
  obtain k where k: "heap_pages k s2" using 2(2) by (auto simp: heap_inv_def)
  then have i: "pages_inv ((k + 1023) div 1024) k k s2" by (simp add: heap_pages_def)
  have "0 < unat sz" using assms(2) by (simp add: word_less_nat_alt)
  then have k0: "0 < k" using k 2(3) 1(3) by (auto simp: heap_pages_def intro: gr0I)
  have "translate s2 0xF000000 = Some 0x900000"
    using pages_heap [OF i, of "0xF000000"] k0 by simp
  moreover have "translate s2 0x800000 = Some 0x900000"
  proof -
    have "load32 (phys s2) (page_directory (syms s2) + 4 * 2) = heap_entries (syms s2) ((k + 1023) div 1024) 2"
    proof -
      have "\<forall>j<1024. load32 (phys s2) (page_directory (syms s2) + 4 * j) =
          heap_entries (syms s2) ((k + 1023) div 1024) j"
        using i by (simp add: pages_inv_def tables_inv_def)
      then show ?thesis by (rule allE [of _ 2]) (simp add: word_less_nat_alt)
    qed
    then have "load32 (phys s2) (pde_addr (page_directory (syms s2)) 0x800000) = 0x500003"
      by (simp add: pde_addr_def heap_entries_def grown_entries_def drop_bit_eq_div)
    moreover have "load32 (phys s2) 0x500000 = 0x900003"
    proof -
      have "\<forall>p<k. load32 (phys s2) (PAGE_TABLE_AREA_START + 4 * word_of_nat p) =
          (PAGE_FRAME_ALLOCATOR_AREA_START + PAGE_SIZE * word_of_nat p) OR 3"
        using i by (simp add: pages_inv_def tables_inv_def)
      then show ?thesis by (rule allE [of _ 0]) (simp add: k0)
    qed
    ultimately show ?thesis
      using pages_walk [OF i, of "0x800000"]
      by (simp add: walk_def Let_def pte_addr_def page_of_def offset_of_def drop_bit_eq_div bit_0)
  qed
  moreover have "translate s1 0x800000 = Some 0x800000" using 1(4) by (simp add: mapped_at_boot_def)
  moreover have "heap_allocate sz s1 = Inr (0xF000000, s2)" using 2(1) 1(3) by simp
  ultimately show ?thesis using 1(1) by blast
qed

theorem first_heap_page_shares_table_witness:
  "\<exists>s1 s2 :: mm. init_paging boot_state = Inr s1 \<and> heap_allocate 16 s1 = Inr (0xF000000, s2) \<and>
    translate s2 0x800000 = Some 0x900000"
  using first_heap_page_shares_table [OF boots_boot_state, of 16] by (auto simp: word_less_nat_alt)

text \<open>
  C13: as long as a frame is free, \<open>n\<close> searches of the frame bitmap return \<open>n\<close> different frames, none
  of which was in use.
\<close>

theorem page_frames_distinct:
  assumes "bitmap_ok (page_frame_bitmap (syms s)) PAGE_FRAME_BITMAP_SIZE s"
    and "card (used (phys s) (page_frame_bitmap (syms s)) PAGE_FRAME_BITMAP_SIZE) + n \<le> 59136"
  shows "\<exists>ks s'. alloc_many (bitmap_scan (page_frame_bitmap (syms s)) look_at_frames PAGE_FRAME_BITMAP_SIZE 0) n s =
      Inr (map Some ks, s') \<and> length ks = n \<and> distinct ks \<and> set ks \<subseteq> {..<59136} \<and>
      set ks \<inter> used (phys s) (page_frame_bitmap (syms s)) PAGE_FRAME_BITMAP_SIZE = {}"
proof -
  have v: "bitmap_ok (page_frame_bitmap (syms s)) PAGE_FRAME_BITMAP_SIZE s \<and>
      (\<forall>i w s :: 'a mm_scheme. \<exists>d. look_at_frames i w s = s\<lparr>dev := d\<rparr>)"
    using assms(1) by (auto simp: look_at_frames_def mlog_def)
  have "card (used (phys s) (page_frame_bitmap (syms s)) PAGE_FRAME_BITMAP_SIZE) + n \<le> 32 * PAGE_FRAME_BITMAP_SIZE"
    using assms(2) by simp
  from bm.alloc_many_distinct [OF v this] show ?thesis by auto
qed

theorem page_frames_distinct_witness:
  "\<exists>j k s'. alloc_many (bitmap_scan 0x210000 look_at_frames PAGE_FRAME_BITMAP_SIZE 0) 2 boot_state =
      Inr ([Some j, Some k], s') \<and> j \<noteq> k"
proof -
  have sy: "page_frame_bitmap (syms boot_state) = 0x210000" by (simp add: boot_symbols_def)
  have "used (phys boot_state) 0x210000 PAGE_FRAME_BITMAP_SIZE = {}"
    by (rule used_zero [of _ 7392]) (simp_all add: in_kernel_def boot_state_def)
  then have c: "card (used (phys boot_state) (page_frame_bitmap (syms boot_state)) PAGE_FRAME_BITMAP_SIZE) + 2 \<le> 59136"
    unfolding sy by simp
  have ok: "bitmap_ok (page_frame_bitmap (syms boot_state)) PAGE_FRAME_BITMAP_SIZE boot_state"
    using boot_paging_off by (simp add: bitmap_ok_def boot_symbols_def word_aligned_def translate_off)
  obtain ks s' where "alloc_many (bitmap_scan 0x210000 look_at_frames PAGE_FRAME_BITMAP_SIZE 0) 2 boot_state =
      Inr (map Some ks, s')" "length ks = 2" "distinct ks"
    using page_frames_distinct [OF ok c] unfolding sy by blast
  moreover from this(2) obtain j k where "ks = [j, k]" by (auto simp: length_Suc_conv numeral_2_eq_2)
  ultimately show ?thesis by auto
qed

text \<open>
  A page frame is never handed out twice to the heap: when all frames are taken,
  \<open>page_frame_allocate\<close> panics.
\<close>

theorem page_frame_allocate_full:
  assumes "page_aligned va" and "bitmap_ok (page_frame_bitmap (syms s)) PAGE_FRAME_BITMAP_SIZE s"
    and "{..<59136} \<subseteq> used (phys s) (page_frame_bitmap (syms s)) PAGE_FRAME_BITMAP_SIZE"
  shows "page_frame_allocate va s = Inl (Panic ''Page frame allocator has run out of space!'')"
proof -
  have look: "\<exists>d. look_at_frames i w s = s\<lparr>dev := d\<rparr>" for i w and s :: "'a mm_scheme"
    by (auto simp: look_at_frames_def mlog_def)
  obtain d where "bitmap_scan (page_frame_bitmap (syms s)) look_at_frames PAGE_FRAME_BITMAP_SIZE 0 s =
      Inr (None, s\<lparr>dev := d\<rparr>)"
    using bitmap_scan_none [where look = look_at_frames, OF look assms(2)] assms(3) by auto
  then show ?thesis using assms(1) by (simp add: page_frame_allocate_def panic_def page_aligned_mod)
qed

theorem page_frame_allocate_full_witness:
  "page_frame_allocate 0x5000 (boot_state\<lparr>phys := \<lambda>_. 0xFF\<rparr>) =
    Inl (Panic ''Page frame allocator has run out of space!'')"
proof -
  let ?s = "boot_state\<lparr>phys := \<lambda>_. 0xFF\<rparr>"
  have off: "\<not> paging_on ?s" using boot_paging_off by (simp add: paging_on_def)
  have w: "bitmap_word (phys ?s) b i = 0xFFFFFFFF" for b i
    by (simp add: bitmap_word_def load32_def push_bit_eq_mult)
  have "{..<59136} \<subseteq> used (phys ?s) (page_frame_bitmap (syms ?s)) PAGE_FRAME_BITMAP_SIZE"
    unfolding used_def bitmap_bit_def w using full_word_iff [of "0xFFFFFFFF"] by auto
  then show ?thesis
    using off by (intro page_frame_allocate_full)
      (simp_all add: page_aligned_def bitmap_ok_def boot_symbols_def word_aligned_def translate_off)
qed

section \<open>Pages\<close>

text \<open>A directory with one table, paging off.\<close>

definition table_state :: mm where
  "table_state = boot_state\<lparr>phys := store32 0x200000 0x201003 (\<lambda>_. 0)\<rparr>"

lemma load32_const_zero: "load32 (\<lambda>_. 0) a = 0"
  by (rule load32_zero) simp

lemma table_state_entries:
  "j < 1024 \<Longrightarrow> load32 (phys table_state) (0x200000 + 4 * j) = (if j = 0 then 0x201003 else 0)"
  using load_store_entry [of "0x200000" "0x200000" 0 j "0x201003" "\<lambda>_. 0"]
  by (simp add: table_state_def page_aligned_def load32_const_zero)

lemma table_state_directory: "directory 0x200000 UNIV table_state"
proof -
  have off: "\<not> paging_on table_state" using boot_paging_off by (simp add: table_state_def paging_on_def)
  have "clean_dir (phys table_state) 0x200000"
    unfolding clean_dir_def by (auto simp: table_state_entries page_aligned_def page_of_def split: if_splits)
  with off show ?thesis by (simp add: directory_def ident_pages_off)
qed

lemma table_state_page:
  "bit (load32 (phys table_state) (pde_addr 0x200000 0x5000)) 0"
  "exclusive (phys table_state) 0x200000 (drop_bit 22 0x5000)" "\<not> paging_on table_state"
proof -
  have i: "drop_bit 22 0x5000 = (0 :: u32)" by (simp add: drop_bit_eq_div)
  have "load32 (phys table_state) (0x200000 + 4 * 0) = 0x201003" by (subst table_state_entries) (simp_all add: word_less_nat_alt)
  then show "bit (load32 (phys table_state) (pde_addr 0x200000 0x5000)) 0"
    unfolding pde_addr_def i by (simp add: bit_0)
  show "exclusive (phys table_state) 0x200000 (drop_bit 22 0x5000)"
    unfolding exclusive_def i by (auto simp: table_state_entries split: if_splits)
  show "\<not> paging_on table_state" using boot_paging_off by (simp add: table_state_def paging_on_def)
qed

text \<open>
  C4: \<open>map_page\<close> maps its page to the physical page given. If the page table was there and no other directory entry shares it, every
  other address translates as before. If \<open>map_page\<close> takes a new page for the table, the same holds of the addresses of the other
  tables, but the neighbours of the page, up to 4 MB, translate as the words say that the page held: it is not cleared.
\<close>

theorem map_page_translates:
  assumes "directory pd P s" and "page_aligned va" and "page_aligned pa" and "mappable pd P va s"
  shows "\<exists>d m. map_page pd va pa s = Inr (s\<lparr>dev := d, phys := m\<rparr>) \<and>
    (\<forall>a. walk m pd a =
      (if page_of a = va then Some (pa OR offset_of a)
       else if \<not> bit (load32 (phys s) (pde_addr pd va)) 0 \<and> drop_bit 22 a = drop_bit 22 va then leftover (phys s) (next_table s) a
       else walk (phys s) pd a))"
  by (rule map_page_walk [OF assms])

lemma table_state_mappable: "mappable 0x200000 UNIV 0x5000 table_state" "mappable 0x200000 UNIV 0xC00000 table_state"
proof -
  have pde: "pde_addr 0x200000 0x5000 = 0x200000 + 4 * 0" "pde_addr 0x200000 0xC00000 = 0x200000 + 4 * 3"
    by (simp_all add: pde_addr_def drop_bit_eq_div)
  show "mappable 0x200000 UNIV 0x5000 table_state" using table_state_page by (simp add: mappable_def Let_def)
  have sy: "syms table_state = boot_symbols" by (simp add: table_state_def)
  have tb: "page_table_bitmap boot_symbols = 0x220000" by (simp add: boot_symbols_def)
  have "phys table_state b = 0" if "b \<in> span 0x220000 (4 * 32)" for b
  proof -
    have "store32 0x200000 0x201003 (\<lambda>_. 0) b = 0"
    proof (rule trans [OF store32_elsewhere])
      fix k :: u32 assume "k \<le> 3"
      then have "unat (0x200000 + k) = 0x200000 + unat k" by (simp add: unat_word_ariths word_le_nat_alt)
      moreover have "0x220000 \<le> unat b" using that by (simp add: span_iff)
      ultimately show "b \<noteq> 0x200000 + k" using \<open>k \<le> 3\<close> by (auto simp: word_le_nat_alt)
    qed simp
    then show ?thesis by (simp add: table_state_def)
  qed
  then have u: "used (phys table_state) 0x220000 32 = {}" by (intro used_zero [of _ 128]) (simp_all add: in_kernel_def)
  have ex: "\<exists>k. k < (1024 :: nat)" by (rule exI [of _ 0]) simp
  have t: "next_table table_state = 0x500000" by (simp add: next_table_def sy tb u)
  have T: "table_pages (phys table_state) 0x200000 \<subseteq> {0x200000, 0x201000}"
    unfolding table_pages_def by (auto simp: table_state_entries page_of_def split: if_splits)
  have "away (page_table_bitmap boot_symbols) 32 {0x200000, 0x201000, 0x500000}"
    by (rule away_layout [OF boot_layout]) (auto simp: boot_symbols_def page_aligned_def)
  then have "away 0x220000 32 (insert 0x500000 (table_pages (phys table_state) 0x200000))"
    using T unfolding away_def tb by blast
  moreover have "bitmap_ok 0x220000 32 table_state"
    using table_state_page(3) by (simp add: bitmap_ok_def word_aligned_def translate_off)
  moreover have "0x500000 \<notin> table_pages (phys table_state) 0x200000" using T by auto
  moreover have "load32 (phys table_state) (pde_addr 0x200000 0xC00000) = 0"
    unfolding pde by (subst table_state_entries) (simp_all add: word_less_nat_alt)
  ultimately show "mappable 0x200000 UNIV 0xC00000 table_state"
    using table_state_page(3) ex by (simp add: mappable_def Let_def sy tb t u)
qed

theorem map_page_translates_witness:
  "(\<exists>s. map_page 0x200000 0x5000 0x7000 table_state = Inr s \<and> walk (phys s) 0x200000 0x5123 = Some 0x7123) \<and>
   (\<exists>s. map_page 0x200000 0xC00000 0x7000 table_state = Inr s \<and> walk (phys s) 0x200000 0xC00123 = Some 0x7123)"
proof -
  have al: "page_aligned 0x5000" "page_aligned 0xC00000" "page_aligned 0x7000" by (simp_all add: page_aligned_def)
  show ?thesis
    using map_page_translates [OF table_state_directory al(1,3) table_state_mappable(1)]
      map_page_translates [OF table_state_directory al(2,3) table_state_mappable(2)]
    by (elim exE conjE) (intro conjI; rule exI, rule conjI, assumption, simp add: page_of_def offset_of_def)
qed

text \<open>
  C5: mapping a page and unmapping it again, with its table present and not shared, leaves the page without translation, also if
  it had one before, and gives every other address the translation it had. So the two undo each other exactly if the page
  was not mapped. With paging on this needs that the page is not one the kernel reaches its tables through.
\<close>

theorem unmap_after_map:
  assumes "directory pd P s" and "page_aligned va" and "page_aligned pa"
    and "bit (load32 (phys s) (pde_addr pd va)) 0" and "mappable pd P va s" and "paging_on s \<longrightarrow> va \<notin> P"
  shows "\<exists>m. and_then (map_page pd va pa s) (unmap_page pd va) = Inr (s\<lparr>phys := m\<rparr>) \<and>
    (\<forall>a. walk m pd a = (if page_of a = va then None else walk (phys s) pd a)) \<and>
    (walk m pd = walk (phys s) pd \<longleftrightarrow> walk (phys s) pd va = None)"
proof -
  define pte where "pte = pte_addr (load32 (phys s) (pde_addr pd va)) va"
  define m where "m = store32 pte (pa OR 3) (phys s)"
  define m' where "m' = store32 pte (unset_present (load32 m pte)) m"
  have P: "page_of (load32 (phys s) (pde_addr pd va)) \<in> P" "exclusive (phys s) pd (drop_bit 22 va)"
    using assms(4,5) by (simp_all add: mappable_def Let_def)
  have cd: "clean_dir (phys s) pd" using assms(1) by (simp add: directory_def)
  have keep: "\<forall>i<1024. load32 m (pd + 4 * i) = load32 (phys s) (pd + 4 * i)"
    unfolding m_def pte_def using store_pte_keeps(1) [OF cd assms(4)] by blast
  then have pde: "load32 m (pde_addr pd va) = load32 (phys s) (pde_addr pd va)"
    by (simp add: pde_addr_def)
  have wm: "walk m pd a = (if page_of a = va then Some (pa OR offset_of a) else walk (phys s) pd a)" for a
    unfolding m_def pte_def by (rule walk_after_map [OF cd assms(2-4) P(2)])
  have "map_page pd va pa s = Inr (s\<lparr>phys := m\<rparr>)"
    unfolding m_def pte_def by (rule map_page_present [OF assms(1-4) P(1)])
  moreover have "unmap_page pd va (s\<lparr>phys := m\<rparr>) = Inr (s\<lparr>phys := m\<rparr>\<lparr>phys := m'\<rparr>)"
  proof -
    have "translate (s\<lparr>phys := m\<rparr>) a = translate s a" if "page_of a \<in> P" for a
      using assms(1,6) that wm [of a] by (auto simp: translate_def paging_on_def directory_def)
    then have "directory pd P (s\<lparr>phys := m\<rparr>)"
      using assms(1) clean_dir_same(1) [OF keep]
      by (simp add: directory_def ident_pages_def paging_on_def)
    from unmap_page_present [OF this assms(2)] pde assms(4) P(1)
    show ?thesis unfolding m'_def by (simp add: pte_def m_def bit_or_iff)
  qed
  moreover have w: "walk m' pd a = (if page_of a = va then None else walk (phys s) pd a)" for a
  proof -
    have "clean_dir m pd" using cd clean_dir_same(1) [OF keep] by simp
    moreover have "exclusive m pd (drop_bit 22 va)"
      using P(2) clean_dir_same(2) [OF keep] by simp
    ultimately have "walk m' pd a = (if page_of a = va then None else walk m pd a)"
      unfolding m'_def using walk_after_write [of m pd va _ a] assms(2,4) pde unset_present_bit
      by (simp add: pte_def)
    then show ?thesis using wm [of a] by simp
  qed
  moreover have "walk m' pd = walk (phys s) pd \<longleftrightarrow> walk (phys s) pd va = None"
  proof
    assume "walk m' pd = walk (phys s) pd"
    then show "walk (phys s) pd va = None" using w [of va] page_of_aligned [OF assms(2)] by simp
  next
    assume none: "walk (phys s) pd va = None"
    have "walk (phys s) pd a = None" if "page_of a = va" for a
    proof -
      have "drop_bit 22 a = drop_bit 22 va" "drop_bit 12 a AND 0x3FF = drop_bit 12 va AND 0x3FF"
        using page_eq_iff_indices [of a va] that page_of_aligned [OF assms(2)] by simp_all
      then show ?thesis using none by (simp add: walk_def Let_def pde_addr_def pte_addr_def split: if_splits)
    qed
    then show "walk m' pd = walk (phys s) pd" using w by (intro ext) simp
  qed
  ultimately show ?thesis by (intro exI [of _ m'] conjI) simp_all
qed

theorem unmap_after_map_witness:
  "\<exists>m. and_then (map_page 0x200000 0x5000 0x7000 table_state) (unmap_page 0x200000 0x5000) =
      Inr (table_state\<lparr>phys := m\<rparr>) \<and> walk m 0x200000 0x5123 = None"
proof -
  have al: "page_aligned 0x5000" "page_aligned 0x7000" by (simp_all add: page_aligned_def)
  have off: "paging_on table_state \<longrightarrow> 0x5000 \<notin> (UNIV :: u32 set)" using table_state_page(3) by simp
  obtain m where m: "and_then (map_page 0x200000 0x5000 0x7000 table_state) (unmap_page 0x200000 0x5000) =
      Inr (table_state\<lparr>phys := m\<rparr>)"
    "\<forall>a. walk m 0x200000 a = (if page_of a = 0x5000 then None else walk (phys table_state) 0x200000 a)"
    using unmap_after_map [OF table_state_directory al table_state_page(1) table_state_mappable(1) off]
    by blast
  have "walk m 0x200000 0x5123 = None" using spec [OF m(2), of "0x5123"] by (simp add: page_of_def)
  with m(1) show ?thesis by blast
qed

text \<open>
  C12: the outcome of \<open>unmap_page\<close> on every branch: the panic with its message for an address that
  is not page aligned, one without page table, and one that is not mapped; else the present bit
  of its entry is cleared and nothing more.
\<close>

theorem unmap_page_outcome:
  assumes "directory pd P s"
    and "bit (load32 (phys s) (pde_addr pd va)) 0 \<Longrightarrow> page_of (load32 (phys s) (pde_addr pd va)) \<in> P"
  defines "pte \<equiv> pte_addr (load32 (phys s) (pde_addr pd va)) va"
  shows "unmap_page pd va s =
    (if \<not> page_aligned va
     then Inl (Panic ''Trying to unmap a virtual address that is not page aligned!'')
     else if \<not> bit (load32 (phys s) (pde_addr pd va)) 0
     then Inl (Panic ''Trying to unmap a virtual address that does not have a page directory entry!'')
     else if walk (phys s) pd va = None
     then Inl (Panic ''Trying to unmap a virtual address that has not been mapped yet!'')
     else Inr (s\<lparr>phys := store32 pte (load32 (phys s) pte AND NOT 1) (phys s)\<rparr>))"
proof (cases "page_aligned va \<and> bit (load32 (phys s) (pde_addr pd va)) 0")
  case False
  moreover have "vload32 (pd + 4 * drop_bit 22 va) s = Inr (load32 (phys s) (pde_addr pd va))"
    using directory_entry [OF assms(1), of "drop_bit 22 va"] by (simp add: pde_addr_def)
  ultimately show ?thesis
    by (auto simp: unmap_page_def panic_def page_aligned_mod is_present_bit)
next
  case True
  define pde where "pde = load32 (phys s) (pde_addr pd va)"
  have "vload32 (pd + 4 * drop_bit 22 va) s = Inr pde"
    using directory_entry [OF assms(1), of "drop_bit 22 va"] by (simp add: pde_addr_def pde_def)
  moreover have "vload32 (pte_addr pde va) s = Inr (load32 (phys s) (pte_addr pde va))"
    "vstore32 (pte_addr pde va) w s = Inr (s\<lparr>phys := store32 (pte_addr pde va) w (phys s)\<rparr>)" for w
    unfolding pte_addr_def
    using assms(1,2) True vload32_entry [of P s] vstore32_entry [of P s]
    by (simp_all add: directory_def pde_def)
  ultimately show ?thesis
    using True unfolding pte_def
    by (simp add: unmap_page_def panic_def Let_def page_aligned_mod is_present_bit entry_addr walk_def
        get_page_table_index_def unset_present_def flip: pde_def)
qed

theorem unmap_page_outcome_witness:
  "unmap_page 0x200000 0xC00000 table_state =
    Inl (Panic ''Trying to unmap a virtual address that does not have a page directory entry!'')"
proof -
  have "load32 (phys table_state) (0x200000 + 4 * 3) = 0" by (subst table_state_entries) (simp_all add: word_less_nat_alt)
  then have "load32 (phys table_state) (pde_addr 0x200000 0xC00000) = 0"
    by (simp add: pde_addr_def drop_bit_eq_div)
  then show ?thesis
    using unmap_page_outcome [OF table_state_directory, of "0xC00000"] by (simp add: page_aligned_def)
qed

text \<open>
  \<open>map_page\<close> refuses unaligned addresses before it looks at the tables.
\<close>

theorem map_page_unaligned:
  "(\<not> page_aligned va \<longrightarrow> map_page pd va pa s =
      Inl (Panic ''Trying to map a virtual address that is not page aligned!'')) \<and>
   (page_aligned va \<and> \<not> page_aligned pa \<longrightarrow> map_page pd va pa s =
      Inl (Panic ''Trying to map a physical address that is not page aligned!''))"
  by (simp add: map_page_def panic_def page_aligned_mod)

theorem map_page_unaligned_witness:
  "map_page 0x200000 0x5001 0x7000 table_state =
      Inl (Panic ''Trying to map a virtual address that is not page aligned!'') \<and>
   map_page 0x200000 0x5000 0x7004 table_state =
      Inl (Panic ''Trying to map a physical address that is not page aligned!'')"
  using map_page_unaligned [of "0x5001" "0x200000" "0x7000" table_state]
    map_page_unaligned [of "0x5000" "0x200000" "0x7004" table_state]
  by (simp add: page_aligned_def)

end
