(* ===== verification/Kernel_Memory.thy ===== *)
theory Kernel_Memory
  imports Memory_Properties
begin

text \<open>
  The memory the C code above the memory manager works on: the objects in the kernel image and
  the blocks of the heap. The locale \<open>kernel_heap\<close> states what those parts rely on; it is
  interpreted on \<open>heap_allocate\<close> with paging on.
\<close>

unbundle bit_operations_syntax

section \<open>Regions with known contents\<close>

text \<open>In \<open>s\<close> the region \<open>D\<close> is ordinary memory and reads as \<open>m\<close>.\<close>

definition holds :: "u32 set \<Rightarrow> 'a machine_scheme \<Rightarrow> (u32 \<Rightarrow> u8) \<Rightarrow> bool" where
  "holds D s m \<longleftrightarrow> flat D s \<and> (\<forall>a\<in>D. vview s a = m a)"

definition fill :: "u32 \<Rightarrow> nat \<Rightarrow> u8 \<Rightarrow> (u32 \<Rightarrow> u8) \<Rightarrow> (u32 \<Rightarrow> u8)" where
  "fill d n v m = (\<lambda>b. if b \<in> span d n then v else m b)"

definition copied :: "u32 \<Rightarrow> u32 \<Rightarrow> nat \<Rightarrow> (u32 \<Rightarrow> u8) \<Rightarrow> (u32 \<Rightarrow> u8)" where
  "copied d p n m = (\<lambda>b. if b \<in> span d n then m (p + (b - d)) else m b)"

lemma same_but_refl: "same_but D s s"
  by (simp add: same_but_def)

lemma span4: "span a 4 = {a, a + 1, a + 2, a + 3}"
proof -
  have "span a (Suc (Suc (Suc (Suc 0)))) = {a, a + 1, a + 2, a + 3}"
    by (simp add: span_Suc add.assoc)
  then show ?thesis by (simp only: numeral_eq_Suc pred_numeral_simps BitM.simps)
qed

lemma word_bytes: "b \<in> span a 4 \<longleftrightarrow> (\<exists>k\<le>3. b = a + k)"
proof
  assume "b \<in> span a 4"
  then show "\<exists>k\<le>3. b = a + k" unfolding span4
    by (auto intro: exI [of _ 0] exI [of _ 1] exI [of _ 2] exI [of _ 3])
next
  assume "\<exists>k\<le>3. b = a + k"
  then show "b \<in> span a 4" by (auto simp: span_def word_le_nat_alt)
qed

lemma holds_load8: "holds D s m \<Longrightarrow> a \<in> D \<Longrightarrow> vload8 a s = Inr (m a)"
  using vm.load_ok [of D s a] by (simp add: holds_def)

lemma holds_load32: "holds D s m \<Longrightarrow> span a 4 \<subseteq> D \<Longrightarrow> vload32 a s = Inr (load32 m a)"
  by (simp add: vload32_def load32_def span4 holds_load8)

lemma holds_cong: "holds D s m \<Longrightarrow> (\<And>a. a \<in> D \<Longrightarrow> m a = m' a) \<Longrightarrow> holds D s m'"
  by (simp add: holds_def)

lemma holds_mono: "holds D s m \<Longrightarrow> D' \<subseteq> D \<Longrightarrow> holds D' s m"
  by (auto simp: holds_def flat_def inj_on_subset)

lemma holds_store8:
  assumes "holds D s m" "a \<in> D"
  shows "\<exists>s'. vstore8 a v s = Inr s' \<and> same_but D s s' \<and> holds D s' (m(a := v))"
  using flat_store [of D s a v] assms by (fastforce simp: holds_def)

lemma holds_memset:
  assumes "holds D s m" "span p (unat n) \<subseteq> D"
  shows "\<exists>s'. memset vstore8 p v n s = Inr s' \<and> same_but D s s' \<and> holds D s' (fill p (unat n) (ucast v) m)"
  using vm.memset_ok [of D s p n v] assms by (fastforce simp: holds_def fill_def)

lemma holds_memcpy:
  assumes "holds D s m" "span d (unat n) \<subseteq> D" "span p (unat n) \<subseteq> D" "span d (unat n) \<inter> span p (unat n) = {}"
  shows "\<exists>s'. memcpy vload8 vstore8 d p n s = Inr s' \<and> same_but D s s' \<and> holds D s' (copied d p (unat n) m)"
proof -
  obtain s' where s': "memcpy vload8 vstore8 d p n s = Inr s'" "flat D s'" "same_but D s s'"
    "\<forall>b\<in>D. vview s' b = (if b \<in> span d (unat n) then vview s (p + (b - d)) else vview s b)"
    using vm.memcpy_ok [of D s d n p] assms by (auto simp: holds_def)
  have "vview s' b = copied d p (unat n) m b" if "b \<in> D" for b
  proof (cases "b \<in> span d (unat n)")
    case True
    then have "p + (b - d) \<in> span p (unat n)" by (simp add: span_def)
    then show ?thesis using True that s'(4) assms(1,3) by (auto simp: holds_def copied_def)
  qed (use that s'(4) assms(1) in \<open>simp add: holds_def copied_def\<close>)
  then show ?thesis using s' by (auto simp: holds_def)
qed

text \<open>A C string in a region, and \<open>strcpy\<close> of it.\<close>

definition cstring_in :: "u32 set \<Rightarrow> (u32 \<Rightarrow> u8) \<Rightarrow> u32 \<Rightarrow> nat \<Rightarrow> bool" where
  "cstring_in D m p n \<longleftrightarrow> Suc n < 2 ^ 32 \<and> span p (Suc n) \<subseteq> D \<and>
     (\<forall>i<n. m (p + word_of_nat i) \<noteq> 0) \<and> m (p + word_of_nat n) = 0"

lemma cstring_in_view: "holds D s m \<Longrightarrow> cstring_in D m p n \<Longrightarrow> vm.is_cstring D s p n"
proof -
  assume h: "holds D s m" and c: "cstring_in D m p n"
  have "p + word_of_nat i \<in> D" if "i \<le> n" for i
    using c span_memI [of i "Suc n" p] that by (auto simp: cstring_in_def)
  then show ?thesis
    using h c by (simp add: vm.is_cstring_def cstring_in_def holds_def)
qed

lemma holds_strcpy:
  assumes "holds D s m" "cstring_in D m p n" "span d (Suc n) \<subseteq> D" "span d (Suc n) \<inter> span p (Suc n) = {}"
  shows "\<exists>s'. strcpy vload8 vstore8 d p s = Inr s' \<and> same_but D s s' \<and> holds D s' (copied d p (Suc n) m)"
proof -
  have sp: "span p (Suc n) \<subseteq> D" "Suc n < 2 ^ 32" using assms(2) by (simp_all add: cstring_in_def)
  obtain s' where s': "strcpy vload8 vstore8 d p s = Inr s'" "flat D s'" "same_but D s s'"
    "\<forall>b\<in>D. vview s' b = (if b \<in> span d (Suc n) then vview s (p + (b - d)) else vview s b)"
    using vm.strcpy_ok [of D s p n d] assms cstring_in_view [OF assms(1,2)] sp by (auto simp: holds_def)
  have "vview s' b = copied d p (Suc n) m b" if "b \<in> D" for b
  proof (cases "b \<in> span d (Suc n)")
    case True
    then have "p + (b - d) \<in> span p (Suc n)" by (simp add: span_def)
    then show ?thesis using True that s'(4) assms(1) sp by (auto simp: holds_def copied_def)
  qed (use that s'(4) assms(1) in \<open>simp add: holds_def copied_def\<close>)
  then show ?thesis using s' by (auto simp: holds_def)
qed

text \<open>An aligned word lies in one page, so one translation serves its four bytes.\<close>

lemma translate_same_page:
  assumes "translate s a = Some p" "page_of b = page_of a"
  shows "translate s b = Some (if paging_on s then page_of p OR offset_of b else b)"
proof (cases "paging_on s")
  case True
  have i: "drop_bit 22 b = drop_bit 22 a" "drop_bit 12 b AND 0x3FF = drop_bit 12 a AND 0x3FF"
    using page_eq_iff_indices [of b a] assms(2) by auto
  have "pde_addr pd b = pde_addr pd a" "pte_addr e b = pte_addr e a" for pd e
    by (simp_all add: pde_addr_def pte_addr_def i)
  moreover have "page_of (page_of x OR offset_of a) = page_of x" for x
    using page_of_add [OF page_aligned_page_of offset_of_le, of x a]
      aligned_add_or [OF page_aligned_page_of offset_of_le, of x a] by simp
  ultimately show ?thesis
    using assms True by (auto simp: translate_def walk_def Let_def split: if_splits)
qed (use assms in \<open>simp add: translate_def\<close>)

lemma word_same_page:
  assumes "word_aligned a" "k \<le> 3"
  shows "page_of (a + k) = page_of a"
proof -
  have "a + k AND NOT 3 = a" using word_aligned_add [OF assms] .
  then have "a AND 0xFFFFF000 = (a + k AND NOT 3) AND 0xFFFFF000" by simp
  also have "\<dots> = (a + k) AND (NOT 3 AND 0xFFFFF000)" by (simp only: and.assoc)
  also have "NOT 3 AND 0xFFFFF000 = (0xFFFFF000 :: u32)" by simp
  finally show ?thesis by (simp add: page_of_def)
qed

lemma word_translate:
  assumes "word_aligned a" "translate s a = Some p" "k \<le> 3"
  shows "translate s (a + k) = Some (p + k)"
proof (cases "paging_on s")
  case True
  have p: "page_of p OR offset_of a = p"
    using translate_same_page [OF assms(2) refl] assms(2) True by simp
  have op: "offset_of p = offset_of a"
    using offset_of_add [OF page_aligned_page_of offset_of_le, of p a]
      aligned_add_or [OF page_aligned_page_of offset_of_le, of p a] p by simp
  have pg: "page_of (a + k) = page_of a" by (rule word_same_page [OF assms(1,3)])
  then have ok: "offset_of (a + k) = offset_of a + k"
    using page_offset_add [of "a + k"] page_offset_add [of a]
    by (metis add.assoc add_left_cancel)
  have "p + k = page_of p + offset_of (a + k)"
    using page_offset_add [of p] op ok by (metis add.assoc)
  also have "\<dots> = page_of p OR offset_of (a + k)"
    by (rule aligned_add_or [OF page_aligned_page_of offset_of_le])
  finally show ?thesis using translate_same_page [OF assms(2) pg] True by simp
qed (use assms in \<open>simp add: translate_def\<close>)

lemma store32_as_bytes:
  "store32 p v m = m(p := ucast v, p + 1 := ucast (drop_bit 8 v), p + 2 := ucast (drop_bit 16 v),
     p + 3 := ucast (drop_bit 24 v))"
  by (simp add: store32_def)

lemma holds_store32:
  fixes s :: "'a machine_scheme"
  assumes h: "holds D s m" and al: "word_aligned a" and D: "span a 4 \<subseteq> D"
  shows "\<exists>s'. vstore32 a v s = Inr s' \<and> same_but D s s' \<and> holds D s' (store32 a v m)"
proof -
  have aD: "a \<in> D" "a + 1 \<in> D" "a + 2 \<in> D" "a + 3 \<in> D" using D by (simp_all add: span4)
  obtain p where p: "translate s a = Some p" using h aD(1) by (auto simp: holds_def flat_def)
  note tr = word_translate [OF al p]
  define w where "w k = (ucast (drop_bit (8 * k) v) :: u8)" for k
  obtain s1 where 1: "vstore8 a (w 0) s = Inr s1" "same_but D s s1" "holds D s1 (m(a := w 0))"
    using holds_store8 [OF h aD(1)] by blast
  obtain s2 where 2: "vstore8 (a + 1) (w 1) s1 = Inr s2" "same_but D s1 s2" "holds D s2 (m(a := w 0, a + 1 := w 1))"
    using holds_store8 [OF 1(3) aD(2)] by blast
  obtain s3 where 3: "vstore8 (a + 2) (w 2) s2 = Inr s3" "same_but D s2 s3"
    "holds D s3 (m(a := w 0, a + 1 := w 1, a + 2 := w 2))"
    using holds_store8 [OF 2(3) aD(3)] by blast
  obtain s4 where 4: "vstore8 (a + 3) (w 3) s3 = Inr s4" "same_but D s3 s4"
    "holds D s4 (m(a := w 0, a + 1 := w 1, a + 2 := w 2, a + 3 := w 3))"
    using holds_store8 [OF 3(3) aD(4)] by blast
  have t: "translate s1 = translate s" "translate s2 = translate s" "translate s3 = translate s"
    using 1(2) 2(2) 3(2) by (simp_all add: same_but_def)
  have e1: "s1 = s\<lparr>phys := (phys s)(p := w 0)\<rparr>" using 1(1) p by (simp add: vstore8_def)
  have e2: "s2 = s1\<lparr>phys := (phys s1)(p + 1 := w 1)\<rparr>" using 2(1) tr [of 1] t by (simp add: vstore8_def)
  have e3: "s3 = s2\<lparr>phys := (phys s2)(p + 2 := w 2)\<rparr>" using 3(1) tr [of 2] t by (simp add: vstore8_def)
  have e4: "s4 = s3\<lparr>phys := (phys s3)(p + 3 := w 3)\<rparr>" using 4(1) tr [of 3] t by (simp add: vstore8_def)
  have "s4 = s\<lparr>phys := store32 p v (phys s)\<rparr>"
    unfolding e4 e3 e2 e1 by (simp add: store32_as_bytes w_def)
  then have "vstore32 a v s = Inr s4" using p by (simp add: vstore32_def)
  moreover have "same_but D s s4" using 1(2) 2(2) 3(2) 4(2) same_but_trans by blast
  moreover have "store32 a v m = m(a := w 0, a + 1 := w 1, a + 2 := w 2, a + 3 := w 3)"
    by (simp add: store32_as_bytes w_def)
  ultimately show ?thesis using 4(3) by auto
qed

text \<open>The code returns, in a state with \<open>Q\<close>.\<close>

definition ok :: "'e + 'b \<Rightarrow> ('b \<Rightarrow> bool) \<Rightarrow> bool" where
  "ok r Q \<longleftrightarrow> (\<exists>s'. r = Inr s' \<and> Q s')"

lemma ok_Inr [simp]: "ok (Inr s) Q \<longleftrightarrow> Q s"
  by (simp add: ok_def)

lemma ok_bind: "ok r P \<Longrightarrow> (\<And>s. P s \<Longrightarrow> ok (f s) Q) \<Longrightarrow> ok (and_then r f) Q"
  by (auto simp: ok_def)

lemma ok_mono: "ok r P \<Longrightarrow> (\<And>s. P s \<Longrightarrow> Q s) \<Longrightarrow> ok r Q"
  by (auto simp: ok_def)

section \<open>The interface of the kernel heap\<close>

text \<open>
  The memory a client may use: the kernel's own data and the heap blocks handed out so far.
\<close>

definition region :: "(symbols \<Rightarrow> u32 set) \<Rightarrow> nat \<Rightarrow> 'a mm_scheme \<Rightarrow> u32 set" where
  "region data base s = data (syms s) \<union> {a. base \<le> unat a \<and> unat a < unat (heap_current s)}"

locale kernel_heap =
  fixes valid :: "'a mm_scheme \<Rightarrow> bool" and data :: "symbols \<Rightarrow> u32 set" and base limit :: nat
  assumes flat: "valid s \<Longrightarrow> flat (region data base s) s"
    and base_le: "valid s \<Longrightarrow> base \<le> unat (heap_current s)"
    and data_apart: "valid s \<Longrightarrow> a \<in> data (syms s) \<Longrightarrow> \<not> (base \<le> unat a \<and> unat a < limit)"
    and keep: "valid s \<Longrightarrow> same_but (region data base s) s s' \<Longrightarrow> valid s'"
    and valid_cong: "valid s \<Longrightarrow> phys s' = phys s \<Longrightarrow> cr0 s' = cr0 s \<Longrightarrow> cr3 s' = cr3 s \<Longrightarrow> syms s' = syms s \<Longrightarrow>
      heap_current s' = heap_current s \<Longrightarrow> heap_mapped s' = heap_mapped s \<Longrightarrow> valid s'"
    and alloc: "valid s \<Longrightarrow> unat (heap_current s) + unat n \<le> limit \<Longrightarrow>
      \<exists>s'. heap_allocate n s = Inr (heap_current s, s') \<and> valid s' \<and> heap_only s s' \<and>
        unat (heap_current s') = unat (heap_current s) + unat n \<and>
        (\<forall>a. unat (heap_current s) \<le> unat a \<and> unat a < unat (heap_current s') \<longrightarrow> vview s' a = 0) \<and>
        (\<forall>a\<in>region data base s. vview s' a = vview s a)"
begin

definition runs :: "'a mm_scheme \<Rightarrow> (u32 \<Rightarrow> u8) \<Rightarrow> bool" where
  "runs s m \<longleftrightarrow> valid s \<and> holds (region data base s) s m"

abbreviation reg :: "'a mm_scheme \<Rightarrow> u32 set" where
  "reg s \<equiv> region data base s"

text \<open>What stores of a client change: physical memory only.\<close>

lemma same_but_fields:
  fixes s s' :: "'a mm_scheme"
  assumes "same_but D s s'"
  shows "s' = s\<lparr>phys := phys s'\<rparr>"
  using assms by (simp add: same_but_def)

lemma same_but_region:
  fixes s s' :: "'a mm_scheme"
  assumes "same_but D s s'"
  shows "reg s' = reg s" "syms s' = syms s" "heap_current s' = heap_current s" "mm.more s' = mm.more s"
  by (subst same_but_fields [OF assms], simp add: region_def)+

lemma runs_step:
  "runs s m \<Longrightarrow> same_but (reg s) s s' \<Longrightarrow> holds (reg s) s' m' \<Longrightarrow> runs s' m'"
  using keep [of s s'] same_but_region [of "reg s" s s'] by (simp add: runs_def)

lemma runs_load8: "runs s m \<Longrightarrow> a \<in> reg s \<Longrightarrow> vload8 a s = Inr (m a)"
  unfolding runs_def using holds_load8 by blast

lemma runs_load32: "runs s m \<Longrightarrow> span a 4 \<subseteq> reg s \<Longrightarrow> vload32 a s = Inr (load32 m a)"
  unfolding runs_def using holds_load32 by blast

lemma runs_store32:
  assumes "runs s m" "word_aligned a" "span a 4 \<subseteq> reg s"
  shows "\<exists>s'. vstore32 a v s = Inr s' \<and> same_but (reg s) s s' \<and> runs s' (store32 a v m)"
  using holds_store32 [of "reg s" s m a v] assms runs_step [OF assms(1)] by (auto simp: runs_def)

lemma runs_memset:
  assumes "runs s m" "span p (unat n) \<subseteq> reg s"
  shows "\<exists>s'. memset vstore8 p v n s = Inr s' \<and> same_but (reg s) s s' \<and> runs s' (fill p (unat n) (ucast v) m)"
  using holds_memset [of "reg s" s m p n v] assms runs_step [OF assms(1)] by (auto simp: runs_def)

lemma runs_memcpy:
  assumes "runs s m" "span d (unat n) \<subseteq> reg s" "span p (unat n) \<subseteq> reg s"
    and "span d (unat n) \<inter> span p (unat n) = {}"
  shows "\<exists>s'. memcpy vload8 vstore8 d p n s = Inr s' \<and> same_but (reg s) s s' \<and> runs s' (copied d p (unat n) m)"
  using holds_memcpy [of "reg s" s m d n p] assms runs_step [OF assms(1)] by (auto simp: runs_def)

lemma runs_strcpy:
  assumes "runs s m" "cstring_in (reg s) m p n" "span d (Suc n) \<subseteq> reg s" "span d (Suc n) \<inter> span p (Suc n) = {}"
  shows "\<exists>s'. strcpy vload8 vstore8 d p s = Inr s' \<and> same_but (reg s) s s' \<and> runs s' (copied d p (Suc n) m)"
  using holds_strcpy [of "reg s" s m p n d] assms runs_step [OF assms(1)] by (auto simp: runs_def)

lemma runs_alloc:
  assumes r: "runs s m" and n: "unat (heap_current s) + unat n \<le> limit"
  shows "\<exists>s'. heap_allocate n s = Inr (heap_current s, s') \<and> heap_only s s' \<and>
    unat (heap_current s') = unat (heap_current s) + unat n \<and> reg s \<subseteq> reg s' \<and>
    span (heap_current s) (unat n) \<subseteq> reg s' \<and> span (heap_current s) (unat n) \<inter> reg s = {} \<and>
    runs s' (fill (heap_current s) (unat n) 0 m)"
proof -
  have v: "valid s" and h: "holds (reg s) s m" using r by (simp_all add: runs_def)
  obtain s' where s': "heap_allocate n s = Inr (heap_current s, s')" "valid s'" "heap_only s s'"
    "unat (heap_current s') = unat (heap_current s) + unat n"
    "\<forall>a. unat (heap_current s) \<le> unat a \<and> unat a < unat (heap_current s') \<longrightarrow> vview s' a = 0"
    "\<forall>a\<in>reg s. vview s' a = vview s a"
    using alloc [OF v n] by blast
  have sy: "syms s' = syms s" using heap_only_same(1) [OF s'(3)] .
  have fits: "unat (heap_current s) + unat n < 2 ^ 32"
    using s'(4) unat_u32_bound [of "heap_current s'"] by simp
  have blk: "b \<in> span (heap_current s) (unat n) \<longleftrightarrow>
      unat (heap_current s) \<le> unat b \<and> unat b < unat (heap_current s')" for b
    using span_iff [of "heap_current s" "unat n" b] fits s'(4) by simp
  have sub: "reg s \<subseteq> reg s'" "span (heap_current s) (unat n) \<subseteq> reg s'"
    using s'(4) base_le [OF v] by (auto simp: region_def sy blk)
  have dis: "span (heap_current s) (unat n) \<inter> reg s = {}"
    using data_apart [OF v] base_le [OF v] n s'(4) by (fastforce simp: region_def blk)
  have "vview s' a = fill (heap_current s) (unat n) 0 m a" if a: "a \<in> reg s'" for a
  proof (cases "a \<in> span (heap_current s) (unat n)")
    case True
    then show ?thesis using s'(5) blk by (simp add: fill_def)
  next
    case False
    then have "a \<in> reg s" using a by (auto simp: region_def sy blk)
    then show ?thesis using False s'(6) h by (simp add: fill_def holds_def)
  qed
  then have "runs s' (fill (heap_current s) (unat n) 0 m)"
    using s'(2) flat [OF s'(2)] by (simp add: runs_def holds_def)
  then show ?thesis using s'(1,3,4) sub dis by blast
qed

text \<open>Logging and the variables of other components.\<close>

lemma runs_cong:
  assumes "runs s m" "phys s' = phys s" "cr0 s' = cr0 s" "cr3 s' = cr3 s" "syms s' = syms s"
    "heap_current s' = heap_current s" "heap_mapped s' = heap_mapped s"
  shows "runs s' m"
proof -
  have v: "valid s'" using assms valid_cong by (auto simp: runs_def)
  moreover have "reg s' = reg s" using assms by (simp add: region_def)
  moreover have "vview s' = vview s" using vview_cong assms by metis
  ultimately show ?thesis using assms(1) flat [OF v] by (simp add: runs_def holds_def)
qed

lemma runs_mlog: "runs s m \<Longrightarrow> runs (mlog fmt as s) m"
  by (rule runs_cong) (auto simp: mlog_def)

text \<open>Stores between two allocations, as rules on the bind of the model.\<close>

definition kept :: "'a mm_scheme \<Rightarrow> 'a mm_scheme \<Rightarrow> (u32 \<Rightarrow> u8) \<Rightarrow> bool" where
  "kept s0 s m \<longleftrightarrow> heap_only s0 s \<and> heap_current s = heap_current s0 \<and> runs s m"

lemma kept_refl: "runs s m \<Longrightarrow> kept s s m"
  by (simp add: kept_def heap_only_def)

lemma kept_reg: "kept s0 s m \<Longrightarrow> reg s = reg s0"
  using heap_only_same(1) [of s0 s] by (simp add: kept_def region_def)

lemma same_but_heap_only:
  fixes s s' :: "'a mm_scheme"
  assumes "same_but D s s'"
  shows "heap_only s s'"
proof -
  have e: "s' = s\<lparr>phys := phys s'\<rparr>" by (rule same_but_fields [OF assms])
  have "dev s' = dev s" "heap_current s' = heap_current s" "heap_mapped s' = heap_mapped s" by (subst e, simp)+
  then show ?thesis unfolding heap_only_def using e by simp
qed

lemma kept_step:
  assumes "kept s0 s m" "same_but (reg s) s s'" "runs s' m'"
  shows "kept s0 s' m'"
  using assms heap_only_trans [OF _ same_but_heap_only [OF assms(2)]] same_but_region(3) [OF assms(2)] by (simp add: kept_def)

lemma ok_store:
  assumes "kept s0 s m" "word_aligned a" "span a 4 \<subseteq> reg s0" "\<And>s'. kept s0 s' (store32 a v m) \<Longrightarrow> ok (f s') Q"
  shows "ok (and_then (vstore32 a v s) f) Q"
proof -
  obtain s' where s': "vstore32 a v s = Inr s'" "same_but (reg s) s s'" "runs s' (store32 a v m)"
    using runs_store32 [of s m a v] assms(1-3) kept_reg [OF assms(1)] by (auto simp: kept_def)
  show ?thesis using assms(4) [OF kept_step [OF assms(1) s'(2,3)]] s'(1) by simp
qed

lemma ok_load:
  assumes "kept s0 s m" "span a 4 \<subseteq> reg s0" "ok (f (load32 m a)) Q"
  shows "ok (and_then (vload32 a s) f) Q"
  using runs_load32 [of s m a] assms kept_reg [OF assms(1)] by (simp add: kept_def)

lemma ok_alloc:
  assumes "runs s m" "unat (heap_current s) + unat n \<le> limit"
    and "\<And>s'. heap_only s s' \<Longrightarrow> unat (heap_current s') = unat (heap_current s) + unat n \<Longrightarrow> reg s \<subseteq> reg s' \<Longrightarrow>
      span (heap_current s) (unat n) \<subseteq> reg s' \<Longrightarrow> span (heap_current s) (unat n) \<inter> reg s = {} \<Longrightarrow>
      runs s' (fill (heap_current s) (unat n) 0 m) \<Longrightarrow> ok (f (heap_current s, s')) Q"
  shows "ok (and_then (heap_allocate n s) f) Q"
  using runs_alloc [OF assms(1,2)] assms(3) by auto

lemma ok_store_last:
  assumes "kept s0 s m" "word_aligned a" "span a 4 \<subseteq> reg s0" "\<And>s'. kept s0 s' (store32 a v m) \<Longrightarrow> Q s'"
  shows "ok (vstore32 a v s) Q"
  using ok_store [OF assms(1-3), of v Inr Q] assms(4) by (simp add: ok_def and_then_def split: sum.splits)

lemma ok_strcpy:
  assumes "kept s0 s m" "cstring_in (reg s0) m p n" "span d (Suc n) \<subseteq> reg s0" "span d (Suc n) \<inter> span p (Suc n) = {}"
    and "\<And>s'. kept s0 s' (copied d p (Suc n) m) \<Longrightarrow> ok (f s') Q"
  shows "ok (and_then (strcpy vload8 vstore8 d p s) f) Q"
proof -
  obtain s' where s': "strcpy vload8 vstore8 d p s = Inr s'" "same_but (reg s) s s'" "runs s' (copied d p (Suc n) m)"
    using runs_strcpy [of s m p n d] assms(1-4) kept_reg [OF assms(1)] by (auto simp: kept_def)
  show ?thesis using assms(5) [OF kept_step [OF assms(1) s'(2,3)]] s'(1) by simp
qed

lemma kept_mlog:
  fixes s :: "'a mm_scheme"
  assumes "kept s0 s m"
  shows "kept s0 (mlog fmt as s) m"
proof -
  have "heap_only s (mlog fmt as s)" by (simp add: heap_only_def mlog_def)
  then show ?thesis
    using assms runs_mlog [of s m] heap_only_trans [of s0 s] by (simp add: kept_def mlog_def)
qed

end

section \<open>With paging on\<close>

text \<open>
  The kernel's data: its image without the page tables and the bitmaps, and the VGA page.
\<close>

definition kernel_data :: "symbols \<Rightarrow> u32 set" where
  "kernel_data sy = {a. (0x100000 \<le> unat a \<and> unat a < 0x300000 \<and>
       page_of a \<notin> {page_directory sy, first_page_table sy, second_page_table sy} \<and>
       a \<notin> span (page_frame_bitmap sy) 7392 \<and> a \<notin> span (page_table_bitmap sy) 128) \<or> page_of a = 0xb8000}"

lemma vga_range: "page_of a = 0xb8000 \<longleftrightarrow> 0xb8000 \<le> unat a \<and> unat a < 0xb9000"
  using page_range [of "0xb8000" a] by (simp add: page_aligned_def)

lemma kernel_data_address: "a \<in> kernel_data sy \<Longrightarrow> kernel_address a \<and> unat a < 0x300000"
  by (auto simp: kernel_data_def kernel_address_def word_le_nat_alt word_less_nat_alt vga_range)

lemma kernel_data_meta:
  assumes "layout_ok sy" "a \<in> kernel_data sy"
  shows "a \<notin> heap_meta sy" "a \<notin> table_memory sy" "a \<notin> span (page_frame_bitmap sy) 7392"
proof -
  have low: "\<not> 0x500000 \<le> a" using kernel_data_address [OF assms(2)] by (simp add: word_le_nat_alt)
  have k: "in_kernel (page_frame_bitmap sy) 7392" "in_kernel (page_table_bitmap sy) 7392"
    "in_kernel (page_directory sy) 4096" "in_kernel (first_page_table sy) 4096" "in_kernel (second_page_table sy) 4096"
    using assms(1) by (simp_all add: layout_ok_def)
  have vga: "a \<notin> span (page_frame_bitmap sy) 7392 \<and> a \<notin> span (page_table_bitmap sy) 128 \<and>
      page_of a \<notin> {page_directory sy, first_page_table sy, second_page_table sy}" if "page_of a = 0xb8000"
  proof -
    have "page_of a \<notin> {page_directory sy, first_page_table sy, second_page_table sy}"
      using that k by (auto simp: in_kernel_def)
    moreover have "a \<notin> span (page_frame_bitmap sy) 7392 \<and> a \<notin> span (page_table_bitmap sy) 128"
      using that k by (auto simp: span_iff in_kernel_def vga_range)
    ultimately show ?thesis by blast
  qed
  show "a \<notin> heap_meta sy" "a \<notin> table_memory sy" "a \<notin> span (page_frame_bitmap sy) 7392"
    using assms(2) vga low by (auto simp: kernel_data_def heap_meta_def table_memory_def)
qed

lemma pages_agree_meta:
  assumes "pages_inv n k f s" and "s' = s\<lparr>dev := d, phys := m\<rparr>"
    and "\<And>b. b \<in> table_memory (syms s) \<or> b \<in> span (page_frame_bitmap (syms s)) 7392 \<Longrightarrow> m b = phys s b"
  shows "pages_inv n k f s'"
proof -
  have l: "layout_ok (syms s)" using assms(1) by (simp add: pages_inv_def)
  have "used m (page_frame_bitmap (syms s)) PAGE_FRAME_BITMAP_SIZE =
      used (phys s) (page_frame_bitmap (syms s)) PAGE_FRAME_BITMAP_SIZE"
    using assms(3) by (intro used_frames_agree [OF l]) simp
  moreover have "tables_inv (syms s) n k m"
    using tables_inv_agree [OF l, of n k "phys s" m] assms(1,3) by (simp add: pages_inv_def)
  ultimately show ?thesis using assms(1) by (simp add: assms(2) pages_inv_def paging_on_def)
qed

lemma heap_region:
  assumes "heap_pages k s"
  shows "region kernel_data 0xF000000 s \<subseteq> kernel_data (syms s) \<union> heap_range (4096 * k)"
  using assms by (auto simp: region_def heap_range_def heap_pages_def)

lemma heap_region_translate:
  assumes "heap_pages k s" "a \<in> region kernel_data 0xF000000 s"
  shows "translate s a = Some (if a \<in> kernel_data (syms s) then a
    else a - HEAP_ALLOCATOR_AREA_START + PAGE_FRAME_ALLOCATOR_AREA_START)"
  using heap_region [OF assms(1)] assms kernel_data_address [of a] pages_kernel pages_heap
  by (fastforce simp: heap_pages_def heap_range_def)

lemma heap_region_flat:
  assumes "heap_pages k s"
  shows "flat (region kernel_data 0xF000000 s) s"
proof -
  have i: "pages_inv ((k + 1023) div 1024) k k s" using assms by (simp add: heap_pages_def)
  have k: "k \<le> 8192" by (rule heap_pages_bound [OF assms])
  have l: "layout_ok (syms s)" using i by (simp add: pages_inv_def)
  note tr = heap_region_translate [OF assms]
  have hr: "a \<in> heap_range (4096 * k)" if "a \<in> region kernel_data 0xF000000 s" "a \<notin> kernel_data (syms s)" for a
    using heap_region [OF assms] that by auto
  have high: "0x900000 \<le> unat (a - HEAP_ALLOCATOR_AREA_START + PAGE_FRAME_ALLOCATOR_AREA_START)"
    if "a \<in> region kernel_data 0xF000000 s" "a \<notin> kernel_data (syms s)" for a
    using frame_address [OF hr [OF that] k] by simp
  show ?thesis
    unfolding flat_def
  proof (intro conjI ballI impI)
    show "translate s a \<noteq> None" if "a \<in> region kernel_data 0xF000000 s" for a using tr [OF that] by simp
    show "inj_on (translate s) (region kernel_data 0xF000000 s)"
    proof (rule inj_onI)
      fix a b assume ab: "a \<in> region kernel_data 0xF000000 s" "b \<in> region kernel_data 0xF000000 s"
        and eq: "translate s a = translate s b"
      have "a \<in> kernel_data (syms s) \<longleftrightarrow> b \<in> kernel_data (syms s)"
        using eq tr [OF ab(1)] tr [OF ab(2)] high [OF ab(1)] high [OF ab(2)]
          kernel_data_address [of a "syms s"] kernel_data_address [of b "syms s"] by (auto split: if_splits)
      then show "a = b" using eq tr [OF ab(1)] tr [OF ab(2)] by (auto split: if_splits)
    qed
    fix a assume a: "a \<in> region kernel_data 0xF000000 s"
    show "page_of (the (translate s a)) \<notin> table_pages (phys s) (page_of (cr3 s))"
    proof (cases "a \<in> kernel_data (syms s)")
      case True
      have pd: "page_of (cr3 s) = page_directory (syms s)"
        using i layout_aligned [OF l] by (simp add: pages_inv_def page_of_aligned)
      have "page_of a \<notin> {page_directory (syms s), first_page_table (syms s), second_page_table (syms s)}"
        using kernel_data_meta(2) [OF l True] by (auto simp: table_memory_def)
      moreover have "page_of a \<le> a" using page_of_eq_iff [OF page_aligned_page_of, of a a] by simp
      then have "\<not> 0x500000 \<le> page_of a" using kernel_data_address [OF True] by (simp add: word_le_nat_alt)
      ultimately have "page_of a \<notin> table_pages (phys s) (page_of (cr3 s))"
        using heap_table_pages [OF l, of _ k "phys s" "page_of a"] i unfolding pd by (auto simp: pages_inv_def)
      then show ?thesis using tr [OF a] True by simp
    next
      case False
      then show ?thesis using pages_flat [OF i] hr [OF a False] i by (simp add: flat_def pages_inv_def)
    qed
  qed
qed

lemma heap_inv_keep:
  fixes s s' :: "'a mm_scheme"
  assumes "heap_inv s" "same_but (region kernel_data 0xF000000 s) s s'"
  shows "heap_inv s'"
proof -
  obtain k where k: "heap_pages k s" using assms(1) by (auto simp: heap_inv_def)
  have i: "pages_inv ((k + 1023) div 1024) k k s" using k by (simp add: heap_pages_def)
  have l: "layout_ok (syms s)" using i by (simp add: pages_inv_def)
  have eq: "s' = s\<lparr>dev := dev s, phys := phys s'\<rparr>" using assms(2) by (simp add: same_but_def)
  have "pages_inv ((k + 1023) div 1024) k k s'"
  proof (rule pages_agree_meta [OF i eq])
    fix b assume b: "b \<in> table_memory (syms s) \<or> b \<in> span (page_frame_bitmap (syms s)) 7392"
    have "translate s a \<noteq> Some b" if a: "a \<in> region kernel_data 0xF000000 s" for a
    proof (cases "a \<in> kernel_data (syms s)")
      case True
      then show ?thesis using heap_region_translate [OF k a] kernel_data_meta [OF l True] b by auto
    next
      case False
      then have "a \<in> heap_range (4096 * k)" using heap_region [OF k] a by auto
      then have "0x900000 \<le> unat (a - HEAP_ALLOCATOR_AREA_START + PAGE_FRAME_ALLOCATOR_AREA_START)"
        using frame_address [OF _ heap_pages_bound [OF k], of a] by simp
      moreover have "unat b < 0x508000"
        using b table_memory_low [OF l] frame_bitmap_apart(2) [OF l, of b] by (auto simp: word_less_nat_alt)
      ultimately show ?thesis using heap_region_translate [OF k a] False by auto
    qed
    then show "phys s' b = phys s b" using assms(2) by (simp add: same_but_def)
  qed
  moreover have "heap_mapped s' = heap_mapped s" "heap_current s' = heap_current s" by (subst eq, simp)+
  ultimately show ?thesis using k by (auto simp: heap_inv_def heap_pages_def)
qed

interpretation kh: kernel_heap heap_inv kernel_data "0xF000000" "0x11000000"
proof (unfold_locales, goal_cases)
  case (1 s)
  then show ?case using heap_region_flat by (auto simp: heap_inv_def)
next
  case (2 s)
  then show ?case by (auto simp: heap_inv_def heap_pages_def)
next
  case (3 s a)
  then show ?case using kernel_data_address [of a "syms s"] by auto
next
  case (4 s s')
  then show ?case by (rule heap_inv_keep)
next
  case (5 s s')
  then show ?case using pages_inv_cong [of s s'] by (auto simp: heap_inv_def heap_pages_def)
next
  case (6 s n)
  obtain k where k: "heap_pages k s" using 6(1) by (auto simp: heap_inv_def)
  have l: "layout_ok (syms s)" using k by (simp add: heap_pages_def pages_inv_def)
  obtain s' where s': "heap_allocate n s = Inr (heap_current s, s')" "heap_inv s'" "heap_only s s'"
    "unat (heap_current s') = unat (heap_current s) + unat n"
    "\<forall>a. unat (heap_current s) \<le> unat a \<and> unat a < unat (heap_current s') \<longrightarrow> vload8 a s' = Inr 0"
    "\<forall>a. 0xF000000 \<le> unat a \<and> unat a < unat (heap_current s) \<longrightarrow> vload8 a s' = vload8 a s"
    "\<forall>b. b \<notin> heap_meta (syms s) \<and> unat b < 0x900000 \<longrightarrow> phys s' b = phys s b"
    using heap_allocate_ok [OF 6] by (elim exE conjE)
  obtain k' where k': "heap_pages k' s'" using s'(2) by (auto simp: heap_inv_def)
  have sy: "syms s' = syms s" using heap_only_same(1) [OF s'(3)] .
  have top: "0xF000000 \<le> unat (heap_current s)" using k by (simp add: heap_pages_def)
  have ld: "vload8 a t = Inr (vview t a)" if "heap_pages j t" "a \<in> region kernel_data 0xF000000 t" for a j and t :: "'a mm_scheme"
    using heap_region_translate [OF that] by (simp add: vload8_def vview_def)
  have "vview s' a = 0" if "unat (heap_current s) \<le> unat a" "unat a < unat (heap_current s')" for a
  proof -
    have "a \<in> region kernel_data 0xF000000 s'" using that top by (simp add: region_def)
    then show ?thesis using ld [OF k'] s'(5) that by fastforce
  qed
  moreover have "vview s' a = vview s a" if a: "a \<in> region kernel_data 0xF000000 s" for a
  proof (cases "a \<in> kernel_data (syms s)")
    case True
    have a': "a \<in> region kernel_data 0xF000000 s'" using a s'(4) by (auto simp: region_def sy)
    have "phys s' a = phys s a"
      using s'(7) kernel_data_meta(1) [OF l True] kernel_data_address [OF True] by simp
    then show ?thesis
      using heap_region_translate [OF k a] heap_region_translate [OF k' a'] True sy by (simp add: vview_def)
  next
    case False
    then have r: "0xF000000 \<le> unat a" "unat a < unat (heap_current s)" using a by (auto simp: region_def)
    have a': "a \<in> region kernel_data 0xF000000 s'" using a s'(4) by (auto simp: region_def sy)
    show ?thesis using ld [OF k a] ld [OF k' a'] s'(6) r by auto
  qed
  ultimately show ?case using s'(1-4) by blast
qed

end
