(* ===== verification/Filesystem.thy ===== *)
theory Filesystem
  imports Kernel_Memory
begin

text \<open>
  The filesystem, \<open>kernel/filesystem.c\<close> with \<open>kernel/includes/filesystem.h\<close>: the generic layer that
  calls through the function pointers of a node, the RAM disk behind it, directories as linked
  lists, and the loading of the initial RAM disk. Nodes and directory entries are structs in
  memory, accessed at their field offsets.
\<close>

unbundle bit_operations_syntax

section \<open>Layout\<close>

text \<open>\<open>fs_node_t\<close>; \<open>file\<close> and \<open>directory\<close> are a union, so their fields share offsets.\<close>

definition sizeof_fs_node :: u32 where "sizeof_fs_node = 168"
definition node_type :: "u32 \<Rightarrow> u32" where "node_type node = node + 128"
definition node_read :: "u32 \<Rightarrow> u32" where "node_read node = node + 132"
definition node_write :: "u32 \<Rightarrow> u32" where "node_write node = node + 136"
definition node_seek :: "u32 \<Rightarrow> u32" where "node_seek node = node + 140"
definition file_offset :: "u32 \<Rightarrow> u32" where "file_offset node = node + 152"
definition file_buffer :: "u32 \<Rightarrow> u32" where "file_buffer node = node + 156"
definition file_canonical_size :: "u32 \<Rightarrow> u32" where "file_canonical_size node = node + 160"
definition file_allocated_size :: "u32 \<Rightarrow> u32" where "file_allocated_size node = node + 164"
definition directory_head :: "u32 \<Rightarrow> u32" where "directory_head node = node + 152"
definition directory_size :: "u32 \<Rightarrow> u32" where "directory_size node = node + 156"
definition directory_parent :: "u32 \<Rightarrow> u32" where "directory_parent node = node + 160"

definition FS_FILE :: u32 where "FS_FILE = 0"
definition FS_DIRECTORY :: u32 where "FS_DIRECTORY = 1"

text \<open>\<open>fs_dirent_t\<close>, and the header of a file in the RAM disk.\<close>

definition sizeof_fs_dirent :: u32 where "sizeof_fs_dirent = 8"
definition dirent_node :: "u32 \<Rightarrow> u32" where "dirent_node d = d"
definition dirent_next :: "u32 \<Rightarrow> u32" where "dirent_next d = d + 4"

definition sizeof_block :: u32 where "sizeof_block = 132"
definition block_size :: "u32 \<Rightarrow> u32" where "block_size b = b"
definition block_name :: "u32 \<Rightarrow> u32" where "block_name b = b + 4"

text \<open>
  Addresses the compiler and the linker choose: the three functions, the string literals, and
  the local arrays of \<open>init_filesystem\<close>.
\<close>

record fs_image =
  ramdisk_read_fn :: u32
  ramdisk_write_fn :: u32
  ramdisk_seek_fn :: u32
  literal_root :: u32
  literal_test_file :: u32
  local_test :: u32
  local_test_data :: u32
  local_test_buffer :: u32

record fs = mm +
  image :: fs_image
  root :: u32

section \<open>Strings in memory\<close>

text \<open>
  The bytes \<open>print_serial\<close> reads through a pointer. A string without terminator wraps around the
  address space; a local array of \<open>n\<close> bytes must have its terminator within.
\<close>

fun cstring_loop :: "stop \<Rightarrow> nat \<Rightarrow> u32 \<Rightarrow> 'a machine_scheme \<Rightarrow> stop + u8 list" where
  "cstring_loop e 0 p s = Inl e"
| "cstring_loop e (Suc k) p s =
     and_then (vload8 p s) (\<lambda>c. if c = 0 then Inr [] else
       and_then (cstring_loop e k (p + 1) s) (\<lambda>cs. Inr (c # cs)))"

definition c_string :: "u32 \<Rightarrow> 'a machine_scheme \<Rightarrow> stop + u8 list" where
  "c_string p s = cstring_loop Diverges (2 ^ 32) p s"

definition array_string :: "nat \<Rightarrow> u32 \<Rightarrow> 'a machine_scheme \<Rightarrow> stop + u8 list" where
  "array_string n p s = cstring_loop Undefined n p s"

section \<open>The RAM disk\<close>

definition ramdisk_read :: "u32 \<Rightarrow> u32 \<Rightarrow> u32 \<Rightarrow> u32 \<Rightarrow> 'a machine_scheme \<Rightarrow> stop + u32 \<times> 'a machine_scheme" where
  "ramdisk_read node offset sz buffer s =
     and_then (vload32 (node_type node) s) (\<lambda>ty.
     if ty \<noteq> FS_FILE then panic ''Trying to RAMDISK read from a node that is not a file!''
     else and_then (vload32 (file_canonical_size node) s) (\<lambda>canonical.
     if offset + sz > canonical then panic ''Trying to RAMDISK read past the end of a file!''
     else and_then (vload32 (file_buffer node) s) (\<lambda>b.
     and_then (memcpy vload8 vstore8 buffer (b + offset) sz s) (\<lambda>s.
     and_then (vstore32 (file_offset node) (offset + sz) s) (\<lambda>s.
     Inr (sz, s))))))"

definition ramdisk_write :: "u32 \<Rightarrow> u32 \<Rightarrow> u32 \<Rightarrow> u32 \<Rightarrow> 'a machine_scheme \<Rightarrow> stop + u32 \<times> 'a machine_scheme" where
  "ramdisk_write node offset sz buffer s =
     and_then (vload32 (node_type node) s) (\<lambda>ty.
     if ty \<noteq> FS_FILE then panic ''Trying to RAMDISK write to a node that is not a file!''
     else and_then (vload32 (file_canonical_size node) s) (\<lambda>canonical.
     if offset > canonical then panic ''Trying to RAMDISK write to a node an an invalid offset''
     else and_then (vload32 (file_allocated_size node) s) (\<lambda>allocated.
     if offset + sz > allocated then panic ''Uh-oh''
     else and_then (vload32 (file_buffer node) s) (\<lambda>b.
     and_then (memcpy vload8 vstore8 (b + offset) buffer sz s) (\<lambda>s.
     and_then (vload32 (file_canonical_size node) s) (\<lambda>canonical.
     and_then (vstore32 (file_canonical_size node) (max canonical (offset + sz)) s) (\<lambda>s.
     and_then (vstore32 (file_offset node) (offset + sz) s) (\<lambda>s.
     Inr (sz, s)))))))))"

definition ramdisk_seek :: "u32 \<Rightarrow> u32 \<Rightarrow> 'a machine_scheme \<Rightarrow> stop + u32 \<times> 'a machine_scheme" where
  "ramdisk_seek node position s =
     and_then (vload32 (node_type node) s) (\<lambda>ty.
     if ty \<noteq> FS_FILE then panic ''Trying to RAMDISK seek to a node that is not a file!''
     else and_then (vload32 (file_allocated_size node) s) (\<lambda>allocated.
     if position > allocated then panic ''Position is invalid during RAMDISK seek!''
     else and_then (vstore32 (file_offset node) position s) (\<lambda>s. Inr (position, s))))"

section \<open>The generic layer\<close>

text \<open>A call through a pointer that is none of the three functions is undefined.\<close>

definition fs_read :: "u32 \<Rightarrow> u32 \<Rightarrow> u32 \<Rightarrow> 'a fs_scheme \<Rightarrow> stop + u32 \<times> 'a fs_scheme" where
  "fs_read node sz buffer s =
     and_then (vload32 (node_read node) s) (\<lambda>f.
     if f \<noteq> 0
     then and_then (vload32 (file_offset node) s) (\<lambda>offset.
       if f = ramdisk_read_fn (image s) then ramdisk_read node offset sz buffer s else Inl Undefined)
     else panic ''fs_read function pointer not set!'')"

definition fs_write :: "u32 \<Rightarrow> u32 \<Rightarrow> u32 \<Rightarrow> 'a fs_scheme \<Rightarrow> stop + u32 \<times> 'a fs_scheme" where
  "fs_write node sz buffer s =
     and_then (vload32 (node_write node) s) (\<lambda>f.
     if f \<noteq> 0
     then and_then (vload32 (file_offset node) s) (\<lambda>offset.
       if f = ramdisk_write_fn (image s) then ramdisk_write node offset sz buffer s else Inl Undefined)
     else panic ''fs_write function pointer not set!'')"

definition fs_seek :: "u32 \<Rightarrow> u32 \<Rightarrow> 'a fs_scheme \<Rightarrow> stop + u32 \<times> 'a fs_scheme" where
  "fs_seek node position s =
     and_then (vload32 (node_seek node) s) (\<lambda>f.
     if f \<noteq> 0
     then (if f = ramdisk_seek_fn (image s) then ramdisk_seek node position s else Inl Undefined)
     else panic ''fs_seek function pointer not set!'')"

text \<open>
  The walk to the last entry. A list that does not end within \<open>2 ^ 32\<close> steps comes back to an
  entry already seen and has no end.
\<close>

fun last_dirent :: "nat \<Rightarrow> u32 \<Rightarrow> 'a machine_scheme \<Rightarrow> stop + u32" where
  "last_dirent 0 current s = Inl Diverges"
| "last_dirent (Suc k) current s =
     and_then (vload32 (dirent_next current) s)
       (\<lambda>nxt. if nxt \<noteq> 0 then last_dirent k nxt s else Inr current)"

definition fill_dirent :: "u32 \<Rightarrow> u32 \<Rightarrow> 'a machine_scheme \<Rightarrow> stop + 'a machine_scheme" where
  "fill_dirent current file s =
     and_then (vstore32 (dirent_node current) file s) (vstore32 (dirent_next current) 0)"

definition fs_add_dirent :: "u32 \<Rightarrow> u32 \<Rightarrow> 'a mm_scheme \<Rightarrow> stop + 'a mm_scheme" where
  "fs_add_dirent dir file s =
     and_then (c_string file s) (\<lambda>file_name. and_then (c_string dir s) (\<lambda>directory_name.
     let s = mlog ''Adding file %s to directory %s\<newline>'' [Str file_name, Str directory_name] s in
     and_then (vload32 (node_type dir) s) (\<lambda>ty.
     if ty \<noteq> FS_DIRECTORY then panic ''Trying to add an entry to a node that this not a directory!''
     else and_then (vload32 (node_type file) s) (\<lambda>ty.
     if ty \<noteq> FS_FILE then panic ''Trying to add an entry that is not a file!''
     else and_then (vload32 (directory_head dir) s) (\<lambda>current.
     and_then
       (if current = 0
        then and_then (heap_allocate sizeof_fs_dirent s) (\<lambda>(p, s).
             and_then (vstore32 (directory_head dir) p s) (\<lambda>s.
             and_then (vload32 (directory_head dir) s) (\<lambda>current.
             fill_dirent current file s)))
        else and_then (last_dirent (2 ^ 32) current s) (\<lambda>current.
             and_then (heap_allocate sizeof_fs_dirent s) (\<lambda>(p, s).
             and_then (vstore32 (dirent_next current) p s) (\<lambda>s.
             and_then (vload32 (dirent_next current) s) (\<lambda>current.
             fill_dirent current file s)))))
       (\<lambda>s. and_then (vload32 (directory_size dir) s) (\<lambda>n.
            vstore32 (directory_size dir) (n + 1) s)))))))"

text \<open>The part of \<open>fs_construct_node\<close> that depends on the type: the contents of a file or of a directory.\<close>

definition fs_node_contents :: "u32 \<Rightarrow> u32 \<Rightarrow> 'a fs_scheme \<Rightarrow> stop + 'a fs_scheme" where
  "fs_node_contents node ty s =
     (if ty = FS_FILE
      then and_then (vstore32 (file_offset node) 0 s) (\<lambda>s.
           and_then (heap_allocate 256 s) (\<lambda>(b, s).
           and_then (vstore32 (file_buffer node) b s) (\<lambda>s.
           and_then (vstore32 (file_canonical_size node) 0 s) (\<lambda>s.
           vstore32 (file_allocated_size node) 256 s))))
      else if ty = FS_DIRECTORY
      then and_then (vstore32 (directory_head node) 0 s) (\<lambda>s.
           and_then (vstore32 (directory_size node) 0 s) (\<lambda>s.
           vstore32 (directory_parent node) 0 s))
      else Inr s)"

definition fs_construct_node :: "u32 \<Rightarrow> u32 \<Rightarrow> 'a fs_scheme \<Rightarrow> stop + u32 \<times> 'a fs_scheme" where
  "fs_construct_node name ty s =
     and_then (heap_allocate sizeof_fs_node s) (\<lambda>(node, s).
     and_then (memset vstore8 node 0 128 s) (\<lambda>s.
     and_then (strcpy vload8 vstore8 node name s) (\<lambda>s.
     and_then (vstore32 (node_type node) ty s) (\<lambda>s.
     and_then (vstore32 (node_read node) (ramdisk_read_fn (image s)) s) (\<lambda>s.
     and_then (vstore32 (node_write node) (ramdisk_write_fn (image s)) s) (\<lambda>s.
     and_then (vstore32 (node_seek node) (ramdisk_seek_fn (image s)) s) (\<lambda>s.
     and_then (fs_node_contents node ty s) (\<lambda>s. Inr (node, s)))))))))"

section \<open>Loading the initial RAM disk\<close>

text \<open>
  Each pass allocates a node, so the heap is exhausted long before \<open>2 ^ 32\<close> passes.
\<close>

fun read_ramdisk_loop :: "nat \<Rightarrow> u32 \<Rightarrow> u32 \<Rightarrow> 'a fs_scheme \<Rightarrow> stop + 'a fs_scheme" where
  "read_ramdisk_loop 0 current initrd_end s = (if current < initrd_end then Inl Diverges else Inr s)"
| "read_ramdisk_loop (Suc k) current initrd_end s =
     (if current < initrd_end
      then let contents = current + sizeof_block in
        and_then (c_string (block_name current) s) (\<lambda>name.
        let s = mlog ''Name: %s\<newline>'' [Str name] s in
        and_then (vload32 (block_size current) s) (\<lambda>sz.
        let s = mlog (CHR 0x09 # ''Size: %u\<newline>'') [Num sz] s in
        and_then (c_string contents s) (\<lambda>text.
        let s = mlog (CHR 0x09 # ''Contents: %s\<newline>'') [Str text] s in
        and_then (fs_construct_node (block_name current) FS_FILE s) (\<lambda>(temp, s).
        and_then (vload32 (file_allocated_size temp) s) (\<lambda>allocated.
        let s = mlog ''%u\<newline>'' [Num allocated] s in
        and_then (vload32 (block_size current) s) (\<lambda>sz.
        let s = mlog ''%u\<newline>'' [Num sz] s in
        and_then (vload32 (block_size current) s) (\<lambda>sz.
        and_then (fs_write temp sz contents s) (\<lambda>(_, s).
        and_then (fs_add_dirent (root s) temp s) (\<lambda>s.
        and_then (vload32 (block_size current) s) (\<lambda>sz.
        read_ramdisk_loop k (current + (sizeof_block + sz)) initrd_end s))))))))))
      else Inr s)"

definition read_ramdisk :: "u32 \<Rightarrow> u32 \<Rightarrow> 'a fs_scheme \<Rightarrow> stop + 'a fs_scheme" where
  "read_ramdisk initrd_start initrd_end s =
     (let s = mlog ''===== READING FROM RAMDISK =====\<newline>'' [] s
      in read_ramdisk_loop (2 ^ 32) initrd_start initrd_end s)"

text \<open>
  The loop over the root directory reads each file into the local array \<open>test\<close> of 100 bytes; a
  longer file is written past its end.
\<close>

fun read_root :: "nat \<Rightarrow> u32 \<Rightarrow> 'a fs_scheme \<Rightarrow> stop + 'a fs_scheme" where
  "read_root 0 current s = Inl Diverges"
| "read_root (Suc k) current s =
     (if current \<noteq> 0
      then let test = local_test (image s) in
        and_then (vload32 (dirent_node current) s) (\<lambda>node.
        and_then (fs_seek node 0 s) (\<lambda>(_, s).
        and_then (vload32 (dirent_node current) s) (\<lambda>node.
        and_then (vload32 (file_canonical_size node) s) (\<lambda>sz.
        and_then (if sz \<le> 100 then fs_read node sz test s else Inl Undefined) (\<lambda>(_, s).
        and_then (vload32 (dirent_node current) s) (\<lambda>node.
        and_then (c_string node s) (\<lambda>name.
        let s = mlog ''Filename: %s\<newline>'' [Str name] s in
        and_then (vload32 (file_canonical_size node) s) (\<lambda>sz.
        let s = mlog ''Size: %u\<newline>'' [Num sz] s in
        and_then (array_string 100 test s) (\<lambda>text.
        let s = mlog ''%s\<newline>'' [Str text] s in
        and_then (vload32 (dirent_next current) s) (\<lambda>nxt. read_root k nxt s))))))))))
      else Inr s)"

fun store_bytes :: "u32 \<Rightarrow> u8 list \<Rightarrow> 'a machine_scheme \<Rightarrow> stop + 'a machine_scheme" where
  "store_bytes p [] s = Inr s"
| "store_bytes p (b # bs) s = and_then (vstore8 p b s) (store_bytes (p + 1) bs)"

text \<open>The end of \<open>init_filesystem\<close>: a file is written and read back.\<close>

definition fs_self_test :: "'a fs_scheme \<Rightarrow> stop + 'a fs_scheme" where
  "fs_self_test s =
     (let test_data = local_test_data (image s); test_buffer = local_test_buffer (image s) in
     and_then (store_bytes test_data (map of_char ''Hello'') s) (\<lambda>s.
     and_then (memset vstore8 test_buffer 0 5 s) (\<lambda>s.
     let s = mlog ''==== Testing FS Write and Read Back ====\<newline>'' [] s in
     and_then (fs_construct_node (literal_test_file (image s)) FS_FILE s) (\<lambda>(test_file, s).
     and_then (fs_seek test_file 0 s) (\<lambda>(_, s).
     and_then (fs_write test_file 5 test_data s) (\<lambda>(_, s).
     and_then (fs_seek test_file 0 s) (\<lambda>(_, s).
     and_then (fs_read test_file 5 test_buffer s) (\<lambda>(_, s).
     and_then (strncmp vload8 test_data test_buffer 5 s) (\<lambda>c.
     and_then
       (if c \<noteq> 0 then panic ''FS Write and Read Back Test Failed\<newline>''
        else Inr (mlog ''Test Passed!\<newline>'' [] s)) (\<lambda>s.
     and_then (vload32 (file_offset test_file) s) (\<lambda>offset.
     if offset \<noteq> 5 then panic ''test_file does not have the correct offset!''
     else Inr s)))))))))))"

definition init_filesystem :: "u32 \<Rightarrow> u32 \<Rightarrow> 'a fs_scheme \<Rightarrow> stop + 'a fs_scheme" where
  "init_filesystem initrd_start initrd_end s =
     and_then (fs_construct_node (literal_root (image s)) FS_DIRECTORY s) (\<lambda>(r, s).
     let s = s\<lparr>root := r\<rparr> in
     and_then (read_ramdisk initrd_start initrd_end s) (\<lambda>s.
     let s = mlog ''==== Reading Root Directory ====\<newline>'' [] s in
     and_then (vload32 (directory_head (root s)) s) (\<lambda>current.
     and_then (read_root (2 ^ 32) current s) fs_self_test)))"

end
