(* ===== verification/Files.thy ===== *)
theory Files
  imports Filesystem
begin

text \<open>
  Files as the C code represents them and as abstract values with operations on them: blocks of bytes, the relation
  between a node in memory and a file, and concrete states of the running kernel for the witnesses.
\<close>

unbundle bit_operations_syntax

section \<open>Bytes in memory\<close>

definition bytes :: "(u32 \<Rightarrow> u8) \<Rightarrow> u32 \<Rightarrow> nat \<Rightarrow> u8 list" where
  "bytes m p n = map (\<lambda>i. m (p + word_of_nat i)) [0..<n]"

lemma length_bytes [simp]: "length (bytes m p n) = n"
  by (simp add: bytes_def)

lemma nth_bytes: "i < n \<Longrightarrow> bytes m p n ! i = m (p + word_of_nat i)"
  by (simp add: bytes_def)

lemma bytes_cong: "(\<And>x. x \<in> span p n \<Longrightarrow> m' x = m x) \<Longrightarrow> n \<le> 2 ^ 32 \<Longrightarrow> bytes m' p n = bytes m p n"
  by (simp add: bytes_def span_memI)

lemma load32_span_cong: "(\<And>x. x \<in> span a 4 \<Longrightarrow> m' x = m x) \<Longrightarrow> load32 m' a = load32 m a"
  by (rule load32_cong) (simp_all add: span4)

lemma store32_outside: "x \<notin> span a 4 \<Longrightarrow> store32 a v m x = m x"
  by (rule store32_elsewhere) (auto simp: word_bytes)

lemma copied_outside: "x \<notin> span d n \<Longrightarrow> copied d p n m x = m x"
  by (simp add: copied_def)

lemma fill_outside: "x \<notin> span d n \<Longrightarrow> fill d n v m x = m x"
  by (simp add: fill_def)

lemma load32_cleared: "span a 4 \<subseteq> span d n \<Longrightarrow> load32 (fill d n 0 m) a = 0"
  unfolding load32_def fill_def by (simp add: span4)

lemma copied_load: "span a 4 \<inter> span d n = {} \<Longrightarrow> load32 (copied d p n m) a = load32 m a"
  by (rule load32_span_cong) (auto intro: copied_outside)

lemma fill_load: "span a 4 \<inter> span d n = {} \<Longrightarrow> load32 (fill d n v m) a = load32 m a"
  by (rule load32_span_cong) (auto intro: fill_outside)

lemma span_sub: "k + n \<le> N \<Longrightarrow> N \<le> 2 ^ 32 \<Longrightarrow> span (p + word_of_nat k) n \<subseteq> span p N"
proof
  fix x
  assume a: "k + n \<le> N" "N \<le> 2 ^ 32" "x \<in> span (p + word_of_nat k) n"
  show "x \<in> span p N"
  proof (cases "n = 0")
    case False
    define y where "y = x - (p + word_of_nat k)"
    have u: "unat y < n" using a(3) by (simp add: span_def y_def)
    have "x - p = y + word_of_nat k" by (simp add: y_def)
    then have "unat (x - p) = (unat y + unat (word_of_nat k :: u32)) mod 2 ^ 32"
      by (simp add: unat_word_ariths)
    also have "\<dots> \<le> unat y + unat (word_of_nat k :: u32)" by (rule mod_less_eq_dividend)
    also have "unat (word_of_nat k :: u32) \<le> k" by (simp add: unat_of_nat)
    finally show ?thesis using u a(1) by (simp add: span_def)
  qed (use a in simp)
qed

lemma span_apart: "j \<le> k \<Longrightarrow> k + n \<le> 2 ^ 32 \<Longrightarrow> span (p + word_of_nat k) n \<inter> span p j = {}"
proof (rule ccontr)
  assume k: "j \<le> k" "k + n \<le> 2 ^ 32" and "span (p + word_of_nat k) n \<inter> span p j \<noteq> {}"
  then obtain x where "x \<in> span (p + word_of_nat k) n" "x \<in> span p j" by blast
  then have x: "unat (x - (p + word_of_nat k)) < n" "unat (x - p) < j" by (simp_all add: span_def)
  define y where "y = x - (p + word_of_nat k)"
  have uk: "unat (word_of_nat k :: u32) = k" using k x by (simp add: unat_of_nat)
  have "x - p = y + word_of_nat k" by (simp add: y_def)
  then have "unat (x - p) = (unat y + k) mod 2 ^ 32" using uk by (simp add: unat_word_ariths)
  also have "\<dots> = unat y + k" using k x by (intro mod_less) (simp add: y_def)
  finally show False using k x by simp
qed

lemma nth_copied: "i < n \<Longrightarrow> n \<le> 2 ^ 32 \<Longrightarrow> copied d p n m (d + word_of_nat i) = m (p + word_of_nat i)"
  using span_memI [of i n d] by (simp add: copied_def)

lemma bytes_copied: "n \<le> 2 ^ 32 \<Longrightarrow> bytes (copied d p n m) d n = bytes m p n"
  by (auto intro!: nth_equalityI simp: nth_bytes nth_copied)

text \<open>Copying into the middle of a buffer.\<close>

lemma bytes_overwrite:
  assumes "off \<le> len" "off + n \<le> N" "len \<le> N" "N < 2 ^ 32"
  shows "bytes (copied (b + word_of_nat off) p n m) b (max len (off + n)) =
    take off (bytes m b len) @ bytes m p n @ drop (off + n) (bytes m b len)"
proof (rule nth_equalityI)
  let ?m = "copied (b + word_of_nat off) p n m"
  show "length (bytes ?m b (max len (off + n))) =
      length (take off (bytes m b len) @ bytes m p n @ drop (off + n) (bytes m b len))"
    using assms(1) by simp
  fix i assume "i < length (bytes ?m b (max len (off + n)))"
  then have i: "i < max len (off + n)" by simp
  have iN: "i < N" using i assms by auto
  have sp: "b + word_of_nat i \<in> span (b + word_of_nat off) n \<longleftrightarrow> off \<le> i \<and> i < off + n"
  proof -
    have ui: "unat (word_of_nat i :: u32) = i" "unat (word_of_nat off :: u32) = off"
      using iN assms by (simp_all add: unat_of_nat)
    have eq: "b + word_of_nat i - (b + word_of_nat off) = (word_of_nat i - word_of_nat off :: u32)" by simp
    show ?thesis
    proof (cases "off \<le> i")
      case True
      then have "unat (word_of_nat i - word_of_nat off :: u32) = i - off"
        using ui by (simp add: unat_sub word_le_nat_alt)
      then show ?thesis using True unfolding span_def eq by auto
    next
      case False
      then have "unat (word_of_nat i - word_of_nat off :: u32) = 2 ^ 32 + i - off"
        using ui by (simp add: unat_sub_if_size word_size)
      then show ?thesis using False assms iN unfolding span_def eq by auto
    qed
  qed
  show "bytes ?m b (max len (off + n)) ! i =
      (take off (bytes m b len) @ bytes m p n @ drop (off + n) (bytes m b len)) ! i"
  proof (cases "off \<le> i \<and> i < off + n")
    case True
    then have "b + word_of_nat i - (b + word_of_nat off) = (word_of_nat (i - off) :: u32)"
      by simp
    moreover have "i - off < n" using True by arith
    ultimately show ?thesis
      using True sp i assms by (simp add: nth_bytes copied_def nth_append)
  next
    case False
    then show ?thesis
      using sp i assms by (auto simp: nth_bytes copied_def nth_append)
  qed
qed

lemma cstring_of_bytes:
  assumes "bytes m p (Suc (length cs)) = cs @ [0]" "0 \<notin> set cs" "span p (Suc (length cs)) \<subseteq> D" "Suc (length cs) < 2 ^ 32"
  shows "cstring_in D m p (length cs)" "bytes m p (length cs) = cs"
proof -
  have b: "m (p + word_of_nat i) = (cs @ [0]) ! i" if "i \<le> length cs" for i
    using nth_bytes [of i "Suc (length cs)" m p] assms(1) that by simp
  show "bytes m p (length cs) = cs"
    by (rule nth_equalityI) (simp_all add: nth_bytes b nth_append)
  have "\<forall>i<length cs. m (p + word_of_nat i) \<noteq> 0"
    using b assms(2) by (auto simp: nth_append in_set_conv_nth)
  then show "cstring_in D m p (length cs)"
    using assms(3,4) b [of "length cs"] by (simp add: cstring_in_def)
qed

text \<open>Storing a list of bytes.\<close>

definition stored :: "u32 \<Rightarrow> u8 list \<Rightarrow> (u32 \<Rightarrow> u8) \<Rightarrow> (u32 \<Rightarrow> u8)" where
  "stored p bs m = (\<lambda>a. if a \<in> span p (length bs) then bs ! unat (a - p) else m a)"

lemma stored_Nil [simp]: "stored p [] m = m"
  by (simp add: stored_def)

lemma stored_Cons:
  assumes "length bs < 2 ^ 32"
  shows "stored p (b # bs) m = stored (p + 1) bs (m(p := b))"
proof
  fix a
  show "stored p (b # bs) m a = stored (p + 1) bs (m(p := b)) a"
  proof (cases "a = p")
    case True
    then show ?thesis
      using span_start_notin [OF assms, of p] span_Suc [OF assms, of p] by (simp add: stored_def)
  next
    case False
    then show ?thesis
      using span_Suc [OF assms, of p] unat_minus_Suc [OF False] by (simp add: stored_def)
  qed
qed

lemma bytes_stored: "length bs \<le> 2 ^ 32 \<Longrightarrow> bytes (stored p bs m) p (length bs) = bs"
proof (rule nth_equalityI)
  fix i assume l: "length bs \<le> 2 ^ 32" and "i < length (bytes (stored p bs m) p (length bs))"
  then have i: "i < length bs" by simp
  then have "unat (word_of_nat i :: u32) = i" using l by (simp add: unat_of_nat)
  then show "bytes (stored p bs m) p (length bs) ! i = bs ! i"
    using i by (simp add: nth_bytes stored_def span_def)
qed simp

lemma stored_outside: "x \<notin> span p (length bs) \<Longrightarrow> stored p bs m x = m x"
  by (simp add: stored_def)

context kernel_heap
begin

lemma runs_view: "valid s \<Longrightarrow> runs s (vview s)"
  using flat by (simp add: runs_def holds_def)

lemma runs_store8:
  assumes "runs s m" "a \<in> reg s"
  shows "\<exists>s'. vstore8 a v s = Inr s' \<and> same_but (reg s) s s' \<and> runs s' (m(a := v))"
  using holds_store8 [of "reg s" s m a v] assms runs_step [OF assms(1)] by (auto simp: runs_def)

lemma runs_store_bytes:
  "runs s m \<Longrightarrow> span p (length bs) \<subseteq> reg s \<Longrightarrow> length bs < 2 ^ 32 \<Longrightarrow>
   \<exists>s'. store_bytes p bs s = Inr s' \<and> same_but (reg s) s s' \<and> runs s' (stored p bs m)"
proof (induction bs arbitrary: p s m)
  case Nil
  then show ?case by (simp add: same_but_refl)
next
  case (Cons b bs)
  have l: "length bs < 2 ^ 32" using Cons.prems(3) by simp
  have sp: "p \<in> reg s" "span (p + 1) (length bs) \<subseteq> reg s"
    using Cons.prems(2) span_Suc [OF l, of p] by simp_all
  obtain s1 where s1: "vstore8 p b s = Inr s1" "same_but (reg s) s s1" "runs s1 (m(p := b))"
    using runs_store8 [OF Cons.prems(1) sp(1)] by blast
  have r: "reg s1 = reg s" by (rule same_but_region(1) [OF s1(2)])
  obtain s2 where s2: "store_bytes (p + 1) bs s1 = Inr s2" "same_but (reg s1) s1 s2"
    "runs s2 (stored (p + 1) bs (m(p := b)))"
    using Cons.IH [OF s1(3)] sp(2) l r by blast
  then show ?case
    using s1(1) same_but_trans [OF s1(2)] r stored_Cons [OF l] by auto
qed

end

text \<open>States of the running kernel with given bytes in its data.\<close>

lemma booted_bytes:
  assumes "span p (length bs) \<subseteq> kernel_data boot_symbols" "length bs < 2 ^ 32"
  shows "\<exists>s. heap_inv s \<and> heap_current s = 0xF000000 \<and> syms s = boot_symbols \<and> mm.more s = x \<and>
    bytes (vview s) p (length bs) = bs \<and>
    (\<forall>a. a \<notin> mapped_at_boot \<and> drop_bit 22 a \<noteq> 2 \<longrightarrow> translate s a = None)"
proof -
  obtain s where s: "heap_inv s" "heap_current s = 0xF000000" "syms s = boot_symbols" "mm.more s = x"
    "\<forall>a. a \<notin> mapped_at_boot \<and> drop_bit 22 a \<noteq> 2 \<longrightarrow> translate s a = None"
    using booted_extend [of x] by (elim exE conjE)
  have sub: "span p (length bs) \<subseteq> region kernel_data 0xF000000 s"
    using assms(1) s(3) by (auto simp: region_def)
  obtain s' where s': "same_but (region kernel_data 0xF000000 s) s s'" "kh.runs s' (stored p bs (vview s))"
    using kh.runs_store_bytes [OF kh.runs_view [OF s(1)] sub assms(2)] by blast
  have reg: "region kernel_data 0xF000000 s' = region kernel_data 0xF000000 s"
    by (rule kh.same_but_region(1) [OF s'(1)])
  have "vview s' a = stored p bs (vview s) a" if "a \<in> span p (length bs)" for a
    using s'(2) sub that reg by (auto simp: kh.runs_def holds_def)
  then have "bytes (vview s') p (length bs) = bytes (stored p bs (vview s)) p (length bs)"
    using assms(2) by (intro bytes_cong) simp_all
  moreover have "translate s' = translate s" using s'(1) by (simp add: same_but_def)
  ultimately show ?thesis
    using s' s kh.same_but_region(2-4) [OF s'(1)] assms(2)
    by (intro exI [of _ s']) (simp add: kh.runs_def bytes_stored)
qed

lemma kernel_data_span:
  assumes "0x100000 \<le> unat p" "unat p + n < 0x200000"
  shows "span p n \<subseteq> kernel_data boot_symbols"
proof
  fix a assume "a \<in> span p n"
  then have a: "unat p \<le> unat a" "unat a < unat p + n"
    using assms span_iff [of p n a] by auto
  have "page_of a \<noteq> q" if "page_aligned q" "0x200000 \<le> unat q" for q
    using page_range [OF that(1), of a] that(2) a assms(2) by auto
  moreover have "a \<notin> span q k" if "0x200000 \<le> unat q" "unat q + k < 2 ^ 32" for q k
    using span_iff [of q k a] that a assms(2) by auto
  ultimately show "a \<in> kernel_data boot_symbols"
    using a assms by (simp add: kernel_data_def boot_symbols_def page_aligned_def)
qed

text \<open>States of the running kernel with given words in its data.\<close>

abbreviation kernel_region :: "'a mm_scheme \<Rightarrow> u32 set" where
  "kernel_region s \<equiv> region kernel_data 0xF000000 s"

fun words :: "(u32 \<times> u32) list \<Rightarrow> (u32 \<Rightarrow> u8) \<Rightarrow> (u32 \<Rightarrow> u8)" where
  "words [] m = m"
| "words ((a, v) # ws) m = store32 a v (words ws m)"

lemma booted_words:
  assumes "\<forall>(a, v)\<in>set ws. word_aligned a \<and> 0x100000 \<le> unat a \<and> unat a + 4 < 0x200000"
  shows "\<exists>s m. kh.runs s (words ws m) \<and> syms s = boot_symbols \<and> mm.more s = x"
  using assms
proof (induction ws)
  case Nil
  obtain s where "heap_inv s" "syms s = boot_symbols" "mm.more s = x" using booted_extend [of x] by blast
  then show ?case using kh.runs_view [of s] by auto
next
  case (Cons w ws)
  obtain a v where w: "w = (a, v)" by fastforce
  obtain s m where s: "kh.runs s (words ws m)" "syms s = boot_symbols" "mm.more s = x" using Cons by auto
  have a: "word_aligned a" "span a 4 \<subseteq> kernel_region s"
    using Cons.prems kernel_data_span [of a 4] by (auto simp: w region_def s(2))
  obtain s' where "same_but (kernel_region s) s s'" "kh.runs s' (store32 a v (words ws m))"
    using kh.runs_store32 [OF s(1) a] by blast
  then show ?case using kh.same_but_region [of _ s s'] s(2,3) by (intro exI [of _ s'] exI [of _ m]) (simp add: w)
qed

lemma span_range:
  "unat p + n < 2 ^ 32 \<Longrightarrow> unat q + k < 2 ^ 32 \<Longrightarrow> unat p + n \<le> unat q \<or> unat q + k \<le> unat p \<Longrightarrow> span p n \<inter> span q k = {}"
  by (auto simp: span_iff)

text \<open>Addresses a linker could choose.\<close>

definition boot_image :: fs_image where
  "boot_image = \<lparr>ramdisk_read_fn = 0x100100, ramdisk_write_fn = 0x100200, ramdisk_seek_fn = 0x100300,
     literal_root = 0x110000, literal_test_file = 0x110010, local_test = 0x110100, local_test_data = 0x110200,
     local_test_buffer = 0x110210\<rparr>"

section \<open>Abstract files\<close>

record ramfile =
  fname :: "u8 list"
  fpos :: nat
  fdata :: "u8 list"

definition file_write :: "u8 list \<Rightarrow> ramfile \<Rightarrow> ramfile" where
  "file_write bs f = f\<lparr>fdata := take (fpos f) (fdata f) @ bs @ drop (fpos f + length bs) (fdata f),
     fpos := fpos f + length bs\<rparr>"

definition file_read :: "nat \<Rightarrow> ramfile \<Rightarrow> u8 list \<times> ramfile" where
  "file_read n f = (take n (drop (fpos f) (fdata f)), f\<lparr>fpos := fpos f + n\<rparr>)"

definition file_seek :: "nat \<Rightarrow> ramfile \<Rightarrow> ramfile" where
  "file_seek p f = f\<lparr>fpos := p\<rparr>"

section \<open>Representation\<close>

definition name_at :: "(u32 \<Rightarrow> u8) \<Rightarrow> u32 \<Rightarrow> u8 list \<Rightarrow> bool" where
  "name_at m p nm \<longleftrightarrow> length nm < 128 \<and> 0 \<notin> set nm \<and> bytes m p (length nm) = nm \<and>
     m (p + word_of_nat (length nm)) = 0"

definition functions_at :: "fs_image \<Rightarrow> (u32 \<Rightarrow> u8) \<Rightarrow> u32 \<Rightarrow> bool" where
  "functions_at im m p \<longleftrightarrow> load32 m (node_read p) = ramdisk_read_fn im \<and>
     load32 m (node_write p) = ramdisk_write_fn im \<and> load32 m (node_seek p) = ramdisk_seek_fn im"

text \<open>
  \<open>file_at im m p b f\<close>: the node at \<open>p\<close> with its buffer of 256 bytes at \<open>b\<close> represents the file \<open>f\<close>.
\<close>

definition file_at :: "fs_image \<Rightarrow> (u32 \<Rightarrow> u8) \<Rightarrow> u32 \<Rightarrow> u32 \<Rightarrow> ramfile \<Rightarrow> bool" where
  "file_at im m p b f \<longleftrightarrow> word_aligned p \<and> unat p + 168 < 2 ^ 32 \<and> unat b + 256 < 2 ^ 32 \<and>
     span p 168 \<inter> span b 256 = {} \<and> length (fdata f) \<le> 256 \<and> fpos f \<le> 256 \<and>
     name_at m p (fname f) \<and> functions_at im m p \<and>
     load32 m (node_type p) = FS_FILE \<and> load32 m (file_offset p) = word_of_nat (fpos f) \<and>
     load32 m (file_buffer p) = b \<and> load32 m (file_canonical_size p) = word_of_nat (length (fdata f)) \<and>
     load32 m (file_allocated_size p) = 256 \<and> bytes m b (length (fdata f)) = fdata f"

definition footprint :: "u32 \<Rightarrow> u32 \<Rightarrow> u32 set" where
  "footprint p b = span p 168 \<union> span b 256"

definition image_ok :: "fs_image \<Rightarrow> bool" where
  "image_ok im \<longleftrightarrow> ramdisk_read_fn im \<noteq> 0 \<and> ramdisk_write_fn im \<noteq> 0 \<and> ramdisk_seek_fn im \<noteq> 0"

lemmas field_defs = node_type_def node_read_def node_write_def node_seek_def file_offset_def file_buffer_def
  file_canonical_size_def file_allocated_size_def directory_head_def directory_size_def directory_parent_def

lemma field_span: "k + 4 \<le> 168 \<Longrightarrow> span (p + word_of_nat k) 4 \<subseteq> span p 168"
  by (rule span_sub) simp_all

lemma file_fields_span:
  "span (node_type p) 4 \<subseteq> span p 168" "span (node_read p) 4 \<subseteq> span p 168" "span (node_write p) 4 \<subseteq> span p 168"
  "span (node_seek p) 4 \<subseteq> span p 168" "span (file_offset p) 4 \<subseteq> span p 168" "span (file_buffer p) 4 \<subseteq> span p 168"
  "span (file_canonical_size p) 4 \<subseteq> span p 168" "span (file_allocated_size p) 4 \<subseteq> span p 168"
  "span (directory_head p) 4 \<subseteq> span p 168" "span (directory_size p) 4 \<subseteq> span p 168"
  "span (directory_parent p) 4 \<subseteq> span p 168"
  using field_span [of 128 p] field_span [of 132 p] field_span [of 136 p] field_span [of 140 p]
    field_span [of 152 p] field_span [of 156 p] field_span [of 160 p] field_span [of 164 p]
  by (simp_all add: field_defs)

lemma word_aligned_plus: "word_aligned p \<Longrightarrow> word_aligned k \<Longrightarrow> word_aligned (p + k)"
proof -
  assume "word_aligned p" "word_aligned k"
  then have a: "unat p mod 4 = 0" "unat k mod 4 = 0" by (simp_all add: word_aligned_unat)
  have "unat (p + k) mod 4 = (unat p + unat k) mod 2 ^ 32 mod 4" by (simp add: unat_word_ariths)
  also have "\<dots> = (unat p + unat k) mod 4" by (rule mod_mod_cancel) simp
  also have "\<dots> = 0" using a by presburger
  finally show "word_aligned (p + k)" by (simp add: word_aligned_unat)
qed

lemma fields_aligned:
  assumes "word_aligned p"
  shows "word_aligned (node_type p)" "word_aligned (node_read p)" "word_aligned (node_write p)"
    "word_aligned (node_seek p)" "word_aligned (file_offset p)" "word_aligned (file_buffer p)"
    "word_aligned (file_canonical_size p)" "word_aligned (file_allocated_size p)"
    "word_aligned (directory_head p)" "word_aligned (directory_size p)" "word_aligned (directory_parent p)"
  unfolding field_defs by (rule word_aligned_plus [OF assms], simp add: word_aligned_def)+

lemma name_cong: "name_at m p nm \<Longrightarrow> (\<And>x. x \<in> span p 128 \<Longrightarrow> m' x = m x) \<Longrightarrow> name_at m' p nm"
proof -
  assume n: "name_at m p nm" and eq: "\<And>x. x \<in> span p 128 \<Longrightarrow> m' x = m x"
  have "length nm < 128" using n by (simp add: name_at_def)
  then have "bytes m' p (length nm) = bytes m p (length nm)"
    using span_mono [of "length nm" 128 p] by (intro bytes_cong eq) auto
  moreover have "m' (p + word_of_nat (length nm)) = m (p + word_of_nat (length nm))"
    using \<open>length nm < 128\<close> by (intro eq span_memI) simp_all
  ultimately show ?thesis using n by (simp add: name_at_def)
qed

lemma file_at_cong:
  assumes "file_at im m p b f" "\<And>x. x \<in> footprint p b \<Longrightarrow> m' x = m x"
  shows "file_at im m' p b f"
proof -
  have sp: "m' x = m x" if "x \<in> span p 168" for x using that assms(2) by (simp add: footprint_def)
  have ld: "load32 m' a = load32 m a" if "span a 4 \<subseteq> span p 168" for a
    using that sp by (intro load32_span_cong) blast
  have "length (fdata f) \<le> 256" using assms(1) by (simp add: file_at_def)
  then have "bytes m' b (length (fdata f)) = bytes m b (length (fdata f))"
  proof (intro bytes_cong assms(2))
    show "x \<in> footprint p b" if "x \<in> span b (length (fdata f))" for x
      using that span_mono [OF \<open>length (fdata f) \<le> 256\<close>, of b] by (auto simp: footprint_def)
  qed simp
  moreover have "name_at m' p (fname f)"
  proof (rule name_cong)
    show "name_at m p (fname f)" using assms(1) by (simp add: file_at_def)
    show "m' x = m x" if "x \<in> span p 128" for x
      using that span_mono [of 128 168 p] by (intro sp) auto
  qed
  ultimately show ?thesis
    using assms(1) ld file_fields_span [of p] by (simp add: file_at_def functions_at_def)
qed

end
