(* ===== verification/Terminal.thy ===== *)
theory Terminal
  imports Files
begin

text \<open>
  The text terminal, \<open>kernel/tty.c\<close>: a cursor and the cells of the VGA text buffer at 0xb8000,
  written through the page tables like any other memory.
\<close>

unbundle bit_operations_syntax

section \<open>State\<close>

record tty = fs +
  terminal_row :: u32
  terminal_column :: u32
  terminal_color :: u8
  terminal_ptr :: u32

definition VGA_WIDTH :: u32 where "VGA_WIDTH = 80"
definition VGA_HEIGHT :: u32 where "VGA_HEIGHT = 25"
definition VGA_MEMORY :: u32 where "VGA_MEMORY = 0xb8000"

section \<open>Operations\<close>

text \<open>A store of 16 bits at an even address: within a page, translated once.\<close>

definition vstore16 :: "u32 \<Rightarrow> u16 \<Rightarrow> 'a machine_scheme \<Rightarrow> stop + 'a machine_scheme" where
  "vstore16 a v s =
     (case translate s a of
        None \<Rightarrow> Inl (Page_fault a)
      | Some p \<Rightarrow> Inr (s\<lparr>phys := (phys s)(p := ucast v, p + 1 := ucast (drop_bit 8 v))\<rparr>))"

definition vga_char :: "u8 \<Rightarrow> u8 \<Rightarrow> u16" where
  "vga_char color character = ucast character OR push_bit 8 (ucast color)"

fun clear_row :: "nat \<Rightarrow> u32 \<Rightarrow> u32 \<Rightarrow> 'a tty_scheme \<Rightarrow> stop + 'a tty_scheme" where
  "clear_row 0 y x s = Inr s"
| "clear_row (Suc k) y x s =
     and_then (vstore16 (terminal_ptr s + 2 * (y * VGA_WIDTH + x)) (vga_char (terminal_color s) 32) s)
       (clear_row k y (x + 1))"

fun clear_rows :: "nat \<Rightarrow> u32 \<Rightarrow> 'a tty_scheme \<Rightarrow> stop + 'a tty_scheme" where
  "clear_rows 0 y s = Inr s"
| "clear_rows (Suc k) y s = and_then (clear_row (unat VGA_WIDTH) y 0 s) (clear_rows k (y + 1))"

definition init_terminal :: "'a tty_scheme \<Rightarrow> stop + 'a tty_scheme" where
  "init_terminal s = clear_rows (unat VGA_HEIGHT) 0
     (s\<lparr>terminal_row := 0, terminal_column := 0, terminal_color := 7, terminal_ptr := VGA_MEMORY\<rparr>)"

definition terminal_put_at :: "u8 \<Rightarrow> u32 \<Rightarrow> u32 \<Rightarrow> 'a tty_scheme \<Rightarrow> stop + 'a tty_scheme" where
  "terminal_put_at c x y s =
     vstore16 (terminal_ptr s + 2 * (y * VGA_WIDTH + x)) (vga_char (terminal_color s) c) s"

definition terminal_putchar :: "u8 \<Rightarrow> 'a tty_scheme \<Rightarrow> stop + 'a tty_scheme" where
  "terminal_putchar c s =
     (if c = 10 then Inr (s\<lparr>terminal_row := terminal_row s + 1, terminal_column := 0\<rparr>)
      else and_then (terminal_put_at c (terminal_column s) (terminal_row s) s) (\<lambda>s.
        let s = s\<lparr>terminal_column := terminal_column s + 1\<rparr> in
        if terminal_column s = VGA_WIDTH
        then let s = s\<lparr>terminal_column := 0, terminal_row := terminal_row s + 1\<rparr> in
          Inr (if terminal_row s = VGA_HEIGHT then s\<lparr>terminal_row := 0\<rparr> else s)
        else Inr s))"

fun terminal_write_loop :: "nat \<Rightarrow> u32 \<Rightarrow> u32 \<Rightarrow> 'a tty_scheme \<Rightarrow> stop + 'a tty_scheme" where
  "terminal_write_loop 0 data i s = Inr s"
| "terminal_write_loop (Suc k) data i s =
     and_then (vload8 (data + i) s) (\<lambda>c. and_then (terminal_putchar c s) (terminal_write_loop k data (i + 1)))"

definition terminal_write :: "u32 \<Rightarrow> u32 \<Rightarrow> 'a tty_scheme \<Rightarrow> stop + 'a tty_scheme" where
  "terminal_write data sz s = terminal_write_loop (unat sz) data 0 s"

definition terminal_print :: "u32 \<Rightarrow> 'a tty_scheme \<Rightarrow> stop + 'a tty_scheme" where
  "terminal_print data s = and_then (strlen vload8 data s) (\<lambda>len. terminal_write data len s)"

section \<open>The abstract screen\<close>

text \<open>
  The VGA page holds 2048 cells, of which the first 2000 are the visible 25 rows of 80. The
  cursor is a cell number; a newline moves it to the start of the next row, without ever
  returning to the top.
\<close>

record screen =
  cursor :: nat
  cells :: "u16 list"

definition screen_put :: "u8 \<Rightarrow> u8 \<Rightarrow> screen \<Rightarrow> screen" where
  "screen_put color c d =
     (if c = 10 then d\<lparr>cursor := (cursor d div 80 + 1) * 80\<rparr>
      else d\<lparr>cells := (cells d)[cursor d := vga_char color c],
             cursor := if cursor d + 1 = 2000 then 0 else cursor d + 1\<rparr>)"

definition screen_print :: "u8 \<Rightarrow> u8 list \<Rightarrow> screen \<Rightarrow> screen" where
  "screen_print color cs d = fold (screen_put color) cs d"

definition load16 :: "(u32 \<Rightarrow> u8) \<Rightarrow> u32 \<Rightarrow> u16" where
  "load16 m a = ucast (m a) OR push_bit 8 (ucast (m (a + 1)))"

definition cell_addr :: "nat \<Rightarrow> u32" where
  "cell_addr i = VGA_MEMORY + 2 * word_of_nat i"

definition screen_cells :: "(u32 \<Rightarrow> u8) \<Rightarrow> u16 list" where
  "screen_cells m = map (\<lambda>i. load16 m (cell_addr i)) [0..<2048]"

definition screen_of :: "'a tty_scheme \<Rightarrow> screen" where
  "screen_of s = \<lparr>cursor = 80 * unat (terminal_row s) + unat (terminal_column s), cells = screen_cells (vview s)\<rparr>"

text \<open>Every visible character of the text lands on a cell of the VGA page, and the row counter does not wrap.\<close>

fun on_page :: "u8 \<Rightarrow> u8 list \<Rightarrow> screen \<Rightarrow> bool" where
  "on_page color [] d = True"
| "on_page color (c # cs) d = ((if c = 10 then cursor d < 2 ^ 32 else cursor d < 2048) \<and> on_page color cs (screen_put color c d))"

text \<open>The terminal has been set up, and its column is on the screen.\<close>

definition terminal_ok :: "'a tty_scheme \<Rightarrow> bool" where
  "terminal_ok s \<longleftrightarrow> terminal_ptr s = VGA_MEMORY \<and> terminal_column s < VGA_WIDTH"

section \<open>Lemmas\<close>

lemma offset_translate:
  assumes "offset_of a + k \<le> 0xFFF" "offset_of a \<le> offset_of a + k" "translate s a = Some p"
  shows "translate s (a + k) = Some (p + k)"
proof (cases "paging_on s")
  case True
  have pg: "page_of (a + k) = page_of a" "offset_of (a + k) = offset_of a + k"
    using page_of_add [OF page_aligned_page_of assms(1), of a]
      offset_of_add [OF page_aligned_page_of assms(1), of a] page_offset_add [of a]
    by (simp_all flip: add.assoc)
  have p: "page_of p OR offset_of a = p"
    using translate_same_page [OF assms(3) refl] assms(3) True by simp
  then have "page_of p + offset_of a = p"
    using aligned_add_or [OF page_aligned_page_of offset_of_le, of p a] by simp
  then have "page_of p OR offset_of (a + k) = p + k"
    using aligned_add_or [OF page_aligned_page_of assms(1), of p] pg(2)
    by (simp flip: add.assoc)
  then show ?thesis using translate_same_page [OF assms(3) pg(1)] True by simp
qed (use assms in \<open>simp add: translate_def\<close>)

lemma load16_store: "load16 (m(a := ucast v, a + 1 := ucast (drop_bit 8 v))) a = (v :: u16)"
proof -
  have "(ucast (ucast v :: u8) :: u16) OR push_bit 8 (ucast (ucast (drop_bit 8 v) :: u8)) = v"
  proof (rule bit_eqI)
    fix n assume "possible_bit TYPE(u16) n"
    then have "n < 8 \<or> 8 \<le> n \<and> n < 16" by auto
    then show "bit ((ucast (ucast v :: u8) :: u16) OR push_bit 8 (ucast (ucast (drop_bit 8 v) :: u8))) n = bit v n"
      by (auto simp: bit_simps)
  qed
  then show ?thesis by (simp add: load16_def)
qed

lemma unat_cell_addr: "i < 2048 \<Longrightarrow> unat (cell_addr i) = 0xb8000 + 2 * i"
  by (simp add: cell_addr_def VGA_MEMORY_def unat_word_ariths unat_of_nat)

lemma unat_cell_addr1: "i < 2048 \<Longrightarrow> unat (cell_addr i + 1) = 0xb8001 + 2 * i"
  using unat_cell_addr [of i] by (simp add: unat_word_ariths)

lemma cell_page: "i < 2048 \<Longrightarrow> page_of (cell_addr i) = 0xb8000" "i < 2048 \<Longrightarrow> page_of (cell_addr i + 1) = 0xb8000"
  using unat_cell_addr [of i] unat_cell_addr1 [of i] by (simp_all add: vga_range)

lemma cell_offset: "i < 2048 \<Longrightarrow> offset_of (cell_addr i) + 1 \<le> 0xFFF \<and> offset_of (cell_addr i) \<le> offset_of (cell_addr i) + 1"
proof -
  assume i: "i < 2048"
  have "cell_addr i = 0xb8000 + offset_of (cell_addr i)"
    using page_offset_add [of "cell_addr i"] cell_page(1) [OF i] by simp
  then have "unat (offset_of (cell_addr i)) = 2 * i"
    using i by (simp add: cell_addr_def VGA_MEMORY_def unat_word_ariths unat_of_nat)
  then show ?thesis using i by (simp add: word_le_nat_alt unat_word_ariths)
qed

lemma cell_addr_inj: "i < 2048 \<Longrightarrow> j < 2048 \<Longrightarrow> i \<noteq> j \<Longrightarrow>
    cell_addr j \<notin> {cell_addr i, cell_addr i + 1} \<and> cell_addr j + 1 \<notin> {cell_addr i, cell_addr i + 1}"
  using unat_cell_addr [of i] unat_cell_addr [of j] unat_cell_addr1 [of i] unat_cell_addr1 [of j]
  by (auto simp: word_unat_eq_iff)

definition put_cell :: "nat \<Rightarrow> u16 \<Rightarrow> (u32 \<Rightarrow> u8) \<Rightarrow> (u32 \<Rightarrow> u8)" where
  "put_cell i v m = m(cell_addr i := ucast v, cell_addr i + 1 := ucast (drop_bit 8 v))"

lemma screen_cells_put:
  assumes "i < 2048"
  shows "screen_cells (put_cell i v m) = (screen_cells m)[i := v]"
proof (rule nth_equalityI)
  fix j assume "j < length (screen_cells (put_cell i v m))"
  then have j: "j < 2048" by (simp add: screen_cells_def)
  show "screen_cells (put_cell i v m) ! j = (screen_cells m)[i := v] ! j"
  proof (cases "j = i")
    case True
    then show ?thesis using assms by (simp add: screen_cells_def put_cell_def load16_store)
  next
    case False
    then show ?thesis using cell_addr_inj [OF assms j] j
      by (simp add: screen_cells_def put_cell_def load16_def)
  qed
qed (simp add: screen_cells_def)

lemma put_cell_outside: "i < 2048 \<Longrightarrow> page_of a \<noteq> 0xb8000 \<Longrightarrow> put_cell i v m a = m a"
  using cell_page [of i] by (auto simp: put_cell_def)

lemma print_newlines:
  "cursor d = 80 * r \<Longrightarrow> 80 * (r + k) < 2 ^ 32 \<Longrightarrow>
   on_page color (replicate k 10) d \<and> screen_print color (replicate k 10) d = d\<lparr>cursor := 80 * (r + k)\<rparr>"
proof (induction k arbitrary: d r)
  case 0
  then show ?case by (simp add: screen_print_def)
next
  case (Suc k)
  have "cursor (screen_put color 10 d) = 80 * Suc r" using Suc.prems(1) by (simp add: screen_put_def)
  then show ?case
    using Suc.IH [of "screen_put color 10 d" "Suc r"] Suc.prems by (simp add: screen_print_def screen_put_def)
qed

text \<open>What the terminal changes.\<close>

definition tty_only :: "'a tty_scheme \<Rightarrow> 'a tty_scheme \<Rightarrow> bool" where
  "tty_only s s' \<longleftrightarrow> s' = s\<lparr>phys := phys s', terminal_row := terminal_row s', terminal_column := terminal_column s'\<rparr>"

lemma tty_only_refl [simp]: "tty_only s s"
  by (simp add: tty_only_def)

lemma tty_only_trans: "tty_only s s' \<Longrightarrow> tty_only s' s'' \<Longrightarrow> tty_only s s''"
proof -
  assume 1: "tty_only s s'" and 2: "tty_only s' s''"
  have "s'' = s'\<lparr>phys := phys s'', terminal_row := terminal_row s'', terminal_column := terminal_column s''\<rparr>"
    using 2 by (simp add: tty_only_def)
  also have "\<dots> = s\<lparr>phys := phys s', terminal_row := terminal_row s', terminal_column := terminal_column s'\<rparr>
      \<lparr>phys := phys s'', terminal_row := terminal_row s'', terminal_column := terminal_column s''\<rparr>"
    using 1 by (simp add: tty_only_def)
  finally show "tty_only s s''" by (simp add: tty_only_def)
qed

lemma tty_only_fields:
  assumes "tty_only s s'"
  shows "dev s' = dev s" "cr0 s' = cr0 s" "cr3 s' = cr3 s" "interrupt_handlers s' = interrupt_handlers s"
    "syms s' = syms s" "heap_current s' = heap_current s" "heap_mapped s' = heap_mapped s"
    "image s' = image s" "root s' = root s"
    "terminal_color s' = terminal_color s" "terminal_ptr s' = terminal_ptr s" "tty.more s' = tty.more s"
  by (subst assms [unfolded tty_only_def], simp)+

section \<open>The terminal on a mapped VGA page\<close>

lemma unat_vga: "unat VGA_WIDTH = 80" "unat VGA_HEIGHT = 25"
  by (simp_all add: VGA_WIDTH_def VGA_HEIGHT_def)

lemma last_cell: "c < 80 \<Longrightarrow> 80 * r + c = 1999 \<longleftrightarrow> r = 24 \<and> c = 79" for r c :: nat
proof
  assume c: "c < 80" and e: "80 * r + c = 1999"
  have "r = (80 * r + c) div 80" using c by simp
  then have "r = 24" by (simp add: e)
  then show "r = 24 \<and> c = 79" using e by simp
qed simp

locale vga = kernel_heap valid data base limit
  for valid :: "'a tty_scheme \<Rightarrow> bool" and data base limit +
  assumes vga_data: "valid s \<Longrightarrow> page_of a = 0xb8000 \<Longrightarrow> a \<in> data (syms s)"
begin

lemma vga_region: "valid s \<Longrightarrow> page_of a = 0xb8000 \<Longrightarrow> a \<in> reg s"
  using vga_data by (simp add: region_def)

lemma store_cell:
  assumes v: "valid s" and i: "i < 2048"
  shows "\<exists>s'. vstore16 (cell_addr i) c s = Inr s' \<and> valid s' \<and> same_but (reg s) s s' \<and>
    (\<forall>a\<in>reg s. vview s' a = put_cell i c (vview s) a)"
proof -
  let ?a = "cell_addr i"
  have h: "holds (reg s) s (vview s)" using runs_view [OF v] by (simp add: runs_def)
  have a: "?a \<in> reg s" "?a + 1 \<in> reg s" using vga_region [OF v] cell_page [OF i] by blast+
  obtain p where p: "translate s ?a = Some p" using h a(1) by (auto simp: holds_def flat_def)
  have p1: "translate s (?a + 1) = Some (p + 1)"
    using offset_translate [OF _ _ p, of 1] cell_offset [OF i] by simp
  obtain s1 where 1: "vstore8 ?a (ucast c) s = Inr s1" "same_but (reg s) s s1" "holds (reg s) s1 ((vview s)(?a := ucast c))"
    using holds_store8 [OF h a(1)] by blast
  obtain s2 where 2: "vstore8 (?a + 1) (ucast (drop_bit 8 c)) s1 = Inr s2" "same_but (reg s) s1 s2"
    "holds (reg s) s2 ((vview s)(?a := ucast c, ?a + 1 := ucast (drop_bit 8 c)))"
    using holds_store8 [OF 1(3) a(2)] by blast
  have t: "translate s1 = translate s" using 1(2) by (simp add: same_but_def)
  have e1: "s1 = s\<lparr>phys := (phys s)(p := ucast c)\<rparr>" using 1(1) p by (simp add: vstore8_def)
  have e2: "s2 = s1\<lparr>phys := (phys s1)(p + 1 := ucast (drop_bit 8 c))\<rparr>" using 2(1) p1 t by (simp add: vstore8_def)
  have "vstore16 ?a c s = Inr s2" using p unfolding e2 e1 by (simp add: vstore16_def)
  moreover have sb: "same_but (reg s) s s2" by (rule same_but_trans [OF 1(2) 2(2)])
  ultimately show ?thesis using keep [OF v sb] 2(3) by (auto simp: holds_def put_cell_def)
qed

lemma valid_tty:
  "valid s \<Longrightarrow> valid (s\<lparr>terminal_row := r, terminal_column := c\<rparr>)"
  by (rule valid_cong) simp_all

lemma putchar_ok:
  assumes v: "valid s" and ok: "terminal_ok s" and g: "on_page (terminal_color s) [c] (screen_of s)"
  shows "\<exists>s'. terminal_putchar c s = Inr s' \<and> valid s' \<and> terminal_ok s' \<and> tty_only s s' \<and> translate s' = translate s \<and>
    screen_of s' = screen_put (terminal_color s) c (screen_of s) \<and>
    (\<forall>a\<in>reg s. page_of a \<noteq> 0xb8000 \<longrightarrow> vview s' a = vview s a)"
proof (cases "c = 10")
  case True
  have r: "80 * unat (terminal_row s) < 2 ^ 32" using g True by (simp add: screen_of_def)
  have "unat (terminal_row s + 1) = unat (terminal_row s) + 1" using r by (simp add: unat_word_ariths)
  moreover have "(80 * unat (terminal_row s) + unat (terminal_column s)) div 80 = unat (terminal_row s)"
    using ok by (simp add: terminal_ok_def VGA_WIDTH_def word_less_nat_alt)
  moreover have "vview (s\<lparr>terminal_row := terminal_row s + 1, terminal_column := 0\<rparr>) = vview s"
    by (rule vview_cong) simp_all
  moreover have "translate (s\<lparr>terminal_row := terminal_row s + 1, terminal_column := 0\<rparr>) = translate s"
    by (simp add: translate_def paging_on_def fun_eq_iff)
  ultimately show ?thesis
    using True ok valid_tty [OF v]
    by (simp add: terminal_putchar_def tty_only_def terminal_ok_def screen_put_def screen_of_def VGA_WIDTH_def)
next
  case False
  define i where "i = 80 * unat (terminal_row s) + unat (terminal_column s)"
  have i: "i < 2048" using g False by (simp add: screen_of_def i_def)
  have col: "unat (terminal_column s) < 80"
    using ok by (simp add: terminal_ok_def VGA_WIDTH_def word_less_nat_alt)
  have cell: "terminal_ptr s + 2 * (terminal_row s * VGA_WIDTH + terminal_column s) = cell_addr i"
    using ok by (simp add: terminal_ok_def VGA_WIDTH_def cell_addr_def i_def algebra_simps)
  obtain s1 where s1: "vstore16 (cell_addr i) (vga_char (terminal_color s) c) s = Inr s1" "valid s1" "same_but (reg s) s s1"
    "\<forall>a\<in>reg s. vview s1 a = put_cell i (vga_char (terminal_color s) c) (vview s) a"
    using store_cell [OF v i] by blast
  have fields: "terminal_row s1 = terminal_row s" "terminal_column s1 = terminal_column s"
    "terminal_ptr s1 = terminal_ptr s" "terminal_color s1 = terminal_color s"
    by (subst same_but_fields [OF s1(3)], simp)+
  have cells: "screen_cells (vview s1) = (screen_cells (vview s))[i := vga_char (terminal_color s) c]"
  proof -
    have "vview s1 a = put_cell i (vga_char (terminal_color s) c) (vview s) a" if "page_of a = 0xb8000" for a
      using s1(4) vga_region [OF v that] by simp
    then have "screen_cells (vview s1) = screen_cells (put_cell i (vga_char (terminal_color s) c) (vview s))"
      by (simp add: screen_cells_def load16_def cell_page)
    then show ?thesis by (simp add: screen_cells_put [OF i])
  qed
  define row col where "row = (if i + 1 = 2000 then 0 else if unat (terminal_column s) = 79 then terminal_row s + 1 else terminal_row s)"
    and "col = (if unat (terminal_column s) = 79 then 0 else terminal_column s + 1)"
  define s' where "s' = s1\<lparr>terminal_row := row, terminal_column := col\<rparr>"
  have rowb: "unat (terminal_row s) \<le> 25" using i by (simp add: i_def)
  have last: "terminal_column s + 1 = VGA_WIDTH \<longleftrightarrow> unat (terminal_column s) = 79"
    using col by (simp add: VGA_WIDTH_def word_unat_eq_iff unat_word_ariths)
  have bottom: "terminal_row s + 1 = VGA_HEIGHT \<longleftrightarrow> unat (terminal_row s) = 24"
    using rowb by (simp add: VGA_HEIGHT_def word_unat_eq_iff unat_word_ariths)
  have "unat (terminal_row s) = 24 \<and> unat (terminal_column s) = 79 \<longleftrightarrow> i + 1 = 2000"
    using last_cell [OF col] by (simp add: i_def)
  moreover have "terminal_put_at c (terminal_column s) (terminal_row s) s = Inr s1"
    by (simp only: terminal_put_at_def cell s1(1))
  ultimately have run: "terminal_putchar c s = Inr s'"
    using False last bottom fields
    by (auto simp: terminal_putchar_def Let_def s'_def row_def col_def)
  have "80 * unat row + unat col = (if i + 1 = 2000 then 0 else i + 1)"
    using col rowb last_cell [OF col, of "unat (terminal_row s)"] by (auto simp: row_def col_def i_def unat_word_ariths)
  moreover have vv: "vview s' = vview s1" unfolding s'_def by (rule vview_cong) simp_all
  ultimately have "screen_of s' = screen_put (terminal_color s) c (screen_of s)"
    using False cells by (simp add: screen_of_def screen_put_def i_def s'_def)
  moreover have "terminal_ok s'"
    using ok fields col by (auto simp: terminal_ok_def s'_def col_def VGA_WIDTH_def word_less_nat_alt unat_word_ariths)
  moreover have "tty_only s s'"
    unfolding tty_only_def s'_def by (subst (1) same_but_fields [OF s1(3)]) simp
  moreover have "vview s' a = vview s a" if "a \<in> reg s" "page_of a \<noteq> 0xb8000" for a
    using s1(4) that put_cell_outside [OF i] vv by simp
  moreover have "valid s'" unfolding s'_def by (rule valid_tty [OF s1(2)])
  moreover have "translate s' = translate s"
  proof -
    have "translate s' = translate s1" by (simp add: s'_def translate_def paging_on_def fun_eq_iff)
    then show ?thesis using s1(3) by (simp add: same_but_def)
  qed
  ultimately show ?thesis using run by blast
qed

lemma reg_tty: "tty_only s s' \<Longrightarrow> reg s' = reg s"
  using tty_only_fields [of s s'] by (simp add: region_def)

lemma write_ok:
  "valid s \<Longrightarrow> terminal_ok s \<Longrightarrow> on_page (terminal_color s) cs (screen_of s) \<Longrightarrow>
   (\<And>j. j < length cs \<Longrightarrow> p + (i + word_of_nat j) \<in> reg s \<and> page_of (p + (i + word_of_nat j)) \<noteq> 0xb8000 \<and>
      vview s (p + (i + word_of_nat j)) = cs ! j) \<Longrightarrow>
   \<exists>s'. terminal_write_loop (length cs) p i s = Inr s' \<and> valid s' \<and> terminal_ok s' \<and> tty_only s s' \<and> translate s' = translate s \<and>
     screen_of s' = screen_print (terminal_color s) cs (screen_of s) \<and>
     (\<forall>a\<in>reg s. page_of a \<noteq> 0xb8000 \<longrightarrow> vview s' a = vview s a)"
proof (induction cs arbitrary: s i)
  case Nil
  then show ?case by (simp add: screen_print_def)
next
  case (Cons c cs)
  have a: "p + i \<in> reg s" "page_of (p + i) \<noteq> 0xb8000" "vview s (p + i) = c"
    using Cons.prems(4) [of 0] by simp_all
  have ld: "vload8 (p + i) s = Inr c"
    using runs_load8 [OF runs_view [OF Cons.prems(1)] a(1)] a(3) by simp
  obtain s1 where s1: "terminal_putchar c s = Inr s1" "valid s1" "terminal_ok s1" "tty_only s s1" "translate s1 = translate s"
    "screen_of s1 = screen_put (terminal_color s) c (screen_of s)"
    "\<forall>a\<in>reg s. page_of a \<noteq> 0xb8000 \<longrightarrow> vview s1 a = vview s a"
    using putchar_ok [OF Cons.prems(1,2), of c] Cons.prems(3) by auto
  have g: "on_page (terminal_color s1) cs (screen_of s1)"
    using Cons.prems(3) s1(6) tty_only_fields [OF s1(4)] by simp
  have chars: "p + (i + 1 + word_of_nat j) \<in> reg s1 \<and> page_of (p + (i + 1 + word_of_nat j)) \<noteq> 0xb8000 \<and>
      vview s1 (p + (i + 1 + word_of_nat j)) = cs ! j" if "j < length cs" for j
    using Cons.prems(4) [of "Suc j"] that s1(7) reg_tty [OF s1(4)] by (simp add: ac_simps)
  obtain s2 where s2: "terminal_write_loop (length cs) p (i + 1) s1 = Inr s2" "valid s2" "terminal_ok s2" "tty_only s1 s2" "translate s2 = translate s1"
    "screen_of s2 = screen_print (terminal_color s1) cs (screen_of s1)"
    "\<forall>a\<in>reg s1. page_of a \<noteq> 0xb8000 \<longrightarrow> vview s2 a = vview s1 a"
    using Cons.IH [OF s1(2,3) g chars] by blast
  have "screen_of s2 = screen_print (terminal_color s) (c # cs) (screen_of s)"
    using s2(6) s1(6) tty_only_fields [OF s1(4)] by (simp add: screen_print_def)
  then show ?case
    using ld s1(1,5,7) s2(1-3,5,7) tty_only_trans [OF s1(4) s2(4)] reg_tty [OF s1(4)] by auto
qed

lemma print_ok:
  assumes v: "valid s" and ok: "terminal_ok s"
    and str: "cstring_in {a \<in> reg s. page_of a \<noteq> 0xb8000} (vview s) p n"
    and g: "on_page (terminal_color s) (bytes (vview s) p n) (screen_of s)"
  shows "\<exists>s'. terminal_print p s = Inr s' \<and> valid s' \<and> terminal_ok s' \<and> tty_only s s' \<and> translate s' = translate s \<and>
    screen_of s' = screen_print (terminal_color s) (bytes (vview s) p n) (screen_of s) \<and>
    (\<forall>a\<in>reg s. page_of a \<noteq> 0xb8000 \<longrightarrow> vview s' a = vview s a)"
proof -
  let ?D = "{a \<in> reg s. page_of a \<noteq> 0xb8000}"
  have h: "holds ?D s (vview s)" using holds_mono [of "reg s" s "vview s" ?D] runs_view [OF v] by (auto simp: runs_def)
  have n: "Suc n < 2 ^ 32" "span p (Suc n) \<subseteq> ?D" using str by (simp_all add: cstring_in_def)
  have len: "strlen vload8 p s = Inr (word_of_nat n)"
    using vm.strlen_ok [of ?D s p n] h cstring_in_view [OF h str] by (simp add: holds_def)
  have "p + (0 + word_of_nat j) \<in> reg s \<and> page_of (p + (0 + word_of_nat j)) \<noteq> 0xb8000 \<and>
      vview s (p + (0 + word_of_nat j)) = bytes (vview s) p n ! j" if "j < length (bytes (vview s) p n)" for j
    using that n span_memI [of j "Suc n" p] by (auto simp: nth_bytes)
  from write_ok [OF v ok g this] show ?thesis
    using len n(1) by (simp add: terminal_print_def terminal_write_def unat_of_nat)
qed

lemma putchar_fault:
  assumes ok: "terminal_ok s" and c: "c \<noteq> 10" and cur: "cursor (screen_of s) < 0x24000"
    and u: "translate s (cell_addr (cursor (screen_of s))) = None"
  shows "terminal_putchar c s = Inl (Page_fault (cell_addr (cursor (screen_of s))))"
proof -
  have "terminal_ptr s + 2 * (terminal_row s * VGA_WIDTH + terminal_column s) = cell_addr (cursor (screen_of s))"
    using ok by (simp add: terminal_ok_def VGA_WIDTH_def cell_addr_def screen_of_def algebra_simps)
  then have "terminal_put_at c (terminal_column s) (terminal_row s) s = Inl (Page_fault (cell_addr (cursor (screen_of s))))"
    using u by (simp only: terminal_put_at_def vstore16_def option.case)
  then show ?thesis using c by (simp add: terminal_putchar_def)
qed

lemma write_append:
  "terminal_write_loop (j + k) p i s = and_then (terminal_write_loop j p i s) (terminal_write_loop k p (i + word_of_nat j))"
  for s :: "'b tty_scheme"
  by (induction j arbitrary: i s) (auto simp: and_then_assoc ac_simps intro!: and_then_cong)

lemma string_byte:
  assumes "cstring_in {a \<in> D. page_of a \<noteq> 0xb8000} m p n" "j < n"
  shows "p + word_of_nat j \<in> D" "page_of (p + word_of_nat j) \<noteq> 0xb8000" "m (p + word_of_nat j) = bytes m p n ! j"
  using assms span_memI [of j "Suc n" p] by (auto simp: cstring_in_def nth_bytes)

lemma print_fault:
  assumes v: "valid s" and ok: "terminal_ok s"
    and str: "cstring_in {a \<in> reg s. page_of a \<noteq> 0xb8000} (vview s) p n"
    and cs: "bytes (vview s) p n = pre @ c # post" and c: "c \<noteq> 10"
    and g: "on_page (terminal_color s) pre (screen_of s)"
    and d: "d = screen_print (terminal_color s) pre (screen_of s)" "cursor d < 0x24000"
      "translate s (cell_addr (cursor d)) = None"
  shows "terminal_print p s = Inl (Page_fault (cell_addr (cursor d)))"
proof -
  let ?D = "{a \<in> reg s. page_of a \<noteq> 0xb8000}"
  have h: "holds ?D s (vview s)" using holds_mono [of "reg s" s "vview s" ?D] runs_view [OF v] by (auto simp: runs_def)
  have n: "Suc n < 2 ^ 32" using str by (simp add: cstring_in_def)
  have len: "strlen vload8 p s = Inr (word_of_nat n)"
    using vm.strlen_ok [of ?D s p n] h cstring_in_view [OF h str] by (simp add: holds_def)
  have ln: "n = length pre + Suc (length post)" using arg_cong [OF cs, of length] by simp
  have pre: "p + (0 + word_of_nat j) \<in> reg s \<and> page_of (p + (0 + word_of_nat j)) \<noteq> 0xb8000 \<and>
      vview s (p + (0 + word_of_nat j)) = pre ! j" if "j < length pre" for j
    using string_byte [OF str, of j] that cs ln by (simp add: nth_append)
  obtain s1 where s1: "terminal_write_loop (length pre) p 0 s = Inr s1" "valid s1" "terminal_ok s1" "tty_only s s1"
    "translate s1 = translate s" "screen_of s1 = d" "\<forall>a\<in>reg s. page_of a \<noteq> 0xb8000 \<longrightarrow> vview s1 a = vview s a"
    using write_ok [OF v ok g pre] d(1) by blast
  have b: "p + word_of_nat (length pre) \<in> reg s" "page_of (p + word_of_nat (length pre)) \<noteq> 0xb8000"
    "vview s (p + word_of_nat (length pre)) = c"
    using string_byte [OF str, of "length pre"] ln cs by simp_all
  have ld: "vload8 (p + word_of_nat (length pre)) s1 = Inr c"
    using runs_load8 [OF runs_view [OF s1(2)]] b s1(7) reg_tty [OF s1(4)] by simp
  have "terminal_putchar c s1 = Inl (Page_fault (cell_addr (cursor d)))"
    using putchar_fault [OF s1(3) c] d(2,3) s1(5,6) by simp
  then have "terminal_write_loop n p 0 s = Inl (Page_fault (cell_addr (cursor d)))"
    using ld s1(1) unfolding ln write_append by simp
  then show ?thesis using len n by (simp add: terminal_print_def terminal_write_def unat_of_nat)
qed

text \<open>Clearing the screen.\<close>

lemma clear_row_ok:
  "valid s \<Longrightarrow> terminal_ptr s = VGA_MEMORY \<Longrightarrow> i + k \<le> 2048 \<Longrightarrow> word_of_nat i = y * VGA_WIDTH + x \<Longrightarrow>
   \<exists>s'. clear_row k y x s = Inr s' \<and> valid s' \<and> same_but (reg s) s s' \<and>
     screen_cells (vview s') = fold (\<lambda>i cs. cs[i := vga_char (terminal_color s) 32]) [i..<i + k] (screen_cells (vview s)) \<and>
     (\<forall>a\<in>reg s. page_of a \<noteq> 0xb8000 \<longrightarrow> vview s' a = vview s a)"
proof (induction k arbitrary: i x s)
  case 0
  then show ?case by (simp add: same_but_refl)
next
  case (Suc k)
  let ?c = "vga_char (terminal_color s) 32"
  have cell: "terminal_ptr s + 2 * (y * VGA_WIDTH + x) = cell_addr i"
    using Suc.prems(2,4) by (simp only: cell_addr_def)
  have i: "i < 2048" using Suc.prems(3) by simp
  obtain s1 where s1: "vstore16 (cell_addr i) ?c s = Inr s1" "valid s1" "same_but (reg s) s s1"
    "\<forall>a\<in>reg s. vview s1 a = put_cell i ?c (vview s) a"
    using store_cell [OF Suc.prems(1) i] by blast
  have f: "terminal_ptr s1 = terminal_ptr s" "terminal_color s1 = terminal_color s" "reg s1 = reg s"
    by (subst same_but_fields [OF s1(3)], simp add: region_def)+
  have "word_of_nat (Suc i) = y * VGA_WIDTH + (x + 1)" using Suc.prems(4) by (simp add: ac_simps)
  moreover have "terminal_ptr s1 = VGA_MEMORY" "Suc i + k \<le> 2048" using Suc.prems(2,3) f by simp_all
  ultimately obtain s2 where s2: "clear_row k y (x + 1) s1 = Inr s2" "valid s2" "same_but (reg s1) s1 s2"
    "screen_cells (vview s2) = fold (\<lambda>i cs. cs[i := vga_char (terminal_color s1) 32]) [Suc i..<Suc i + k] (screen_cells (vview s1))"
    "\<forall>a\<in>reg s1. page_of a \<noteq> 0xb8000 \<longrightarrow> vview s2 a = vview s1 a"
    using Suc.IH [OF s1(2), of "Suc i" "x + 1"] by blast
  have "vview s1 a = put_cell i ?c (vview s) a" if "page_of a = 0xb8000" for a
    using s1(4) vga_region [OF Suc.prems(1) that] by simp
  then have "screen_cells (vview s1) = (screen_cells (vview s))[i := ?c]"
    unfolding screen_cells_put [OF i, symmetric] by (simp add: screen_cells_def load16_def cell_page)
  then have cells: "screen_cells (vview s2) = fold (\<lambda>i cs. cs[i := ?c]) [i..<i + Suc k] (screen_cells (vview s))"
    using s2(4) f(2) upt_conv_Cons [of i "i + Suc k"] by (simp del: upt_Suc)
  have run: "clear_row (Suc k) y x s = Inr s2" unfolding clear_row.simps cell s1(1) using s2(1) by simp
  have "\<forall>a\<in>reg s. page_of a \<noteq> 0xb8000 \<longrightarrow> vview s2 a = vview s a"
    using s1(4) s2(5) f(3) put_cell_outside [OF i] by simp
  then show ?case
    using run s2(2) same_but_trans [OF s1(3)] s2(3) cells f(3) by auto
qed

lemma clear_rows_ok:
  "valid s \<Longrightarrow> terminal_ptr s = VGA_MEMORY \<Longrightarrow> y + k \<le> 25 \<Longrightarrow>
   \<exists>s'. clear_rows k (word_of_nat y) s = Inr s' \<and> valid s' \<and> same_but (reg s) s s' \<and>
     screen_cells (vview s') = fold (\<lambda>i cs. cs[i := vga_char (terminal_color s) 32]) [80 * y..<80 * (y + k)] (screen_cells (vview s)) \<and>
     (\<forall>a\<in>reg s. page_of a \<noteq> 0xb8000 \<longrightarrow> vview s' a = vview s a)"
proof (induction k arbitrary: y s)
  case 0
  then show ?case by (simp add: same_but_refl)
next
  case (Suc k)
  obtain s1 where s1: "clear_row 80 (word_of_nat y) 0 s = Inr s1" "valid s1" "same_but (reg s) s s1"
    "screen_cells (vview s1) = fold (\<lambda>i cs. cs[i := vga_char (terminal_color s) 32]) [80 * y..<80 * y + 80] (screen_cells (vview s))"
    "\<forall>a\<in>reg s. page_of a \<noteq> 0xb8000 \<longrightarrow> vview s1 a = vview s a"
    using clear_row_ok [OF Suc.prems(1,2), of "80 * y" 80 "word_of_nat y" 0] Suc.prems(3)
    by (auto simp: VGA_WIDTH_def)
  have f: "terminal_ptr s1 = terminal_ptr s" "terminal_color s1 = terminal_color s" "reg s1 = reg s"
    by (subst same_but_fields [OF s1(3)], simp add: region_def)+
  have "terminal_ptr s1 = VGA_MEMORY" "Suc y + k \<le> 25" using Suc.prems(2,3) f by simp_all
  then obtain s2 where s2: "clear_rows k (word_of_nat (Suc y)) s1 = Inr s2" "valid s2" "same_but (reg s1) s1 s2"
    "screen_cells (vview s2) = fold (\<lambda>i cs. cs[i := vga_char (terminal_color s1) 32]) [80 * Suc y..<80 * (Suc y + k)] (screen_cells (vview s1))"
    "\<forall>a\<in>reg s1. page_of a \<noteq> 0xb8000 \<longrightarrow> vview s2 a = vview s1 a"
    using Suc.IH [OF s1(2), of "Suc y"] by blast
  have "[80 * y..<80 * (y + Suc k)] = [80 * y..<80 * y + 80] @ [80 * Suc y..<80 * (Suc y + k)]"
    using upt_add_eq_append [of "80 * y" "80 * y + 80" "80 * k"] by (simp add: algebra_simps)
  then have cells: "screen_cells (vview s2) =
      fold (\<lambda>i cs. cs[i := vga_char (terminal_color s) 32]) [80 * y..<80 * (y + Suc k)] (screen_cells (vview s))"
    using s1(4) s2(4) f(2) by simp
  have run: "clear_rows (Suc k) (word_of_nat y) s = Inr s2"
    using s1(1) s2(1) by (simp add: unat_vga add.commute)
  show ?case
    using run s2(2) same_but_trans [OF s1(3)] s2(3,5) s1(5) cells f(3) by auto
qed

end

section \<open>The running kernel\<close>

interpretation vg: vga heap_inv kernel_data "0xF000000" "0x11000000"
  by unfold_locales (simp add: kernel_data_def)

text \<open>Concrete states of the running kernel, for the witnesses.\<close>

definition boot_tty :: tty where
  "boot_tty = \<lparr>dev = \<lparr>out = []\<rparr>, phys = (\<lambda>_. 0), cr0 = 0x11, cr3 = 0, interrupt_handlers = (\<lambda>_. None),
     syms = boot_symbols, heap_current = 0, heap_mapped = 0, image = boot_image, root = 0,
     terminal_row = 0, terminal_column = 0, terminal_color = 7, terminal_ptr = VGA_MEMORY\<rparr>"

lemma same_tty:
  "mm.more s = mm.more t \<Longrightarrow> terminal_row s = terminal_row t \<and> terminal_column s = terminal_column t \<and>
   terminal_color s = terminal_color t \<and> terminal_ptr s = terminal_ptr t"
  by (cases s, cases t) simp

lemma boot_tty_fields:
  "terminal_row boot_tty = 0" "terminal_column boot_tty = 0" "terminal_color boot_tty = 7" "terminal_ptr boot_tty = VGA_MEMORY"
  by (simp_all add: boot_tty_def)

text \<open>A kernel that is about to print a text.\<close>

lemma tty_with_text:
  assumes "0 \<notin> set cs" "length cs < 0x1000"
    and "terminal_row t = 0" "terminal_column t = 0" "terminal_color t = 7" "terminal_ptr t = VGA_MEMORY"
  shows "\<exists>s. heap_inv s \<and> mm.more s = mm.more t \<and> syms s = boot_symbols \<and> heap_current s = 0xF000000 \<and>
    terminal_ok s \<and> terminal_color s = 7 \<and> cursor (screen_of s) = 0 \<and>
    cstring_in {a \<in> region kernel_data 0xF000000 s. page_of a \<noteq> 0xb8000} (vview s) 0x110000 (length cs) \<and>
    bytes (vview s) 0x110000 (length cs) = cs \<and>
    (\<forall>a. 0xb9000 \<le> a \<and> a < 0x100000 \<longrightarrow> translate s a = None)"
proof -
  have sp: "span 0x110000 (length (cs @ [0])) \<subseteq> kernel_data boot_symbols"
    using assms(2) by (intro kernel_data_span) simp_all
  obtain s where s: "heap_inv s" "syms s = boot_symbols" "mm.more s = mm.more t" "heap_current s = 0xF000000"
    "bytes (vview s) 0x110000 (length (cs @ [0])) = cs @ [0]"
    "\<forall>a. a \<notin> mapped_at_boot \<and> drop_bit 22 a \<noteq> 2 \<longrightarrow> translate s a = None"
    using booted_bytes [OF sp, of "mm.more t"] assms(2) by auto
  have f: "terminal_row s = 0" "terminal_column s = 0" "terminal_color s = 7" "terminal_ptr s = VGA_MEMORY"
    using same_tty [OF s(3)] assms(3-6) by simp_all
  have "span 0x110000 (Suc (length cs)) \<subseteq> {a \<in> region kernel_data 0xF000000 s. page_of a \<noteq> 0xb8000}"
    using sp s(2) assms(2) span_iff [of "0x110000" "Suc (length cs)"] by (auto simp: region_def vga_range)
  then have str: "cstring_in {a \<in> region kernel_data 0xF000000 s. page_of a \<noteq> 0xb8000} (vview s) 0x110000 (length cs)"
    "bytes (vview s) 0x110000 (length cs) = cs"
    using cstring_of_bytes [of "vview s" "0x110000" cs] s(5) assms by simp_all
  have none: "translate s a = None" if "0xb9000 \<le> a" "a < 0x100000" for a
  proof -
    have a: "0xb9000 \<le> unat a" "unat a < 0x100000"
      using that by (simp_all add: word_le_nat_alt word_less_nat_alt)
    have "a \<notin> mapped_at_boot" using a by (auto simp: mapped_at_boot_def word_le_nat_alt word_less_nat_alt)
    moreover have "drop_bit 22 a \<noteq> 2" using a dir_index [of a] by auto
    ultimately show ?thesis using s(6) by blast
  qed
  show ?thesis
    using s(1-4) f str none by (intro exI [of _ s]) (simp add: terminal_ok_def VGA_WIDTH_def screen_of_def)
qed

section \<open>Properties\<close>

text \<open>
  \<open>init_terminal\<close> clears the 2000 cells of the visible screen to light grey blanks, puts the cursor
  at the top left corner, and changes no memory outside the VGA page.
\<close>

theorem init_terminal_clears:
  assumes "heap_inv s"
  shows "\<exists>s'. init_terminal s = Inr s' \<and> heap_inv s' \<and> terminal_ok s' \<and> cursor (screen_of s') = 0 \<and>
    (\<forall>i<2000. cells (screen_of s') ! i = 0x0720) \<and>
    (\<forall>a\<in>region kernel_data 0xF000000 s. page_of a \<noteq> 0xb8000 \<longrightarrow> vview s' a = vview s a)"
proof -
  let ?s = "s\<lparr>terminal_row := 0, terminal_column := 0, terminal_color := 7, terminal_ptr := VGA_MEMORY\<rparr>"
  have v: "heap_inv ?s" by (rule kh.valid_cong [OF assms]) simp_all
  have vv: "vview ?s = vview s" by (rule vview_cong) simp_all
  have rg: "region kernel_data 0xF000000 ?s = region kernel_data 0xF000000 s" by (simp add: region_def)
  obtain s' where s': "clear_rows 25 (word_of_nat 0) ?s = Inr s'" "heap_inv s'"
    "same_but (region kernel_data 0xF000000 ?s) ?s s'"
    "screen_cells (vview s') = fold (\<lambda>i cs. cs[i := vga_char (terminal_color ?s) 32]) [80 * 0..<80 * (0 + 25)] (screen_cells (vview ?s))"
    "\<forall>a\<in>region kernel_data 0xF000000 ?s. page_of a \<noteq> 0xb8000 \<longrightarrow> vview s' a = vview ?s a"
    using vg.clear_rows_ok [OF v, of 0 25] by auto
  have f: "terminal_row s' = 0" "terminal_column s' = 0" "terminal_ptr s' = VGA_MEMORY"
    by (subst kh.same_but_fields [OF s'(3)], simp)+
  have "fold (\<lambda>i cs. cs[i := b]) [0..<k] cs ! i = (if i < k then b else cs ! i)"
    if "i < length cs" "k \<le> length cs" for b :: u16 and cs k i
  proof -
    have "length (fold (\<lambda>i cs. cs[i := b]) [0..<k] cs) = length cs" for k by (induction k) simp_all
    then show ?thesis using that by (induction k) (auto simp: nth_list_update less_Suc_eq)
  qed
  from this [of _ "screen_cells (vview s)" 2000 "0x0720"]
  have "cells (screen_of s') ! i = 0x0720" if "i < 2000" for i
    using s'(4) that vv by (simp add: screen_of_def screen_cells_def vga_char_def)
  then show ?thesis
    using s'(1,2,5) f vv rg by (intro exI [of _ s']) (simp add: init_terminal_def unat_vga terminal_ok_def VGA_WIDTH_def screen_of_def)
qed

theorem init_terminal_clears_witness:
  "\<exists>s s' :: tty. heap_inv s \<and> init_terminal s = Inr s' \<and> cells (screen_of s') ! 1999 = 0x0720"
proof -
  obtain s :: tty where "heap_inv s" using tty_with_text [of "[]" boot_tty] boot_tty_fields by auto
  with init_terminal_clears [OF this] show ?thesis by force
qed

text \<open>
  C23: printing a C string of the kernel's data refines the abstract screen: each character lands in
  the cell under the cursor with the current colour, the cursor advances, wraps from the last
  visible cell to the first and moves to the next row at a newline, and only the VGA page changes.
\<close>

theorem terminal_print_screen:
  assumes "heap_inv s" "terminal_ok s"
    and "cstring_in {a \<in> region kernel_data 0xF000000 s. page_of a \<noteq> 0xb8000} (vview s) p n"
    and "on_page (terminal_color s) (bytes (vview s) p n) (screen_of s)"
  shows "\<exists>s'. terminal_print p s = Inr s' \<and> heap_inv s' \<and> terminal_ok s' \<and> tty_only s s' \<and>
    screen_of s' = screen_print (terminal_color s) (bytes (vview s) p n) (screen_of s) \<and>
    (\<forall>a\<in>region kernel_data 0xF000000 s. page_of a \<noteq> 0xb8000 \<longrightarrow> vview s' a = vview s a)"
  using vg.print_ok [OF assms] by blast

theorem terminal_print_screen_witness:
  "\<exists>s s' :: tty. terminal_print 0x110000 s = Inr s' \<and> cells (screen_of s') ! 0 = 0x0741 \<and> cursor (screen_of s') = 1"
proof -
  obtain s :: tty where s: "heap_inv s" "terminal_ok s" "terminal_color s = 7" "cursor (screen_of s) = 0"
    "cstring_in {a \<in> region kernel_data 0xF000000 s. page_of a \<noteq> 0xb8000} (vview s) 0x110000 (length [65 :: u8])"
    "bytes (vview s) 0x110000 (length [65 :: u8]) = [65]"
    using tty_with_text [of "[65]" boot_tty] boot_tty_fields by auto
  have g: "on_page (terminal_color s) (bytes (vview s) 0x110000 (length [65 :: u8])) (screen_of s)"
    using s(4) unfolding s(6) by simp
  obtain s' where "terminal_print 0x110000 s = Inr s'"
    "screen_of s' = screen_print (terminal_color s) (bytes (vview s) 0x110000 (length [65 :: u8])) (screen_of s)"
    using terminal_print_screen [OF s(1,2,5) g] by blast
  moreover have "0 < length (cells (screen_of s))" by (simp add: screen_of_def screen_cells_def)
  ultimately show ?thesis
    using s(3,4) unfolding s(6) by (intro exI [of _ s] exI [of _ s']) (simp add: screen_print_def screen_put_def vga_char_def)
qed

text \<open>
  A newline never returns to the top, so the cursor leaves the VGA page after 25 lines; the
  first visible character from there on has no cell, and printing it ends in a page fault.
\<close>

theorem terminal_print_leaves_page:
  assumes "heap_inv s" "terminal_ok s"
    and "cstring_in {a \<in> region kernel_data 0xF000000 s. page_of a \<noteq> 0xb8000} (vview s) p n"
    and "bytes (vview s) p n = pre @ c # post" "c \<noteq> 10" "on_page (terminal_color s) pre (screen_of s)"
    and "d = screen_print (terminal_color s) pre (screen_of s)" "2048 \<le> cursor d" "cursor d < 0x24000"
    and "\<forall>a. 0xb9000 \<le> a \<and> a < 0x100000 \<longrightarrow> translate s a = None"
  shows "terminal_print p s = Inl (Page_fault (0xb8000 + 2 * word_of_nat (cursor d)))"
proof -
  have "unat (cell_addr (cursor d)) = 0xb8000 + 2 * cursor d"
    using assms(9) by (simp add: cell_addr_def VGA_MEMORY_def unat_word_ariths unat_of_nat)
  then have "translate s (cell_addr (cursor d)) = None"
    using assms(8-10) by (simp add: word_le_nat_alt word_less_nat_alt)
  then show ?thesis
    using vg.print_fault [OF assms(1-7) assms(9)] by (simp add: cell_addr_def VGA_MEMORY_def)
qed

theorem terminal_print_leaves_page_witness:
  "\<exists>s :: tty. heap_inv s \<and> bytes (vview s) 0x110000 27 = replicate 26 10 @ [65] \<and>
    terminal_print 0x110000 s = Inl (Page_fault 0xb9040)"
proof -
  let ?cs = "replicate 26 10 @ [65] :: u8 list"
  have len: "length ?cs = 27" by simp
  obtain s :: tty where s: "heap_inv s" "terminal_ok s" "terminal_color s = 7" "cursor (screen_of s) = 0"
    "cstring_in {a \<in> region kernel_data 0xF000000 s. page_of a \<noteq> 0xb8000} (vview s) 0x110000 27"
    "bytes (vview s) 0x110000 27 = ?cs" "\<forall>a. 0xb9000 \<le> a \<and> a < 0x100000 \<longrightarrow> translate s a = None"
    using tty_with_text [of ?cs boot_tty] boot_tty_fields unfolding len by auto
  have d: "cursor (screen_print (terminal_color s) (replicate 26 10) (screen_of s)) = 2080"
    using print_newlines [of "screen_of s" 0 26] s(4) by simp
  have g: "on_page (terminal_color s) (replicate 26 10) (screen_of s)"
    using print_newlines [of "screen_of s" 0 26] s(4) by simp
  have "bytes (vview s) 0x110000 27 = replicate 26 10 @ 65 # []" using s(6) by simp
  from terminal_print_leaves_page [OF s(1,2,5) this _ g refl _ _ s(7)]
  show ?thesis using s(1,6) unfolding d by (intro exI [of _ s]) simp
qed

end
