(* ===== verification/Timer.thy ===== *)
theory Timer
  imports Terminal
begin

text \<open>
  The programmable interval timer, \<open>kernel/timer.c\<close>: its frequency divisor, the tick counter, and
  the callback that reports every second on the terminal.
\<close>

unbundle bit_operations_syntax

section \<open>Operations\<close>

text \<open>\<open>literal_second\<close> is the address of the text the callback prints.\<close>

record timer = tty +
  ticks :: u32
  literal_second :: u32

definition TIMER_FREQUENCY :: u32 where "TIMER_FREQUENCY = 1000"

definition read_timer :: "'a timer_scheme \<Rightarrow> u32" where
  "read_timer s = ticks s"

text \<open>The overflow branch computes with 64 bits and truncates.\<close>

definition elapsed_time :: "u32 \<Rightarrow> u32 \<Rightarrow> u32" where
  "elapsed_time start finish =
     (if finish \<ge> start then finish - start
      else ucast ((0xFFFFFFFFFFFFFFFF :: 64 word) - ucast start + ucast finish))"

definition timer_callback :: "'a timer_scheme \<Rightarrow> stop + 'a timer_scheme" where
  "timer_callback s =
     (let s = s\<lparr>ticks := ticks s + 1\<rparr> in
      if ticks s mod TIMER_FREQUENCY = 0
      then and_then (terminal_print (literal_second s) s) (\<lambda>s. Inr (mlog ''Tick: %u\<newline>'' [Num (ticks s)] s))
      else Inr s)"

definition mout :: "u16 \<Rightarrow> u8 \<Rightarrow> 'a machine_scheme \<Rightarrow> 'a machine_scheme" where
  "mout port data s = s\<lparr>dev := outb port data (dev s)\<rparr>"

definition init_timer :: "u32 \<Rightarrow> 'a machine_scheme \<Rightarrow> stop + 'a machine_scheme" where
  "init_timer frequency s =
     (let s = register_interrupt_handler 32 Timer_callback s in
      if frequency = 0 then Inl Divide_error
      else let divisor = 1193180 div frequency;
        s = mout 0x43 0x36 s;
        l = ucast (divisor AND 0xFF); h = ucast (drop_bit 8 divisor AND 0xFF)
      in Inr (mout 0x40 h (mout 0x40 l s)))"

text \<open>A sequence of timer interrupts.\<close>

fun timer_run :: "nat \<Rightarrow> 'a timer_scheme \<Rightarrow> stop + 'a timer_scheme" where
  "timer_run 0 s = Inr s"
| "timer_run (Suc n) s = and_then (timer_callback s) (timer_run n)"

section \<open>Lemmas\<close>

lemma timer_run_append: "timer_run (m + n) s = and_then (timer_run m s) (timer_run n)"
  by (induction m arbitrary: s) (auto simp: and_then_assoc intro!: and_then_cong)

lemma timer_quiet:
  "unat (ticks s) mod 1000 + k < 1000 \<Longrightarrow> unat (ticks s) + k < 2 ^ 32 \<Longrightarrow> timer_run k s = Inr (s\<lparr>ticks := ticks s + word_of_nat k\<rparr>)"
proof (induction k arbitrary: s)
  case (Suc k)
  have m: "unat (ticks s) mod 1000 + 1 < 1000" using Suc.prems by simp
  have "unat (ticks s) + 1 < 2 ^ 32" using Suc.prems by simp
  then have u: "unat (ticks s + 1) = unat (ticks s) + 1" by (simp add: unat_word_ariths)
  have nz: "unat (ticks s + 1) mod 1000 = unat (ticks s) mod 1000 + 1"
    unfolding u using m by (simp add: mod_Suc)
  then have "(ticks s + 1) mod TIMER_FREQUENCY \<noteq> 0"
    by (auto simp: TIMER_FREQUENCY_def word_unat_eq_iff unat_mod)
  then have "timer_callback s = Inr (s\<lparr>ticks := ticks s + 1\<rparr>)"
    by (simp add: timer_callback_def)
  moreover have "unat (ticks (s\<lparr>ticks := ticks s + 1\<rparr>)) mod 1000 + k < 1000"
    using Suc.prems nz by simp
  moreover have "unat (ticks (s\<lparr>ticks := ticks s + 1\<rparr>)) + k < 2 ^ 32" using Suc.prems u by simp
  ultimately show ?case using Suc.IH [of "s\<lparr>ticks := ticks s + 1\<rparr>"] by (simp add: add.assoc)
qed simp

text \<open>A line of text that fits its row.\<close>

lemma print_line:
  "cursor d = 80 * r + c \<Longrightarrow> c + length cs < 80 \<Longrightarrow> 80 * r + c + length cs \<le> 2048 \<Longrightarrow> 10 \<notin> set cs \<Longrightarrow>
   on_page color cs d \<and> cursor (screen_print color cs d) = 80 * r + c + length cs"
proof (induction cs arbitrary: d c)
  case Nil
  then show ?case by (simp add: screen_print_def)
next
  case (Cons x cs)
  have "80 * r + c \<noteq> 1999" using last_cell [of c r] Cons.prems(2) by auto
  then have "cursor (screen_put color x d) = 80 * r + (c + 1)"
    using Cons.prems(1,4) by (simp add: screen_put_def)
  then show ?case
    using Cons.IH [of "screen_put color x d" "c + 1"] Cons.prems by (simp add: screen_print_def)
qed

lemma screen_print_append: "screen_print color (as @ bs) d = screen_print color bs (screen_print color as d)"
  by (simp add: screen_print_def)

lemma on_page_append:
  "on_page color (as @ bs) d \<longleftrightarrow> on_page color as d \<and> on_page color bs (screen_print color as d)"
  by (induction as arbitrary: d) (auto simp: screen_print_def)

lemma print_full_line:
  assumes "cursor d = 80 * r" "length cs < 48" "10 \<notin> set cs" "r \<le> 25"
  shows "on_page color (cs @ [10]) d" "cursor (screen_print color (cs @ [10]) d) = 80 * (r + 1)"
proof -
  have l: "on_page color cs d" "cursor (screen_print color cs d) = 80 * r + length cs"
    using print_line [of d r 0 cs] assms by simp_all
  then show "on_page color (cs @ [10]) d" using assms by (simp add: on_page_append)
  have "(80 * r + length cs) div 80 = r" using assms(2) by simp
  then show "cursor (screen_print color (cs @ [10]) d) = 80 * (r + 1)"
    using l by (simp add: screen_print_append) (simp add: screen_print_def screen_put_def)
qed

text \<open>
  The terminal before the report of second \<open>j + 1\<close>: the cursor is at the start of row \<open>j\<close>, the
  text of the report is in memory, and nothing is mapped between the VGA page and the kernel.
\<close>

definition report_ready :: "u32 \<Rightarrow> u8 list \<Rightarrow> nat \<Rightarrow> 'a tty_scheme \<Rightarrow> bool" where
  "report_ready p cs j s \<longleftrightarrow> heap_inv s \<and> terminal_ok s \<and> cursor (screen_of s) = 80 * j \<and>
     cstring_in {a \<in> region kernel_data 0xF000000 s. page_of a \<noteq> 0xb8000} (vview s) p (length cs) \<and>
     bytes (vview s) p (length cs) = cs \<and> (\<forall>a. 0xb9000 \<le> a \<and> a < 0x100000 \<longrightarrow> translate s a = None)"

lemma report_ready_cong:
  fixes s s' :: "'a tty_scheme"
  assumes "report_ready p cs j s" "phys s' = phys s" "cr0 s' = cr0 s" "cr3 s' = cr3 s" "syms s' = syms s"
    "heap_current s' = heap_current s" "heap_mapped s' = heap_mapped s" "terminal_row s' = terminal_row s"
    "terminal_column s' = terminal_column s" "terminal_ptr s' = terminal_ptr s"
  shows "report_ready p cs j s'"
proof -
  have "vview s' = vview s" by (rule vview_cong [OF assms(2-4)])
  moreover have "translate s' = translate s"
    by (rule ext) (simp add: translate_def paging_on_def assms(2-4))
  moreover have "heap_inv s'" by (rule kh.valid_cong [OF _ assms(2-7)]) (use assms(1) in \<open>simp add: report_ready_def\<close>)
  moreover have "region kernel_data 0xF000000 s' = region kernel_data 0xF000000 s" using assms by (simp add: region_def)
  ultimately show ?thesis using assms by (simp add: report_ready_def terminal_ok_def screen_of_def)
qed

lemma report_printed:
  fixes s :: "'a tty_scheme"
  assumes r: "report_ready p (cs @ [10]) j s" and cs: "length cs < 48" "10 \<notin> set cs" and j: "j \<le> 25"
  shows "\<exists>s'. terminal_print p s = Inr s' \<and> tty_only s s' \<and> report_ready p (cs @ [10]) (j + 1) s'"
proof -
  let ?D = "{a \<in> region kernel_data 0xF000000 s. page_of a \<noteq> 0xb8000}"
  have h: "heap_inv s" "terminal_ok s" "cursor (screen_of s) = 80 * j"
    "cstring_in ?D (vview s) p (length (cs @ [10]))" "bytes (vview s) p (length (cs @ [10])) = cs @ [10]"
    "\<forall>a. 0xb9000 \<le> a \<and> a < 0x100000 \<longrightarrow> translate s a = None"
    using r unfolding report_ready_def by blast+
  note line = print_full_line [OF h(3) cs(1,2) j]
  obtain s' where s': "terminal_print p s = Inr s'" "heap_inv s'" "terminal_ok s'" "tty_only s s'" "translate s' = translate s"
    "screen_of s' = screen_print (terminal_color s) (cs @ [10]) (screen_of s)"
    "\<forall>a\<in>region kernel_data 0xF000000 s. page_of a \<noteq> 0xb8000 \<longrightarrow> vview s' a = vview s a"
    using vg.print_ok [OF h(1,2,4)] line(1) unfolding h(5) by blast
  have reg: "region kernel_data 0xF000000 s' = region kernel_data 0xF000000 s"
    using tty_only_fields [OF s'(4)] by (simp add: region_def)
  have sp: "span p (Suc (length (cs @ [10]))) \<subseteq> ?D" using h(4) by (simp only: cstring_in_def)
  have v: "vview s' (p + word_of_nat i) = vview s (p + word_of_nat i)" if "i \<le> length (cs @ [10])" for i
    using sp span_memI [of i "Suc (length (cs @ [10]))" p] that s'(7) h(4) unfolding cstring_in_def by auto
  have "bytes (vview s') p (length (cs @ [10])) = bytes (vview s) p (length (cs @ [10]))"
    by (simp add: bytes_def v del: length_append upt_Suc)
  then have "bytes (vview s') p (length (cs @ [10])) = cs @ [10]" by (simp only: h(5))
  moreover have "cstring_in ?D (vview s') p (length (cs @ [10]))"
    using h(4) v v [of "length (cs @ [10])"] unfolding cstring_in_def by (auto simp del: length_append)
  moreover have "cursor (screen_of s') = 80 * (j + 1)" using line(2) s'(6) by simp
  ultimately have "report_ready p (cs @ [10]) (j + 1) s'"
    using s'(2,3,5) h(6) unfolding report_ready_def reg by simp
  then show ?thesis using s'(1,4) by blast
qed

lemma second_passes:
  assumes r: "report_ready (literal_second s) (cs @ [10]) j s" and cs: "length cs < 48" "10 \<notin> set cs" and j: "j \<le> 25"
    and t: "ticks s = word_of_nat (1000 * j)"
  shows "\<exists>s'. timer_run 1000 s = Inr s' \<and> report_ready (literal_second s') (cs @ [10]) (j + 1) s' \<and>
    ticks s' = word_of_nat (1000 * (j + 1)) \<and> literal_second s' = literal_second s"
proof -
  define p where "p = literal_second s"
  let ?s = "s\<lparr>ticks := word_of_nat (1000 * (j + 1))\<rparr>"
  have ut: "unat (ticks s) = 1000 * j" using t j by (simp add: unat_of_nat del: of_nat_mult)
  have q: "timer_run 999 s = Inr (s\<lparr>ticks := ticks s + word_of_nat 999\<rparr>)"
    using j by (intro timer_quiet) (simp_all add: ut)
  have nt: "ticks s + word_of_nat 999 + 1 = word_of_nat (1000 * (j + 1))" using t by simp
  have m: "(word_of_nat (1000 * (j + 1)) :: u32) mod TIMER_FREQUENCY = 0"
    using j by (simp add: word_unat_eq_iff unat_mod unat_of_nat TIMER_FREQUENCY_def del: of_nat_mult of_nat_add)
  have "report_ready p (cs @ [10]) j ?s" unfolding p_def by (rule report_ready_cong [OF r]) simp_all
  then obtain s1 where s1: "terminal_print p ?s = Inr s1" "tty_only ?s s1" "report_ready p (cs @ [10]) (j + 1) s1"
    using report_printed [OF _ cs j] by blast
  let ?s' = "mlog ''Tick: %u\<newline>'' [Num (ticks s1)] s1"
  have f: "ticks s1 = word_of_nat (1000 * (j + 1))" "literal_second s1 = p"
    by (subst s1(2) [unfolded tty_only_def], simp add: p_def)+
  have "timer_callback (s\<lparr>ticks := ticks s + word_of_nat 999\<rparr>) = Inr ?s'"
    using s1(1) m nt by (simp add: timer_callback_def p_def Let_def)
  then have "timer_run 1000 s = Inr ?s'" using q timer_run_append [of 999 1 s] by simp
  moreover have "report_ready p (cs @ [10]) (j + 1) ?s'"
    by (rule report_ready_cong [OF s1(3)]) (simp_all add: mlog_def)
  moreover have "ticks ?s' = ticks s1" "literal_second ?s' = literal_second s1" by (simp_all add: mlog_def)
  ultimately show ?thesis using f p_def by (intro exI [of _ ?s']) simp
qed

lemma seconds_pass:
  assumes "report_ready (literal_second s) (cs @ [10]) 0 s" and "length cs < 48" "10 \<notin> set cs" and "ticks s = 0"
  shows "j \<le> 26 \<Longrightarrow> \<exists>s'. timer_run (1000 * j) s = Inr s' \<and> report_ready (literal_second s') (cs @ [10]) j s' \<and>
    ticks s' = word_of_nat (1000 * j) \<and> literal_second s' = literal_second s"
proof (induction j)
  case 0
  then show ?case using assms by simp
next
  case (Suc j)
  then obtain s1 where s1: "timer_run (1000 * j) s = Inr s1" "report_ready (literal_second s1) (cs @ [10]) j s1"
    "ticks s1 = word_of_nat (1000 * j)" "literal_second s1 = literal_second s"
    by auto
  then obtain s2 where s2: "timer_run 1000 s1 = Inr s2" "report_ready (literal_second s2) (cs @ [10]) (j + 1) s2"
    "ticks s2 = word_of_nat (1000 * (j + 1))" "literal_second s2 = literal_second s1"
    using second_passes [OF s1(2) assms(2,3) _ s1(3)] Suc.prems by auto
  have "timer_run (1000 * Suc j) s = timer_run (1000 * j + 1000) s" by (simp add: add.commute)
  also have "\<dots> = Inr s2" unfolding timer_run_append using s1(1) s2(1) by simp
  finally show ?case using s2 s1(4) by auto
qed

text \<open>The report itself.\<close>

definition one_second :: "u8 list" where
  "one_second = map of_char ''One second has passed...: ''"

lemma one_second: "length one_second = 26" "10 \<notin> set one_second" "one_second = 79 # tl one_second"
  by (simp_all add: one_second_def of_char_def)

lemma no_row_left:
  assumes r: "report_ready (literal_second s) (one_second @ [10]) 26 s" and t: "ticks s = word_of_nat 26000"
  shows "timer_run 1000 s = Inl (Page_fault 0xb9040)"
proof -
  let ?s = "s\<lparr>ticks := 27000\<rparr>" and ?cs = "one_second @ [10]"
  have "report_ready (literal_second s) ?cs 26 ?s" by (rule report_ready_cong [OF r]) simp_all
  then have h: "heap_inv ?s" "terminal_ok ?s" "cursor (screen_of ?s) = 80 * 26"
    "cstring_in {a \<in> region kernel_data 0xF000000 ?s. page_of a \<noteq> 0xb8000} (vview ?s) (literal_second s) (length ?cs)"
    "bytes (vview ?s) (literal_second s) (length ?cs) = ?cs"
    "\<forall>a. 0xb9000 \<le> a \<and> a < 0x100000 \<longrightarrow> translate ?s a = None"
    unfolding report_ready_def by blast+
  have "?cs = [] @ 79 # (tl one_second @ [10])" by (subst one_second(3)) simp
  then have cs: "bytes (vview ?s) (literal_second s) (length ?cs) = [] @ 79 # (tl one_second @ [10])"
    using h(5) by simp
  have f: "terminal_print (literal_second s) ?s = Inl (Page_fault (cell_addr (cursor (screen_of ?s))))"
  proof (rule vg.print_fault [OF h(1,2,4) cs])
    show "translate ?s (cell_addr (cursor (screen_of ?s))) = None"
      unfolding h(3) using h(6) by (simp add: cell_addr_def VGA_MEMORY_def)
  qed (simp_all add: h(3) screen_print_def)
  have "timer_run 999 s = Inr (s\<lparr>ticks := ticks s + word_of_nat 999\<rparr>)"
    by (rule timer_quiet) (simp_all add: t)
  moreover have "timer_callback (s\<lparr>ticks := ticks s + word_of_nat 999\<rparr>) = Inl (Page_fault 0xb9040)"
    using f unfolding h(3) by (simp add: timer_callback_def t TIMER_FREQUENCY_def cell_addr_def VGA_MEMORY_def)
  ultimately show ?thesis using timer_run_append [of 999 1 s] by simp
qed

section \<open>Properties\<close>

text \<open>
  C22: with the clock at zero and a cleared screen, the kernel handles every timer interrupt of the
  first 26.999 seconds and then faults: the report of second 27 is printed in row 26, which
  lies outside the VGA page.
\<close>

theorem timer_faults_after_27_seconds:
  assumes "report_ready (literal_second s) (one_second @ [10]) 0 s" and "ticks s = 0"
  shows "(\<forall>n<27000. \<exists>s'. timer_run n s = Inr s') \<and> timer_run 27000 s = Inl (Page_fault 0xb9040)"
proof -
  have len: "length one_second < 48" by (simp add: one_second(1))
  obtain s1 where s1: "timer_run (1000 * 26) s = Inr s1" "report_ready (literal_second s1) (one_second @ [10]) 26 s1"
    "ticks s1 = word_of_nat (1000 * 26)"
    using seconds_pass [OF assms(1) len one_second(2) assms(2), of 26] by auto
  have "timer_run 27000 s = Inl (Page_fault 0xb9040)"
    using timer_run_append [of 26000 1000 s] s1 no_row_left [OF s1(2)] by simp
  moreover have "\<exists>s'. timer_run n s = Inr s'" if n: "n < 27000" for n
  proof -
    have "timer_run 26999 s = Inr (s1\<lparr>ticks := ticks s1 + word_of_nat 999\<rparr>)"
      using timer_run_append [of 26000 999 s] s1(1) timer_quiet [of s1 999] s1(3) by simp
    moreover have "timer_run 26999 s = and_then (timer_run n s) (timer_run (26999 - n))"
      using timer_run_append [of n "26999 - n" s] n by simp
    ultimately show ?thesis by (cases "timer_run n s") auto
  qed
  ultimately show ?thesis by blast
qed

definition boot_timer :: timer where
  "boot_timer = tty.extend boot_tty (timer.fields 0 0x110000)"

lemma same_timer: "mm.more s = mm.more t \<Longrightarrow> ticks s = ticks t \<and> literal_second s = literal_second t"
  by (cases s, cases t) simp

theorem timer_faults_after_27_seconds_witness:
  "\<exists>s :: timer. ticks s = 0 \<and> timer_run 27000 s = Inl (Page_fault 0xb9040)"
proof -
  let ?cs = "one_second @ [10]"
  have cs: "0 \<notin> set ?cs" "length ?cs < 0x1000" by (simp_all add: one_second_def of_char_def)
  have t: "terminal_row boot_timer = 0" "terminal_column boot_timer = 0" "terminal_color boot_timer = 7"
    "terminal_ptr boot_timer = VGA_MEMORY" "ticks boot_timer = 0" "literal_second boot_timer = 0x110000"
    using boot_tty_fields by (simp_all add: boot_timer_def timer.defs tty.defs)
  obtain s :: timer where s: "mm.more s = mm.more boot_timer" "heap_inv s" "terminal_ok s" "cursor (screen_of s) = 0"
    "cstring_in {a \<in> region kernel_data 0xF000000 s. page_of a \<noteq> 0xb8000} (vview s) 0x110000 (length ?cs)"
    "bytes (vview s) 0x110000 (length ?cs) = ?cs" "\<forall>a. 0xb9000 \<le> a \<and> a < 0x100000 \<longrightarrow> translate s a = None"
    using tty_with_text [OF cs t(1-4)] by (elim exE conjE)
  have f: "ticks s = 0" "literal_second s = 0x110000" using same_timer [OF s(1)] t(5,6) by simp_all
  have "report_ready (literal_second s) ?cs 0 s" unfolding f(2) report_ready_def using s(2-7) by simp
  then show ?thesis using timer_faults_after_27_seconds [OF _ f(1)] f(1) by blast
qed

text \<open>
  C24: \<open>elapsed_time\<close> is exact while the tick counter does not wrap, and one tick short when it does.
\<close>

theorem elapsed_time_short_at_wrap:
  "elapsed_time start (start + d) = (if unat start + unat d < 2 ^ 32 then d else d - 1)"
proof (cases "unat start + unat d < 2 ^ 32")
  case True
  then have "unat (start + d) = unat start + unat d" by (simp add: unat_word_ariths)
  then show ?thesis using True by (simp add: elapsed_time_def word_le_nat_alt)
next
  case False
  then have u: "unat (start + d) = unat start + unat d - 2 ^ 32"
    using unat_add_wrap by blast
  have bd: "unat d < 2 ^ 32" by (rule less_le_trans [OF unat_u32_bound]) simp
  have lt: "unat (start + d) < unat start" unfolding u using False bd by arith
  have "elapsed_time start (start + d) = ucast ((0xFFFFFFFFFFFFFFFF :: 64 word) - ucast start + ucast (start + d))"
    unfolding elapsed_time_def by (rule if_not_P) (simp only: word_le_nat_alt not_le lt)
  also have "\<dots> = start + d - start - 1" by (rule wide_difference [OF lt])
  also have "\<dots> = d - 1" by simp
  finally show ?thesis using False by (simp only: if_False)
qed

text \<open>
  C25: for every frequency of at least 19 Hz the two bytes sent to the timer are the halves of the
  divisor, after the command byte and after the registration of the callback; below 19 Hz the
  divisor does not fit and its high part is lost, and a frequency of 0 divides by zero.
\<close>

theorem init_timer_divisor:
  "(frequency = 0 \<longrightarrow> init_timer frequency s = Inl Divide_error) \<and>
   (frequency \<noteq> 0 \<longrightarrow> (\<exists>s' l h. init_timer frequency s = Inr s' \<and>
     interrupt_handlers s' = (interrupt_handlers s)(32 := Some Timer_callback) \<and>
     out (dev s') = out (dev (register_interrupt_handler 32 Timer_callback s)) @ [(0x43, 0x36), (0x40, l), (0x40, h)] \<and>
     unat l + 256 * unat h = (1193180 div unat frequency) mod 65536 \<and>
     (19 \<le> frequency \<longrightarrow> unat l + 256 * unat h = 1193180 div unat frequency)))"
proof (intro conjI impI)
  show "frequency = 0 \<Longrightarrow> init_timer frequency s = Inl Divide_error" by (simp add: init_timer_def Let_def)
  assume f: "frequency \<noteq> 0"
  define divisor where "divisor = 1193180 div frequency"
  define l h where "l = (ucast (divisor AND 0xFF) :: u8)" and "h = (ucast (drop_bit 8 divisor AND 0xFF) :: u8)"
  let ?s = "register_interrupt_handler 32 Timer_callback s"
  have run: "init_timer frequency s = Inr (mout 0x40 h (mout 0x40 l (mout 0x43 0x36 ?s)))"
    using f by (simp add: init_timer_def Let_def divisor_def l_def h_def)
  have byte: "unat (ucast (w AND 0xFF) :: u8) = unat w mod 256" for w :: u32
  proof -
    have "w AND 0xFF = take_bit 8 w" by (simp add: take_bit_eq_mask mask_eq_exp_minus_1)
    then show ?thesis by (simp add: unsigned_ucast_eq unsigned_take_bit_eq) (simp add: take_bit_eq_mod)
  qed
  have ud: "unat divisor = 1193180 div unat frequency" by (simp add: divisor_def unat_div)
  have "unat l + 256 * unat h = unat divisor mod 65536"
  proof -
    have "unat (drop_bit 8 divisor) = unat divisor div 256" by (simp add: drop_bit_eq_div unat_div)
    then have "unat l + 256 * unat h = unat divisor mod 256 + 256 * (unat divisor div 256 mod 256)"
      by (simp add: l_def h_def byte)
    also have "\<dots> = unat divisor mod (256 * 256)" unfolding mod_mult2_eq by (simp only: add.commute)
    finally show ?thesis by simp
  qed
  moreover have "1193180 div unat frequency < 65536" if "19 \<le> frequency"
  proof -
    have "19 \<le> unat frequency" using that by (simp add: word_le_nat_alt)
    then have "1193180 div unat frequency \<le> 1193180 div 19" by (intro div_le_mono2) simp_all
    then show ?thesis by simp
  qed
  ultimately show "\<exists>s' l h. init_timer frequency s = Inr s' \<and>
     interrupt_handlers s' = (interrupt_handlers s)(32 := Some Timer_callback) \<and>
     out (dev s') = out (dev ?s) @ [(0x43, 0x36), (0x40, l), (0x40, h)] \<and>
     unat l + 256 * unat h = (1193180 div unat frequency) mod 65536 \<and>
     (19 \<le> frequency \<longrightarrow> unat l + 256 * unat h = 1193180 div unat frequency)"
    using run ud by (intro exI [of _ "mout 0x40 h (mout 0x40 l (mout 0x43 0x36 ?s))"] exI [of _ l] exI [of _ h])
      (simp add: mout_def outb_def register_interrupt_handler_def Let_def)
qed

theorem init_timer_divisor_witness:
  "\<exists>s' l h. init_timer 1000 boot_timer = Inr s' \<and> interrupt_handlers s' 32 = Some Timer_callback \<and>
    unat l + 256 * unat (h :: u8) = 1193 \<and> (0x40, l) \<in> set (out (dev s'))"
proof -
  obtain s' l h where s': "init_timer 1000 boot_timer = Inr s'"
    "interrupt_handlers s' = (interrupt_handlers boot_timer)(32 := Some Timer_callback)"
    "out (dev s') = out (dev (register_interrupt_handler 32 Timer_callback boot_timer)) @ [(0x43, 0x36), (0x40, l), (0x40, h)]"
    "unat l + 256 * unat h = 1193180 div unat (1000 :: u32)"
    using init_timer_divisor [of 1000 boot_timer] by auto
  then show ?thesis by (intro exI [of _ s'] exI [of _ l] exI [of _ h]) simp
qed

end
