(* ===== verification/Keyboard.thy ===== *)
theory Keyboard
  imports Timer
begin

text \<open>
  The keyboard driver, \<open>kernel/keyboard.c\<close>: the key map, the counter of shift keys that are held, and
  the handler that turns scan codes into characters on the terminal.
\<close>

unbundle bit_operations_syntax

section \<open>State\<close>

text \<open>
  \<open>keymap\<close> is the array \<open>char keymap[2][256]\<close> by byte offset; \<open>shift\<close> is a C \<open>int\<close>, whose overflow
  is undefined.
\<close>

record keyboard = timer +
  keymap :: "u32 \<Rightarrow> u8"
  shift :: int

definition KEYMAP_SIZE :: u32 where "KEYMAP_SIZE = 256"

definition keymap_store :: "u32 \<Rightarrow> u8 \<Rightarrow> 'a keyboard_scheme \<Rightarrow> stop + 'a keyboard_scheme" where
  "keymap_store i v s = (if i < 2 * KEYMAP_SIZE then Inr (s\<lparr>keymap := (keymap s)(i := v)\<rparr>) else Inl Undefined)"

section \<open>The handler\<close>

definition process_key_press :: "u8 \<Rightarrow> 'a keyboard_scheme \<Rightarrow> stop + 'a keyboard_scheme" where
  "process_key_press scan_code s =
     (let modifier = (if shift s > 0 then 1 else 0) in
      if scan_code = 0x2A \<or> scan_code = 0x36
      then (if shift s = 2 ^ 31 - 1 then Inl Undefined else Inr (s\<lparr>shift := shift s + 1\<rparr>))
      else if keymap s (KEYMAP_SIZE * modifier + ucast scan_code) = 0 then Inl Hang
      else terminal_putchar (keymap s (KEYMAP_SIZE * modifier + ucast scan_code)) s)"

definition process_key_release :: "u8 \<Rightarrow> 'a keyboard_scheme \<Rightarrow> stop + 'a keyboard_scheme" where
  "process_key_release scan_code s =
     (let scan_code = scan_code - 0x80 in
      if scan_code = 0x2A \<or> scan_code = 0x36
      then if shift s = - (2 ^ 31) then Inl Undefined
        else let s = s\<lparr>shift := shift s - 1\<rparr> in (if shift s < 0 then Inl Hang else Inr s)
      else Inr s)"

text \<open>The argument is the byte that \<open>inb(0x60)\<close> returns.\<close>

definition keyboard_handler :: "u8 \<Rightarrow> 'a keyboard_scheme \<Rightarrow> stop + 'a keyboard_scheme" where
  "keyboard_handler scan_code s =
     (if scan_code AND 0x80 \<noteq> 0 then process_key_release scan_code s else process_key_press scan_code s)"

section \<open>Set-up\<close>

text \<open>The assignments to the key map, in the order of the code: row, scan code, character.\<close>

definition key_table :: "(u32 \<times> u32 \<times> char) list" where
  "key_table = [
     (0, 0x1E, CHR ''a''), (0, 0x30, CHR ''b''), (0, 0x2E, CHR ''c''), (0, 0x20, CHR ''d''),
     (0, 0x12, CHR ''e''), (0, 0x21, CHR ''f''), (0, 0x22, CHR ''g''), (0, 0x23, CHR ''h''),
     (0, 0x17, CHR ''i''), (0, 0x24, CHR ''j''), (0, 0x25, CHR ''k''), (0, 0x26, CHR ''l''),
     (0, 0x32, CHR ''m''), (0, 0x31, CHR ''n''), (0, 0x18, CHR ''o''), (0, 0x19, CHR ''p''),
     (0, 0x10, CHR ''q''), (0, 0x13, CHR ''r''), (0, 0x1F, CHR ''s''), (0, 0x14, CHR ''t''),
     (0, 0x16, CHR ''u''), (0, 0x2F, CHR ''v''), (0, 0x11, CHR ''w''), (0, 0x2D, CHR ''x''),
     (0, 0x15, CHR ''y''), (0, 0x2C, CHR ''z''), (0, 0x1C, CHR 0x0A), (0, 0x39, CHR '' ''),
     (0, 0x34, CHR ''.''), (0, 0x27, CHR '';''), (1, 0x1E, CHR ''A''), (1, 0x30, CHR ''B''),
     (1, 0x2E, CHR ''C''), (1, 0x20, CHR ''D''), (1, 0x12, CHR ''E''), (1, 0x21, CHR ''F''),
     (1, 0x22, CHR ''G''), (1, 0x23, CHR ''H''), (1, 0x17, CHR ''I''), (1, 0x24, CHR ''J''),
     (1, 0x25, CHR ''K''), (1, 0x26, CHR ''L''), (1, 0x32, CHR ''M''), (1, 0x31, CHR ''N''),
     (1, 0x18, CHR ''O''), (1, 0x19, CHR ''P''), (1, 0x10, CHR ''Q''), (1, 0x13, CHR ''R''),
     (1, 0x1F, CHR ''S''), (1, 0x14, CHR ''T''), (1, 0x4E, CHR ''U''), (1, 0x2F, CHR ''V''),
     (1, 0x11, CHR ''W''), (1, 0x2D, CHR ''X''), (1, 0x15, CHR ''Y''), (1, 0x2C, CHR ''Z''),
     (1, 0x1C, CHR 0x0A), (1, 0x39, CHR '' ''), (1, 0x34, CHR ''>''), (1, 0x27, CHR '':'')]"

fun assign_keys :: "(u32 \<times> u32 \<times> char) list \<Rightarrow> 'a keyboard_scheme \<Rightarrow> stop + 'a keyboard_scheme" where
  "assign_keys [] s = Inr s"
| "assign_keys ((r, k, c) # ks) s = and_then (keymap_store (KEYMAP_SIZE * r + k) (of_char c) s) (assign_keys ks)"

definition init_keyboard :: "'a keyboard_scheme \<Rightarrow> stop + 'a keyboard_scheme" where
  "init_keyboard s =
     and_then (memset keymap_store 0 0 KEYMAP_SIZE s) (\<lambda>s.
     and_then (assign_keys key_table s) (\<lambda>s.
     Inr (register_interrupt_handler 33 Keyboard_handler s)))"

text \<open>A sequence of keyboard interrupts.\<close>

fun keyboard_run :: "u8 list \<Rightarrow> 'a keyboard_scheme \<Rightarrow> stop + 'a keyboard_scheme" where
  "keyboard_run [] s = Inr s"
| "keyboard_run (c # cs) s = and_then (keyboard_handler c s) (keyboard_run cs)"

section \<open>The layout\<close>

text \<open>
  The keys of a US keyboard the driver knows, row by row: the scan codes of a row are consecutive.
\<close>

definition key_rows :: "(u8 \<times> string \<times> string) list" where
  "key_rows = [(0x10, ''qwertyuiop'', ''QWERTYUIOP''), (0x1C, [CHR 0x0A], [CHR 0x0A]),
     (0x1E, ''asdfghjkl;'', ''ASDFGHJKL:''), (0x2C, ''zxcvbnm'', ''ZXCVBNM''), (0x34, ''.'', ''>''), (0x39, '' '', '' '')]"

fun row_char :: "bool \<Rightarrow> u8 \<Rightarrow> (u8 \<times> string \<times> string) list \<Rightarrow> char option" where
  "row_char shifted k [] = None"
| "row_char shifted k ((first, lower, upper) # rows) =
     (if first \<le> k \<and> unat (k - first) < length lower
      then Some ((if shifted then upper else lower) ! unat (k - first)) else row_char shifted k rows)"

definition layout_char :: "bool \<Rightarrow> u8 \<Rightarrow> char option" where
  "layout_char shifted k = row_char shifted k key_rows"

text \<open>What the driver's map holds instead: the shifted u sits at scan code 0x4E.\<close>

definition driver_char :: "bool \<Rightarrow> u8 \<Rightarrow> char option" where
  "driver_char shifted k =
     (if shifted \<and> k = 0x16 then None else if shifted \<and> k = 0x4E then Some (CHR ''U'') else layout_char shifted k)"

text \<open>A missing key is a zero byte of the map.\<close>

definition key_byte :: "char option \<Rightarrow> u8" where
  "key_byte c = (case c of None \<Rightarrow> 0 | Some c \<Rightarrow> of_char c)"

section \<open>Lemmas\<close>

definition table_lookup :: "(u32 \<times> u32 \<times> char) list \<Rightarrow> u32 \<Rightarrow> u8 \<Rightarrow> u8" where
  "table_lookup ks i d = foldl (\<lambda>v (r, k, c). if KEYMAP_SIZE * r + k = i then of_char c else v) d ks"

lemma assign_keys_ok:
  "\<forall>(r, k, c) \<in> set ks. KEYMAP_SIZE * r + k < 512 \<Longrightarrow>
   assign_keys ks s = Inr (s\<lparr>keymap := (\<lambda>i. table_lookup ks i (keymap s i))\<rparr>)"
proof (induction ks arbitrary: s)
  case Nil
  then show ?case by (simp add: table_lookup_def)
next
  case (Cons x ks)
  obtain r k c where x: "x = (r, k, c)" by (cases x)
  have "keymap_store (KEYMAP_SIZE * r + k) (of_char c) s = Inr (s\<lparr>keymap := (keymap s)(KEYMAP_SIZE * r + k := of_char c)\<rparr>)"
    using Cons.prems x by (simp add: keymap_store_def KEYMAP_SIZE_def)
  then show ?case using Cons.IH Cons.prems x
    by (auto simp: table_lookup_def fun_eq_iff intro!: arg_cong [where f = Inr] arg_cong [where f = "\<lambda>m. s\<lparr>keymap := m\<rparr>"])
qed

lemma key_table_bounds: "\<forall>(r, k, c) \<in> set key_table. KEYMAP_SIZE * r + k < 512"
  by (simp add: key_table_def KEYMAP_SIZE_def)

definition key_assoc :: "(u32 \<times> char) list" where
  "key_assoc = rev (map (\<lambda>(r, k, c). (KEYMAP_SIZE * r + k, c)) key_table)"

lemma table_lookup_map_of:
  "table_lookup ks i d = (case map_of (rev (map (\<lambda>(r, k, c). (KEYMAP_SIZE * r + k, c)) ks)) i of None \<Rightarrow> d | Some c \<Rightarrow> of_char c)"
  by (induction ks rule: rev_induct) (auto simp: table_lookup_def)

text \<open>The scan codes with an entry in some row.\<close>

definition driver_codes :: "u8 list" where
  "driver_codes = [0x10, 0x11, 0x12, 0x13, 0x14, 0x15, 0x16, 0x17, 0x18, 0x19, 0x1C, 0x1E, 0x1F, 0x20, 0x21, 0x22,
     0x23, 0x24, 0x25, 0x26, 0x27, 0x2C, 0x2D, 0x2E, 0x2F, 0x30, 0x31, 0x32, 0x34, 0x39, 0x4E]"

lemma rows_in_codes:
  "list_all (\<lambda>(first, lower, upper). list_all (\<lambda>i. first + word_of_nat i \<in> set driver_codes) [0..<length lower]) key_rows"
  by code_simp

lemma row_miss:
  "list_all (\<lambda>(first, lower, upper). list_all (\<lambda>i. first + word_of_nat i \<in> K) [0..<length lower]) rows \<Longrightarrow>
   k \<notin> K \<Longrightarrow> row_char shifted k rows = None"
proof (induction shifted k rows rule: row_char.induct)
  case (2 shifted k first lower upper rows)
  have "\<not> unat (k - first) < length lower"
  proof
    assume u: "unat (k - first) < length lower"
    have "\<forall>i\<in>{0..<length lower}. first + word_of_nat i \<in> K" using "2.prems"(1) by (simp add: list_all_iff)
    from bspec [OF this, of "unat (k - first)"] u show False using "2.prems"(2) by simp
  qed
  then show ?case using "2.IH" "2.prems" by simp
qed simp

lemma layout_miss: "k \<notin> set driver_codes \<Longrightarrow> driver_char shifted k = None"
  using row_miss [OF rows_in_codes, of k shifted] by (auto simp: driver_char_def layout_char_def driver_codes_def)

lemma key_assoc_eq:
  "key_assoc = [
     (0x127, CHR '':''), (0x134, CHR ''>''), (0x139, CHR '' ''), (0x11C, CHR 0x0A), (0x12C, CHR ''Z''),
     (0x115, CHR ''Y''), (0x12D, CHR ''X''), (0x111, CHR ''W''), (0x12F, CHR ''V''), (0x14E, CHR ''U''),
     (0x114, CHR ''T''), (0x11F, CHR ''S''), (0x113, CHR ''R''), (0x110, CHR ''Q''), (0x119, CHR ''P''),
     (0x118, CHR ''O''), (0x131, CHR ''N''), (0x132, CHR ''M''), (0x126, CHR ''L''), (0x125, CHR ''K''),
     (0x124, CHR ''J''), (0x117, CHR ''I''), (0x123, CHR ''H''), (0x122, CHR ''G''), (0x121, CHR ''F''),
     (0x112, CHR ''E''), (0x120, CHR ''D''), (0x12E, CHR ''C''), (0x130, CHR ''B''), (0x11E, CHR ''A''),
     (0x27, CHR '';''), (0x34, CHR ''.''), (0x39, CHR '' ''), (0x1C, CHR 0x0A), (0x2C, CHR ''z''),
     (0x15, CHR ''y''), (0x2D, CHR ''x''), (0x11, CHR ''w''), (0x2F, CHR ''v''), (0x16, CHR ''u''),
     (0x14, CHR ''t''), (0x1F, CHR ''s''), (0x13, CHR ''r''), (0x10, CHR ''q''), (0x19, CHR ''p''),
     (0x18, CHR ''o''), (0x31, CHR ''n''), (0x32, CHR ''m''), (0x26, CHR ''l''), (0x25, CHR ''k''),
     (0x24, CHR ''j''), (0x17, CHR ''i''), (0x23, CHR ''h''), (0x22, CHR ''g''), (0x21, CHR ''f''),
     (0x12, CHR ''e''), (0x20, CHR ''d''), (0x2E, CHR ''c''), (0x30, CHR ''b''), (0x1E, CHR ''a'')]"
  by (simp add: key_assoc_def key_table_def KEYMAP_SIZE_def)

lemma table_hits:
  "list_all (\<lambda>k. map_of key_assoc (ucast k) = driver_char False k \<and> map_of key_assoc (256 + ucast k) = driver_char True k) driver_codes"
  unfolding key_assoc_eq by (simp add: driver_codes_def driver_char_def layout_char_def key_rows_def)

lemma table_hit: "k \<in> set driver_codes \<Longrightarrow> map_of key_assoc (ucast k) = driver_char False k \<and> map_of key_assoc (256 + ucast k) = driver_char True k"
  using table_hits by (simp add: list_all_iff)

lemma unat_ucast_byte: "unat (ucast (k :: u8) :: u32) = unat k" "unat (256 + ucast k :: u32) = 256 + unat k" "unat k < 256"
proof -
  show k: "unat k < 256" using unsigned_less [of k] by simp
  then have "unat k < 2 ^ 32" by (rule less_le_trans) simp
  then show u: "unat (ucast k :: u32) = unat k" by (simp add: unsigned_ucast_eq take_bit_nat_eq_self)
  have "unat (256 + ucast k :: u32) = (256 + unat k) mod 2 ^ 32" by (simp add: unat_word_ariths u)
  also have "\<dots> = 256 + unat k" using k by (intro mod_less) simp
  finally show "unat (256 + ucast k :: u32) = 256 + unat k" .
qed

lemma table_keys: "map_of key_assoc i = Some c \<Longrightarrow> \<exists>k \<in> set driver_codes. i = ucast k \<or> i = 256 + ucast k"
proof -
  assume "map_of key_assoc i = Some c"
  then have "(i, c) \<in> set key_assoc" by (rule map_of_SomeD)
  then have "i \<in> fst ` set key_assoc" by force
  then show ?thesis by (auto simp: key_assoc_eq driver_codes_def)
qed

lemma table_miss:
  assumes "k \<notin> set driver_codes"
  shows "map_of key_assoc (ucast k) = None \<and> map_of key_assoc (256 + ucast k) = None"
proof -
  have ne: "ucast k \<noteq> (256 + ucast l :: u32)" for l :: u8
    using unat_ucast_byte [of k] unat_ucast_byte(2) [of l] by (auto simp: word_unat_eq_iff)
  have inj: "(ucast k :: u32) = ucast l \<Longrightarrow> k = l" for l :: u8
    using unat_ucast_byte(1) [of k] unat_ucast_byte(1) [of l] by (simp add: word_unat_eq_iff)
  have "map_of key_assoc (ucast k) = None"
  proof (rule ccontr)
    assume "map_of key_assoc (ucast k) \<noteq> None"
    then obtain l where "l \<in> set driver_codes" "(ucast k :: u32) = ucast l \<or> ucast k = (256 + ucast l :: u32)"
      using table_keys by blast
    then show False using ne inj assms by blast
  qed
  moreover have "map_of key_assoc (256 + ucast k) = None"
  proof (rule ccontr)
    assume "map_of key_assoc (256 + ucast k) \<noteq> None"
    then obtain l where l: "l \<in> set driver_codes" "256 + ucast k = (ucast l :: u32) \<or> 256 + ucast k = (256 + ucast l :: u32)"
      using table_keys by blast
    have "256 + ucast k \<noteq> (ucast l :: u32)"
      using unat_ucast_byte(2) [of k] unat_ucast_byte(1,3) [of l] by (auto simp: word_unat_eq_iff)
    then have "(ucast k :: u32) = ucast l" using l(2) by simp
    then show False using inj l(1) assms by blast
  qed
  ultimately show ?thesis by blast
qed

lemma key_lookup:
  "table_lookup key_table (ucast k) 0 = key_byte (driver_char False k)"
  "table_lookup key_table (256 + ucast k) 0 = key_byte (driver_char True k)"
  using table_hit [of k] table_miss [of k] layout_miss [of k]
  by (cases "k \<in> set driver_codes"; simp add: table_lookup_map_of key_byte_def flip: key_assoc_def)+

text \<open>The first row is cleared before the assignments, the second is as it was.\<close>

lemma keymap_clear:
  "n + k = 256 \<Longrightarrow>
   memset_loop keymap_store k (word_of_nat n) 0 s =
     Inr (s\<lparr>keymap := (\<lambda>i. if n \<le> unat i \<and> unat i < 256 then 0 else keymap s i)\<rparr>)"
proof (induction k arbitrary: n s)
  case 0
  have "\<not> (n \<le> unat i \<and> unat i < 256)" for i :: u32 using 0 by arith
  then have "(\<lambda>i. if n \<le> unat i \<and> unat i < 256 then 0 else keymap s i) = keymap s"
    by (intro ext) (simp only: if_False)
  then show ?case by simp
next
  case (Suc k)
  have n: "n < 256" using Suc.prems by simp
  then have un: "unat (word_of_nat n :: u32) = n" by (simp add: unat_of_nat)
  have b: "(word_of_nat n :: u32) < 2 * KEYMAP_SIZE"
    unfolding word_less_nat_alt un using n by (simp add: KEYMAP_SIZE_def)
  define s1 where "s1 = s\<lparr>keymap := (keymap s)(word_of_nat n := 0)\<rparr>"
  have eq: "(\<lambda>i. if Suc n \<le> unat i \<and> unat i < 256 then 0 else keymap s1 i) =
     (\<lambda>i. if n \<le> unat i \<and> unat i < 256 then 0 else keymap s i)"
  proof
    fix i :: u32
    show "(if Suc n \<le> unat i \<and> unat i < 256 then 0 else keymap s1 i) =
      (if n \<le> unat i \<and> unat i < 256 then 0 else keymap s i)"
    proof (cases "i = word_of_nat n")
      case True
      then show ?thesis using un n by (simp add: s1_def)
    next
      case False
      then have "unat i \<noteq> n" using un by (metis word_unat_eq_iff)
      then have "Suc n \<le> unat i \<longleftrightarrow> n \<le> unat i" by arith
      moreover have "keymap s1 i = keymap s i" using False by (simp add: s1_def)
      ultimately show ?thesis by simp
    qed
  qed
  have "memset_loop keymap_store k (word_of_nat (Suc n)) 0 s1 =
     Inr (s1\<lparr>keymap := (\<lambda>i. if n \<le> unat i \<and> unat i < 256 then 0 else keymap s i)\<rparr>)"
    using Suc.IH [of "Suc n" s1] Suc.prems unfolding eq by simp
  moreover have "keymap_store (word_of_nat n) 0 s = Inr s1" using b by (simp add: keymap_store_def s1_def)
  ultimately show ?case by (simp add: s1_def add.commute)
qed

lemma init_keyboard_ok:
  "init_keyboard s = Inr (register_interrupt_handler 33 Keyboard_handler
     (s\<lparr>keymap := (\<lambda>i. table_lookup key_table i (if unat i < 256 then 0 else keymap s i))\<rparr>))"
  using keymap_clear [of 0 256 s]
  by (simp add: init_keyboard_def memset_def KEYMAP_SIZE_def assign_keys_ok [OF key_table_bounds])

text \<open>The map \<open>init_keyboard\<close> installs when the second row was zero, as at boot.\<close>

definition keyboard_ok :: "'a keyboard_scheme \<Rightarrow> bool" where
  "keyboard_ok s \<longleftrightarrow> (\<forall>k :: u8. keymap s (ucast k) = key_byte (driver_char False k) \<and>
     keymap s (256 + ucast k) = key_byte (driver_char True k))"

section \<open>The abstract keyboard\<close>

text \<open>
  What a sequence of scan codes types when \<open>n\<close> shift keys count as held: the characters, and the
  count afterwards, or \<open>None\<close> when the driver stops at a key without character or at a release too many.
\<close>

definition shift_key :: "u8 \<Rightarrow> bool" where
  "shift_key k \<longleftrightarrow> k = 0x2A \<or> k = 0x36"

fun typed :: "nat \<Rightarrow> u8 list \<Rightarrow> u8 list \<times> nat option" where
  "typed n [] = ([], Some n)"
| "typed n (c # cs) =
     (if bit c 7
      then if \<not> shift_key (c - 0x80) then typed n cs
        else if n = 0 then ([], None) else typed (n - 1) cs
      else if shift_key c then typed (n + 1) cs
      else (case driver_char (0 < n) c of
          None \<Rightarrow> ([], None)
        | Some ch \<Rightarrow> (let (text, m) = typed n cs in (of_char ch # text, m))))"

lemma release_bit: "c AND 0x80 \<noteq> 0 \<longleftrightarrow> bit c 7" for c :: u8
  using and_exp_eq_0_iff_not_bit [of c 7] by simp

lemma row_char_mem:
  "row_char shifted k rows = Some ch \<Longrightarrow> \<forall>(first, lower, upper) \<in> set rows. length upper = length lower \<Longrightarrow>
   \<exists>(first, lower, upper) \<in> set rows. ch \<in> set lower \<union> set upper"
  by (induction shifted k rows rule: row_char.induct) (auto split: if_splits)

lemma driver_char_nonzero: "driver_char shifted k = Some ch \<Longrightarrow> (of_char ch :: u8) \<noteq> 0"
proof -
  assume a: "driver_char shifted k = Some ch"
  have "\<forall>(first, lower, upper) \<in> set key_rows. length upper = length lower \<and> (\<forall>ch \<in> set lower \<union> set upper. (of_char ch :: u8) \<noteq> 0)"
    by (simp add: key_rows_def of_char_def)
  then show ?thesis
    using a row_char_mem [of shifted k key_rows ch]
    by (fastforce simp: driver_char_def layout_char_def of_char_def split: if_splits)
qed

lemma key_byte_zero: "key_byte (driver_char shifted k) = 0 \<longleftrightarrow> driver_char shifted k = None"
  using driver_char_nonzero [of shifted k] by (cases "driver_char shifted k") (auto simp: key_byte_def)

lemma keyboard_ok_lookup:
  "keyboard_ok s \<Longrightarrow> keymap s (KEYMAP_SIZE * (if shift s > 0 then 1 else 0) + ucast k) = key_byte (driver_char (shift s > 0) k)"
  by (simp add: keyboard_ok_def KEYMAP_SIZE_def)

lemma same_keyboard: "tty.more s = tty.more t \<Longrightarrow> keymap s = keymap t \<and> shift s = shift t"
  by (cases s, cases t) simp

text \<open>The keyboard state between two interrupts.\<close>

definition keyboard_ready :: "nat \<Rightarrow> 'a keyboard_scheme \<Rightarrow> bool" where
  "keyboard_ready n s \<longleftrightarrow> heap_inv s \<and> terminal_ok s \<and> keyboard_ok s \<and> shift s = int n"

lemma keyboard_ready_shift:
  "keyboard_ready n s \<Longrightarrow> keyboard_ready m (s\<lparr>shift := int m\<rparr>) \<and> screen_of (s\<lparr>shift := int m\<rparr>) = screen_of s"
proof -
  assume r: "keyboard_ready n s"
  have "vview (s\<lparr>shift := int m\<rparr>) = vview s" by (rule vview_cong) simp_all
  moreover have "heap_inv (s\<lparr>shift := int m\<rparr>)"
    by (rule kh.valid_cong [of s]) (use r in \<open>simp_all add: keyboard_ready_def\<close>)
  ultimately show ?thesis using r by (simp add: keyboard_ready_def terminal_ok_def keyboard_ok_def screen_of_def)
qed

lemma keyboard_run_typed:
  "keyboard_ready n s \<Longrightarrow> n + length cs < 2 ^ 31 \<Longrightarrow> typed n cs = (chars, m) \<Longrightarrow>
   on_page (terminal_color s) chars (screen_of s) \<Longrightarrow>
   (case m of
      None \<Rightarrow> keyboard_run cs s = Inl Hang
    | Some m \<Rightarrow> \<exists>s'. keyboard_run cs s = Inr s' \<and> keyboard_ready m s' \<and>
        screen_of s' = screen_print (terminal_color s) chars (screen_of s))"
proof (induction cs arbitrary: n s chars)
  case Nil
  then show ?case by (auto simp: screen_print_def)
next
  case (Cons c cs)
  have r: "heap_inv s" "terminal_ok s" "keyboard_ok s" "shift s = int n" using Cons.prems(1) by (simp_all add: keyboard_ready_def)
  have n: "n + length cs < 2 ^ 31" "int n \<noteq> 2 ^ 31 - 1" using Cons.prems(2) by simp_all
  have step: "case m of None \<Rightarrow> keyboard_run (c # cs) s = Inl Hang
      | Some m \<Rightarrow> \<exists>s'. keyboard_run (c # cs) s = Inr s' \<and> keyboard_ready m s' \<and>
          screen_of s' = screen_print (terminal_color s) chars (screen_of s)"
    if "keyboard_handler c s = Inr s1" "keyboard_ready k s1" "k + length cs < 2 ^ 31" "typed k cs = (chars', m)"
      "terminal_color s1 = terminal_color s" "on_page (terminal_color s) chars' (screen_of s1)"
      "screen_print (terminal_color s) chars (screen_of s) = screen_print (terminal_color s) chars' (screen_of s1)" for s1 k chars'
    using Cons.IH [OF that(2-4)] that by (cases m) auto
  consider (release) "bit c 7" "\<not> shift_key (c - 0x80)" | (excess) "bit c 7" "shift_key (c - 0x80)" "n = 0"
    | (shift_up) "bit c 7" "shift_key (c - 0x80)" "n \<noteq> 0" | (shift_down) "\<not> bit c 7" "shift_key c"
    | (unknown) "\<not> bit c 7" "\<not> shift_key c" "driver_char (0 < n) c = None"
    | (char) ch where "\<not> bit c 7" "\<not> shift_key c" "driver_char (0 < n) c = Some ch" by fastforce
  then show ?case
  proof cases
    case release
    then have "keyboard_handler c s = Inr s"
      by (auto simp: keyboard_handler_def release_bit process_key_release_def shift_key_def Let_def)
    from step [OF this Cons.prems(1) n(1) _ refl Cons.prems(4) refl] release Cons.prems(3) show ?thesis by simp
  next
    case excess
    then show ?thesis using Cons.prems(3) r(4)
      by (auto simp: keyboard_handler_def release_bit process_key_release_def shift_key_def Let_def)
  next
    case shift_up
    let ?s = "s\<lparr>shift := int (n - 1)\<rparr>"
    have "keyboard_handler c s = Inr ?s"
      using shift_up r(4) by (auto simp: keyboard_handler_def release_bit process_key_release_def shift_key_def Let_def of_nat_diff)
    moreover have "keyboard_ready (n - 1) ?s" "screen_of ?s = screen_of s" using keyboard_ready_shift [OF Cons.prems(1)] by blast+
    ultimately show ?thesis using step [of ?s "n - 1" chars] shift_up Cons.prems(3,4) n(1) by simp
  next
    case shift_down
    let ?s = "s\<lparr>shift := int (n + 1)\<rparr>"
    have "keyboard_handler c s = Inr ?s"
      using shift_down r(4) n(2) by (auto simp: keyboard_handler_def release_bit process_key_press_def shift_key_def Let_def add.commute)
    moreover have "keyboard_ready (n + 1) ?s" "screen_of ?s = screen_of s" using keyboard_ready_shift [OF Cons.prems(1)] by blast+
    ultimately show ?thesis using step [of ?s "n + 1" chars] shift_down Cons.prems(2-4) by simp
  next
    case unknown
    then have "keyboard_handler c s = Inl Hang"
      using r(3,4) keyboard_ok_lookup [OF r(3), of c]
      by (auto simp: keyboard_handler_def release_bit process_key_press_def shift_key_def Let_def key_byte_def)
    then show ?thesis using unknown Cons.prems(3) by auto
  next
    case char
    obtain chars' where t: "typed n cs = (chars', m)" "chars = of_char ch # chars'"
      using char Cons.prems(3) by (auto split: prod.splits)
    have "keyboard_handler c s = terminal_putchar (of_char ch) s"
      using char r(3,4) keyboard_ok_lookup [OF r(3), of c] driver_char_nonzero [OF char(3)]
      by (auto simp: keyboard_handler_def release_bit process_key_press_def shift_key_def Let_def key_byte_def)
    moreover have "on_page (terminal_color s) [of_char ch] (screen_of s)"
      using Cons.prems(4) t(2) by (cases "of_char ch = (10 :: u8)") simp_all
    ultimately obtain s1 where s1: "keyboard_handler c s = Inr s1" "heap_inv s1" "terminal_ok s1" "tty_only s s1"
      "screen_of s1 = screen_put (terminal_color s) (of_char ch) (screen_of s)"
      using vg.putchar_ok [OF r(1,2)] by auto
    have "keyboard_ready n s1"
      using s1(2,3) r(3,4) same_keyboard [OF tty_only_fields(12) [OF s1(4)]] by (simp add: keyboard_ready_def keyboard_ok_def)
    then show ?thesis
      using step [OF s1(1) _ n(1) t(1)] tty_only_fields(10) [OF s1(4)] Cons.prems(4) t(2) s1(5)
      by (simp add: screen_print_def)
  qed
qed

section \<open>Properties\<close>

text \<open>
  C27: \<open>init_keyboard\<close> registers the handler and installs the US layout of the letter rows and of the
  return, space, period and semicolon keys, except that the shifted u is missing from its key
  (scan code 0x16) and sits at 0x4E, where the keypad's plus is.
\<close>

theorem init_keyboard_layout:
  assumes "\<forall>i. 256 \<le> unat i \<and> unat i < 512 \<longrightarrow> keymap s i = 0"
  shows "\<exists>s'. init_keyboard s = Inr s' \<and> interrupt_handlers s' 33 = Some Keyboard_handler \<and>
    (\<forall>k :: u8. keymap s' (ucast k) = key_byte (layout_char False k) \<and>
       (k \<notin> {0x16, 0x4E} \<longrightarrow> keymap s' (256 + ucast k) = key_byte (layout_char True k))) \<and>
    layout_char True 0x16 = Some (CHR ''U'') \<and> keymap s' (256 + 0x16) = 0 \<and> keymap s' (256 + 0x4E) = 85"
proof -
  let ?m = "\<lambda>i. table_lookup key_table i (if unat i < 256 then 0 else keymap s i)"
  let ?s = "register_interrupt_handler 33 Keyboard_handler (s\<lparr>keymap := ?m\<rparr>)"
  have k: "keymap ?s = ?m" "interrupt_handlers ?s 33 = Some Keyboard_handler"
    by (simp_all add: register_interrupt_handler_def Let_def mlog_def)
  have lo: "?m (ucast k) = key_byte (driver_char False k)" and hi: "?m (256 + ucast k) = key_byte (driver_char True k)" for k :: u8
    using key_lookup [of k] unat_ucast_byte [of k] assms by simp_all
  have "layout_char True 0x16 = Some (CHR ''U'')" by (simp add: layout_char_def key_rows_def)
  moreover have "?m (256 + 0x16) = 0" "?m (256 + 0x4E) = 85"
    using hi [of "0x16"] hi [of "0x4E"] by (simp_all add: driver_char_def key_byte_def of_char_def)
  ultimately show ?thesis
    using lo hi k by (intro exI [of _ ?s]) (simp add: init_keyboard_ok driver_char_def)
qed

definition boot_keyboard :: keyboard where
  "boot_keyboard = timer.extend boot_timer (keyboard.fields (\<lambda>_. 0) 0)"

theorem init_keyboard_layout_witness:
  "\<exists>s'. init_keyboard boot_keyboard = Inr s' \<and> keymap s' 0x1E = 97 \<and> keymap s' (256 + 0x16) = 0"
proof -
  have z: "\<forall>i. 256 \<le> unat i \<and> unat i < 512 \<longrightarrow> keymap boot_keyboard i = 0"
    by (simp add: boot_keyboard_def timer.defs keyboard.defs)
  obtain s' where s': "init_keyboard boot_keyboard = Inr s'" "\<forall>k :: u8. keymap s' (ucast k) = key_byte (layout_char False k)"
    "keymap s' (256 + 0x16) = 0"
    using init_keyboard_layout [OF z] by blast
  have "key_byte (layout_char False 0x1E) = 97" by (simp add: layout_char_def key_rows_def key_byte_def of_char_def)
  then show ?thesis using s'(1,3) spec [OF s'(2), of "0x1E"] by simp
qed

text \<open>
  C26: a run of keyboard interrupts types on the screen what the scan codes mean: letters by the layout
  of the held shift count, shift keys counted up and down, other releases ignored; the driver hangs
  exactly at a key without character or at a release of shift too many.
\<close>

theorem keyboard_types:
  assumes "keyboard_ready n s" "n + length cs < 2 ^ 31" "typed n cs = (chars, m)"
    and "on_page (terminal_color s) chars (screen_of s)"
  shows "case m of
      None \<Rightarrow> keyboard_run cs s = Inl Hang
    | Some m \<Rightarrow> \<exists>s'. keyboard_run cs s = Inr s' \<and> keyboard_ready m s' \<and>
        screen_of s' = screen_print (terminal_color s) chars (screen_of s)"
  by (rule keyboard_run_typed [OF assms])

text \<open>A kernel with the keyboard set up.\<close>

lemma keyboard_set_up:
  "\<exists>s :: keyboard. keyboard_ready 0 s \<and> terminal_color s = 7 \<and> cursor (screen_of s) = 0"
proof -
  define m :: "u32 \<Rightarrow> u8" where "m = (\<lambda>i. table_lookup key_table i 0)"
  define t :: keyboard where "t = timer.extend boot_timer (keyboard.fields m 0)"
  have t: "terminal_row t = 0" "terminal_column t = 0" "terminal_color t = 7" "terminal_ptr t = VGA_MEMORY"
    "keymap t = m" "shift t = 0"
    using boot_tty_fields by (simp_all add: t_def boot_timer_def timer.defs tty.defs keyboard.defs)
  obtain s :: keyboard where s: "heap_inv s" "mm.more s = mm.more t" "terminal_ok s" "terminal_color s = 7" "cursor (screen_of s) = 0"
    using tty_with_text [of "[]" t] t(1-4) by auto
  have "keymap s = keymap t \<and> shift s = shift t" using s(2) by (cases s, cases t) simp
  then have "keyboard_ready 0 s"
    using s(1,3) t(5,6) key_lookup by (simp add: keyboard_ready_def keyboard_ok_def m_def)
  then show ?thesis using s(4,5) by blast
qed

theorem keyboard_types_witness:
  "\<exists>s s' :: keyboard. keyboard_run [0x2A, 0x23, 0xAA, 0x17] s = Inr s' \<and> cells (screen_of s') ! 0 = 0x0748 \<and>
    cells (screen_of s') ! 1 = 0x0769"
proof -
  obtain s :: keyboard where s: "keyboard_ready 0 s" "terminal_color s = 7" "cursor (screen_of s) = 0"
    using keyboard_set_up by blast
  have t: "typed 0 [0x2A, 0x23, 0xAA, 0x17] = ([72, 105], Some 0)"
    by (simp add: shift_key_def driver_char_def layout_char_def key_rows_def of_char_def)
  have g: "on_page (terminal_color s) [72, 105] (screen_of s)" using s(3) by (simp add: screen_put_def)
  obtain s' where s': "keyboard_run [0x2A, 0x23, 0xAA, 0x17] s = Inr s'"
    "screen_of s' = screen_print (terminal_color s) [72, 105] (screen_of s)"
    using keyboard_types [OF s(1) _ t g] by auto
  have "length (cells (screen_of s)) = 2048" by (simp add: screen_of_def screen_cells_def)
  then show ?thesis
    using s' s(2,3) by (intro exI [of _ s] exI [of _ s']) (simp add: screen_print_def screen_put_def vga_char_def)
qed

text \<open>
  The counter counts the repeated make codes a held key sends, but a release takes off only one:
  after shift was held for \<open>m\<close> codes and released, \<open>m - 1\<close> presses stay counted.
\<close>

theorem held_shift_sticks:
  assumes "shift s = 0" and "0 < m" "m < 2 ^ 31"
  shows "\<exists>s'. keyboard_run (replicate m 0x2A @ [0xAA]) s = Inr s' \<and> shift s' = int m - 1"
proof -
  have press: "keyboard_run (replicate k 0x2A @ cs) s = keyboard_run cs (s\<lparr>shift := shift s + int k\<rparr>)"
    if "0 \<le> shift s" "shift s + int k < 2 ^ 31" for k cs and s :: "'a keyboard_scheme"
    using that
  proof (induction k arbitrary: s)
    case (Suc k)
    have "keyboard_handler 0x2A s = Inr (s\<lparr>shift := shift s + 1\<rparr>)"
      using Suc.prems by (simp add: keyboard_handler_def process_key_press_def)
    then show ?case using Suc.IH [of "s\<lparr>shift := shift s + 1\<rparr>"] Suc.prems by (simp add: ac_simps)
  qed simp
  have "keyboard_handler 0xAA (s\<lparr>shift := int m\<rparr>) = Inr (s\<lparr>shift := int m - 1\<rparr>)"
    using assms by (simp add: keyboard_handler_def process_key_release_def Let_def)
  then show ?thesis using press [of s m "[0xAA]"] assms by (intro exI [of _ "s\<lparr>shift := int m - 1\<rparr>"]) simp
qed

theorem held_shift_sticks_witness:
  "\<exists>s'. keyboard_run (replicate 3 0x2A @ [0xAA]) boot_keyboard = Inr s' \<and> shift s' = 2"
  using held_shift_sticks [of boot_keyboard 3] by (simp add: boot_keyboard_def timer.defs keyboard.defs)

end

