(* ===== verification/Interrupts.thy ===== *)
theory Interrupts
  imports Keyboard
begin

text \<open>
  Segments, interrupt gates, the interrupt controllers and the dispatch of interrupts:
  \<open>kernel/gdt.c\<close>, \<open>kernel/idt.c\<close>, \<open>kernel/pic.c\<close> and \<open>kernel/isr.c\<close> with their headers.
\<close>

unbundle bit_operations_syntax

section \<open>State\<close>

record gdt_entry =
  limit_low :: u16
  base_low :: u16
  base_middle :: u8
  access :: u8
  granularity :: u8
  base_high :: u8

record idt_entry =
  base_lo :: u16
  sel :: u16
  res :: u8
  flags :: u8
  base_hi :: u16

text \<open>The operand of \<open>lgdt\<close> and \<open>lidt\<close>: \<open>gdt_ptr_t\<close> and \<open>idt_ptr_t\<close>.\<close>

record table_ptr =
  ptr_limit :: u16
  ptr_base :: u32

text \<open>Addresses the linker chooses: the assembly stubs and the two tables.\<close>

record stubs =
  isr_fn :: "nat \<Rightarrow> u32"
  irq_fn :: "nat \<Rightarrow> u32"
  idt_address :: u32
  gdt_address :: u32

text \<open>The tables, their pointers, and the registers that \<open>gdt_flush\<close> and \<open>idt_flush\<close> load.\<close>

record cpu = keyboard +
  stubs :: stubs
  gdt_entries :: "gdt_entry list"
  gdt_ptr :: table_ptr
  idt :: "idt_entry list"
  idt_ptr :: table_ptr
  gdtr :: table_ptr
  idtr :: table_ptr
  code_segment :: u16
  data_segment :: u16

definition GDT_NUM_ENTRIES :: nat where "GDT_NUM_ENTRIES = 5"
definition IDT_ENTRIES :: nat where "IDT_ENTRIES = 256"

section \<open>Segments\<close>

definition gdt_set_gate :: "int \<Rightarrow> u32 \<Rightarrow> u32 \<Rightarrow> u32 \<Rightarrow> u32 \<Rightarrow> 'a cpu_scheme \<Rightarrow> stop + 'a cpu_scheme" where
  "gdt_set_gate num base limit acc gran s =
     (if 0 \<le> num \<and> num < int GDT_NUM_ENTRIES
      then Inr (s\<lparr>gdt_entries := (gdt_entries s)[nat num := \<lparr>
          limit_low = ucast (limit AND 0xFFFF),
          base_low = ucast (base AND 0xFFFF),
          base_middle = ucast (drop_bit 16 base AND 0xFF),
          access = ucast acc,
          granularity = ucast (drop_bit 16 limit AND 0x0F) OR ucast (gran AND 0xF0),
          base_high = ucast (drop_bit 24 base AND 0xFF)\<rparr>]\<rparr>)
      else Inl Undefined)"

definition gdt_flush :: "'a cpu_scheme \<Rightarrow> 'a cpu_scheme" where
  "gdt_flush s = s\<lparr>gdtr := gdt_ptr s, data_segment := 0x10, code_segment := 0x08\<rparr>"

definition init_gdt :: "'a cpu_scheme \<Rightarrow> stop + 'a cpu_scheme" where
  "init_gdt s =
     (let s = s\<lparr>gdt_ptr := \<lparr>ptr_limit = word_of_nat (8 * GDT_NUM_ENTRIES) - 1, ptr_base = gdt_address (stubs s)\<rparr>\<rparr> in
      and_then (gdt_set_gate 0 0 0 0 0 s) (\<lambda>s.
      and_then (gdt_set_gate 1 0 0xFFFFFFFF 0x9A 0xCF s) (\<lambda>s.
      and_then (gdt_set_gate 2 0 0xFFFFFFFF 0x92 0xCF s) (\<lambda>s.
      and_then (gdt_set_gate 3 0 0xFFFFFFFF 0xFA 0xCF s) (\<lambda>s.
      and_then (gdt_set_gate 4 0 0xFFFFFFFF 0xF2 0xCF s) (\<lambda>s.
      Inr (gdt_flush s)))))))"

section \<open>Interrupt gates\<close>

definition idt_set_gate :: "u8 \<Rightarrow> u32 \<Rightarrow> u16 \<Rightarrow> u8 \<Rightarrow> 'a cpu_scheme \<Rightarrow> 'a cpu_scheme" where
  "idt_set_gate n base selector flgs s =
     s\<lparr>idt := (idt s)[unat n := \<lparr>base_lo = ucast (base AND 0xFFFF), sel = selector, res = 0, flags = flgs,
       base_hi = ucast (drop_bit 16 base AND 0xFFFF)\<rparr>]\<rparr>"

definition idt_flush :: "'a cpu_scheme \<Rightarrow> 'a cpu_scheme" where
  "idt_flush s = s\<lparr>idtr := idt_ptr s\<rparr>"

definition zero_gate :: idt_entry where
  "zero_gate = \<lparr>base_lo = 0, sel = 0, res = 0, flags = 0, base_hi = 0\<rparr>"

text \<open>The gates in the order of the calls: 0 to 31 for the exceptions, 32 to 47 for the IRQs.\<close>

definition idt_gates :: "stubs \<Rightarrow> (u8 \<times> u32) list" where
  "idt_gates st = map (\<lambda>i. (word_of_nat i, isr_fn st i)) [0..<32] @ map (\<lambda>i. (word_of_nat (32 + i), irq_fn st i)) [0..<16]"

definition init_idt :: "'a cpu_scheme \<Rightarrow> 'a cpu_scheme" where
  "init_idt s =
     (let s = s\<lparr>idt_ptr := \<lparr>ptr_limit = word_of_nat (8 * IDT_ENTRIES), ptr_base = idt_address (stubs s)\<rparr>\<rparr>;
          s = s\<lparr>idt := replicate IDT_ENTRIES zero_gate\<rparr>;
          s = fold (\<lambda>(n, base). idt_set_gate n base 0x08 0x8E) (idt_gates (stubs s)) s
      in idt_flush s)"

section \<open>The interrupt controllers\<close>

definition io_wait :: "'a machine_scheme \<Rightarrow> 'a machine_scheme" where
  "io_wait s = s"

definition pic_send_eoi :: "u8 \<Rightarrow> 'a machine_scheme \<Rightarrow> 'a machine_scheme" where
  "pic_send_eoi irq s = mout 0x20 0x20 (if irq \<ge> 8 then mout 0xA0 0x20 s else s)"

definition init_pic :: "'a machine_scheme \<Rightarrow> 'a machine_scheme" where
  "init_pic s =
     (let s = io_wait (mout 0x20 (0x10 OR 0x01) s);
          s = io_wait (mout 0xA0 (0x10 OR 0x01) s);
          s = io_wait (mout 0x21 0x20 s);
          s = io_wait (mout 0xA1 0x28 s);
          s = io_wait (mout 0x21 4 s);
          s = io_wait (mout 0xA1 2 s);
          s = io_wait (mout 0x21 0x01 s);
          s = io_wait (mout 0xA1 0x01 s);
          s = io_wait (mout 0x21 0x00 s)
      in io_wait (mout 0xA1 0x00 s))"

section \<open>Dispatch\<close>

text \<open>What the stubs push: \<open>context_t\<close>.\<close>

record context_t =
  ctx_ds :: u32
  ctx_edi :: u32
  ctx_esi :: u32
  ctx_ebp :: u32
  ctx_useless_esp :: u32
  ctx_ebx :: u32
  ctx_edx :: u32
  ctx_ecx :: u32
  ctx_eax :: u32
  int_no :: u32
  err_code :: u32
  ctx_eip :: u32
  ctx_cs :: u32
  ctx_eflags :: u32
  ctx_esp :: u32
  ctx_ss :: u32

text \<open>A call through the handler table; \<open>scan_code\<close> is what port 0x60 holds.\<close>

definition run_handler :: "handler \<Rightarrow> u8 \<Rightarrow> 'a keyboard_scheme \<Rightarrow> stop + 'a keyboard_scheme" where
  "run_handler h scan_code s =
     (case h of
        Page_fault_handler \<Rightarrow> page_fault_handler s
      | Timer_callback \<Rightarrow> timer_callback s
      | Keyboard_handler \<Rightarrow> keyboard_handler scan_code s)"

definition isr_handler :: "context_t \<Rightarrow> u8 \<Rightarrow> 'a keyboard_scheme \<Rightarrow> stop + 'a keyboard_scheme" where
  "isr_handler c scan_code s =
     (let s = mlog ''Received interrupt: %x\<newline>'' [Num (int_no c)] s in
      if int_no c \<ge> 256 then Inl Undefined
      else case interrupt_handlers s (ucast (int_no c)) of
          Some h \<Rightarrow> run_handler h scan_code s
        | None \<Rightarrow> Inr s)"

definition irq_handler :: "context_t \<Rightarrow> u8 \<Rightarrow> 'a keyboard_scheme \<Rightarrow> stop + 'a keyboard_scheme" where
  "irq_handler c scan_code s =
     (let s = (if int_no c - 32 \<noteq> 0 then mlog ''Received IRQ: %x\<newline>'' [Num (int_no c - 32)] s else s);
          s = pic_send_eoi (ucast (int_no c - 32)) s in
      if int_no c \<ge> 256 then Inl Undefined
      else case interrupt_handlers s (ucast (int_no c)) of
          None \<Rightarrow> Inl Hang
        | Some h \<Rightarrow> run_handler h scan_code s)"

section \<open>What the hardware reads\<close>

text \<open>
  The processor's reading of a segment descriptor and of an interrupt gate, from its manual.
\<close>

definition seg_base :: "gdt_entry \<Rightarrow> u32" where
  "seg_base e = ucast (base_low e) OR push_bit 16 (ucast (base_middle e)) OR push_bit 24 (ucast (base_high e))"

definition seg_raw_limit :: "gdt_entry \<Rightarrow> u32" where
  "seg_raw_limit e = ucast (limit_low e) OR push_bit 16 (ucast (granularity e AND 0x0F))"

definition seg_limit :: "gdt_entry \<Rightarrow> u32" where
  "seg_limit e = (if bit (granularity e) 7 then push_bit 12 (seg_raw_limit e) OR 0xFFF else seg_raw_limit e)"

definition gate_offset :: "idt_entry \<Rightarrow> u32" where
  "gate_offset e = ucast (base_lo e) OR push_bit 16 (ucast (base_hi e))"

definition gate_present :: "idt_entry \<Rightarrow> bool" where
  "gate_present e \<longleftrightarrow> bit (flags e) 7"

text \<open>
  An 8259 controller as its data sheet describes the initialisation: a command with bit 4 starts it,
  the next writes to the data port are the vector offset, the cascade and, if announced, the
  mode; after that the data port is the interrupt mask.
\<close>

record pic8259 =
  awaits :: nat
  needs_icw4 :: bool
  vector_offset :: u8
  cascade :: u8
  pic_mode :: u8
  irq_mask :: u8

definition pic_command :: "u8 \<Rightarrow> pic8259 \<Rightarrow> pic8259" where
  "pic_command v p = (if bit v 4 then p\<lparr>awaits := 2, needs_icw4 := bit v 0, irq_mask := 0\<rparr> else p)"

definition pic_data :: "u8 \<Rightarrow> pic8259 \<Rightarrow> pic8259" where
  "pic_data v p =
     (if awaits p = 2 then p\<lparr>vector_offset := v, awaits := 3\<rparr>
      else if awaits p = 3 then p\<lparr>cascade := v, awaits := if needs_icw4 p then 4 else 0\<rparr>
      else if awaits p = 4 then p\<lparr>pic_mode := v, awaits := 0\<rparr>
      else p\<lparr>irq_mask := v\<rparr>)"

text \<open>The writes of a trace that reach the controller with the given command port.\<close>

definition pic_after :: "u16 \<Rightarrow> (u16 \<times> u8) list \<Rightarrow> pic8259 \<Rightarrow> pic8259" where
  "pic_after port tr p =
     fold (\<lambda>(q, v) p. if q = port then pic_command v p else if q = port + 1 then pic_data v p else p) tr p"

section \<open>Lemmas\<close>

lemma word32_parts: "(ucast (ucast (b AND 0xFFFF) :: u16) :: u32) OR push_bit 16 (ucast (ucast (drop_bit 16 b AND 0xFFFF) :: u16)) = b"
  and word32_bytes: "(ucast (ucast (b AND 0xFFFF) :: u16) :: u32) OR push_bit 16 (ucast (ucast (drop_bit 16 b AND 0xFF) :: u8))
    OR push_bit 24 (ucast (ucast (drop_bit 24 b AND 0xFF) :: u8)) = b"
  and limit_parts: "(ucast (ucast (b AND 0xFFFF) :: u16) :: u32) OR
    push_bit 16 (ucast (((ucast (drop_bit 16 b AND 0x0F) :: u8) OR ucast (g AND 0xF0 :: u32)) AND 0x0F)) = b AND 0xFFFFF"
proof -
  have m: "(0xFFFF :: u32) = mask 16" "(0xFF :: u32) = mask 8" "(0x0F :: u32) = mask 4" "(0xFFFFF :: u32) = mask 20"
    "(0x0F :: u8) = mask 4" by (simp_all add: mask_eq_exp_minus_1)
  have f0: "(ucast (g AND 0xF0) :: u8) AND 0x0F = 0"
  proof -
    have "(ucast (g AND 0xF0) :: u8) AND ucast (0x0F :: u32) = ucast ((g AND 0xF0) AND 0x0F)"
      by (simp only: unsigned_and_eq)
    also have "(g AND 0xF0) AND 0x0F = 0" by (simp add: and.assoc)
    finally show ?thesis by simp
  qed
  show "(ucast (ucast (b AND 0xFFFF) :: u16) :: u32) OR push_bit 16 (ucast (ucast (drop_bit 16 b AND 0xFFFF) :: u16)) = b"
    unfolding m by (rule bit_word_eqI) (auto simp: bit_simps not_less)
  show "(ucast (ucast (b AND 0xFFFF) :: u16) :: u32) OR push_bit 16 (ucast (ucast (drop_bit 16 b AND 0xFF) :: u8))
    OR push_bit 24 (ucast (ucast (drop_bit 24 b AND 0xFF) :: u8)) = b"
    unfolding m
  proof (rule bit_word_eqI)
    fix n assume "n < LENGTH(32)"
    then consider "n < 16" | "16 \<le> n" "n < 24" | "24 \<le> n" "n < 32" by fastforce
    then show "bit ((ucast (ucast (b AND mask 16) :: u16) :: u32) OR push_bit 16 (ucast (ucast (drop_bit 16 b AND mask 8) :: u8))
      OR push_bit 24 (ucast (ucast (drop_bit 24 b AND mask 8) :: u8))) n \<longleftrightarrow> bit b n"
      by cases (auto simp: bit_simps not_less not_le)
  qed
  have "((ucast (drop_bit 16 b AND 0x0F) :: u8) OR ucast (g AND 0xF0)) AND 0x0F = ucast (drop_bit 16 b AND 0x0F) AND 0x0F"
    by (simp add: bit.conj_disj_distrib2 f0)
  then show "(ucast (ucast (b AND 0xFFFF) :: u16) :: u32) OR
    push_bit 16 (ucast (((ucast (drop_bit 16 b AND 0x0F) :: u8) OR ucast (g AND 0xF0)) AND 0x0F)) = b AND 0xFFFFF"
    unfolding m by (simp only:) (rule bit_word_eqI, auto simp: bit_simps not_less)
qed

text \<open>Setting a list of gates with distinct numbers.\<close>

definition kernel_gate :: "u32 \<Rightarrow> idt_entry" where
  "kernel_gate base = \<lparr>base_lo = ucast (base AND 0xFFFF), sel = 0x08, res = 0, flags = 0x8E,
     base_hi = ucast (drop_bit 16 base AND 0xFFFF)\<rparr>"

lemma kernel_gate: "gate_offset (kernel_gate b) = b" "gate_present (kernel_gate b)" "\<not> gate_present zero_gate"
  using word32_parts [of b] by (simp_all add: kernel_gate_def zero_gate_def gate_offset_def gate_present_def bit_iff_odd_drop_bit)

lemma set_gates_fields:
  fixes s :: "'a cpu_scheme"
  shows "fold (\<lambda>(n, base). idt_set_gate n base 0x08 0x8E) gs s = s\<lparr>idt := idt (fold (\<lambda>(n, base). idt_set_gate n base 0x08 0x8E) gs s)\<rparr>"
proof (induction gs arbitrary: s)
  case (Cons g gs)
  obtain n b where g: "g = (n, b)" by (cases g)
  let ?s = "idt_set_gate n b 0x08 0x8E s" and ?f = "\<lambda>s. fold (\<lambda>(n, base). idt_set_gate n base 0x08 0x8E) gs s"
  have "?f ?s = ?s\<lparr>idt := idt (?f ?s)\<rparr>" by (rule Cons.IH)
  also have "\<dots> = s\<lparr>idt := idt (?f ?s)\<rparr>" by (simp add: idt_set_gate_def)
  finally show ?case using g by simp
qed simp

lemma set_gates:
  "distinct (map fst gs) \<Longrightarrow> length (idt s) = 256 \<Longrightarrow>
   length (idt (fold (\<lambda>(n, base). idt_set_gate n base 0x08 0x8E) gs s)) = 256 \<and>
   (\<forall>(n, b) \<in> set gs. idt (fold (\<lambda>(n, base). idt_set_gate n base 0x08 0x8E) gs s) ! unat n = kernel_gate b) \<and>
   (\<forall>k<256. k \<notin> unat ` fst ` set gs \<longrightarrow> idt (fold (\<lambda>(n, base). idt_set_gate n base 0x08 0x8E) gs s) ! k = idt s ! k)"
proof (induction gs arbitrary: s)
  case (Cons g gs)
  obtain n b where g: "g = (n, b)" by (cases g)
  let ?s = "idt_set_gate n b 0x08 0x8E s" and ?f = "\<lambda>s. idt (fold (\<lambda>(n, base). idt_set_gate n base 0x08 0x8E) gs s)"
  have i: "idt ?s = (idt s)[unat n := kernel_gate b]" by (simp add: idt_set_gate_def kernel_gate_def)
  have n: "unat n < 256" using unsigned_less [of n] by simp
  have d: "distinct (map fst gs)" "n \<notin> fst ` set gs" using Cons.prems(1) g by auto
  have IH: "length (?f ?s) = 256" "\<forall>(n, b) \<in> set gs. ?f ?s ! unat n = kernel_gate b"
    "\<forall>k<256. k \<notin> unat ` fst ` set gs \<longrightarrow> ?f ?s ! k = idt ?s ! k"
    using Cons.IH [OF d(1), of ?s] Cons.prems(2) i by simp_all
  have "unat n \<notin> unat ` fst ` set gs" using d(2) by (auto simp: word_unat_eq_iff image_iff)
  then have "?f ?s ! unat n = kernel_gate b" using IH(3) n i Cons.prems(2) by simp
  moreover have "?f ?s ! k = idt s ! k" if "k < 256" "k \<notin> unat ` fst ` set (g # gs)" for k
    using IH(3) that i g by auto
  ultimately show ?case using IH(1,2) g by auto
qed simp

lemma idt_gates_distinct: "distinct (map fst (idt_gates st))"
  by (simp add: idt_gates_def upt_rec)

lemma init_idt_ok:
  "length (idt (init_idt s)) = 256" "n < 32 \<Longrightarrow> idt (init_idt s) ! n = kernel_gate (isr_fn (stubs s) n)"
  "n < 16 \<Longrightarrow> idt (init_idt s) ! (32 + n) = kernel_gate (irq_fn (stubs s) n)"
  "48 \<le> n \<Longrightarrow> n < 256 \<Longrightarrow> idt (init_idt s) ! n = zero_gate"
  "idtr (init_idt s) = \<lparr>ptr_limit = 2048, ptr_base = idt_address (stubs s)\<rparr>"
proof -
  let ?s = "s\<lparr>idt_ptr := \<lparr>ptr_limit = word_of_nat (8 * IDT_ENTRIES), ptr_base = idt_address (stubs s)\<rparr>, idt := replicate IDT_ENTRIES zero_gate\<rparr>"
  let ?t = "fold (\<lambda>(n, base). idt_set_gate n base 0x08 0x8E) (idt_gates (stubs s)) ?s"
  have i: "init_idt s = idt_flush ?t" by (simp add: init_idt_def Let_def)
  have g: "length (idt ?t) = 256" "\<forall>(n, b) \<in> set (idt_gates (stubs s)). idt ?t ! unat n = kernel_gate b"
    "\<forall>k<256. k \<notin> unat ` fst ` set (idt_gates (stubs s)) \<longrightarrow> idt ?t ! k = idt ?s ! k"
    using set_gates [OF idt_gates_distinct, of ?s "stubs s"] by (simp_all add: IDT_ENTRIES_def)
  show "length (idt (init_idt s)) = 256" using g(1) by (simp add: i idt_flush_def)
  have un: "unat (word_of_nat k :: u8) = k" if "k < 256" for k using that by (simp add: unat_of_nat)
  show "idt (init_idt s) ! n = kernel_gate (isr_fn (stubs s) n)" if "n < 32"
  proof -
    have "(word_of_nat n, isr_fn (stubs s) n) \<in> set (idt_gates (stubs s))" using that by (auto simp: idt_gates_def)
    from bspec [OF g(2) this] un [of n] that show ?thesis by (simp add: i idt_flush_def)
  qed
  show "idt (init_idt s) ! (32 + n) = kernel_gate (irq_fn (stubs s) n)" if "n < 16"
  proof -
    have "(word_of_nat (32 + n), irq_fn (stubs s) n) \<in> set (idt_gates (stubs s))" using that unfolding idt_gates_def by auto
    from bspec [OF g(2) this] un [of "32 + n"] that show ?thesis by (simp add: i idt_flush_def)
  qed
  show "idt (init_idt s) ! n = zero_gate" if "48 \<le> n" "n < 256"
  proof -
    have "n \<notin> unat ` fst ` set (idt_gates (stubs s))"
      using that un by (auto simp: idt_gates_def image_iff simp del: of_nat_add)
    then show ?thesis using g(3) that by (simp add: i idt_flush_def IDT_ENTRIES_def)
  qed
  have "idt_ptr ?t = idt_ptr ?s" by (subst set_gates_fields) simp
  then show "idtr (init_idt s) = \<lparr>ptr_limit = 2048, ptr_base = idt_address (stubs s)\<rparr>"
    by (simp add: i idt_flush_def IDT_ENTRIES_def)
qed

section \<open>Properties\<close>

text \<open>
  C40: \<open>gdt_set_gate\<close> scatters its arguments over a descriptor so that the processor reads them back:
  all 32 bits of the base, the low 20 bits of the limit, the access byte and the flags.
\<close>

theorem gdt_set_gate_descriptor:
  assumes "0 \<le> num" "num < 5" "length (gdt_entries s) = 5"
  shows "\<exists>s' e. gdt_set_gate num base limit acc gran s = Inr s' \<and> gdt_entries s' = (gdt_entries s)[nat num := e] \<and>
    seg_base e = base \<and> seg_raw_limit e = limit AND 0xFFFFF \<and> access e = ucast acc \<and>
    granularity e AND 0xF0 = ucast (gran AND 0xF0)"
proof -
  let ?e = "\<lparr>limit_low = ucast (limit AND 0xFFFF), base_low = ucast (base AND 0xFFFF),
    base_middle = ucast (drop_bit 16 base AND 0xFF), access = ucast acc,
    granularity = ucast (drop_bit 16 limit AND 0x0F) OR ucast (gran AND 0xF0), base_high = ucast (drop_bit 24 base AND 0xFF)\<rparr>"
  have "granularity ?e AND 0xF0 = (ucast (gran AND 0xF0) :: u8)"
  proof -
    have "(ucast (drop_bit 16 limit AND 0x0F) :: u8) AND ucast (0xF0 :: u32) = ucast ((drop_bit 16 limit AND 0x0F) AND 0xF0)"
      "(ucast (gran AND 0xF0) :: u8) AND ucast (0xF0 :: u32) = ucast ((gran AND 0xF0) AND 0xF0)"
      by (simp_all only: unsigned_and_eq)
    then show ?thesis by (simp add: bit.conj_disj_distrib2 and.assoc)
  qed
  moreover have "seg_base ?e = base" "seg_raw_limit ?e = limit AND 0xFFFFF"
    using word32_bytes [of base] limit_parts [of limit gran] by (simp_all add: seg_base_def seg_raw_limit_def)
  ultimately show ?thesis
    using assms(1,2) by (intro exI [of _ "s\<lparr>gdt_entries := (gdt_entries s)[nat num := ?e]\<rparr>"] exI [of _ ?e])
      (simp add: gdt_set_gate_def GDT_NUM_ENTRIES_def)
qed

definition boot_cpu :: cpu where
  "boot_cpu = keyboard.extend boot_keyboard (cpu.fields
     \<lparr>isr_fn = (\<lambda>i. 0x101000 + 16 * word_of_nat i), irq_fn = (\<lambda>i. 0x102000 + 16 * word_of_nat i), idt_address = 0x230000, gdt_address = 0x231000\<rparr>
     (replicate 5 \<lparr>limit_low = 0, base_low = 0, base_middle = 0, access = 0, granularity = 0, base_high = 0\<rparr>)
     \<lparr>ptr_limit = 0, ptr_base = 0\<rparr> (replicate 256 zero_gate) \<lparr>ptr_limit = 0, ptr_base = 0\<rparr>
     \<lparr>ptr_limit = 0, ptr_base = 0\<rparr> \<lparr>ptr_limit = 0, ptr_base = 0\<rparr> 0 0)"

lemma boot_cpu_gdt: "length (gdt_entries boot_cpu) = 5"
  by (simp add: boot_cpu_def keyboard.defs cpu.defs)

theorem gdt_set_gate_descriptor_witness:
  "\<exists>s' e. gdt_set_gate 3 0x12345678 0xABCDE 0xFA 0xCF boot_cpu = Inr s' \<and> seg_base e = 0x12345678 \<and> seg_raw_limit e = 0xABCDE"
  using gdt_set_gate_descriptor [OF _ _ boot_cpu_gdt, of 3 "0x12345678" "0xABCDE" "0xFA" "0xCF"] by auto

text \<open>
  After \<open>init_gdt\<close> descriptor 0 is null, and 1 to 4 are flat segments over the whole address space with
  the kernel's and the user's access bytes; the code segment register selects descriptor 1 and the
  data registers descriptor 2.
\<close>

theorem init_gdt_flat:
  assumes "length (gdt_entries s) = 5"
  shows "\<exists>s'. init_gdt s = Inr s' \<and> gdtr s' = \<lparr>ptr_limit = 39, ptr_base = gdt_address (stubs s)\<rparr> \<and>
    seg_raw_limit (gdt_entries s' ! 0) = 0 \<and> access (gdt_entries s' ! 0) = 0 \<and>
    (\<forall>i \<in> {1..4}. seg_base (gdt_entries s' ! i) = 0 \<and> seg_limit (gdt_entries s' ! i) = 0xFFFFFFFF) \<and>
    map access (gdt_entries s') = [0, 0x9A, 0x92, 0xFA, 0xF2] \<and>
    code_segment s' = 8 * 1 \<and> data_segment s' = 8 * 2"
proof -
  obtain a b c d e where e: "gdt_entries s = [a, b, c, d, e]"
    using assms by (auto simp: length_Suc_conv eval_nat_numeral)
  have "{1..4 :: nat} = {1, 2, 3, 4}" by auto
  then show ?thesis
    by (simp add: init_gdt_def gdt_set_gate_def gdt_flush_def Let_def GDT_NUM_ENTRIES_def e seg_base_def seg_limit_def
        seg_raw_limit_def bit_iff_odd_drop_bit)
qed

theorem init_gdt_flat_witness:
  "\<exists>s'. init_gdt boot_cpu = Inr s' \<and> code_segment s' = 8"
  using init_gdt_flat [OF boot_cpu_gdt] by auto

text \<open>
  after \<open>init_idt\<close> the processor enters exception \<open>n\<close> at stub \<open>isr\<close>\<open>n\<close> and vector \<open>32 + n\<close> at stub \<open>irq\<close>\<open>n\<close>, both in
  the kernel's code segment; no other gate is present. The limit loaded is the size of the
  table, one more than its last byte.
\<close>

theorem init_idt_gates:
  "length (idt (init_idt s)) = 256 \<and>
   (\<forall>n<32. gate_offset (idt (init_idt s) ! n) = isr_fn (stubs s) n) \<and>
   (\<forall>n<16. gate_offset (idt (init_idt s) ! (32 + n)) = irq_fn (stubs s) n) \<and>
   (\<forall>n<48. gate_present (idt (init_idt s) ! n) \<and> sel (idt (init_idt s) ! n) = 0x08 \<and> flags (idt (init_idt s) ! n) = 0x8E) \<and>
   (\<forall>n<256. 48 \<le> n \<longrightarrow> \<not> gate_present (idt (init_idt s) ! n)) \<and>
   idtr (init_idt s) = \<lparr>ptr_limit = 2048, ptr_base = idt_address (stubs s)\<rparr>"
proof -
  have "idt (init_idt s) ! n = kernel_gate (if n < 32 then isr_fn (stubs s) n else irq_fn (stubs s) (n - 32))" if "n < 48" for n
    using init_idt_ok(2) [of n s] init_idt_ok(3) [of "n - 32" s] that by (cases "n < 32") simp_all
  then have "\<forall>n<48. gate_present (idt (init_idt s) ! n) \<and> sel (idt (init_idt s) ! n) = 0x08 \<and> flags (idt (init_idt s) ! n) = 0x8E"
    using kernel_gate by (simp add: kernel_gate_def)
  then show ?thesis by (simp add: init_idt_ok kernel_gate)
qed

theorem init_idt_gates_witness:
  "gate_offset (idt (init_idt boot_cpu) ! 14) = 0x1010E0 \<and> \<not> gate_present (idt (init_idt boot_cpu) ! 48)"
  using init_idt_gates [of boot_cpu] by (simp add: boot_cpu_def keyboard.defs cpu.defs)

text \<open>
  C31: \<open>init_pic\<close> programs both controllers, whatever state they were in: cascaded, in 8086 mode, nothing
  masked, with offsets such that IRQ \<open>i\<close> is delivered as vector \<open>32 + i\<close>, whose gate leads to stub \<open>irq\<close>\<open>i\<close>.
\<close>

theorem irq_vectors_meet_gates:
  fixes s :: "'a cpu_scheme"
  shows "\<exists>tr. out (dev (init_pic s)) = out (dev s) @ tr \<and>
    (\<forall>p q. \<exists>p' q'. pic_after 0x20 tr p = p' \<and> pic_after 0xA0 tr q = q' \<and>
       awaits p' = 0 \<and> awaits q' = 0 \<and> cascade p' = 4 \<and> cascade q' = 2 \<and> pic_mode p' = 1 \<and> pic_mode q' = 1 \<and>
       irq_mask p' = 0 \<and> irq_mask q' = 0 \<and>
       (\<forall>i<8. gate_offset (idt (init_idt (init_pic s)) ! unat (vector_offset p' + word_of_nat i)) = irq_fn (stubs s) i \<and>
          gate_offset (idt (init_idt (init_pic s)) ! unat (vector_offset q' + word_of_nat i)) = irq_fn (stubs s) (8 + i)))"
proof -
  define tr :: "(u16 \<times> u8) list" where "tr = [(0x20, 0x11), (0xA0, 0x11), (0x21, 0x20), (0xA1, 0x28), (0x21, 4), (0xA1, 2),
    (0x21, 1), (0xA1, 1), (0x21, 0), (0xA1, 0)]"
  have o1: "out (dev (init_pic s)) = out (dev s) @ tr"
    by (simp add: init_pic_def io_wait_def mout_def outb_def Let_def tr_def)
  have st: "stubs (init_pic s) = stubs s" by (simp add: init_pic_def io_wait_def mout_def Let_def)
  have b: "bit (0x11 :: u8) 4" "bit (0x11 :: u8) 0" by (simp_all add: bit_iff_odd_drop_bit)
  have p: "pic_after 0x20 tr p = p\<lparr>awaits := 0, needs_icw4 := True, vector_offset := 0x20, cascade := 4, pic_mode := 1, irq_mask := 0\<rparr>" for p
    by (simp add: pic_after_def tr_def pic_command_def pic_data_def b)
  have q: "pic_after 0xA0 tr p = p\<lparr>awaits := 0, needs_icw4 := True, vector_offset := 0x28, cascade := 2, pic_mode := 1, irq_mask := 0\<rparr>" for p
    by (simp add: pic_after_def tr_def pic_command_def pic_data_def b)
  have v: "unat (0x20 + word_of_nat i :: u8) = 32 + i" "unat (0x28 + word_of_nat i :: u8) = 32 + (8 + i)" if "i < 8" for i
    using that by (simp_all add: unat_word_ariths unat_of_nat)
  have g: "gate_offset (idt (init_idt (init_pic s)) ! (32 + i)) = irq_fn (stubs s) i" if "i < 16" for i
    using init_idt_ok(3) [OF that, of "init_pic s"] kernel_gate st by simp
  have g8: "gate_offset (idt (init_idt (init_pic s)) ! (40 + i)) = irq_fn (stubs s) (8 + i)" if "i < 8" for i
    using g [of "8 + i"] that by simp
  show ?thesis
    by (intro exI [of _ tr] conjI o1 allI) (use v g g8 in \<open>simp add: p q\<close>)
qed

theorem irq_vectors_meet_gates_witness:
  "\<exists>tr. out (dev (init_pic boot_cpu)) = out (dev boot_cpu) @ tr \<and>
    gate_offset (idt (init_idt (init_pic boot_cpu)) ! unat (vector_offset (pic_after 0x20 tr \<lparr>awaits = 0, needs_icw4 = False,
      vector_offset = 8, cascade = 0, pic_mode = 0, irq_mask = 0xFF\<rparr>) + 1)) = 0x102010"
proof -
  let ?p = "\<lparr>awaits = 0, needs_icw4 = False, vector_offset = 8, cascade = 0, pic_mode = 0, irq_mask = 0xFF\<rparr>"
  obtain tr where tr: "out (dev (init_pic boot_cpu)) = out (dev boot_cpu) @ tr"
    "\<forall>p q. \<exists>p' q'. pic_after 0x20 tr p = p' \<and> pic_after 0xA0 tr q = q' \<and>
       awaits p' = 0 \<and> awaits q' = 0 \<and> cascade p' = 4 \<and> cascade q' = 2 \<and> pic_mode p' = 1 \<and> pic_mode q' = 1 \<and>
       irq_mask p' = 0 \<and> irq_mask q' = 0 \<and>
       (\<forall>i<8. gate_offset (idt (init_idt (init_pic boot_cpu)) ! unat (vector_offset p' + word_of_nat i)) = irq_fn (stubs boot_cpu) i \<and>
          gate_offset (idt (init_idt (init_pic boot_cpu)) ! unat (vector_offset q' + word_of_nat i)) = irq_fn (stubs boot_cpu) (8 + i))"
    using irq_vectors_meet_gates [of boot_cpu] by (elim exE conjE)
  have "\<forall>i<8. gate_offset (idt (init_idt (init_pic boot_cpu)) ! unat (vector_offset (pic_after 0x20 tr ?p) + word_of_nat i)) = irq_fn (stubs boot_cpu) i"
    using spec [OF spec [OF tr(2), of ?p], of ?p] by (elim exE conjE) simp
  moreover have "irq_fn (stubs boot_cpu) 1 = 0x102010" by (simp add: boot_cpu_def keyboard.defs cpu.defs)
  ultimately show ?thesis using tr(1) by (intro exI [of _ tr]) (auto dest: spec [of _ 1])
qed

text \<open>The writes of a trace to the command ports of the controllers.\<close>

definition pic_commands :: "(u16 \<times> u8) list \<Rightarrow> (u16 \<times> u8) list" where
  "pic_commands tr = filter (\<lambda>(port, v). port \<in> {0x20, 0xA0}) tr"

text \<open>
  C30: an IRQ is acknowledged exactly once, at the slave too if it came through it, before its handler
  runs; the handler then runs on a state that differs only in the port trace. An IRQ without
  handler hangs the kernel.
\<close>

theorem irq_handler_acknowledges:
  assumes "32 \<le> int_no c" "int_no c < 48"
  shows "\<exists>s1. s1 = s\<lparr>dev := dev s1\<rparr> \<and>
    pic_commands (out (dev s1)) = pic_commands (out (dev s)) @ (if 40 \<le> int_no c then [(0xA0, 0x20)] else []) @ [(0x20, 0x20)] \<and>
    irq_handler c scan_code s = (case interrupt_handlers s (ucast (int_no c)) of
        None \<Rightarrow> Inl Hang | Some h \<Rightarrow> run_handler h scan_code s1)"
proof -
  define s0 where "s0 = (if int_no c - 32 \<noteq> 0 then mlog ''Received IRQ: %x\<newline>'' [Num (int_no c - 32)] s else s)"
  define s1 where "s1 = pic_send_eoi (ucast (int_no c - 32)) s0"
  have u: "32 \<le> unat (int_no c)" "unat (int_no c) < 48" using assms by (simp_all add: word_le_nat_alt word_less_nat_alt)
  then have d: "unat (int_no c - 32) = unat (int_no c) - 32" using assms(1) by (simp add: unat_sub)
  have "unat (ucast (int_no c - 32) :: u8) = unat (int_no c) - 32"
    unfolding ucast_via_unat d using u by (simp add: unat_of_nat del: of_nat_diff)
  then have slave: "(8 \<le> (ucast (int_no c - 32) :: u8)) \<longleftrightarrow> 40 \<le> int_no c" using u by (simp add: word_le_nat_alt) arith
  have e: "out (dev s0) = out (dev s) @ map (Pair COM1_BASE) bs" if "s0 = mlog f as s" "bs = fmt_bytes f as" for f as bs
    using that by (simp add: klog_def emit_def)
  have "pic_commands (out (dev s0)) = pic_commands (out (dev s))"
    unfolding s0_def by (simp add: klog_def emit_def pic_commands_def COM1_BASE_def filter_map comp_def)
  then have "pic_commands (out (dev s1)) = pic_commands (out (dev s)) @ (if 40 \<le> int_no c then [(0xA0, 0x20)] else []) @ [(0x20, 0x20)]"
    using slave by (simp add: s1_def pic_send_eoi_def mout_def outb_def pic_commands_def)
  moreover have "s1 = s\<lparr>dev := dev s1\<rparr>" by (simp add: s1_def s0_def pic_send_eoi_def mout_def mlog_def)
  moreover have "irq_handler c scan_code s = (case interrupt_handlers s (ucast (int_no c)) of
        None \<Rightarrow> Inl Hang | Some h \<Rightarrow> run_handler h scan_code s1)"
  proof -
    have "\<not> 256 \<le> int_no c" using u by (simp add: word_le_nat_alt)
    moreover have "interrupt_handlers s1 = interrupt_handlers s"
      by (simp add: s1_def s0_def pic_send_eoi_def mout_def mlog_def)
    ultimately show ?thesis
      unfolding irq_handler_def Let_def s0_def [symmetric] s1_def [symmetric] by simp
  qed
  ultimately show ?thesis by blast
qed

theorem irq_handler_acknowledges_witness:
  "\<exists>c s1. int_no c = 46 \<and> irq_handler c 0 boot_cpu = Inl Hang \<and>
    pic_commands (out (dev s1)) = [(0xA0, 0x20), (0x20, 0x20)] \<and> s1 = boot_cpu\<lparr>dev := dev s1\<rparr>"
proof -
  define c where "c = \<lparr>ctx_ds = 0, ctx_edi = 0, ctx_esi = 0, ctx_ebp = 0, ctx_useless_esp = 0, ctx_ebx = 0, ctx_edx = 0,
    ctx_ecx = 0, ctx_eax = 0, int_no = 46, err_code = 0, ctx_eip = 0, ctx_cs = 0, ctx_eflags = 0, ctx_esp = 0, ctx_ss = 0\<rparr>"
  have c: "32 \<le> int_no c" "int_no c < 48" "int_no c = 46" by (simp_all add: c_def)
  have b: "out (dev boot_cpu) = []" "interrupt_handlers boot_cpu (ucast (46 :: u32)) = None"
    by (simp_all add: boot_cpu_def boot_keyboard_def boot_timer_def boot_tty_def keyboard.defs cpu.defs timer.defs tty.defs)
  obtain s1 where s1: "s1 = boot_cpu\<lparr>dev := dev s1\<rparr>"
    "pic_commands (out (dev s1)) = pic_commands (out (dev boot_cpu)) @ (if 40 \<le> int_no c then [(0xA0, 0x20)] else []) @ [(0x20, 0x20)]"
    "irq_handler c 0 boot_cpu = (case interrupt_handlers boot_cpu (ucast (int_no c)) of None \<Rightarrow> Inl Hang | Some h \<Rightarrow> run_handler h 0 s1)"
    using irq_handler_acknowledges [OF c(1,2), of boot_cpu 0] by blast
  show ?thesis
    using s1 b c(3) by (intro exI [of _ c] exI [of _ s1]) (simp add: pic_commands_def)
qed

end
