(* ===== verification/Tasking.thy ===== *)
theory Tasking
  imports Interrupts
begin

text \<open>
  Cooperative tasks, \<open>kernel/tasking.c\<close> with \<open>kernel/includes/process.h\<close>, and the context switch
  \<open>switch_to_task_stub\<close> of \<open>kernel/utility.asm\<close>.
\<close>

unbundle bit_operations_syntax

section \<open>State\<close>

text \<open>The fields of \<open>process_t\<close>.\<close>

definition sizeof_process :: u32 where "sizeof_process = 44"
definition process_pid :: "u32 \<Rightarrow> u32" where "process_pid p = p"
definition process_task_name :: "u32 \<Rightarrow> u32" where "process_task_name p = p + 4"
definition process_kernel_stack_top :: "u32 \<Rightarrow> u32" where "process_kernel_stack_top p = p + 0x18"
definition process_page_directory :: "u32 \<Rightarrow> u32" where "process_page_directory p = p + 0x1C"
definition process_next_task :: "u32 \<Rightarrow> u32" where "process_next_task p = p + 32"
definition process_state :: "u32 \<Rightarrow> u32" where "process_state p = p + 36"
definition process_time_used :: "u32 \<Rightarrow> u32" where "process_time_used p = p + 40"

definition RUNNING :: u32 where "RUNNING = 0"
definition READY_TO_RUN :: u32 where "READY_TO_RUN = 1"
definition BLOCKED :: u32 where "BLOCKED = 2"
definition TERMINATED :: u32 where "TERMINATED = 3"

record list_t =
  head :: u32
  tail :: u32

record registers =
  ebx :: u32
  esi :: u32
  edi :: u32
  ebp :: u32
  esp :: u32
  eip :: u32

text \<open>
  The registers are those of the processor at the call of \<open>switch_to_task_stub\<close>; the frames the
  compiler lays out for the C functions are not modelled. \<open>switch_return\<close> is the address behind that
  call, \<open>task1_fn\<close> and \<open>task2_fn\<close> are the entries of the two tasks, \<open>literal_name\<close> is the string \<open>"name"\<close>.
\<close>

record tasking = cpu +
  regs :: registers
  previous_task :: u32
  current_task :: u32
  ready_to_run :: list_t
  blocked :: list_t
  waiting :: list_t
  terminated :: list_t
  last_time :: u32
  next_available_pid :: u32
  switch_return :: u32
  task1_fn :: u32
  task2_fn :: u32
  literal_name :: u32

section \<open>The context switch\<close>

definition push :: "u32 \<Rightarrow> 'a tasking_scheme \<Rightarrow> stop + 'a tasking_scheme" where
  "push v s =
     (let s = s\<lparr>regs := (regs s)\<lparr>esp := esp (regs s) - 4\<rparr>\<rparr> in vstore32 (esp (regs s)) v s)"

definition pop :: "'a tasking_scheme \<Rightarrow> stop + u32 \<times> 'a tasking_scheme" where
  "pop s = and_then (vload32 (esp (regs s)) s) (\<lambda>v. Inr (v, s\<lparr>regs := (regs s)\<lparr>esp := esp (regs s) + 4\<rparr>\<rparr>))"

definition switch_to_task_stub :: "'a tasking_scheme \<Rightarrow> stop + 'a tasking_scheme" where
  "switch_to_task_stub s =
     and_then (push (ebx (regs s)) s) (\<lambda>s.
     and_then (push (esi (regs s)) s) (\<lambda>s.
     and_then (push (edi (regs s)) s) (\<lambda>s.
     and_then (push (ebp (regs s)) s) (\<lambda>s.
     let s = s\<lparr>regs := (regs s)\<lparr>edi := previous_task s\<rparr>\<rparr> in
     and_then (vstore32 (edi (regs s) + 0x18) (esp (regs s)) s) (\<lambda>s.
     and_then (vload32 (esp (regs s) + 20) s) (\<lambda>other.
     let s = s\<lparr>regs := (regs s)\<lparr>esi := other\<rparr>\<rparr> in
     and_then (vload32 (esi (regs s) + 0x18) s) (\<lambda>top.
     let s = s\<lparr>regs := (regs s)\<lparr>esp := top\<rparr>\<rparr> in
     and_then (vload32 (esi (regs s) + 0x1C) s) (\<lambda>eax.
     let s = (if eax = cr3 s then s else s\<lparr>cr3 := eax\<rparr>) in
     and_then (pop s) (\<lambda>(v, s). let s = s\<lparr>regs := (regs s)\<lparr>ebp := v\<rparr>\<rparr> in
     and_then (pop s) (\<lambda>(v, s). let s = s\<lparr>regs := (regs s)\<lparr>edi := v\<rparr>\<rparr> in
     and_then (pop s) (\<lambda>(v, s). let s = s\<lparr>regs := (regs s)\<lparr>esi := v\<rparr>\<rparr> in
     and_then (pop s) (\<lambda>(v, s). let s = s\<lparr>regs := (regs s)\<lparr>ebx := v\<rparr>\<rparr> in
     and_then (pop s) (\<lambda>(v, s). Inr (s\<lparr>regs := (regs s)\<lparr>eip := v\<rparr>\<rparr>))))))))))))))"

section \<open>Scheduling\<close>

definition enqueue_task :: "list_t \<Rightarrow> u32 \<Rightarrow> 'a machine_scheme \<Rightarrow> stop + list_t \<times> 'a machine_scheme" where
  "enqueue_task queue proc s =
     (if head queue = 0 then Inr (\<lparr>head = proc, tail = proc\<rparr>, s)
      else and_then (vstore32 (process_next_task (tail queue)) proc s) (\<lambda>s.
           and_then (vstore32 (process_next_task proc) 0 s) (\<lambda>s.
           Inr (queue\<lparr>tail := proc\<rparr>, s))))"

definition update_time :: "'a tasking_scheme \<Rightarrow> stop + 'a tasking_scheme" where
  "update_time s =
     (let current_time = read_timer s;
          elapsed = elapsed_time (last_time s) current_time;
          s = s\<lparr>last_time := current_time\<rparr> in
      and_then (vload32 (process_time_used (current_task s)) s) (\<lambda>used.
      vstore32 (process_time_used (current_task s)) (used + elapsed) s))"

text \<open>The call of the stub leaves its argument and the return address on the stack.\<close>

definition switch_to_task :: "u32 \<Rightarrow> 'a tasking_scheme \<Rightarrow> stop + 'a tasking_scheme" where
  "switch_to_task other s =
     and_then (update_time s) (\<lambda>s.
     let s = s\<lparr>previous_task := current_task s, current_task := other\<rparr> in
     and_then (push other s) (\<lambda>s.
     and_then (push (switch_return s) s) switch_to_task_stub))"

definition schedule :: "'a tasking_scheme \<Rightarrow> stop + 'a tasking_scheme" where
  "schedule s =
     and_then (vload32 (process_next_task (current_task s)) s) (\<lambda>next_task.
     if next_task \<noteq> 0
     then let s = s\<lparr>ready_to_run := (ready_to_run s)\<lparr>head := next_task\<rparr>\<rparr> in
       and_then (vstore32 (process_state (current_task s)) READY_TO_RUN s) (\<lambda>s.
       and_then (enqueue_task (ready_to_run s) (current_task s) s) (\<lambda>(queue, s).
       switch_to_task next_task (s\<lparr>ready_to_run := queue\<rparr>)))
     else Inr s)"

text \<open>
  The result is the state in the next task: the panic behind the switch is reached only if the
  terminated task is switched to again.
\<close>

definition terminate_task :: "'a tasking_scheme \<Rightarrow> stop + 'a tasking_scheme" where
  "terminate_task s =
     and_then (vload32 (process_pid (current_task s)) s) (\<lambda>pid.
     if pid = 0 then panic ''Attempt to terminate the kernel task!''
     else and_then (vload32 (process_next_task (current_task s)) s) (\<lambda>next_task.
     let s = s\<lparr>ready_to_run := (ready_to_run s)\<lparr>head := next_task\<rparr>\<rparr> in
     and_then (vstore32 (process_state (current_task s)) TERMINATED s) (\<lambda>s.
     and_then (enqueue_task (terminated s) (current_task s) s) (\<lambda>(queue, s).
     switch_to_task next_task (s\<lparr>terminated := queue\<rparr>)))))"

section \<open>Creating tasks\<close>

text \<open>The last lines of \<open>create_kernel_task\<close>: the context a new task is switched to.\<close>

definition place_start_eip :: "u32 \<Rightarrow> u32 \<Rightarrow> 'a machine_scheme \<Rightarrow> stop + 'a machine_scheme" where
  "place_start_eip task start_eip s =
     (if start_eip \<noteq> 0
      then and_then (vload32 (process_kernel_stack_top task) s) (\<lambda>top.
           and_then (vstore32 top start_eip s) (\<lambda>s.
           and_then (vload32 (process_kernel_stack_top task) s) (\<lambda>top.
           vstore32 (process_kernel_stack_top task) (top - 4 * 4) s)))
      else Inr s)"

text \<open>The name given is ignored: the code copies the literal \<open>"name"\<close>.\<close>

definition create_kernel_task :: "u32 \<Rightarrow> u32 \<Rightarrow> 'a tasking_scheme \<Rightarrow> stop + u32 \<times> 'a tasking_scheme" where
  "create_kernel_task name start_eip s =
     and_then (heap_allocate sizeof_process s) (\<lambda>(task, s).
     let pid = next_available_pid s; s = s\<lparr>next_available_pid := next_available_pid s + 1\<rparr> in
     and_then (vstore32 (process_pid task) pid s) (\<lambda>s.
     and_then (strcpy vload8 vstore8 (process_task_name task) (literal_name s) s) (\<lambda>s.
     and_then (heap_allocate 4096 s) (\<lambda>(stack_area, s).
     and_then (vstore32 (process_kernel_stack_top task) (stack_area + 4 * 1023) s) (\<lambda>s.
     and_then (vload32 (process_kernel_stack_top task) s) (\<lambda>top.
     let s = mlog ''The address of the other task stack: %x\<newline>'' [Num top] s in
     and_then (vstore32 (process_page_directory task) (page_directory (syms s)) s) (\<lambda>s.
     and_then (vstore32 (process_next_task task) 0 s) (\<lambda>s.
     and_then (vstore32 (process_state task) READY_TO_RUN s) (\<lambda>s.
     and_then (place_start_eip task start_eip s) (\<lambda>s.
     Inr (task, s)))))))))))"

text \<open>The two calls in \<open>enqueue_task(&ready_to_run, create_kernel_task(name, start_eip))\<close>.\<close>

definition enqueue_ready :: "u32 \<Rightarrow> 'a tasking_scheme \<Rightarrow> stop + 'a tasking_scheme" where
  "enqueue_ready task s =
     and_then (enqueue_task (ready_to_run s) task s) (\<lambda>(queue, s). Inr (s\<lparr>ready_to_run := queue\<rparr>))"

definition add_task :: "u32 \<Rightarrow> u32 \<Rightarrow> 'a tasking_scheme \<Rightarrow> stop + 'a tasking_scheme" where
  "add_task name start_eip s = and_then (create_kernel_task name start_eip s) (\<lambda>(task, s). enqueue_ready task s)"

text \<open>The offsets that \<open>init_tasking\<close> logs first.\<close>

definition print_process_offsets :: "'a machine_scheme \<Rightarrow> 'a machine_scheme" where
  "print_process_offsets s =
   (let s = mlog ''Printing the structure of the process_t struct:\<newline>'' [] s;
        s = mlog (CHR 0x09 # ''Pid: %x\<newline>'') [Num (process_pid 0)] s;
        s = mlog (CHR 0x09 # ''Task Name: %x\<newline>'') [Num (process_task_name 0)] s;
        s = mlog (CHR 0x09 # ''Kernel Stack Top: %x\<newline>'') [Num (process_kernel_stack_top 0)] s;
        s = mlog (CHR 0x09 # ''Page Directory: %x\<newline>'') [Num (process_page_directory 0)] s;
        s = mlog (CHR 0x09 # ''Next Task: %x\<newline>'') [Num (process_next_task 0)] s;
        s = mlog (CHR 0x09 # ''State %x\<newline>'') [Num (process_state 0)] s in
    s)"

text \<open>
  \<open>init_tasking\<close> up to its endless loop of \<open>schedule\<close> calls. The names are addresses of literals that
  the callee ignores.
\<close>

definition init_tasking :: "u32 \<Rightarrow> u32 \<Rightarrow> u32 \<Rightarrow> 'a tasking_scheme \<Rightarrow> stop + 'a tasking_scheme" where
  "init_tasking kernel_name task1_name task2_name s =
     (let s = print_process_offsets s in
      and_then (create_kernel_task kernel_name 0 s) (\<lambda>(kernel_task, s).
      let s = s\<lparr>current_task := kernel_task\<rparr> in
      and_then (enqueue_ready kernel_task s) (\<lambda>s.
      and_then (add_task task1_name (task1_fn s) s) (\<lambda>s.
      add_task task2_name (task2_fn s) s))))"

section \<open>The three tasks\<close>

text \<open>
  A turn of a task is its code from behind one call of the scheduler to the next one. \<open>x\<close> is the local variable
  of the first test task, \<open>message\<close> the address of its message.
\<close>

definition idle_turn :: "'a tasking_scheme \<Rightarrow> stop + 'a tasking_scheme" where
  "idle_turn s =
     (let s = mlog ''Running task 0\<newline>'' [] s in
      and_then (vload32 (process_time_used (current_task s)) s) (\<lambda>used.
      schedule (mlog ''Ticks: %u\<newline>'' [Num used] s)))"

definition task1_turn :: "u32 \<Rightarrow> int \<Rightarrow> 'a tasking_scheme \<Rightarrow> stop + int \<times> 'a tasking_scheme" where
  "task1_turn message x s =
     (if x > 0
      then and_then (terminal_print message s) (\<lambda>s. and_then (schedule s) (\<lambda>s. Inr (x - 1, s)))
      else and_then (terminate_task s) (\<lambda>s. Inr (x - 1, s)))"

definition task2_turn :: "'a tasking_scheme \<Rightarrow> stop + 'a tasking_scheme" where
  "task2_turn s = schedule (mlog ''Running task 2\<newline>'' [] s)"

end
