(* ===== verification/Scheduler.thy ===== *)
theory Scheduler
  imports Tasking
begin

text \<open>
  The context switch and the ready queue: what \<open>switch_to_task_stub\<close> saves and resumes, and the proof
  that the linked list of the scheduler is a round-robin queue.
\<close>

unbundle bit_operations_syntax

section \<open>Words of memory\<close>

lemma load32_apart: "span a 4 \<inter> span b 4 = {} \<Longrightarrow> load32 (store32 a v m) b = load32 m b"
  by (rule load32_span_cong) (auto intro: store32_outside)

lemma word_span: "k + 4 \<le> n \<Longrightarrow> n \<le> 2 ^ 32 \<Longrightarrow> span (p + word_of_nat k) 4 \<subseteq> span p n"
  by (rule span_sub) simp_all

text \<open>The processor state a task resumes with, and what a switch writes.\<close>

definition resumed :: "(u32 \<Rightarrow> u8) \<Rightarrow> u32 \<Rightarrow> registers" where
  "resumed m p = (let top = load32 m (process_kernel_stack_top p) in
     \<lparr>ebx = load32 m (top + 12), esi = load32 m (top + 8), edi = load32 m (top + 4), ebp = load32 m top,
      esp = top + 20, eip = load32 m (top + 16)\<rparr>)"

definition switched :: "registers \<Rightarrow> u32 \<Rightarrow> (u32 \<Rightarrow> u8) \<Rightarrow> (u32 \<Rightarrow> u8)" where
  "switched r p m = store32 (process_kernel_stack_top p) (esp r - 16)
     (store32 (esp r - 16) (ebp r) (store32 (esp r - 12) (edi r) (store32 (esp r - 8) (esi r) (store32 (esp r - 4) (ebx r) m))))"

lemma frame_words:
  "span (e - 4) 4 \<subseteq> span (e - 16) 16" "span (e - 8) 4 \<subseteq> span (e - 16) 16" "span (e - 12) 4 \<subseteq> span (e - 16) 16"
  "span (e - 16) 4 \<subseteq> span (e - 16) 16"
  using word_span [of 12 16 "e - 16"] word_span [of 8 16 "e - 16"] word_span [of 4 16 "e - 16"] word_span [of 0 16 "e - 16"]
  by simp_all

lemma switched_outside:
  "x \<notin> span (esp r - 16) 16 \<Longrightarrow> x \<notin> span (process_kernel_stack_top p) 4 \<Longrightarrow> switched r p m x = m x"
  using frame_words [of "esp r"] unfolding switched_def
  by (metis (no_types, lifting) store32_outside subsetD)

lemma load32_switched:
  "span a 4 \<inter> span (esp r - 16) 16 = {} \<Longrightarrow> span a 4 \<inter> span (process_kernel_stack_top p) 4 = {} \<Longrightarrow>
   load32 (switched r p m) a = load32 m a"
  by (rule load32_span_cong) (auto intro: switched_outside)

lemma word_aligned_diff: "word_aligned p \<Longrightarrow> word_aligned (p - 4) \<and> word_aligned (p - 8) \<and> word_aligned (p - 12) \<and> word_aligned (p - 16)"
proof -
  assume p: "word_aligned p"
  have "word_aligned (p + k)" if "word_aligned k" for k by (rule word_aligned_plus [OF p that])
  from this [of "- 4"] this [of "- 8"] this [of "- 12"] this [of "- 16"] show ?thesis by (simp add: word_aligned_def)
qed

text \<open>Switching away and back: the saved context is the one that was running.\<close>

lemma resumed_switched:
  assumes "word_aligned (esp r)" "word_aligned p"
    and "span (process_kernel_stack_top p) 4 \<inter> span (esp r - 16) 20 = {}"
  shows "resumed (switched r p m) p = r\<lparr>esp := esp r + 4, eip := load32 m (esp r)\<rparr>"
proof -
  let ?e = "esp r" and ?k = "process_kernel_stack_top p"
  have k: "word_aligned ?k" unfolding process_kernel_stack_top_def
    by (rule word_aligned_plus [OF assms(2)]) (simp add: word_aligned_def)
  note e = word_aligned_diff [OF assms(1)]
  have "?e - 16 + word_of_nat j \<in> span (?e - 16) 20" if "j < 20" for j
    using that by (intro span_memI) simp_all
  from this [of 0] this [of 4] this [of 8] this [of 12] this [of 16]
  have in20: "?e - 16 \<in> span (?e - 16) 20" "?e - 12 \<in> span (?e - 16) 20" "?e - 8 \<in> span (?e - 16) 20"
    "?e - 4 \<in> span (?e - 16) 20" "?e \<in> span (?e - 16) 20" by simp_all
  have "?k \<in> span ?k 4" by (simp add: span4)
  then have ne: "?k \<noteq> ?e - 16" "?k \<noteq> ?e - 12" "?k \<noteq> ?e - 8" "?k \<noteq> ?e - 4" "?k \<noteq> ?e"
    using in20 assms(3) by (auto simp del: diff_add_cancel)
  have top: "load32 (switched r p m) ?k = ?e - 16" by (simp add: switched_def)
  have "load32 (switched r p m) (?e - 16) = ebp r" "load32 (switched r p m) (?e - 12) = edi r"
    "load32 (switched r p m) (?e - 8) = esi r" "load32 (switched r p m) (?e - 4) = ebx r"
    "load32 (switched r p m) ?e = load32 m ?e"
    using ne assms(1) e k by (simp_all add: switched_def load_store32_other)
  then show ?thesis unfolding resumed_def top Let_def by simp
qed

lemma resumed_cong:
  assumes "\<And>x. x \<in> span (process_kernel_stack_top p) 4 \<Longrightarrow> m' x = m x"
    and "\<And>x. x \<in> span (load32 m (process_kernel_stack_top p)) 20 \<Longrightarrow> m' x = m x"
  shows "resumed m' p = resumed m p"
proof -
  let ?t = "load32 m (process_kernel_stack_top p)"
  have top: "load32 m' (process_kernel_stack_top p) = ?t" by (rule load32_span_cong [OF assms(1)])
  have "load32 m' (?t + word_of_nat k) = load32 m (?t + word_of_nat k)" if "k + 4 \<le> 20" for k
    by (rule load32_span_cong, rule assms(2)) (use word_span [OF that] in auto)
  from this [of 0] this [of 4] this [of 8] this [of 12] this [of 16] show ?thesis
    unfolding resumed_def top Let_def by simp
qed

text \<open>The process control block.\<close>

definition pcb :: "u32 \<Rightarrow> u32 set" where
  "pcb p = span p 44"

lemmas process_fields = process_kernel_stack_top_def process_page_directory_def process_next_task_def
  process_state_def process_time_used_def process_pid_def

lemma pcb_fields:
  "span (process_kernel_stack_top p) 4 \<subseteq> pcb p" "span (process_page_directory p) 4 \<subseteq> pcb p"
  "span (process_next_task p) 4 \<subseteq> pcb p" "span (process_state p) 4 \<subseteq> pcb p" "span (process_time_used p) 4 \<subseteq> pcb p"
  "span (process_pid p) 4 \<subseteq> pcb p"
  using word_span [of 24 44 p] word_span [of 28 44 p] word_span [of 32 44 p] word_span [of 36 44 p] word_span [of 40 44 p]
    word_span [of 0 44 p]
  by (simp_all add: pcb_def process_fields)

lemma pcb_aligned:
  assumes "word_aligned p"
  shows "word_aligned (process_kernel_stack_top p)" "word_aligned (process_page_directory p)"
    "word_aligned (process_next_task p)" "word_aligned (process_state p)" "word_aligned (process_time_used p)"
  using word_aligned_plus [OF assms, of "0x18"] word_aligned_plus [OF assms, of "0x1C"] word_aligned_plus [OF assms, of 32]
    word_aligned_plus [OF assms, of 36] word_aligned_plus [OF assms, of 40]
  by (simp_all add: process_fields word_aligned_def)

section \<open>The ready queue in memory\<close>

text \<open>The next pointers along a list of processes; the last one holds \<open>z\<close>.\<close>

fun links :: "(u32 \<Rightarrow> u8) \<Rightarrow> u32 list \<Rightarrow> u32 \<Rightarrow> bool" where
  "links m [] z = True"
| "links m (p # ps) z = (load32 m (process_next_task p) = (case ps of [] \<Rightarrow> z | q # _ \<Rightarrow> q) \<and> links m ps z)"

lemma links_snoc: "links m (ps @ [c]) z \<longleftrightarrow> links m ps c \<and> load32 m (process_next_task c) = z"
  by (induction ps) (auto split: list.splits)

lemma links_cong: "links m ps z \<Longrightarrow> (\<And>p. p \<in> set ps \<Longrightarrow> load32 m' (process_next_task p) = load32 m (process_next_task p)) \<Longrightarrow> links m' ps z"
  by (induction ps) auto

text \<open>
  \<open>queue_inv D stk ts s m\<close>: in the memory \<open>m\<close> of the region \<open>D\<close> the ready queue is the list \<open>ts\<close> of processes,
  the first of which runs; their control blocks and stacks (at \<open>stk p\<close>, 4096 bytes) are disjoint, and
  all but the first have a context saved on their stack.
\<close>

definition queue_inv :: "u32 set \<Rightarrow> (u32 \<Rightarrow> u32) \<Rightarrow> u32 list \<Rightarrow> 'a tasking_scheme \<Rightarrow> (u32 \<Rightarrow> u8) \<Rightarrow> bool" where
  "queue_inv D stk ts s m \<longleftrightarrow>
     ts \<noteq> [] \<and> distinct ts \<and> current_task s = hd ts \<and> head (ready_to_run s) = hd ts \<and> tail (ready_to_run s) = last ts \<and>
     (\<forall>p\<in>set ts. p \<noteq> 0 \<and> word_aligned p \<and> pcb p \<subseteq> D \<and> span (stk p) 4096 \<subseteq> D \<and> load32 m (process_page_directory p) = cr3 s) \<and>
     (\<forall>p\<in>set ts. \<forall>q\<in>set ts. pcb p \<inter> span (stk q) 4096 = {} \<and>
        (p \<noteq> q \<longrightarrow> pcb p \<inter> pcb q = {} \<and> span (stk p) 4096 \<inter> span (stk q) 4096 = {})) \<and>
     links m ts 0 \<and> (\<forall>p\<in>set (tl ts). span (load32 m (process_kernel_stack_top p)) 20 \<subseteq> span (stk p) 4096)"

lemma queue_inv_list:
  assumes "queue_inv D stk ts s m"
  shows "ts \<noteq> []" "distinct ts" "current_task s = hd ts" "head (ready_to_run s) = hd ts" "tail (ready_to_run s) = last ts" "links m ts 0"
  using assms unfolding queue_inv_def by blast+

lemma queue_inv_process:
  assumes "queue_inv D stk ts s m" "p \<in> set ts"
  shows "p \<noteq> 0" "word_aligned p" "pcb p \<subseteq> D" "span (stk p) 4096 \<subseteq> D" "load32 m (process_page_directory p) = cr3 s"
  using assms unfolding queue_inv_def by blast+

lemma queue_inv_apart:
  assumes "queue_inv D stk ts s m" "p \<in> set ts" "q \<in> set ts"
  shows "pcb p \<inter> span (stk q) 4096 = {}" "p \<noteq> q \<Longrightarrow> pcb p \<inter> pcb q = {}" "p \<noteq> q \<Longrightarrow> span (stk p) 4096 \<inter> span (stk q) 4096 = {}"
  using assms unfolding queue_inv_def by blast+

lemma queue_inv_saved:
  "queue_inv D stk ts s m \<Longrightarrow> p \<in> set (tl ts) \<Longrightarrow> span (load32 m (process_kernel_stack_top p)) 20 \<subseteq> span (stk p) 4096"
  unfolding queue_inv_def by blast

text \<open>Room for the call of the switch on the stack of the running process.\<close>

definition room :: "(u32 \<Rightarrow> u32) \<Rightarrow> 'a tasking_scheme \<Rightarrow> bool" where
  "room stk s \<longleftrightarrow> word_aligned (esp (regs s)) \<and> span (esp (regs s) - 24) 24 \<subseteq> span (stk (current_task s)) 4096"

lemma list_t_update [simp]: "q\<lparr>head := h, tail := t\<rparr> = \<lparr>head = h, tail = t\<rparr>"
  by (cases q) simp

lemma pcb_fields_apart:
  "span (process_next_task p) 4 \<inter> span (process_time_used p) 4 = {}" "span (process_next_task p) 4 \<inter> span (process_kernel_stack_top p) 4 = {}"
  "span (process_page_directory p) 4 \<inter> span (process_time_used p) 4 = {}" "span (process_page_directory p) 4 \<inter> span (process_kernel_stack_top p) 4 = {}"
  "span (process_page_directory p) 4 \<inter> span (process_next_task p) 4 = {}" "span (process_page_directory p) 4 \<inter> span (process_state p) 4 = {}"
  "span (process_state p) 4 \<inter> span (process_time_used p) 4 = {}" "span (process_state p) 4 \<inter> span (process_kernel_stack_top p) 4 = {}"
  "span (process_state p) 4 \<inter> span (process_next_task p) 4 = {}"
  by (auto simp: span4 process_fields)

text \<open>The scheduler's writes to next pointers and states miss the saved stack tops and directories.\<close>

lemma queue_fields_apart:
  assumes q: "queue_inv D stk ts s m" and pr: "p \<in> set ts" "r \<in> set ts"
    and a: "a = process_kernel_stack_top p \<or> a = process_page_directory p" and b: "b = process_next_task r \<or> b = process_state r"
  shows "span a 4 \<inter> span b 4 = {}"
proof (cases "p = r")
  case True
  then show ?thesis using a b by (auto simp: span4 process_fields)
next
  case False
  then show ?thesis using a b queue_inv_apart(2) [OF q pr False] pcb_fields [of p] pcb_fields [of r] by blast
qed

section \<open>Moving the running process to the end\<close>

text \<open>What \<open>schedule\<close> writes before the switch: the state of \<open>c\<close>, and the links that put it behind \<open>l\<close>.\<close>

definition requeue :: "u32 \<Rightarrow> u32 \<Rightarrow> (u32 \<Rightarrow> u8) \<Rightarrow> (u32 \<Rightarrow> u8)" where
  "requeue c l m = store32 (process_next_task c) 0 (store32 (process_next_task l) c (store32 (process_state c) READY_TO_RUN m))"

text \<open>What the scheduler may write of a task: its stack and four fields of its control block.\<close>

definition task_writes :: "(u32 \<Rightarrow> u32) \<Rightarrow> u32 \<Rightarrow> u32 set" where
  "task_writes stk p = span (stk p) 4096 \<union> span (process_state p) 4 \<union> span (process_next_task p) 4 \<union>
     span (process_time_used p) 4 \<union> span (process_kernel_stack_top p) 4"

lemma task_writes_sub: "task_writes stk p \<subseteq> pcb p \<union> span (stk p) 4096"
  using pcb_fields [of p] by (auto simp: task_writes_def)

lemma requeue_outside:
  "x \<notin> span (process_next_task c) 4 \<Longrightarrow> x \<notin> span (process_state c) 4 \<Longrightarrow> x \<notin> span (process_next_task l) 4 \<Longrightarrow> requeue c l m x = m x"
  by (simp add: requeue_def store32_outside)

lemma last_of_rest:
  assumes "queue_inv D stk (c # n # rest) s m"
  shows "last (n # rest) \<in> set (n # rest)" "last (n # rest) \<noteq> c"
  using queue_inv_list(2) [OF assms] by (auto split: if_splits)

lemma requeue_load:
  assumes q: "queue_inv D stk (c # n # rest) s m" and p: "p \<in> set (c # n # rest)"
    and a: "a = process_kernel_stack_top p \<or> a = process_page_directory p"
  shows "load32 (requeue c (last (n # rest)) m) a = load32 m a"
proof (rule load32_span_cong)
  fix x assume x: "x \<in> span a 4"
  have c: "c \<in> set (c # n # rest)" and l: "last (n # rest) \<in> set (c # n # rest)" using last_of_rest(1) [OF q] by simp_all
  show "requeue c (last (n # rest)) m x = m x"
    using x queue_fields_apart [OF q p c a] queue_fields_apart [OF q p l a] by (intro requeue_outside) blast+
qed

lemma requeue_resumed:
  assumes q: "queue_inv D stk (c # n # rest) s m" and p: "p \<in> set (n # rest)"
  shows "resumed (requeue c (last (n # rest)) m) p = resumed m p"
proof (rule resumed_cong)
  let ?l = "last (n # rest)" and ?ts = "c # n # rest"
  have in_ts: "p \<in> set ?ts" "c \<in> set ?ts" "?l \<in> set ?ts" using p last_of_rest(1) [OF q] by simp_all
  show "requeue c ?l m x = m x" if "x \<in> span (process_kernel_stack_top p) 4" for x
    using that queue_fields_apart [OF q in_ts(1,2)] queue_fields_apart [OF q in_ts(1,3)]
    by (intro requeue_outside) blast+
  have "span (load32 m (process_kernel_stack_top p)) 20 \<subseteq> span (stk p) 4096"
    using queue_inv_saved [OF q, of p] p by simp
  then show "requeue c ?l m x = m x" if "x \<in> span (load32 m (process_kernel_stack_top p)) 20" for x
    using that queue_inv_apart(1) [OF q in_ts(2,1)] queue_inv_apart(1) [OF q in_ts(3,1)]
      pcb_fields(3,4) [of c] pcb_fields(3) [of ?l]
    by (intro requeue_outside) blast+
qed

text \<open>The queue after the switch, which writes only to the stack and the control block of \<open>c\<close>.\<close>

definition only_task :: "(u32 \<Rightarrow> u32) \<Rightarrow> u32 \<Rightarrow> (u32 \<Rightarrow> u8) \<Rightarrow> (u32 \<Rightarrow> u8) \<Rightarrow> bool" where
  "only_task stk c m m' \<longleftrightarrow>
     (\<forall>x. x \<notin> span (stk c) 4096 \<union> span (process_time_used c) 4 \<union> span (process_kernel_stack_top c) 4 \<longrightarrow> m' x = m x)"

lemma only_task_other:
  assumes q: "queue_inv D stk ts s m0" and cp: "c \<in> set ts" "p \<in> set ts" "p \<noteq> c" and o: "only_task stk c m m'"
  shows "x \<in> pcb p \<union> span (stk p) 4096 \<Longrightarrow> m' x = m x"
proof -
  assume x: "x \<in> pcb p \<union> span (stk p) 4096"
  have "x \<notin> span (stk c) 4096" "x \<notin> pcb c"
    using x queue_inv_apart(1) [OF q cp(2,1)] queue_inv_apart(1) [OF q cp(1,2)] queue_inv_apart(2,3) [OF q cp(2,1,3)] by blast+
  then show "m' x = m x" using o pcb_fields [of c] unfolding only_task_def by blast
qed

lemma only_task_load:
  assumes "queue_inv D stk ts s m0" "c \<in> set ts" "only_task stk c m m'"
    and "span a 4 \<subseteq> pcb c" "span a 4 \<inter> span (process_time_used c) 4 = {}" "span a 4 \<inter> span (process_kernel_stack_top c) 4 = {}"
  shows "load32 m' a = load32 m a"
  using assms(3-6) queue_inv_apart(1) [OF assms(1,2,2)] unfolding only_task_def by (intro load32_span_cong) blast

lemma requeue_links:
  assumes q: "queue_inv D stk (c # n # rest) s m" and o: "only_task stk c (requeue c (last (n # rest)) m) m'"
  shows "links m' (n # rest @ [c]) 0"
proof -
  let ?ts = "c # n # rest"
  define l where "l = last (n # rest)"
  have in_ts: "c \<in> set ?ts" "l \<in> set ?ts" using last_of_rest(1) [OF q] unfolding l_def by simp_all
  note lc = last_of_rest [OF q, folded l_def] and o = o [folded l_def]
  obtain xs where xs: "n # rest = xs @ [l]" unfolding l_def by (metis append_butlast_last_id list.distinct(1))
  have D: "distinct (c # xs @ [l])" using queue_inv_list(2) [OF q] unfolding xs [symmetric] .
  have S: "set ?ts = insert c (insert l (set xs))" by (simp add: xs)
  have d: "p \<in> set ?ts" "p \<noteq> c" "p \<noteq> l" if "p \<in> set xs" for p
  proof -
    show "p \<in> set ?ts" using that unfolding S by blast
    show "p \<noteq> c" using that D by (metis UnCI distinct.simps(2) set_append)
    show "p \<noteq> l" using that D by (metis disjoint_iff distinct.simps(2) distinct_append list.set_intros(1))
  qed
  have next_load: "load32 m' (process_next_task p) = load32 (requeue c l m) (process_next_task p)" if "p \<in> set ?ts" "p \<noteq> c" for p
    using only_task_other [OF q in_ts(1) that o] pcb_fields(3) [of p] by (intro load32_span_cong) blast
  have "links m (xs @ [l]) 0" using queue_inv_list(6) [OF q] unfolding xs [symmetric] by simp
  then have "links m xs l" unfolding links_snoc by blast
  then have "links m' xs l"
  proof (rule links_cong)
    fix p assume p: "p \<in> set xs"
    have "span (process_next_task p) 4 \<inter> pcb r = {}" if "r \<in> set ?ts" "p \<noteq> r" for r
      using queue_inv_apart(2) [OF q d(1) [OF p] that] pcb_fields(3) [of p] by blast
    from this [OF in_ts(1) d(2) [OF p]] this [OF in_ts(2) d(3) [OF p]]
    have "load32 (requeue c l m) (process_next_task p) = load32 m (process_next_task p)"
      using pcb_fields [of c] pcb_fields [of l] by (intro load32_span_cong requeue_outside) blast+
    then show "load32 m' (process_next_task p) = load32 m (process_next_task p)"
      using next_load [OF d(1,2) [OF p]] by simp
  qed
  moreover have "span (process_next_task c) 4 \<inter> span (process_next_task l) 4 = {}"
    using queue_inv_apart(2) [OF q in_ts(2,1) lc(2)] pcb_fields(3) [of c] pcb_fields(3) [of l] by blast
  then have "load32 m' (process_next_task l) = c"
    using next_load [OF in_ts(2) lc(2)] by (simp add: requeue_def load32_apart)
  moreover have "load32 m' (process_next_task c) = 0"
    using only_task_load [OF q in_ts(1) o pcb_fields(3) pcb_fields_apart(1,2)] by (simp add: requeue_def)
  ultimately have "links m' ((xs @ [l]) @ [c]) 0" unfolding links_snoc by blast
  then show ?thesis unfolding xs [symmetric] by simp
qed

lemma requeue_inv:
  assumes q: "queue_inv D stk (c # n # rest) s m" and o: "only_task stk c (requeue c (last (n # rest)) m) m'"
    and top: "span (load32 m' (process_kernel_stack_top c)) 20 \<subseteq> span (stk c) 4096"
    and s': "current_task s' = n" "ready_to_run s' = \<lparr>head = n, tail = c\<rparr>" "cr3 s' = cr3 s"
  shows "queue_inv D stk (n # rest @ [c]) s' m'"
proof -
  let ?l = "last (n # rest)" and ?ts = "c # n # rest"
  have c: "c \<in> set ?ts" by simp
  have eq: "set (n # rest @ [c]) = set ?ts" by auto
  have dir: "load32 m' (process_page_directory p) = cr3 s'" if p: "p \<in> set ?ts" for p
  proof -
    have "load32 m' (process_page_directory p) = load32 (requeue c ?l m) (process_page_directory p)"
    proof (cases "p = c")
      case True
      then show ?thesis using only_task_load [OF q c o pcb_fields(2) pcb_fields_apart(3,4)] by simp
    next
      case False
      then show ?thesis using only_task_other [OF q c p False o] pcb_fields(2) [of p] by (intro load32_span_cong) blast
    qed
    then show ?thesis using requeue_load [OF q p] queue_inv_process(5) [OF q p] s'(3) by simp
  qed
  have saved: "span (load32 m' (process_kernel_stack_top p)) 20 \<subseteq> span (stk p) 4096" if p: "p \<in> set rest" for p
  proof -
    have pc: "p \<in> set ?ts" "p \<noteq> c" using p queue_inv_list(2) [OF q] by auto
    have "load32 m' (process_kernel_stack_top p) = load32 (requeue c ?l m) (process_kernel_stack_top p)"
      using only_task_other [OF q c pc o] pcb_fields(1) [of p] by (intro load32_span_cong) blast
    then show ?thesis using requeue_load [OF q pc(1)] queue_inv_saved [OF q, of p] p by simp
  qed
  show ?thesis
    unfolding queue_inv_def eq
    using requeue_links [OF q o] dir saved top s' queue_inv_list(2) [OF q] queue_inv_process [OF q] queue_inv_apart [OF q]
    by (intro conjI ballI impI) auto
qed

lemma requeue_rest:
  assumes q: "queue_inv D stk (c # n # rest) s m" and o: "only_task stk c (requeue c (last (n # rest)) m) m'" and p: "p \<in> set rest"
  shows "resumed m' p = resumed m p"
proof -
  let ?l = "last (n # rest)"
  have pc: "p \<in> set (c # n # rest)" "p \<noteq> c" and c: "c \<in> set (c # n # rest)" using p queue_inv_list(2) [OF q] by auto
  have "resumed m' p = resumed (requeue c ?l m) p"
  proof (rule resumed_cong)
    show "m' x = requeue c ?l m x" if "x \<in> span (process_kernel_stack_top p) 4" for x
      using that pcb_fields(1) [of p] by (intro only_task_other [OF q c pc o]) blast
    show "m' x = requeue c ?l m x" if "x \<in> span (load32 (requeue c ?l m) (process_kernel_stack_top p)) 20" for x
      using that queue_inv_saved [OF q, of p] p requeue_load [OF q pc(1)] by (intro only_task_other [OF q c pc o]) auto
  qed
  then show ?thesis using requeue_resumed [OF q, of p] p by simp
qed

lemma requeue_state:
  assumes q: "queue_inv D stk (c # n # rest) s m" and o: "only_task stk c (requeue c (last (n # rest)) m) m'"
  shows "load32 m' (process_state c) = READY_TO_RUN"
proof -
  let ?l = "last (n # rest)"
  have l: "?l \<in> set (c # n # rest)" "c \<in> set (c # n # rest)" using last_of_rest(1) [OF q] by simp_all
  have "span (process_next_task ?l) 4 \<inter> span (process_state c) 4 = {}"
    using queue_inv_apart(2) [OF q l last_of_rest(2) [OF q]] pcb_fields(3) [of ?l] pcb_fields(4) [of c] by blast
  moreover have "span (process_next_task c) 4 \<inter> span (process_state c) 4 = {}" using pcb_fields_apart(9) [of c] by blast
  ultimately show ?thesis
    using only_task_load [OF q l(2) o pcb_fields(4) pcb_fields_apart(7,8)] by (simp add: requeue_def load32_apart)
qed

section \<open>The context switch on a mapped stack\<close>

locale task_memory = kernel_heap valid data base limit
  for valid :: "'a tasking_scheme \<Rightarrow> bool" and data base limit
begin

lemma runs_regs: "runs s m \<Longrightarrow> runs (s\<lparr>regs := r\<rparr>) m"
  by (rule runs_cong) simp_all

lemma push_ok:
  assumes "runs s m" "word_aligned (esp (regs s))" "span (esp (regs s) - 4) 4 \<subseteq> reg s"
  shows "\<exists>s'. push v s = Inr s' \<and> runs s' (store32 (esp (regs s) - 4) v m) \<and> reg s' = reg s \<and>
    s' = s\<lparr>phys := phys s', regs := (regs s)\<lparr>esp := esp (regs s) - 4\<rparr>\<rparr>"
proof -
  let ?s = "s\<lparr>regs := (regs s)\<lparr>esp := esp (regs s) - 4\<rparr>\<rparr>"
  have rg: "reg ?s = reg s" by (simp add: region_def)
  obtain s' where s': "vstore32 (esp (regs s) - 4) v ?s = Inr s'" "same_but (reg ?s) ?s s'"
    "runs s' (store32 (esp (regs s) - 4) v m)"
    using runs_store32 [OF runs_regs [OF assms(1)], of "esp (regs s) - 4" "(regs s)\<lparr>esp := esp (regs s) - 4\<rparr>" v]
      word_aligned_diff [OF assms(2)] assms(3) unfolding rg by auto
  have "s' = ?s\<lparr>phys := phys s'\<rparr>" by (rule same_but_fields [OF s'(2)])
  also have "\<dots> = s\<lparr>phys := phys s', regs := (regs s)\<lparr>esp := esp (regs s) - 4\<rparr>\<rparr>" by simp
  finally show ?thesis
    using s'(1,3) same_but_region(1) [OF s'(2)] rg by (intro exI [of _ s']) (simp add: push_def Let_def)
qed

lemma pop_ok:
  assumes "runs s m" "span (esp (regs s)) 4 \<subseteq> reg s"
  shows "pop s = Inr (load32 m (esp (regs s)), s\<lparr>regs := (regs s)\<lparr>esp := esp (regs s) + 4\<rparr>\<rparr>)"
  using runs_load32 [OF assms] by (simp add: pop_def)

text \<open>What a switch needs: room on the stack, the argument, and a saved context of the other task.\<close>

definition can_switch :: "'a tasking_scheme \<Rightarrow> (u32 \<Rightarrow> u8) \<Rightarrow> u32 \<Rightarrow> bool" where
  "can_switch s m other \<longleftrightarrow>
     (let e = esp (regs s); k = process_kernel_stack_top (previous_task s); W = span (e - 16) 16 \<union> span k 4;
          top = load32 m (process_kernel_stack_top other) in
      word_aligned e \<and> word_aligned (previous_task s) \<and> span (e - 16) 16 \<subseteq> reg s \<and> span k 4 \<subseteq> reg s \<and>
      span (e + 4) 4 \<subseteq> reg s \<and> span (e + 4) 4 \<inter> W = {} \<and> load32 m (e + 4) = other \<and>
      span (process_kernel_stack_top other) 4 \<subseteq> reg s \<and> span (process_kernel_stack_top other) 4 \<inter> W = {} \<and>
      span (process_page_directory other) 4 \<subseteq> reg s \<and> span (process_page_directory other) 4 \<inter> W = {} \<and>
      load32 m (process_page_directory other) = cr3 s \<and> span top 20 \<subseteq> reg s \<and> span top 20 \<inter> W = {})"

lemma stub_ok:
  assumes r: "runs s m" and c: "can_switch s m other"
  shows "\<exists>s'. switch_to_task_stub s = Inr s' \<and> runs s' (switched (regs s) (previous_task s) m) \<and> reg s' = reg s \<and>
    s' = s\<lparr>phys := phys s', regs := resumed m other\<rparr>"
proof -
  let ?r = "regs s" and ?p = "previous_task s"
  define e where "e = esp ?r"
  define top where "top = load32 m (process_kernel_stack_top other)"
  let ?k = "process_kernel_stack_top ?p"
  have h: "word_aligned e" "word_aligned ?p" "span (e - 16) 16 \<subseteq> reg s" "span ?k 4 \<subseteq> reg s"
    "span (e + 4) 4 \<subseteq> reg s" "span (e + 4) 4 \<inter> (span (e - 16) 16 \<union> span ?k 4) = {}" "load32 m (e + 4) = other"
    "span (process_kernel_stack_top other) 4 \<subseteq> reg s"
    "span (process_kernel_stack_top other) 4 \<inter> (span (e - 16) 16 \<union> span ?k 4) = {}"
    "span (process_page_directory other) 4 \<subseteq> reg s"
    "span (process_page_directory other) 4 \<inter> (span (e - 16) 16 \<union> span ?k 4) = {}"
    "load32 m (process_page_directory other) = cr3 s" "span top 20 \<subseteq> reg s" "span top 20 \<inter> (span (e - 16) 16 \<union> span ?k 4) = {}"
    using c by (simp_all add: can_switch_def Let_def e_def top_def)
  note al = word_aligned_diff [OF h(1)]
  have al4: "word_aligned (e - 4)" "word_aligned (e - 8)" "word_aligned (e - 12)" "word_aligned (e - 16)" using al by simp_all
  have fw: "span (e - 4) 4 \<subseteq> reg s" "span (e - 8) 4 \<subseteq> reg s" "span (e - 12) 4 \<subseteq> reg s" "span (e - 16) 4 \<subseteq> reg s"
    using frame_words [of e] h(3) by blast+
  obtain s1 where s1: "push (ebx ?r) s = Inr s1" "runs s1 (store32 (e - 4) (ebx ?r) m)" "reg s1 = reg s"
    "s1 = s\<lparr>phys := phys s1, regs := ?r\<lparr>esp := e - 4\<rparr>\<rparr>"
    using push_ok [OF r, of "ebx ?r"] h(1) fw(1) by (auto simp: e_def)
  have r1: "regs s1 = ?r\<lparr>esp := e - 4\<rparr>" by (subst s1(4)) simp
  obtain s2 where s2: "push (esi ?r) s1 = Inr s2" "runs s2 (store32 (e - 8) (esi ?r) (store32 (e - 4) (ebx ?r) m))" "reg s2 = reg s"
    "s2 = s1\<lparr>phys := phys s2, regs := ?r\<lparr>esp := e - 8\<rparr>\<rparr>"
    using push_ok [OF s1(2), of "esi ?r"] al4(1) fw(2) s1(3) unfolding r1 by auto
  have r2: "regs s2 = ?r\<lparr>esp := e - 8\<rparr>" by (subst s2(4)) simp
  obtain s3 where s3: "push (edi ?r) s2 = Inr s3"
    "runs s3 (store32 (e - 12) (edi ?r) (store32 (e - 8) (esi ?r) (store32 (e - 4) (ebx ?r) m)))" "reg s3 = reg s"
    "s3 = s2\<lparr>phys := phys s3, regs := ?r\<lparr>esp := e - 12\<rparr>\<rparr>"
    using push_ok [OF s2(2), of "edi ?r"] al4(2) fw(3) s2(3) unfolding r2 by auto
  have r3: "regs s3 = ?r\<lparr>esp := e - 12\<rparr>" by (subst s3(4)) simp
  let ?m4 = "store32 (e - 16) (ebp ?r) (store32 (e - 12) (edi ?r) (store32 (e - 8) (esi ?r) (store32 (e - 4) (ebx ?r) m)))"
  obtain s4 where s4: "push (ebp ?r) s3 = Inr s4" "runs s4 ?m4" "reg s4 = reg s"
    "s4 = s3\<lparr>phys := phys s4, regs := ?r\<lparr>esp := e - 16\<rparr>\<rparr>"
    using push_ok [OF s3(2), of "ebp ?r"] al4(3) fw(4) s3(3) unfolding r3 by auto
  have f4: "s4 = s\<lparr>phys := phys s4, regs := ?r\<lparr>esp := e - 16\<rparr>\<rparr>"
    by (subst s4(4), subst s3(4), subst s2(4), subst s1(4)) simp
  have r4: "regs s4 = ?r\<lparr>esp := e - 16\<rparr>" by (subst s4(4)) simp
  have p4: "previous_task s4 = ?p" by (subst f4) simp
  let ?s5 = "s4\<lparr>regs := ?r\<lparr>esp := e - 16, edi := ?p\<rparr>\<rparr>" and ?m = "switched ?r ?p m"
  have rg5: "reg ?s5 = reg s" using s4(3) by (simp add: region_def)
  have ka: "word_aligned ?k" unfolding process_kernel_stack_top_def
    by (rule word_aligned_plus [OF h(2)]) (simp add: word_aligned_def)
  obtain s6 where s6: "vstore32 ?k (e - 16) ?s5 = Inr s6" "same_but (reg ?s5) ?s5 s6" "runs s6 ?m"
    using runs_store32 [OF runs_regs [OF s4(2)] ka, of "?r\<lparr>esp := e - 16, edi := ?p\<rparr>" "e - 16"] h(4) rg5
    by (auto simp: switched_def e_def)
  have f6: "s6 = s\<lparr>phys := phys s6, regs := ?r\<lparr>esp := e - 16, edi := ?p\<rparr>\<rparr>"
  proof -
    have "s6 = ?s5\<lparr>phys := phys s6\<rparr>" by (rule same_but_fields [OF s6(2)])
    also have "\<dots> = s\<lparr>phys := phys s6, regs := ?r\<lparr>esp := e - 16, edi := ?p\<rparr>\<rparr>" by (subst f4) simp
    finally show ?thesis .
  qed
  have rg6: "reg s6 = reg s" using same_but_region(1) [OF s6(2)] rg5 by simp
  have lds: "load32 ?m a = load32 m a" if "span a 4 \<inter> (span (e - 16) 16 \<union> span ?k 4) = {}" for a
    using that by (intro load32_switched) (auto simp: e_def)
  let ?S = "\<lambda>r. s6\<lparr>regs := r\<rparr>"
  have runs6: "runs (?S r) ?m" and rgS: "reg (?S r) = reg s" for r
    using runs_regs [OF s6(3)] rg6 by (simp_all add: region_def)
  have ld: "vload32 a (?S r) = Inr (load32 m a)" if "span a 4 \<subseteq> reg s" "span a 4 \<inter> (span (e - 16) 16 \<union> span ?k 4) = {}" for a r
    using runs_load32 [OF runs6 [of r], of a] that lds rgS by simp
  have ts: "span (top + word_of_nat j) 4 \<subseteq> span top 20" if "j + 4 \<le> 20" for j using word_span [OF that] by simp
  have tw: "span top 4 \<subseteq> span top 20" "span (top + 4) 4 \<subseteq> span top 20" "span (top + 8) 4 \<subseteq> span top 20"
    "span (top + 12) 4 \<subseteq> span top 20" "span (top + 16) 4 \<subseteq> span top 20"
    using ts [of 0] ts [of 4] ts [of 8] ts [of 12] ts [of 16] by simp_all
  have pops: "vload32 a (?S r) = Inr (load32 m a)" if "span a 4 \<subseteq> span top 20" for a r
    using that h(13,14) by (intro ld) blast+
  have pops': "vload32 (8 + top) (?S r) = Inr (load32 m (top + 8))" "vload32 (12 + top) (?S r) = Inr (load32 m (top + 12))"
    "vload32 (16 + top) (?S r) = Inr (load32 m (top + 16))" for r
    using pops [OF tw(3), of r] pops [OF tw(4), of r] pops [OF tw(5), of r] by (simp_all add: add.commute)
  have c6: "cr3 s6 = cr3 s" by (subst f6) simp
  have r6: "regs s6 = ?r\<lparr>esp := e - 16, edi := ?p\<rparr>" by (subst f6) simp
  have S6: "s6 = ?S (?r\<lparr>esp := e - 16, edi := ?p\<rparr>)" by (simp add: r6 [symmetric])
  have arg: "vload32 (e + 4) s6 = Inr other" using ld [OF h(5,6), of "regs s6"] h(7) by simp
  then have arg': "vload32 (4 + e) s6 = Inr other" by (simp add: add.commute)
  have tp: "vload32 (other + 0x18) (?S r) = Inr top" and pdir: "vload32 (other + 0x1C) (?S r) = Inr (cr3 s)" for r
    using ld [OF h(8,9), of r] ld [OF h(10,11), of r] h(12)
    by (simp_all add: process_kernel_stack_top_def process_page_directory_def top_def)
  have push4: "push (esi (regs s1)) s1 = Inr s2" "push (edi (regs s2)) s2 = Inr s3" "push (ebp (regs s3)) s3 = Inr s4"
    using s2(1) s3(1) s4(1) by (simp_all add: r1 r2 r3)
  have st: "vstore32 (?p + 0x18) (e - 16) (s4\<lparr>regs := ?r\<lparr>esp := e - 16, edi := ?p\<rparr>\<rparr>) = Inr s6"
    using s6(1) by (simp add: process_kernel_stack_top_def)
  have "switch_to_task_stub s = Inr (?S (resumed m other))"
    unfolding switch_to_task_stub_def
    using s1(1) push4 st arg arg' tp pdir pops pops' tw
    by (simp add: Let_def pop_def r4 p4 r6 c6 resumed_def add.commute flip: top_def)
  moreover have "runs (?S (resumed m other)) ?m" "reg (?S (resumed m other)) = reg s" by (rule runs6, rule rgS)
  moreover have "?S (resumed m other) = s\<lparr>phys := phys (?S (resumed m other)), regs := resumed m other\<rparr>"
    by (subst (1) f6) simp
  ultimately show ?thesis by blast
qed

lemma runs_task:
  "runs s m \<Longrightarrow> runs (s\<lparr>last_time := t\<rparr>) m" "runs s m \<Longrightarrow> runs (s\<lparr>previous_task := p, current_task := c\<rparr>) m"
  "runs s m \<Longrightarrow> runs (s\<lparr>ready_to_run := q\<rparr>) m" "runs s m \<Longrightarrow> runs (s\<lparr>terminated := q\<rparr>) m"
  by (rule runs_cong; simp)+

lemma reg_task:
  "reg (s\<lparr>last_time := t\<rparr>) = reg s" "reg (s\<lparr>previous_task := p, current_task := c\<rparr>) = reg s"
  "reg (s\<lparr>ready_to_run := q\<rparr>) = reg s" "reg (s\<lparr>terminated := q\<rparr>) = reg s" "reg (s\<lparr>regs := r\<rparr>) = reg s"
  by (simp_all add: region_def)

lemma store_ok:
  assumes "runs s m" "word_aligned a" "span a 4 \<subseteq> reg s"
  shows "\<exists>s'. vstore32 a v s = Inr s' \<and> s' = s\<lparr>phys := phys s'\<rparr> \<and> runs s' (store32 a v m) \<and> reg s' = reg s"
  using runs_store32 [OF assms, of v] same_but_fields same_but_region(1) by blast

lemma update_time_ok:
  assumes r: "runs s m" and c: "word_aligned (process_time_used (current_task s))" "span (process_time_used (current_task s)) 4 \<subseteq> reg s"
  shows "\<exists>s' v. update_time s = Inr s' \<and> s' = s\<lparr>phys := phys s', last_time := ticks s\<rparr> \<and> reg s' = reg s \<and>
    runs s' (store32 (process_time_used (current_task s)) v m)"
proof -
  let ?a = "process_time_used (current_task s)" and ?s = "s\<lparr>last_time := ticks s\<rparr>"
  define v where "v = load32 m ?a + elapsed_time (last_time s) (ticks s)"
  have ld: "vload32 ?a ?s = Inr (load32 m ?a)"
    using runs_load32 [OF runs_task(1) [OF r], of ?a "ticks s"] c(2) by (simp add: reg_task)
  obtain s' where s': "vstore32 ?a v ?s = Inr s'" "s' = ?s\<lparr>phys := phys s'\<rparr>" "runs s' (store32 ?a v m)" "reg s' = reg s"
    using store_ok [OF runs_task(1) [OF r] c(1), of "ticks s" v] c(2) by (auto simp: reg_task)
  have "s' = s\<lparr>phys := phys s', last_time := ticks s\<rparr>" by (rule trans [OF s'(2)]) simp
  then show ?thesis
    using s' ld by (intro exI [of _ s'] exI [of _ v]) (simp add: update_time_def read_timer_def Let_def v_def)
qed

lemma switch_ok:
  assumes r: "runs s m" and c: "c = current_task s" "word_aligned c" "pcb c \<subseteq> reg s"
    and e: "word_aligned (esp (regs s))" "span (esp (regs s) - 24) 24 \<subseteq> S" "S \<subseteq> reg s" "S \<inter> pcb c = {}"
    and o: "pcb other \<subseteq> reg s" "pcb other \<inter> (S \<union> pcb c) = {}" "load32 m (process_page_directory other) = cr3 s"
      "span (load32 m (process_kernel_stack_top other)) 20 \<subseteq> reg s"
      "span (load32 m (process_kernel_stack_top other)) 20 \<inter> (S \<union> pcb c) = {}"
  shows "\<exists>s' m'. switch_to_task other s = Inr s' \<and> runs s' m' \<and> reg s' = reg s \<and>
    s' = s\<lparr>phys := phys s', last_time := ticks s, previous_task := c, current_task := other, regs := resumed m other\<rparr> \<and>
    resumed m' c = (regs s)\<lparr>esp := esp (regs s) - 4, eip := switch_return s\<rparr> \<and>
    load32 m' (process_kernel_stack_top c) = esp (regs s) - 24 \<and>
    (\<forall>x. x \<notin> S \<union> span (process_time_used c) 4 \<union> span (process_kernel_stack_top c) 4 \<longrightarrow> m' x = m x)"
proof -
  let ?e = "esp (regs s)" and ?k = "process_kernel_stack_top c" and ?o = "process_kernel_stack_top other"
  define top where "top = load32 m ?o"
  note fc = pcb_fields [of c] and fo = pcb_fields [of other] and ac = pcb_aligned [OF c(2)] and ae = word_aligned_diff [OF e(1)]
  obtain s1 v where s1: "update_time s = Inr s1" "s1 = s\<lparr>phys := phys s1, last_time := ticks s\<rparr>" "reg s1 = reg s"
    "runs s1 (store32 (process_time_used c) v m)"
    using update_time_ok [OF r, unfolded c(1) [symmetric]] ac(5) fc(5) c(3) by blast
  let ?s2 = "s1\<lparr>previous_task := c, current_task := other\<rparr>" and ?m1 = "store32 (process_time_used c) v m"
  have r2: "regs ?s2 = regs s" "current_task s1 = c" by (subst s1(2), simp add: c(1))+
  have E: "span (?e - 24 + word_of_nat j) n \<subseteq> S" if "j + n \<le> 24" for j n
    using span_sub [OF that, of "?e - 24"] e(2) by auto
  have es: "span (?e - 4) 4 \<subseteq> S" "span (?e - 8) 4 \<subseteq> S" "span (?e - 24) 16 \<subseteq> S" "span (?e - 24) 20 \<subseteq> S"
    using E [of 20 4] E [of 16 4] E [of 0 16] E [of 0 20] by simp_all
  obtain s3 where s3: "push other ?s2 = Inr s3" "runs s3 (store32 (?e - 4) other ?m1)" "reg s3 = reg s"
    "s3 = ?s2\<lparr>phys := phys s3, regs := (regs s)\<lparr>esp := ?e - 4\<rparr>\<rparr>"
    using push_ok [OF runs_task(2) [OF s1(4)], of other c other] e(1,3) es(1) s1(3) unfolding r2 by (auto simp: reg_task)
  have r3: "regs s3 = (regs s)\<lparr>esp := ?e - 4\<rparr>" "switch_return s3 = switch_return s"
    by (subst s3(4), simp, subst s3(4), subst s1(2), simp)
  obtain s4 where s4: "push (switch_return s) s3 = Inr s4" "runs s4 (store32 (?e - 8) (switch_return s) (store32 (?e - 4) other ?m1))"
    "reg s4 = reg s" "s4 = s3\<lparr>phys := phys s4, regs := (regs s)\<lparr>esp := ?e - 8\<rparr>\<rparr>"
    using push_ok [OF s3(2), of "switch_return s"] ae e(3) es(2) s3(3) unfolding r3 by auto
  let ?m3 = "store32 (?e - 8) (switch_return s) (store32 (?e - 4) other ?m1)"
  have f4: "s4 = s\<lparr>phys := phys s4, last_time := ticks s, previous_task := c, current_task := other, regs := (regs s)\<lparr>esp := ?e - 8\<rparr>\<rparr>"
    by (subst s4(4), subst s3(4), subst s1(2)) simp
  have r4: "regs s4 = (regs s)\<lparr>esp := ?e - 8\<rparr>" "previous_task s4 = c" "cr3 s4 = cr3 s"
    by (subst f4, simp)+
  have m3: "?m3 x = m x" if "x \<notin> S" "x \<notin> span (process_time_used c) 4" for x
  proof -
    have "x \<notin> span (?e - 4) 4" "x \<notin> span (?e - 8) 4" using that(1) es by blast+
    then show ?thesis using that(2) by (simp add: store32_outside)
  qed
  have m3o: "?m3 x = m x" if "x \<in> pcb other \<or> x \<in> span top 20" for x
    using that o(2,5) fc(5) by (intro m3) (auto simp: top_def)
  have lo: "load32 ?m3 ?o = top" "load32 ?m3 (process_page_directory other) = cr3 s"
    unfolding top_def o(3) [symmetric] by (rule load32_span_cong, rule m3o, use fo in blast)+
  have arg: "load32 ?m3 (?e - 4) = other"
    using ae by (simp add: load_store32_other)
  have ret: "load32 ?m3 (?e - 8) = switch_return s" by simp
  have ea: "span (?e - 4) 4 \<inter> span (?e - 24) 16 = {}" using span_apart [of 16 20 4 "?e - 24"] by simp
  have cs: "can_switch s4 ?m3 other"
    unfolding can_switch_def Let_def r4 lo
    using ae c(2,3) e(3,4) es fc fo o ea arg s4(3)
    by (auto simp: top_def)
  obtain s5 where s5: "switch_to_task_stub s4 = Inr s5" "runs s5 (switched (regs s4) c ?m3)" "reg s5 = reg s"
    "s5 = s4\<lparr>phys := phys s5, regs := resumed ?m3 other\<rparr>"
    using stub_ok [OF s4(2) cs] unfolding s4(3) r4(2) by blast
  let ?m' = "switched (regs s4) c ?m3"
  have res: "resumed ?m3 other = resumed m other"
    by (rule resumed_cong) (use m3o fo in \<open>auto simp: top_def\<close>)
  have f5: "s5 = s\<lparr>phys := phys s5, last_time := ticks s, previous_task := c, current_task := other, regs := resumed m other\<rparr>"
    by (subst s5(4), subst f4) (simp add: res)
  have kd: "span ?k 4 \<inter> span (?e - 24) 20 = {}" using fc(1) es(4) e(4) by blast
  have saved: "resumed ?m' c = (regs s)\<lparr>esp := ?e - 4, eip := switch_return s\<rparr>"
    using resumed_switched [of "regs s4" c ?m3] ae c(2) kd ret r4(1) by simp
  have top': "load32 ?m' ?k = ?e - 24" using r4(1) by (simp add: switched_def)
  have "?m' x = m x" if "x \<notin> S \<union> span (process_time_used c) 4 \<union> span ?k 4" for x
    using that es(3) m3 [of x] switched_outside [of x "regs s4" c ?m3] r4(1) by auto
  moreover have "switch_to_task other s = Inr s5"
    using s1(1) s3(1) s4(1) s5(1) r2(2) r3(2) by (simp add: switch_to_task_def Let_def)
  ultimately show ?thesis using s5(2,3) f5 saved top' by blast
qed

text \<open>One pass of the scheduler over a queue of at least two processes.\<close>

lemma schedule_ok:
  assumes r: "runs s m" and q: "queue_inv (reg s) stk (c # n # rest) s m" and rm: "room stk s"
  shows "\<exists>s' m'. schedule s = Inr s' \<and> runs s' m' \<and> reg s' = reg s \<and> queue_inv (reg s) stk (n # rest @ [c]) s' m' \<and>
    regs s' = resumed m n \<and> resumed m' c = (regs s)\<lparr>esp := esp (regs s) - 4, eip := switch_return s\<rparr> \<and>
    (\<forall>p\<in>set rest. resumed m' p = resumed m p) \<and> load32 m' (process_state c) = READY_TO_RUN \<and>
    (\<forall>x. (\<forall>p\<in>set (c # n # rest). x \<notin> task_writes stk p) \<longrightarrow> m' x = m x) \<and>
    s' = s\<lparr>phys := phys s', last_time := ticks s, previous_task := c, current_task := n, regs := regs s', ready_to_run := \<lparr>head = n, tail = c\<rparr>\<rparr>"
proof -
  let ?ts = "c # n # rest"
  define l where "l = last (n # rest)"
  let ?m3 = "requeue c l m" and ?S = "span (stk c) 4096"
  have h: "distinct ?ts" "current_task s = c" "tail (ready_to_run s) = l" "links m ?ts 0"
    using queue_inv_list [OF q] by (simp_all add: l_def)
  note P = queue_inv_process [OF q] and PQ = queue_inv_apart [OF q] and lc = last_of_rest [OF q, folded l_def]
  have cts: "c \<in> set ?ts" "n \<in> set ?ts" "l \<in> set ?ts" using lc by auto
  have nz: "n \<noteq> 0" "n \<noteq> c" using P(1) [OF cts(2)] h(1) by auto
  have ld: "vload32 (process_next_task c) s = Inr n"
    using runs_load32 [OF r, of "process_next_task c"] pcb_fields(3) [of c] P(3) [OF cts(1)] h(4) by auto
  obtain s2 where s2: "vstore32 (process_state c) READY_TO_RUN (s\<lparr>ready_to_run := (ready_to_run s)\<lparr>head := n\<rparr>\<rparr>) = Inr s2"
    "s2 = s\<lparr>ready_to_run := (ready_to_run s)\<lparr>head := n\<rparr>, phys := phys s2\<rparr>"
    "runs s2 (store32 (process_state c) READY_TO_RUN m)" "reg s2 = reg s"
    using store_ok [OF runs_task(3) [OF r], of "process_state c" "(ready_to_run s)\<lparr>head := n\<rparr>" READY_TO_RUN]
      pcb_aligned(4) [of c] pcb_fields(4) [of c] P [OF cts(1)]
    by (auto simp: reg_task)
  obtain s3 where s3: "vstore32 (process_next_task l) c s2 = Inr s3" "s3 = s2\<lparr>phys := phys s3\<rparr>"
    "runs s3 (store32 (process_next_task l) c (store32 (process_state c) READY_TO_RUN m))" "reg s3 = reg s"
    using store_ok [OF s2(3), of "process_next_task l" c] pcb_aligned(3) [of l] pcb_fields(3) [of l] P [OF cts(3)] s2(4) by auto
  obtain s4 where s4: "vstore32 (process_next_task c) 0 s3 = Inr s4" "s4 = s3\<lparr>phys := phys s4\<rparr>" "runs s4 ?m3" "reg s4 = reg s"
    using store_ok [OF s3(3), of "process_next_task c" 0] pcb_aligned(3) [of c] pcb_fields(3) [of c] P [OF cts(1)] s3(4)
    by (auto simp: requeue_def)
  let ?s5 = "s4\<lparr>ready_to_run := \<lparr>head = n, tail = c\<rparr>\<rparr>"
  have f4: "s4 = s\<lparr>phys := phys s4, ready_to_run := (ready_to_run s)\<lparr>head := n\<rparr>\<rparr>"
    by (subst s4(2), subst s3(2), subst s2(2)) simp
  have f2: "ready_to_run s2 = (ready_to_run s)\<lparr>head := n\<rparr>" "current_task s2 = c" by (subst s2(2), simp add: h(2))+
  have f5: "regs ?s5 = regs s" "current_task ?s5 = c" "cr3 ?s5 = cr3 s" "ticks ?s5 = ticks s" "switch_return ?s5 = switch_return s"
    by (simp, subst f4, simp add: h(2))+
  have run: "schedule s = switch_to_task n ?s5"
    using ld s2(1) s3(1) s4(1) nz f2 h(2,3) by (simp add: schedule_def Let_def enqueue_task_def)
  note load3 = requeue_load [OF q, folded l_def]
  have pn: "pcb n \<inter> (?S \<union> pcb c) = {}" using PQ(1) [OF cts(2,1)] PQ(2) [OF cts(2,1) nz(2)] by blast
  have tn: "span (load32 ?m3 (process_kernel_stack_top n)) 20 \<subseteq> reg s"
    "span (load32 ?m3 (process_kernel_stack_top n)) 20 \<inter> (?S \<union> pcb c) = {}"
    using queue_inv_saved [OF q, of n] P(4) [OF cts(2)] PQ(1) [OF cts(1,2)] PQ(3) [OF cts(2,1) nz(2)] load3 [OF cts(2)] by auto
  have rs5: "runs ?s5 ?m3" "reg ?s5 = reg s" using runs_task(3) [OF s4(3)] s4(4) by (simp_all add: reg_task)
  have rm': "word_aligned (esp (regs s))" "span (esp (regs s) - 24) 24 \<subseteq> ?S" using rm h(2) by (simp_all add: room_def)
  have Sc: "?S \<inter> pcb c = {}" "?S \<subseteq> reg s" using PQ(1) [OF cts(1,1)] P(4) [OF cts(1)] by blast+
  have dn: "load32 ?m3 (process_page_directory n) = cr3 s" using load3 [OF cts(2)] P(5) [OF cts(2)] by simp
  obtain s' m' where s': "switch_to_task n ?s5 = Inr s'" "runs s' m'" "reg s' = reg s"
    "s' = ?s5\<lparr>phys := phys s', last_time := ticks s, previous_task := c, current_task := n, regs := resumed ?m3 n\<rparr>"
    "resumed m' c = (regs s)\<lparr>esp := esp (regs s) - 4, eip := switch_return s\<rparr>"
    "load32 m' (process_kernel_stack_top c) = esp (regs s) - 24"
    "\<forall>x. x \<notin> ?S \<union> span (process_time_used c) 4 \<union> span (process_kernel_stack_top c) 4 \<longrightarrow> m' x = ?m3 x"
    using switch_ok [OF rs5(1) f5(2) [symmetric], unfolded f5 rs5(2), OF P(2,3) [OF cts(1)] rm' Sc(2,1) P(3) [OF cts(2)] pn dn tn]
    by blast
  have o: "only_task stk c (requeue c (last (n # rest)) m) m'" using s'(7) by (simp add: only_task_def l_def)
  have res: "resumed ?m3 n = resumed m n" using requeue_resumed [OF q, of n] by (simp add: l_def)
  have f': "cr3 s' = cr3 s" "ready_to_run s' = \<lparr>head = n, tail = c\<rparr>" "current_task s' = n" "regs s' = resumed m n"
    by (subst s'(4), simp add: f5(3) [simplified] res)+
  have "span (esp (regs s) - 24) 20 \<subseteq> span (esp (regs s) - 24) 24" by (rule span_mono) simp
  then have top: "span (load32 m' (process_kernel_stack_top c)) 20 \<subseteq> ?S" using s'(6) rm'(2) by simp
  have eq: "s' = s\<lparr>phys := phys s', last_time := ticks s, previous_task := c, current_task := n, regs := regs s', ready_to_run := \<lparr>head = n, tail = c\<rparr>\<rparr>"
    by (subst (1) s'(4), subst (1) f4) (simp add: f'(4) res)
  have fr: "\<forall>x. (\<forall>p\<in>set ?ts. x \<notin> task_writes stk p) \<longrightarrow> m' x = m x"
  proof (intro allI impI)
    fix x assume "\<forall>p\<in>set ?ts. x \<notin> task_writes stk p"
    then have "x \<notin> task_writes stk c" "x \<notin> task_writes stk l" using cts by blast+
    then have "m' x = ?m3 x" "?m3 x = m x"
      using s'(7) requeue_outside [of x c l m] unfolding task_writes_def by blast+
    then show "m' x = m x" by simp
  qed
  have sch: "schedule s = Inr s'" and rest: "\<forall>p\<in>set rest. resumed m' p = resumed m p"
    using run s'(1) requeue_rest [OF q o] by simp_all
  show ?thesis
    by (intro exI [of _ s'] exI [of _ m'] conjI sch s'(2,3,5) f'(4) requeue_inv [OF q o top f'(3,2,1)] rest requeue_state [OF q o] fr eq)
qed

end

end
