(* ===== verification/Round_Robin.thy ===== *)
theory Round_Robin
  imports Scheduler
begin

text \<open>
  The scheduler as a round-robin pool of tasks: the abstract pool, the proof that \<open>schedule\<close> implements
  it on the running kernel, and what follows for runs of several tasks.
\<close>

unbundle bit_operations_syntax

section \<open>The abstract pool\<close>

record task_pool =
  queue :: "u32 list"
  running :: registers
  contexts :: "u32 \<Rightarrow> registers"

text \<open>The context a task resumes with behind its call of the switch.\<close>

definition saved :: "u32 \<Rightarrow> registers \<Rightarrow> registers" where
  "saved ret r = r\<lparr>esp := esp r - 4, eip := ret\<rparr>"

definition round_robin :: "u32 \<Rightarrow> task_pool \<Rightarrow> task_pool" where
  "round_robin ret a = (case queue a of
     c # n # rest \<Rightarrow> a\<lparr>queue := n # rest @ [c], running := contexts a n, contexts := (contexts a)(c := saved ret (running a))\<rparr>
   | _ \<Rightarrow> a)"

text \<open>A run: each turn ends with the registers in the list at its call of the scheduler.\<close>

fun pool_run :: "u32 \<Rightarrow> registers list \<Rightarrow> task_pool \<Rightarrow> task_pool" where
  "pool_run ret [] a = a"
| "pool_run ret (r # rs) a = pool_run ret rs (round_robin ret (a\<lparr>running := r\<rparr>))"

lemma pool_run_append: "pool_run ret (rs @ rs') a = pool_run ret rs' (pool_run ret rs a)"
  by (induction rs arbitrary: a) simp_all

lemma queue_round_robin: "queue (round_robin ret a) = rotate1 (queue a)"
  by (simp add: round_robin_def split: list.splits)

lemma queue_pool_run: "queue (pool_run ret rs a) = rotate (length rs) (queue a)"
  by (induction rs arbitrary: a) (simp_all add: queue_round_robin rotate1_rotate_swap)

lemma round_robin_behind:
  assumes "distinct (queue a)" "0 < i" "i < length (queue a)"
  shows "contexts (round_robin ret a) (queue a ! i) = contexts a (queue a ! i)"
    and "i = 1 \<Longrightarrow> running (round_robin ret a) = contexts a (queue a ! i)"
    and "queue (round_robin ret a) ! (i - 1) = queue a ! i"
proof -
  obtain c n rest where q: "queue a = c # n # rest"
    using assms(2,3) by (cases "queue a"; cases "tl (queue a)") auto
  have "queue a ! i \<noteq> queue a ! 0" using assms by (subst nth_eq_iff_index_eq) auto
  then show "contexts (round_robin ret a) (queue a ! i) = contexts a (queue a ! i)"
    by (simp add: round_robin_def q)
  show "i = 1 \<Longrightarrow> running (round_robin ret a) = contexts a (queue a ! i)" by (simp add: round_robin_def q)
  show "queue (round_robin ret a) ! (i - 1) = queue a ! i"
    using assms(2,3) by (cases i) (auto simp: round_robin_def q nth_Cons nth_append split: nat.splits)
qed

lemma pool_run_reaches:
  "distinct (queue a) \<Longrightarrow> 0 < length rs \<Longrightarrow> length rs < length (queue a) \<Longrightarrow>
   running (pool_run ret rs a) = contexts a (queue a ! length rs)"
proof (induction rs arbitrary: a)
  case (Cons r rs)
  let ?a = "a\<lparr>running := r\<rparr>" and ?i = "length (r # rs)"
  note b = round_robin_behind [of ?a ?i ret]
  show ?case
  proof (cases rs)
    case Nil
    then show ?thesis using b(2) Cons.prems by simp
  next
    case (Cons r' rs')
    have "running (pool_run ret rs (round_robin ret ?a)) = contexts (round_robin ret ?a) (queue (round_robin ret ?a) ! length rs)"
      using Cons.prems local.Cons by (intro Cons.IH) (simp_all add: queue_round_robin)
    then show ?thesis using b(1,3) Cons.prems by simp
  qed
qed simp

text \<open>A task gets the processor back after one turn of each other task, with the context it left.\<close>

lemma pool_run_resumes:
  assumes d: "distinct (queue a)" and n: "n = length (queue a)" "2 \<le> n" "n \<le> length rs"
  shows "running (pool_run ret rs a) = saved ret (rs ! (length rs - n))"
proof -
  let ?k = "length rs - n"
  define b where "b = pool_run ret (take ?k rs) a"
  have q: "distinct (queue b)" "length (queue b) = n" using d n(1) by (simp_all add: b_def queue_pool_run)
  obtain c d' rest where cq: "queue b = c # d' # rest"
    using q(2) n(2) by (cases "queue b"; cases "tl (queue b)") auto
  let ?b = "round_robin ret (b\<lparr>running := rs ! ?k\<rparr>)" and ?rest = "drop (Suc ?k) rs"
  have rs: "rs = take ?k rs @ rs ! ?k # ?rest" using n by (intro id_take_nth_drop) simp
  have l: "length ?rest = n - 1" using n by simp
  have qb: "queue ?b = d' # rest @ [c]" "contexts ?b c = saved ret (rs ! ?k)"
    by (simp_all add: round_robin_def cq)
  have "pool_run ret rs a = pool_run ret ?rest ?b"
    by (subst rs) (simp add: pool_run_append b_def)
  also have "running \<dots> = contexts ?b (queue ?b ! length ?rest)"
    using q cq n(2) l qb(1) by (intro pool_run_reaches) auto
  also have "queue ?b ! length ?rest = c"
  proof -
    have "length ?rest = Suc (length rest)" using l q(2) cq by simp
    then show ?thesis unfolding qb(1) by (simp add: nth_append)
  qed
  finally show ?thesis using qb(2) by simp
qed

section \<open>The pool in the memory of the running kernel\<close>

interpretation tk: task_memory heap_inv kernel_data "0xF000000" "0x11000000"
  by unfold_locales

definition tasks_at :: "(u32 \<Rightarrow> u32) \<Rightarrow> 'a tasking_scheme \<Rightarrow> task_pool \<Rightarrow> bool" where
  "tasks_at stk s a \<longleftrightarrow> heap_inv s \<and> queue_inv (kernel_region s) stk (queue a) s (vview s) \<and> regs s = running a \<and>
     (\<forall>p\<in>set (tl (queue a)). resumed (vview s) p = contexts a p)"

lemma queue_inv_cong:
  assumes q: "queue_inv D stk ts s m" and D: "D \<subseteq> D'"
    and s': "current_task s' = current_task s" "ready_to_run s' = ready_to_run s" "cr3 s' = cr3 s"
    and m': "\<And>p x. p \<in> set ts \<Longrightarrow> x \<in> pcb p \<Longrightarrow> m' x = m x"
  shows "queue_inv D' stk ts s' m'"
proof -
  have ld: "load32 m' a = load32 m a" if "p \<in> set ts" "span a 4 \<subseteq> pcb p" for p a
    using m' [OF that(1)] that(2) by (intro load32_span_cong) blast
  have "links m' ts 0"
    using queue_inv_list(6) [OF q] by (rule links_cong) (use ld pcb_fields in blast)
  moreover have "load32 m' (process_page_directory p) = cr3 s" if "p \<in> set ts" for p
    using ld [OF that] pcb_fields(2) queue_inv_process(5) [OF q that] by auto
  moreover have "span (load32 m' (process_kernel_stack_top p)) 20 \<subseteq> span (stk p) 4096" if "p \<in> set (tl ts)" for p
    using ld [OF list.set_sel(2) [OF queue_inv_list(1) [OF q] that]] pcb_fields(1) queue_inv_saved [OF q that] by auto
  ultimately show ?thesis
    unfolding queue_inv_def s'
    using queue_inv_list [OF q] queue_inv_process(1,2) [OF q] order_trans [OF queue_inv_process(3) [OF q] D]
      order_trans [OF queue_inv_process(4) [OF q] D] queue_inv_apart [OF q]
    by (intro conjI ballI impI) simp_all
qed

lemma resumed_keep:
  assumes q: "queue_inv D stk ts s m" "p \<in> set (tl ts)"
    and m': "\<And>x. x \<in> pcb p \<union> span (stk p) 4096 \<Longrightarrow> m' x = m x"
  shows "resumed m' p = resumed m p"
  using queue_inv_saved [OF q] pcb_fields(1) [of p] by (intro resumed_cong m') blast+

lemma tasks_at_runs:
  assumes "kh.runs s m" "queue_inv (kernel_region s) stk (queue a) s m" "regs s = running a"
    "\<forall>p\<in>set (tl (queue a)). resumed m p = contexts a p"
  shows "tasks_at stk s a"
proof -
  have v: "heap_inv s" "vview s x = m x" if "x \<in> kernel_region s" for x
    using assms(1) that by (simp_all add: kh.runs_def holds_def)
  have h: "heap_inv s" using assms(1) by (simp add: kh.runs_def)
  note P = queue_inv_process(3,4) [OF assms(2)]
  have "queue_inv (kernel_region s) stk (queue a) s (vview s)"
    using P(1) v(2) by (intro queue_inv_cong [OF assms(2)]) auto
  moreover have "resumed (vview s) p = contexts a p" if p: "p \<in> set (tl (queue a))" for p
  proof -
    have "p \<in> set (queue a)" using p queue_inv_list(1) [OF assms(2)] by (rule list.set_sel(2) [rotated])
    then have "resumed (vview s) p = resumed m p"
      using P v(2) by (intro resumed_keep [OF assms(2) p]) blast
    then show ?thesis using assms(4) p by simp
  qed
  ultimately show ?thesis using h assms(3) by (simp add: tasks_at_def)
qed

lemma schedule_pool:
  assumes "tasks_at stk s a" "room stk s"
  shows "\<exists>s'. schedule s = Inr s' \<and> tasks_at stk s' (round_robin (switch_return s) a) \<and> switch_return s' = switch_return s \<and>
    s' = s\<lparr>phys := phys s', last_time := last_time s', previous_task := previous_task s', current_task := current_task s',
      regs := regs s', ready_to_run := ready_to_run s'\<rparr> \<and>
    (\<forall>x\<in>kernel_region s. (\<forall>p\<in>set (queue a). x \<notin> task_writes stk p) \<longrightarrow> vview s' x = vview s x)"
proof -
  have h: "heap_inv s" "queue_inv (kernel_region s) stk (queue a) s (vview s)" "regs s = running a"
    "\<forall>p\<in>set (tl (queue a)). resumed (vview s) p = contexts a p"
    using assms(1) by (simp_all add: tasks_at_def)
  have r: "kh.runs s (vview s)" by (rule kh.runs_view [OF h(1)])
  consider c where "queue a = [c]" | c n rest where "queue a = c # n # rest"
    using queue_inv_list(1) [OF h(2)] by (cases "queue a"; cases "tl (queue a)") auto
  then show ?thesis
  proof cases
    case (1 c)
    have c: "c \<in> set (queue a)" "current_task s = c" "load32 (vview s) (process_next_task c) = 0"
      using 1 queue_inv_list [OF h(2)] by simp_all
    then have "vload32 (process_next_task c) s = Inr 0"
      using kh.runs_load32 [OF r, of "process_next_task c"] queue_inv_process(3) [OF h(2) c(1)] pcb_fields(3) [of c] by auto
    then have "schedule s = Inr s" using c by (simp add: schedule_def)
    then show ?thesis using assms(1) 1 by (simp add: round_robin_def)
  next
    case (2 c n rest)
    obtain s' m' where s': "schedule s = Inr s'" "kh.runs s' m'" "kernel_region s' = kernel_region s"
      "queue_inv (kernel_region s) stk (n # rest @ [c]) s' m'" "regs s' = resumed (vview s) n"
      "resumed m' c = (regs s)\<lparr>esp := esp (regs s) - 4, eip := switch_return s\<rparr>"
      "\<forall>p\<in>set rest. resumed m' p = resumed (vview s) p"
      "\<forall>x. (\<forall>p\<in>set (c # n # rest). x \<notin> task_writes stk p) \<longrightarrow> m' x = vview s x"
      "s' = s\<lparr>phys := phys s', last_time := ticks s, previous_task := c, current_task := n, regs := regs s', ready_to_run := \<lparr>head = n, tail = c\<rparr>\<rparr>"
      using tk.schedule_ok [OF r h(2) [unfolded 2] assms(2)] by (elim exE conjE) rule
    let ?a = "round_robin (switch_return s) a"
    have q': "queue ?a = n # rest @ [c]" "running ?a = contexts a n"
      "contexts ?a = (contexts a)(c := saved (switch_return s) (running a))" by (simp_all add: round_robin_def 2)
    have "c \<notin> set rest" using queue_inv_list(2) [OF h(2)] 2 by simp
    then have "\<forall>p\<in>set (tl (queue ?a)). resumed m' p = contexts ?a p"
      using s'(6,7) h(3,4) unfolding q' by (auto simp: saved_def 2)
    moreover have "regs s' = running ?a" using s'(5) h(4) by (simp add: q' 2)
    ultimately have "tasks_at stk s' ?a"
      using s'(2,4) by (intro tasks_at_runs [of _ m']) (simp_all only: q'(1) s'(3))
    moreover have "s' = s\<lparr>phys := phys s', last_time := last_time s', previous_task := previous_task s', current_task := current_task s',
      regs := regs s', ready_to_run := ready_to_run s'\<rparr>"
    proof -
      have "last_time s' = ticks s" "previous_task s' = c" "current_task s' = n" "ready_to_run s' = \<lparr>head = n, tail = c\<rparr>"
        by (subst s'(9), simp)+
      then show ?thesis using s'(9) by simp
    qed
    moreover have "switch_return s' = switch_return s" by (subst s'(9)) simp
    moreover have "\<forall>x\<in>kernel_region s. (\<forall>p\<in>set (queue a). x \<notin> task_writes stk p) \<longrightarrow> vview s' x = vview s x"
      using s'(2,3,8) by (simp add: kh.runs_def holds_def 2)
    ultimately show ?thesis using s'(1) by (intro exI [of _ s'] conjI)
  qed
qed

text \<open>A concrete kernel with two tasks, for the witnesses.\<close>

lemma same_tasking:
  "mm.more s = mm.more t \<Longrightarrow> regs s = regs t \<and> previous_task s = previous_task t \<and> current_task s = current_task t \<and>
   ready_to_run s = ready_to_run t \<and> terminated s = terminated t \<and> next_available_pid s = next_available_pid t \<and>
   switch_return s = switch_return t \<and> task1_fn s = task1_fn t \<and> task2_fn s = task2_fn t \<and> literal_name s = literal_name t"
  by (cases s, cases t) simp

definition boot_tasking :: "u32 \<Rightarrow> list_t \<Rightarrow> tasking" where
  "boot_tasking task q = cpu.extend boot_cpu (tasking.fields
     \<lparr>ebx = 1, esi = 2, edi = 3, ebp = 4, esp = 0x130800, eip = 5\<rparr> 0 task q \<lparr>head = 0, tail = 0\<rparr> \<lparr>head = 0, tail = 0\<rparr>
     \<lparr>head = 0, tail = 0\<rparr> 0 0 0x105000 0x106000 0x107000 0x110000)"

definition pair_words :: "u32 \<Rightarrow> (u32 \<times> u32) list" where
  "pair_words pid = [(0x120000, pid), (0x120018, 0), (0x12001C, 0x200000), (0x120020, 0x120040),
     (0x120058, 0x140800), (0x12005C, 0x200000), (0x120060, 0)]"

definition pair_stk :: "u32 \<Rightarrow> u32" where
  "pair_stk p = (if p = 0x120000 then 0x130000 else 0x140000)"

lemma pair_tasks:
  "\<exists>(s :: tasking) a. tasks_at pair_stk s a \<and> queue a = [0x120000, 0x120040] \<and> room pair_stk s \<and> mm.more s = mm.more (boot_tasking 0x120000 \<lparr>head = 0x120000, tail = 0x120040\<rparr>) \<and>
     esp (contexts a 0x120040) = 0x140814 \<and> load32 (vview s) 0x120000 = pid"
proof -
  let ?t = "boot_tasking 0x120000 \<lparr>head = 0x120000, tail = 0x120040\<rparr>"
  have "\<forall>(a, v)\<in>set (pair_words pid). word_aligned a \<and> 0x100000 \<le> unat a \<and> unat a + 4 < 0x200000"
    by (simp add: pair_words_def word_aligned_def)
  then obtain s :: tasking and m where s: "kh.runs s (words (pair_words pid) m)" "syms s = boot_symbols" "mm.more s = mm.more ?t"
    using booted_words [of "pair_words pid" "mm.more ?t"] by blast
  let ?m = "words (pair_words pid) m"
  let ?D = "kernel_region s" and ?a = "\<lparr>queue = [0x120000, 0x120040], running = regs s, contexts = resumed ?m\<rparr>"
  have h: "heap_inv s" using s(1) by (simp add: kh.runs_def)
  then have c: "cr3 s = 0x200000" using s(2) by (auto simp: heap_inv_def heap_pages_def pages_inv_def boot_symbols_def)
  have f: "current_task s = 0x120000" "ready_to_run s = \<lparr>head = 0x120000, tail = 0x120040\<rparr>"
    "regs s = \<lparr>ebx = 1, esi = 2, edi = 3, ebp = 4, esp = 0x130800, eip = 5\<rparr>"
    using same_tasking [OF s(3)] by (simp_all add: boot_tasking_def cpu.defs tasking.defs)
  have sub: "span p n \<subseteq> ?D" if "0x100000 \<le> unat p" "unat p + n < 0x200000" for p n
    using kernel_data_span [OF that] by (auto simp: region_def s(2))
  have ld: "load32 ?m 0x120000 = pid" "load32 ?m 0x12001C = 0x200000" "load32 ?m 0x120020 = 0x120040" "load32 ?m 0x120058 = 0x140800"
    "load32 ?m 0x12005C = 0x200000" "load32 ?m 0x120060 = 0"
    by (simp_all add: pair_words_def load_store32_other word_aligned_def)
  have q: "queue_inv ?D pair_stk [0x120000, 0x120040] s ?m"
    unfolding queue_inv_def
  proof (intro conjI)
    show "\<forall>p\<in>set [0x120000, 0x120040]. p \<noteq> 0 \<and> word_aligned p \<and> pcb p \<subseteq> ?D \<and> span (pair_stk p) 4096 \<subseteq> ?D \<and>
        load32 ?m (process_page_directory p) = cr3 s"
      using sub by (simp add: word_aligned_def pcb_def pair_stk_def process_page_directory_def ld c)
    show "\<forall>p\<in>set [0x120000, 0x120040]. \<forall>q\<in>set [0x120000, 0x120040]. pcb p \<inter> span (pair_stk q) 4096 = {} \<and>
        (p \<noteq> q \<longrightarrow> pcb p \<inter> pcb q = {} \<and> span (pair_stk p) 4096 \<inter> span (pair_stk q) 4096 = {})"
      by (simp add: pcb_def pair_stk_def span_range)
    show "\<forall>p\<in>set (tl [0x120000, 0x120040]). span (load32 ?m (process_kernel_stack_top p)) 20 \<subseteq> span (pair_stk p) 4096"
      using word_of_nat_eq_0_iff span_sub [of 2048 20 4096 "0x140000"]
      by (simp add: pair_stk_def process_kernel_stack_top_def ld)
  qed (simp_all add: f process_next_task_def ld)
  have t: "tasks_at pair_stk s ?a" using s(1) q by (intro tasks_at_runs [of _ ?m]) simp_all
  have rm: "room pair_stk s"
    using span_sub [of 2024 24 4096 "0x130000"] by (simp add: room_def f word_aligned_def pair_stk_def)
  have "vview s x = ?m x" if "x \<in> ?D" for x using s(1) that by (simp add: kh.runs_def holds_def)
  then have "load32 (vview s) 0x120000 = pid"
    using sub [of "0x120000" 4] ld(1) load32_span_cong [of "0x120000" "vview s" ?m] by auto
  then show ?thesis
    using t rm s(3) by (intro exI [of _ s] exI [of _ ?a]) (simp add: resumed_def process_kernel_stack_top_def ld Let_def)
qed

text \<open>
  C32: \<open>schedule\<close> implements the round-robin pool: the running task goes to the end of the ready queue with
  its context saved, the next one resumes with the context it left, the others are untouched;
  a task that is alone goes on running.
\<close>

theorem schedule_round_robin:
  assumes "tasks_at stk s a" "room stk s"
  shows "\<exists>s'. schedule s = Inr s' \<and> tasks_at stk s' (round_robin (switch_return s) a) \<and>
    s' = s\<lparr>phys := phys s', last_time := last_time s', previous_task := previous_task s', current_task := current_task s',
      regs := regs s', ready_to_run := ready_to_run s'\<rparr>"
  using schedule_pool [OF assms] by blast

theorem schedule_round_robin_witness:
  "\<exists>s s' :: tasking. \<exists>a. schedule s = Inr s' \<and> tasks_at pair_stk s' a \<and> queue a = [0x120040, 0x120000] \<and> esp (regs s') = 0x140814"
proof -
  obtain s :: tasking and a where s: "tasks_at pair_stk s a" "queue a = [0x120000, 0x120040]" "room pair_stk s"
    "esp (contexts a 0x120040) = 0x140814"
    using pair_tasks by blast
  obtain s' where s': "schedule s = Inr s'" "tasks_at pair_stk s' (round_robin (switch_return s) a)"
    using schedule_round_robin [OF s(1,3)] by blast
  then have "regs s' = contexts a 0x120040" by (simp add: tasks_at_def round_robin_def s(2))
  then show ?thesis using s' s(2,4) by (intro exI [of _ s] exI [of _ s'] exI) (auto simp: queue_round_robin)
qed

section \<open>Runs of several tasks\<close>

text \<open>
  What the running task and interrupts may do between two calls of the scheduler: anything that keeps
  the heap contract, the control blocks, the scheduler's variables and the stacks of the other tasks.
\<close>

definition computes :: "(u32 \<Rightarrow> u32) \<Rightarrow> u32 list \<Rightarrow> 'a tasking_scheme \<Rightarrow> 'a tasking_scheme \<Rightarrow> bool" where
  "computes stk ts s s' \<longleftrightarrow> heap_inv s' \<and> kernel_region s \<subseteq> kernel_region s' \<and> current_task s' = current_task s \<and>
     ready_to_run s' = ready_to_run s \<and> cr3 s' = cr3 s \<and> switch_return s' = switch_return s \<and> room stk s' \<and>
     (\<forall>p\<in>set ts. \<forall>x\<in>pcb p. vview s' x = vview s x) \<and>
     (\<forall>p\<in>set ts. p \<noteq> current_task s \<longrightarrow> (\<forall>x\<in>span (stk p) 4096. vview s' x = vview s x))"

text \<open>\<open>task_run stk ts s rs s'\<close>: a turn for each element of \<open>rs\<close>, the registers at its end.\<close>

inductive task_run :: "(u32 \<Rightarrow> u32) \<Rightarrow> u32 list \<Rightarrow> 'a tasking_scheme \<Rightarrow> registers list \<Rightarrow> 'a tasking_scheme \<Rightarrow> bool"
  for stk ts s where
  start: "task_run stk ts s [] s"
| turn: "task_run stk ts s rs s1 \<Longrightarrow> computes stk ts s1 s2 \<Longrightarrow> schedule s2 = Inr s3 \<Longrightarrow>
    task_run stk ts s (rs @ [regs s2]) s3"

inductive_cases task_run_snocE: "task_run stk ts s (rs @ [r]) s'"

lemma computes_tasks:
  assumes t: "tasks_at stk s a" and c: "computes stk ts s s'" and ts: "set ts = set (queue a)"
  shows "tasks_at stk s' (a\<lparr>running := regs s'\<rparr>)"
proof -
  have q: "queue_inv (kernel_region s) stk (queue a) s (vview s)" and ctx: "\<forall>p\<in>set (tl (queue a)). resumed (vview s) p = contexts a p"
    using t by (simp_all add: tasks_at_def)
  have h: "heap_inv s'" "kernel_region s \<subseteq> kernel_region s'" "current_task s' = current_task s" "ready_to_run s' = ready_to_run s"
    "cr3 s' = cr3 s" "\<And>p x. p \<in> set (queue a) \<Longrightarrow> x \<in> pcb p \<Longrightarrow> vview s' x = vview s x"
    "\<And>p x. p \<in> set (queue a) \<Longrightarrow> p \<noteq> current_task s \<Longrightarrow> x \<in> span (stk p) 4096 \<Longrightarrow> vview s' x = vview s x"
    using c ts by (simp_all add: computes_def)
  have "queue_inv (kernel_region s') stk (queue a) s' (vview s')"
    by (rule queue_inv_cong [OF q h(2-6)])
  moreover have "resumed (vview s') p = contexts a p" if p: "p \<in> set (tl (queue a))" for p
  proof -
    have "p \<in> set (queue a)" using p queue_inv_list(1) [OF q] by (rule list.set_sel(2) [rotated])
    moreover have "p \<noteq> current_task s"
      using p queue_inv_list(1-3) [OF q] by (cases "queue a") auto
    ultimately have "resumed (vview s') p = resumed (vview s) p"
      using h(6,7) by (intro resumed_keep [OF q p]) blast
    then show ?thesis using ctx p by simp
  qed
  ultimately show ?thesis using h(1) by (simp add: tasks_at_def)
qed

lemma task_run_pool:
  assumes t: "tasks_at stk s a"
  shows "task_run stk (queue a) s rs s' \<Longrightarrow> tasks_at stk s' (pool_run (switch_return s) rs a) \<and> switch_return s' = switch_return s"
proof (induction rs s' rule: task_run.induct)
  case start
  then show ?case using t by simp
next
  case (turn rs s1 s2 s3)
  let ?b = "pool_run (switch_return s) rs a"
  have sr: "switch_return s2 = switch_return s" "room stk s2" using turn by (simp_all add: computes_def)
  have "tasks_at stk s2 (?b\<lparr>running := regs s2\<rparr>)"
    using turn by (intro computes_tasks [of _ s1]) (simp_all add: queue_pool_run)
  from schedule_pool [OF this sr(2)] obtain s' where s': "schedule s2 = Inr s'"
    "tasks_at stk s' (round_robin (switch_return s2) (?b\<lparr>running := regs s2\<rparr>))" "switch_return s' = switch_return s2"
    by blast
  then show ?case using turn.hyps(3) sr by (simp add: pool_run_append)
qed

text \<open>
  C33: no task starves: after any run of turns the processor is with the task that is due in the order
  of the queue, whatever the others did on their stacks and in the rest of memory, and a task
  that has had a turn resumes with exactly the registers it called the scheduler with.
\<close>

theorem every_task_gets_its_turn:
  assumes "tasks_at stk s a" "task_run stk (queue a) s rs s'" "n = length (queue a)"
  shows "current_task s' = queue a ! (length rs mod n) \<and>
    (2 \<le> n \<and> n \<le> length rs \<longrightarrow> regs s' = saved (switch_return s) (rs ! (length rs - n)))"
proof -
  let ?b = "pool_run (switch_return s) rs a"
  have t: "tasks_at stk s' ?b" using task_run_pool [OF assms(1,2)] by blast
  have "distinct (queue a)" "queue a \<noteq> []"
    using assms(1) queue_inv_list [of _ stk "queue a" s] by (auto simp: tasks_at_def)
  moreover have "current_task s' = hd (queue ?b)" "regs s' = running ?b"
    using t queue_inv_list(3) [of _ stk "queue ?b" s'] by (auto simp: tasks_at_def)
  ultimately show ?thesis
    using assms(3) pool_run_resumes [of a n rs "switch_return s"]
    by (simp_all add: queue_pool_run hd_rotate_conv_nth)
qed

theorem every_task_gets_its_turn_witness:
  "\<exists>(s :: tasking) s2. schedule s = Inr s2 \<and> (\<exists>s3. schedule s2 = Inr s3 \<and> current_task s3 = current_task s \<and>
     regs s3 = (regs s)\<lparr>esp := esp (regs s) - 4, eip := 0x105000\<rparr>)"
proof -
  obtain s :: tasking and a where s: "tasks_at pair_stk s a" "queue a = [0x120000, 0x120040]" "room pair_stk s"
    "mm.more s = mm.more (boot_tasking 0x120000 \<lparr>head = 0x120000, tail = 0x120040\<rparr>)" "esp (contexts a 0x120040) = 0x140814"
    using pair_tasks by blast
  have f: "switch_return s = 0x105000" "current_task s = 0x120000"
    using same_tasking [OF s(4)] by (simp_all add: boot_tasking_def cpu.defs tasking.defs)
  have run: "computes pair_stk (queue a) t t" if "heap_inv t" "room pair_stk t" for t :: tasking
    using that by (simp add: computes_def)
  obtain s2 where s2: "schedule s = Inr s2" "tasks_at pair_stk s2 (round_robin (switch_return s) a)"
    using schedule_pool [OF s(1,3)] by blast
  have q2: "queue_inv (kernel_region s2) pair_stk [0x120040, 0x120000] s2 (vview s2)" and r2: "regs s2 = contexts a 0x120040"
    using s2(2) by (simp_all add: tasks_at_def queue_round_robin s(2)) (simp add: round_robin_def s(2))
  have "room pair_stk s2"
    using queue_inv_list(3) [OF q2] span_sub [of 2044 24 4096 "0x140000"]
    by (simp add: room_def r2 s(5) pair_stk_def word_aligned_def)
  moreover obtain s3 where s3: "schedule s2 = Inr s3" using schedule_pool [OF s2(2) calculation] by blast
  moreover have "task_run pair_stk (queue a) s [regs s] s2"
    using task_run.turn [OF task_run.start run s2(1), of] s(1,3) by (simp add: tasks_at_def)
  ultimately have "task_run pair_stk (queue a) s [regs s, regs s2] s3"
    using task_run.turn [of pair_stk "queue a" s "[regs s]" s2 s2 s3] run [of s2] s2(2) by (simp add: tasks_at_def)
  from every_task_gets_its_turn [OF s(1) this refl]
  have "current_task s3 = 0x120000" "regs s3 = saved 0x105000 (regs s)" by (simp_all add: s(2) f)
  then show ?thesis using s2(1) s3 f(2) by (intro exI [of _ s] exI [of _ s2]) (simp add: saved_def)
qed

end
