(* ===== verification/Task_Life.thy ===== *)
theory Task_Life
  imports Round_Robin
begin

text \<open>
  The life of a task: what \<open>create_kernel_task\<close> builds, how \<open>init_tasking\<close> sets up the ready queue, and
  what \<open>terminate_task\<close> does to it.
\<close>

unbundle bit_operations_syntax

section \<open>Creation\<close>

lemma span_split: "j + k \<le> 2 ^ 32 \<Longrightarrow> span p (j + k) \<subseteq> span p j \<union> span (p + word_of_nat j) k"
proof
  fix x assume jk: "j + k \<le> 2 ^ 32" and x: "x \<in> span p (j + k)"
  show "x \<in> span p j \<union> span (p + word_of_nat j) k"
  proof (cases "unat (x - p) < j")
    case False
    have u: "unat (word_of_nat j :: u32) = j" using x False jk by (simp add: span_def unat_of_nat)
    have eq: "x - (p + word_of_nat j) = (x - p) - word_of_nat j" by simp
    have "word_of_nat j \<le> x - p" using False u by (simp add: word_le_nat_alt)
    from unat_sub [OF this] have "unat (x - (p + word_of_nat j)) = unat (x - p) - j" unfolding eq u .
    then show ?thesis using x False by (simp add: span_def)
  qed (simp add: span_def)
qed

lemma cstring_in_keep:
  assumes c: "cstring_in D m p n" and D: "D \<subseteq> D'" and m': "\<And>x. x \<in> D \<Longrightarrow> m' x = m x"
  shows "cstring_in D' m' p n"
proof -
  have "p + word_of_nat i \<in> D" if "i \<le> n" for i
    using c span_memI [of i "Suc n" p] that by (auto simp: cstring_in_def)
  then show ?thesis using c D m' by (auto simp: cstring_in_def)
qed

text \<open>The memory of a new task at \<open>e\<close>, with its stack right behind the control block.\<close>

definition task_memory_at :: "u32 \<Rightarrow> u32 \<Rightarrow> u32 \<Rightarrow> nat \<Rightarrow> u32 \<Rightarrow> (u32 \<Rightarrow> u8) \<Rightarrow> (u32 \<Rightarrow> u8)" where
  "task_memory_at e pid lit n pd m =
     store32 (process_state e) READY_TO_RUN (store32 (process_next_task e) 0 (store32 (process_page_directory e) pd
       (store32 (process_kernel_stack_top e) (e + 4136) (fill (e + 44) 4096 0
         (copied (process_task_name e) lit (Suc n) (store32 (process_pid e) pid (fill e 44 0 m)))))))"

definition started :: "u32 \<Rightarrow> u32 \<Rightarrow> (u32 \<Rightarrow> u8) \<Rightarrow> (u32 \<Rightarrow> u8)" where
  "started e start m = (if start = 0 then m else store32 (process_kernel_stack_top e) (e + 4120) (store32 (e + 4136) start m))"

lemma task_block: "span e 44 \<subseteq> span e 4140" "span (e + 44) 4096 \<subseteq> span e 4140" "span e 44 \<inter> span (e + 44) 4096 = {}"
  "span (e + 4136) 4 \<subseteq> span (e + 44) 4096" "span (e + 4120) 20 \<subseteq> span (e + 44) 4096"
  using span_sub [of 0 44 4140 e] span_sub [of 44 4096 4140 e] span_apart [of 44 44 4096 e]
    span_sub [of 4092 4 4096 "e + 44"] span_sub [of 4076 20 4096 "e + 44"]
  by (auto simp: add.commute)

lemma task_memory_outside:
  assumes "n < 20" "x \<notin> span e 4140"
  shows "started e start (task_memory_at e pid lit n pd m) x = m x"
proof -
  have "span (process_task_name e) (Suc n) \<subseteq> span e 4140"
    using span_sub [of 4 "Suc n" 4140 e] assms(1) by (simp add: process_task_name_def)
  then have "x \<notin> span (process_task_name e) (Suc n)" "x \<notin> span e 44" "x \<notin> span (e + 44) 4096" "x \<notin> span (e + 4136) 4"
    "x \<notin> span (process_kernel_stack_top e) 4" "x \<notin> span (process_page_directory e) 4" "x \<notin> span (process_next_task e) 4"
    "x \<notin> span (process_state e) 4" "x \<notin> span (process_pid e) 4"
    using assms(2) task_block [of e] pcb_fields [of e] unfolding pcb_def by blast+
  then show ?thesis
    by (simp add: started_def task_memory_at_def store32_outside fill_outside copied_outside)
qed

lemma task_aligned:
  assumes "word_aligned e"
  shows "word_aligned (e + 4136)" "word_aligned (e + 4120)" "word_aligned (e + 4124)" "word_aligned (e + 4128)"
    "word_aligned (e + 4132)" "word_aligned (e + 44)" "word_aligned (process_pid e)"
  using word_aligned_plus [OF assms] assms by (simp_all add: word_aligned_def process_pid_def)

text \<open>The control block of a new task, and the context it starts with.\<close>

lemma task_memory_fields:
  assumes al: "word_aligned e" and n: "n < 20" and m'_def: "m' = started e start (task_memory_at e pid lit n pd m)"
  shows "load32 m' (process_pid e) = pid" "load32 m' (process_page_directory e) = pd" "load32 m' (process_next_task e) = 0"
    "load32 m' (process_state e) = READY_TO_RUN" "load32 m' (process_time_used e) = 0"
    "load32 m' (process_kernel_stack_top e) = (if start = 0 then e + 4136 else e + 4120)"
    "start \<noteq> 0 \<longrightarrow> resumed m' e = \<lparr>ebx = 0, esi = 0, edi = 0, ebp = 0, esp = e + 4140, eip = start\<rparr>"
proof -
  note A = pcb_aligned [OF al] task_aligned [OF al]
  have ne: "e + k \<noteq> e + l" if "k \<noteq> l" for k l using that by simp
  have nm: "span (e + word_of_nat k) 4 \<inter> span (process_task_name e) (Suc n) = {}" if "24 \<le> k" "k < 48" for k
    using span_apart [of "Suc n" "k - 4" 4 "e + 4"] that n by (simp add: process_task_name_def of_nat_diff)
  have nm0: "span e 4 \<inter> span (process_task_name e) (Suc n) = {}"
    using span_apart [of 4 4 "Suc n" e] n by (auto simp: process_task_name_def)
  have st: "span a 4 \<inter> span (e + 44) 4096 = {}" if "span a 4 \<subseteq> pcb e" for a
    using that task_block(3) [of e] by (auto simp: pcb_def)
  note F = pcb_fields [of e]
  show "load32 m' (process_pid e) = pid"
    using A nm0 st [OF F(6)] by (simp add: m'_def started_def task_memory_at_def load_store32_other fill_load copied_load process_fields)
  show "load32 m' (process_page_directory e) = pd" "load32 m' (process_next_task e) = 0"
    "load32 m' (process_state e) = READY_TO_RUN"
    "load32 m' (process_kernel_stack_top e) = (if start = 0 then e + 4136 else e + 4120)"
    using A by (simp_all add: m'_def started_def task_memory_at_def load_store32_other process_fields)
  show "load32 m' (process_time_used e) = 0"
    using A nm [of 40] st [OF F(5)] F(5)
    by (simp add: m'_def started_def task_memory_at_def load_store32_other fill_load copied_load load32_cleared pcb_def process_fields)
  show "start \<noteq> 0 \<longrightarrow> resumed m' e = \<lparr>ebx = 0, esi = 0, edi = 0, ebp = 0, esp = e + 4140, eip = start\<rparr>"
  proof
    assume s: "start \<noteq> 0"
    have z: "span (e + 4120) 4 \<subseteq> span (e + 44) 4096" "span (e + 4124) 4 \<subseteq> span (e + 44) 4096"
      "span (e + 4128) 4 \<subseteq> span (e + 44) 4096" "span (e + 4132) 4 \<subseteq> span (e + 44) 4096"
      using span_sub [of 4076 4 4096 "e + 44"] span_sub [of 4080 4 4096 "e + 44"] span_sub [of 4084 4 4096 "e + 44"]
        span_sub [of 4088 4 4096 "e + 44"] by (simp_all add: add.commute)
    have "load32 m' (process_kernel_stack_top e) = e + 4120" "load32 m' (e + 4120) = 0" "load32 m' (e + 4124) = 0"
      "load32 m' (e + 4128) = 0" "load32 m' (e + 4132) = 0" "load32 m' (e + 4136) = start"
      using A z s by (simp_all add: m'_def started_def task_memory_at_def load_store32_other load32_cleared process_fields)
    then show "resumed m' e = \<lparr>ebx = 0, esi = 0, edi = 0, ebp = 0, esp = e + 4140, eip = start\<rparr>"
      by (simp add: resumed_def Let_def add.commute)
  qed
qed

context task_memory
begin

text \<open>What the creation of a task leaves alone.\<close>

definition creates :: "'a tasking_scheme \<Rightarrow> 'a tasking_scheme \<Rightarrow> bool" where
  "creates s s' \<longleftrightarrow> s' = s\<lparr>dev := dev s', phys := phys s', heap_current := heap_current s', heap_mapped := heap_mapped s',
     next_available_pid := next_available_pid s + 1\<rparr>"

lemma createsI:
  assumes "heap_only s s1" "heap_only (s1\<lparr>next_available_pid := next_available_pid s1 + 1\<rparr>) s'"
  shows "creates s s'"
proof -
  obtain d p c h where s1: "s1 = s\<lparr>dev := d, phys := p, heap_current := c, heap_mapped := h\<rparr>"
    using assms(1) unfolding heap_only_def by blast
  obtain d' p' c' h' where "s' = s1\<lparr>next_available_pid := next_available_pid s1 + 1, dev := d', phys := p', heap_current := c', heap_mapped := h'\<rparr>"
    using assms(2) unfolding heap_only_def by blast
  then show ?thesis unfolding s1 creates_def by simp
qed

lemma creates_enqueue:
  assumes "creates s s1" "s' = s1\<lparr>phys := phys s', ready_to_run := q\<rparr>"
  shows "creates (s\<lparr>ready_to_run := q\<rparr>) s'"
proof -
  obtain d p c h where s1: "s1 = s\<lparr>dev := d, phys := p, heap_current := c, heap_mapped := h, next_available_pid := next_available_pid s + 1\<rparr>"
    using assms(1) unfolding creates_def by blast
  obtain p' where "s' = s1\<lparr>phys := p', ready_to_run := q\<rparr>" using assms(2) by blast
  then show ?thesis unfolding s1 creates_def by simp
qed

lemma creates_first: "creates s s1 \<Longrightarrow> creates (s\<lparr>current_task := t, ready_to_run := q\<rparr>) (s1\<lparr>current_task := t, ready_to_run := q\<rparr>)"
proof -
  assume "creates s s1"
  then obtain d p c h where s1: "s1 = s\<lparr>dev := d, phys := p, heap_current := c, heap_mapped := h, next_available_pid := next_available_pid s + 1\<rparr>"
    unfolding creates_def by blast
  show ?thesis unfolding s1 creates_def by simp
qed

lemma creates_same:
  assumes "creates s s'"
  shows "current_task s' = current_task s" "ready_to_run s' = ready_to_run s" "cr3 s' = cr3 s" "syms s' = syms s"
    "literal_name s' = literal_name s" "next_available_pid s' = next_available_pid s + 1" "regs s' = regs s"
    "task1_fn s' = task1_fn s" "task2_fn s' = task2_fn s" "switch_return s' = switch_return s" "terminated s' = terminated s"
  by (subst assms [unfolded creates_def], simp)+

text \<open>What \<open>init_tasking\<close> may change.\<close>

definition init_only :: "'a tasking_scheme \<Rightarrow> 'a tasking_scheme \<Rightarrow> bool" where
  "init_only s s' \<longleftrightarrow> s' = s\<lparr>dev := dev s', phys := phys s', heap_current := heap_current s', heap_mapped := heap_mapped s',
     current_task := current_task s', ready_to_run := ready_to_run s', next_available_pid := next_available_pid s'\<rparr>"

lemma init_onlyI:
  "s' = s\<lparr>dev := d, phys := p, heap_current := c, heap_mapped := h, current_task := t, ready_to_run := q, next_available_pid := i\<rparr> \<Longrightarrow> init_only s s'"
  by (simp add: init_only_def)

lemma init_only_trans: "init_only s s' \<Longrightarrow> init_only s' s'' \<Longrightarrow> init_only s s''"
proof -
  assume "init_only s s'" "init_only s' s''"
  then obtain d p c h t q i d' p' c' h' t' q' i' where
    "s' = s\<lparr>dev := d, phys := p, heap_current := c, heap_mapped := h, current_task := t, ready_to_run := q, next_available_pid := i\<rparr>"
    "s'' = s'\<lparr>dev := d', phys := p', heap_current := c', heap_mapped := h', current_task := t', ready_to_run := q', next_available_pid := i'\<rparr>"
    unfolding init_only_def by blast
  then show "init_only s s''" by (intro init_onlyI [where d = d' and p = p' and c = c' and h = h' and t = t' and q = q' and i = i']) simp
qed

lemma init_only_creates:
  "creates (s\<lparr>current_task := t, ready_to_run := q\<rparr>) s' \<Longrightarrow> init_only s s'" "creates (s\<lparr>ready_to_run := q\<rparr>) s' \<Longrightarrow> init_only s s'"
proof -
  show "init_only s s'" if c: "creates (s\<lparr>current_task := t, ready_to_run := q\<rparr>) s'" for t
  proof -
    obtain d p c h where "s' = s\<lparr>current_task := t, ready_to_run := q\<rparr>\<lparr>dev := d, phys := p, heap_current := c, heap_mapped := h,
      next_available_pid := next_available_pid s + 1\<rparr>"
      using c unfolding creates_def by auto
    then show ?thesis by (intro init_onlyI [where d = d and p = p and c = c and h = h and t = t and q = q and i = "next_available_pid s + 1"]) simp
  qed
  from this [of "current_task s"] show "creates (s\<lparr>ready_to_run := q\<rparr>) s' \<Longrightarrow> init_only s s'" by simp
qed

lemma place_start_ok:
  assumes k: "kept s0 s m" and al: "word_aligned e" and sub: "span (process_kernel_stack_top e) 4 \<subseteq> reg s0" "span (e + 4136) 4 \<subseteq> reg s0"
    and top: "load32 m (process_kernel_stack_top e) = e + 4136"
  shows "ok (place_start_eip e start s) (\<lambda>s'. kept s0 s' (started e start m))"
proof (cases "start = 0")
  case False
  note A = pcb_aligned [OF al] task_aligned [OF al]
  have top': "load32 (store32 (e + 4136) start m) (process_kernel_stack_top e) = e + 4136"
    using A top by (simp add: load_store32_other process_fields)
  have less: "e + 4136 - 4 * 4 = e + 4120" by simp
  show ?thesis
    unfolding place_start_eip_def started_def if_not_P [OF False] if_P [OF False]
    by (rule ok_load [OF k sub(1)], unfold top, rule ok_store [OF k A(6) sub(2)], rule ok_load [OF _ sub(1)], assumption,
        unfold top' less, rule ok_store_last [OF _ A(1) sub(1)], assumption)
qed (use k in \<open>simp add: place_start_eip_def started_def\<close>)

lemma create_ok:
  assumes r: "runs s m" and al: "word_aligned (heap_current s)" and room: "unat (heap_current s) + 4140 \<le> limit"
    and lit: "cstring_in (reg s) m (literal_name s) n" "n < 20"
  shows "ok (create_kernel_task name start s) (\<lambda>(p, s'). p = heap_current s \<and> creates s s' \<and>
    unat (heap_current s') = unat (heap_current s) + 4140 \<and> reg s \<subseteq> reg s' \<and> span p 4140 \<subseteq> reg s' \<and> span p 4140 \<inter> reg s = {} \<and>
    runs s' (started p start (task_memory_at p (next_available_pid s) (literal_name s) n (page_directory (syms s)) m)))"
    (is "ok _ ?Q")
proof -
  define e where "e = heap_current s"
  let ?lit = "literal_name s" and ?pid = "next_available_pid s" and ?pd = "page_directory (syms s)"
  note A = pcb_aligned [OF al [folded e_def]] task_aligned [OF al [folded e_def]] and F = pcb_fields [of e, unfolded pcb_def]
  have lsub: "span ?lit (Suc n) \<subseteq> reg s" using lit(1) by (simp add: cstring_in_def)
  have nm: "span (process_task_name e) (Suc n) \<subseteq> span e 44"
    using span_sub [of 4 "Suc n" 44 e] lit(2) by (simp add: process_task_name_def)
  let ?m3 = "store32 (process_pid e) ?pid (fill e 44 0 m)"
  let ?m4 = "copied (process_task_name e) ?lit (Suc n) ?m3"
  let ?m8 = "task_memory_at e ?pid ?lit n ?pd m"
  have top: "load32 ?m8 (process_kernel_stack_top e) = e + 4136"
    using task_memory_fields(6) [OF al [folded e_def] lit(2) refl, of 0] by (simp add: started_def)
  show ?thesis
    unfolding create_kernel_task_def
  proof (rule ok_alloc [OF r], goal_cases)
    case 1
    show ?case using room by (simp add: sizeof_process_def)
  next
    case (2 s1)
    note s1 = 2 [folded e_def, unfolded sizeof_process_def, simplified]
    define s2 where "s2 = s1\<lparr>next_available_pid := next_available_pid s1 + 1\<rparr>"
    have same: "literal_name s1 = ?lit" "next_available_pid s1 = ?pid" "syms s1 = syms s"
      using same_tasking [OF heap_only_same(5) [OF s1(1)]] heap_only_same(1) [OF s1(1)] by simp_all
    have "unat e + 44 < 2 ^ 32" using s1(2) unat_u32_bound [of "heap_current s1"] by (simp add: e_def)
    then have g2: "reg s2 = reg s1" "heap_current s2 = e + 44" "unat (heap_current s2) = unat e + 44"
      using s1(2) by (simp_all add: s2_def region_def e_def word_unat_eq_iff unat_word_ariths)
    have k2: "kept s2 s2 (fill e 44 0 m)"
      using s1(6) by (intro kept_refl) (auto simp: s2_def elim: runs_cong)
    have "?m3 x = m x" if "x \<in> reg s" for x
    proof -
      have "x \<notin> span e 44" using that s1(5) by blast
      then show ?thesis using F(6) by (subst store32_outside) (auto simp: fill_outside)
    qed
    then have lit3: "cstring_in (reg s2) ?m3 ?lit n"
      using s1(3) unfolding g2(1) by (rule cstring_in_keep [OF lit(1) _, rotated])
    have dis: "span (process_task_name e) (Suc n) \<inter> span ?lit (Suc n) = {}" "span (process_task_name e) (Suc n) \<subseteq> reg s2"
      "span (process_pid e) 4 \<subseteq> reg s2"
      using nm lsub F(6) s1(4,5) g2(1) by blast+
    show ?case
      unfolding prod.case Let_def e_def [symmetric] same
    proof (fold s2_def [unfolded same], rule ok_store [OF k2 A(12) dis(3)], goal_cases)
      case (1 s3)
      have l3: "literal_name s3 = ?lit"
        using 1 same_tasking [of s3 s2] heap_only_same(5) [of s2 s3] by (simp add: kept_def s2_def same)
      show ?case
        unfolding l3
      proof (rule ok_strcpy [OF 1 lit3 dis(2,1)], goal_cases)
        case (1 s4)
        have k4: "heap_only s2 s4" "heap_current s4 = e + 44" "runs s4 ?m4" "reg s4 = reg s1"
          using 1 kept_reg [OF 1] g2 by (simp_all add: kept_def)
        show ?case
        proof (rule ok_alloc [OF k4(3)], goal_cases)
          case 1
          show ?case using room k4(2) g2(3) g2(2) by (simp add: e_def)
        next
          case (2 s5)
          note s5 = 2 [unfolded k4(2,4), folded g2(2), unfolded g2(3), simplified, unfolded g2(2)]
          have sub: "span (process_kernel_stack_top e) 4 \<subseteq> reg s5" "span (process_page_directory e) 4 \<subseteq> reg s5"
            "span (process_next_task e) 4 \<subseteq> reg s5" "span (process_state e) 4 \<subseteq> reg s5" "span (e + 4136) 4 \<subseteq> reg s5"
            using F s1(4) s5(3,4) task_block(4) [of e] by blast+
          have stack: "e + 44 + 4 * 1023 = e + 4136" by simp
          have h5: "heap_only s2 s5" by (rule heap_only_trans [OF k4(1) s5(1)])
          show ?case
            unfolding prod.case k4(2) stack Let_def
          proof (rule ok_store [OF kept_refl [OF s5(6)] A(1) sub(1)], rule ok_load [OF _ sub(1)], assumption, goal_cases)
            case (1 s6)
            have pd: "page_directory (syms (mlog f x s6)) = ?pd" for f x
              using 1 heap_only_same(1) [OF h5] heap_only_same(1) [of s5 s6] same(3) by (simp add: kept_def mlog_def s2_def)
            show ?case
              unfolding pd
            proof (rule ok_store [OF kept_mlog [OF 1] A(2) sub(2)], rule ok_store [OF _ A(3) sub(3)], assumption,
                rule ok_store [OF _ A(4) sub(4)], assumption, goal_cases)
              case (1 s7 s8 s9)
              note k9 = 1(3) [folded task_memory_at_def]
              show ?case
              proof (rule ok_bind [OF place_start_ok [OF k9 al [folded e_def] sub(1,5) top]], goal_cases)
                case (1 s')
                have "heap_only s2 s'" using 1 heap_only_trans [OF h5] by (simp add: kept_def)
                then have "creates s s'" unfolding s2_def by (rule createsI [OF s1(1)])
                moreover have "span e 4140 \<subseteq> reg s5" "span e 4140 \<inter> reg s = {}"
                  using span_split [of 44 4096 e] s1(3-5) s5(3-5) k4(4) by (simp, blast)+
                ultimately show ?case
                  using 1 s1 s5 kept_reg [OF 1] k4(4) room by (auto simp: kept_def e_def)
              qed
            qed
          qed
        qed
      qed
    qed
  qed
qed

end

section \<open>Appending to the ready queue\<close>

text \<open>A process that is not in the queue, with its control block and stack apart from all in it.\<close>

definition newcomer :: "u32 set \<Rightarrow> (u32 \<Rightarrow> u32) \<Rightarrow> u32 list \<Rightarrow> u32 \<Rightarrow> u32 \<Rightarrow> (u32 \<Rightarrow> u8) \<Rightarrow> bool" where
  "newcomer D stk ts pd p m \<longleftrightarrow> p \<noteq> 0 \<and> word_aligned p \<and> pcb p \<subseteq> D \<and> span (stk p) 4096 \<subseteq> D \<and> pcb p \<inter> span (stk p) 4096 = {} \<and>
     (\<forall>q\<in>set ts. (pcb p \<union> span (stk p) 4096) \<inter> (pcb q \<union> span (stk q) 4096) = {}) \<and>
     load32 m (process_page_directory p) = pd"

definition appended :: "u32 \<Rightarrow> u32 \<Rightarrow> (u32 \<Rightarrow> u8) \<Rightarrow> (u32 \<Rightarrow> u8)" where
  "appended l p m = store32 (process_next_task p) 0 (store32 (process_next_task l) p m)"

lemma appended_outside: "x \<notin> span (process_next_task p) 4 \<Longrightarrow> x \<notin> span (process_next_task l) 4 \<Longrightarrow> appended l p m x = m x"
  by (simp add: appended_def store32_outside)

lemma newcomer_apart:
  assumes q: "queue_inv D stk ts s m" and p: "newcomer D stk ts pd p m" and r: "r \<in> set (ts @ [p])" "r' \<in> set (ts @ [p])"
  shows "pcb r \<inter> span (stk r') 4096 = {}" "r \<noteq> r' \<Longrightarrow> pcb r \<inter> pcb r' = {} \<and> span (stk r) 4096 \<inter> span (stk r') 4096 = {}"
proof -
  have n: "pcb p \<inter> span (stk p) 4096 = {}"
    "pcb p \<inter> span (stk t) 4096 = {} \<and> pcb t \<inter> span (stk p) 4096 = {} \<and> pcb p \<inter> pcb t = {} \<and> span (stk p) 4096 \<inter> span (stk t) 4096 = {}"
    if "t \<in> set ts" for t
    using p that unfolding newcomer_def by blast+
  show "pcb r \<inter> span (stk r') 4096 = {}"
    using r n(2) [of r] n(2) [of r'] queue_inv_apart(1) [OF q, of r r'] p
    by (cases "r = p"; cases "r' = p") (simp_all add: newcomer_def)
  show "r \<noteq> r' \<Longrightarrow> pcb r \<inter> pcb r' = {} \<and> span (stk r) 4096 \<inter> span (stk r') 4096 = {}"
    using r n(2) [of r] n(2) [of r'] queue_inv_apart(2,3) [OF q, of r r']
    by (cases "r = p"; cases "r' = p") (simp_all add: Int_commute)
qed

lemma pcb_self: "p \<in> pcb p"
  by (simp add: pcb_def span_def)

lemma newcomer_fresh:
  assumes "newcomer D stk ts pd p m"
  shows "p \<notin> set ts"
  using assms pcb_self [of p] by (auto simp: newcomer_def)

lemma appended_load:
  assumes q: "queue_inv D stk ts s m" and p: "newcomer D stk ts pd p m" and r: "r \<in> set (ts @ [p])"
    and a: "a = process_kernel_stack_top r \<or> a = process_page_directory r \<or> a = process_next_task r \<and> r \<noteq> p \<and> r \<noteq> last ts"
  shows "load32 (appended (last ts) p m) a = load32 m a"
proof (rule load32_span_cong)
  have l: "last ts \<in> set (ts @ [p])" using queue_inv_list(1) [OF q] by simp
  have d: "span a 4 \<inter> span (process_next_task t) 4 = {}" if t: "t = p \<or> t = last ts" for t
  proof (cases "r = t")
    case True
    then show ?thesis using a t by (auto simp: span4 process_fields)
  next
    case False
    have "t \<in> set (ts @ [p])" using t l by auto
    then show ?thesis using newcomer_apart(2) [OF q p r _ False] a pcb_fields [of r] pcb_fields [of t] by blast
  qed
  show "appended (last ts) p m x = m x" if "x \<in> span a 4" for x
    using that d [of p] d [of "last ts"] by (intro appended_outside) blast+
qed

lemma appended_resumed:
  assumes q: "queue_inv D stk ts s m" and p: "newcomer D stk ts pd p m" and r: "r \<in> set (ts @ [p])"
    and saved: "span (load32 m (process_kernel_stack_top r)) 20 \<subseteq> span (stk r) 4096"
  shows "resumed (appended (last ts) p m) r = resumed m r"
proof -
  have l: "last ts \<in> set (ts @ [p])" "p \<in> set (ts @ [p])" using queue_inv_list(1) [OF q] by simp_all
  have top: "load32 (appended (last ts) p m) (process_kernel_stack_top r) = load32 m (process_kernel_stack_top r)"
    using appended_load [OF q p r] by blast
  have "appended (last ts) p m x = m x" if "x \<in> span (load32 m (process_kernel_stack_top r)) 20" for x
    using that saved newcomer_apart(1) [OF q p l(1) r] newcomer_apart(1) [OF q p l(2) r] pcb_fields(3) [of p] pcb_fields(3) [of "last ts"]
    by (intro appended_outside) blast+
  then have "load32 (appended (last ts) p m) (load32 m (process_kernel_stack_top r) + word_of_nat k) =
      load32 m (load32 m (process_kernel_stack_top r) + word_of_nat k)" if "k + 4 \<le> 20" for k
    using word_span [OF that, of "load32 m (process_kernel_stack_top r)"] by (intro load32_span_cong) auto
  from this [of 0] this [of 4] this [of 8] this [of 12] this [of 16] show ?thesis
    unfolding resumed_def top Let_def by simp
qed

lemma appended_links:
  assumes q: "queue_inv D stk ts s m" and p: "newcomer D stk ts pd p m"
  shows "links (appended (last ts) p m) (ts @ [p]) 0"
proof -
  define l where "l = last ts"
  obtain xs where xs: "ts = xs @ [l]" using append_butlast_last_id [OF queue_inv_list(1) [OF q]] unfolding l_def by metis
  note ap = appended_load [OF q p, folded l_def]
  have "links m xs l" using queue_inv_list(6) [OF q] unfolding xs links_snoc by blast
  then have "links (appended l p m) xs l"
  proof (rule links_cong)
    fix r assume r: "r \<in> set xs"
    then have "r \<noteq> l" "r \<noteq> p" "r \<in> set (ts @ [p])"
      using queue_inv_list(2) [OF q] newcomer_fresh [OF p] unfolding xs by auto
    then show "load32 (appended l p m) (process_next_task r) = load32 m (process_next_task r)" using ap by blast
  qed
  moreover have "p \<noteq> l" using newcomer_fresh [OF p] unfolding xs by auto
  then have "span (process_next_task p) 4 \<inter> span (process_next_task l) 4 = {}"
    using newcomer_apart(2) [OF q p, of p l] pcb_fields(3) [of p] pcb_fields(3) [of l] unfolding xs by auto
  then have "load32 (appended l p m) (process_next_task l) = p" "load32 (appended l p m) (process_next_task p) = 0"
    by (simp_all add: appended_def load32_apart)
  ultimately have "links (appended l p m) ((xs @ [l]) @ [p]) 0" unfolding links_snoc by blast
  then have "links (appended l p m) (ts @ [p]) 0" unfolding xs [symmetric] .
  then show ?thesis unfolding l_def .
qed

lemma appended_inv:
  assumes q: "queue_inv D stk ts s m" and p: "newcomer D stk ts (cr3 s) p m"
    and saved: "span (load32 m (process_kernel_stack_top p)) 20 \<subseteq> span (stk p) 4096"
    and s': "current_task s' = current_task s" "ready_to_run s' = \<lparr>head = hd ts, tail = p\<rparr>" "cr3 s' = cr3 s"
  shows "queue_inv D stk (ts @ [p]) s' (appended (last ts) p m)"
proof -
  let ?m = "appended (last ts) p m"
  have process: "r \<noteq> 0 \<and> word_aligned r \<and> pcb r \<subseteq> D \<and> span (stk r) 4096 \<subseteq> D \<and> load32 ?m (process_page_directory r) = cr3 s'"
    if "r \<in> set (ts @ [p])" for r
  proof -
    have "load32 ?m (process_page_directory r) = load32 m (process_page_directory r)" using appended_load [OF q p that] by blast
    then show ?thesis using that queue_inv_process [OF q, of r] p s'(3) by (cases "r = p") (simp_all add: newcomer_def)
  qed
  have top: "span (load32 ?m (process_kernel_stack_top r)) 20 \<subseteq> span (stk r) 4096" if "r \<in> set (tl (ts @ [p]))" for r
  proof -
    have "r \<in> set (tl ts) \<or> r = p" using that queue_inv_list(1) [OF q] by (cases ts) auto
    moreover from this have "r \<in> set (ts @ [p])" using list.set_sel(2) [OF queue_inv_list(1) [OF q]] by auto
    ultimately show ?thesis using appended_load [OF q p] queue_inv_saved [OF q] saved by metis
  qed
  show ?thesis
    unfolding queue_inv_def
    using process top appended_links [OF q p] newcomer_apart [OF q p] newcomer_fresh [OF p] queue_inv_list [OF q] s'
    by (intro conjI ballI impI) simp_all
qed

context task_memory
begin

lemma enqueue_ready_ok:
  assumes r: "runs s m" and q: "queue_inv (reg s) stk ts s m" and p: "newcomer (reg s) stk ts (cr3 s) p m"
  shows "ok (enqueue_ready p s) (\<lambda>s'. runs s' (appended (last ts) p m) \<and> reg s' = reg s \<and>
    s' = s\<lparr>phys := phys s', ready_to_run := \<lparr>head = hd ts, tail = p\<rparr>\<rparr>)"
proof -
  note ql = queue_inv_list [OF q]
  let ?l = "last ts"
  have nz: "head (ready_to_run s) \<noteq> 0" using queue_inv_process(1) [OF q] ql(1,4) by (metis list.set_sel(1))
  have l: "word_aligned ?l" "pcb ?l \<subseteq> reg s" "word_aligned p" "pcb p \<subseteq> reg s"
    using queue_inv_process(2,3) [OF q last_in_set [OF ql(1)]] p by (simp_all add: newcomer_def)
  obtain s1 where s1: "vstore32 (process_next_task ?l) p s = Inr s1" "s1 = s\<lparr>phys := phys s1\<rparr>" "runs s1 (store32 (process_next_task ?l) p m)"
    "reg s1 = reg s"
    using store_ok [OF r pcb_aligned(3) [OF l(1)] order_trans [OF pcb_fields(3) l(2)], of p] by blast
  obtain s2 where s2: "vstore32 (process_next_task p) 0 s1 = Inr s2" "s2 = s1\<lparr>phys := phys s2\<rparr>" "runs s2 (appended ?l p m)" "reg s2 = reg s"
    using store_ok [OF s1(3) pcb_aligned(3) [OF l(3)], of 0] pcb_fields(3) [of p] l(4) unfolding s1(4) appended_def by blast
  let ?s = "s2\<lparr>ready_to_run := \<lparr>head = hd ts, tail = p\<rparr>\<rparr>"
  have "ready_to_run s = \<lparr>head = hd ts, tail = ?l\<rparr>" using ql(4,5) by (cases "ready_to_run s") simp
  then have "enqueue_ready p s = Inr ?s"
    using s1(1) s2(1) nz ql(4) by (simp add: enqueue_ready_def enqueue_task_def)
  moreover have "?s = s\<lparr>phys := phys ?s, ready_to_run := \<lparr>head = hd ts, tail = p\<rparr>\<rparr>"
    by (subst (1) s2(2), subst (1) s1(2)) simp
  moreover have "runs ?s (appended ?l p m)" "reg ?s = reg s" using runs_task(3) [OF s2(3)] s2(4) by (simp_all add: reg_task)
  ultimately show ?thesis unfolding ok_def by (intro exI [of _ ?s] conjI)
qed

text \<open>Adding a task to a ready queue.\<close>

definition start_context :: "u32 \<Rightarrow> u32 \<Rightarrow> registers" where
  "start_context p start = \<lparr>ebx = 0, esi = 0, edi = 0, ebp = 0, esp = p + 4140, eip = start\<rparr>"

lemma add_task_ok:
  assumes r: "runs s m" and q: "queue_inv (reg s) stk ts s m" and p: "p = heap_current s"
    and al: "word_aligned p" and room: "unat p + 4140 \<le> limit" "0 < unat p"
    and lit: "cstring_in (reg s) m (literal_name s) n" "n < 20"
    and start: "start \<noteq> 0" and pd: "cr3 s = page_directory (syms s)" and stk: "stk p = p + 44"
  shows "ok (add_task name start s) (\<lambda>s'. \<exists>m'. runs s' m' \<and> queue_inv (reg s') stk (ts @ [p]) s' m' \<and> reg s \<subseteq> reg s' \<and>
    creates (s\<lparr>ready_to_run := \<lparr>head = hd ts, tail = p\<rparr>\<rparr>) s' \<and> unat (heap_current s') = unat p + 4140 \<and>
    span p 4140 \<inter> reg s = {} \<and> resumed m' p = start_context p start \<and> load32 m' (process_pid p) = next_available_pid s \<and>
    (\<forall>t\<in>set (tl ts). resumed m' t = resumed m t) \<and>
    (\<forall>x\<in>reg s. x \<notin> span (process_next_task (last ts)) 4 \<longrightarrow> m' x = m x))"
  unfolding add_task_def
proof (rule ok_bind [OF create_ok [OF r al [unfolded p] room(1) [unfolded p] lit]], goal_cases)
  case (1 r1)
  then obtain s1 where r1: "r1 = (p, s1)" and 1: "creates s s1" "unat (heap_current s1) = unat p + 4140" "reg s \<subseteq> reg s1"
    "span p 4140 \<subseteq> reg s1" "span p 4140 \<inter> reg s = {}"
    "runs s1 (started p start (task_memory_at p (next_available_pid s) (literal_name s) n (page_directory (syms s)) m))"
    by (cases r1) (auto simp: p)
  let ?m1 = "started p start (task_memory_at p (next_available_pid s) (literal_name s) n (page_directory (syms s)) m)"
  note c = creates_same [OF 1(1)] and F = task_memory_fields [OF al lit(2) refl]
  have m1: "?m1 x = m x" if "x \<in> reg s" for x
    using that 1(5) by (intro task_memory_outside [OF lit(2)]) blast
  note P = queue_inv_process(3,4) [OF q]
  have q1: "queue_inv (reg s1) stk ts s1 ?m1"
    using queue_inv_cong [OF q 1(3) c(1-3), of ?m1] P(1) m1 by blast
  have top: "load32 ?m1 (process_kernel_stack_top p) = p + 4120" using F(6) start by simp
  have saved: "span (load32 ?m1 (process_kernel_stack_top p)) 20 \<subseteq> span (stk p) 4096"
    unfolding top stk by (rule task_block(5))
  have own: "pcb p \<union> span (stk p) 4096 \<subseteq> span p 4140" "pcb p \<inter> span (stk p) 4096 = {}"
    using task_block(1-3) [of p] unfolding pcb_def stk by blast+
  have new: "newcomer (reg s1) stk ts (cr3 s1) p ?m1"
    unfolding newcomer_def
  proof (intro conjI ballI)
    show "(pcb p \<union> span (stk p) 4096) \<inter> (pcb t \<union> span (stk t) 4096) = {}" if "t \<in> set ts" for t
      using own(1) P [OF that] 1(5) by blast
    show "load32 ?m1 (process_page_directory p) = cr3 s1" using F(2) pd c(3) by simp
  qed (use own 1(4) al room(2) in auto)
  have keep: "\<forall>t\<in>set (tl ts). resumed (appended (last ts) p ?m1) t = resumed m t"
  proof
    fix t assume t: "t \<in> set (tl ts)"
    then have t': "t \<in> set ts" by (rule list.set_sel(2) [OF queue_inv_list(1) [OF q]])
    then have "t \<in> set (ts @ [p])" by simp
    from appended_resumed [OF q1 new this queue_inv_saved [OF q1 t]]
    have "resumed (appended (last ts) p ?m1) t = resumed ?m1 t" .
    also have "\<dots> = resumed m t" using P [OF t'] m1 by (intro resumed_keep [OF q t]) blast
    finally show "resumed (appended (last ts) p ?m1) t = resumed m t" .
  qed
  have ctx: "resumed (appended (last ts) p ?m1) p = start_context p start"
    using appended_resumed [OF q1 new _ saved] F(7) start by (simp add: start_context_def)
  have pid: "load32 (appended (last ts) p ?m1) (process_pid p) = next_available_pid s"
  proof -
    have "pcb p \<inter> pcb (last ts) = {}" using new last_in_set [OF queue_inv_list(1) [OF q]] unfolding newcomer_def by blast
    moreover have "span (process_pid p) 4 \<inter> span (process_next_task p) 4 = {}" by (auto simp: span4 process_fields)
    ultimately have "load32 (appended (last ts) p ?m1) (process_pid p) = load32 ?m1 (process_pid p)"
      using pcb_fields(6) [of p] pcb_fields(3) [of "last ts"] by (intro load32_span_cong appended_outside) blast+
    then show ?thesis using F(1) by simp
  qed
  have out: "appended (last ts) p ?m1 x = m x" if "x \<in> reg s" "x \<notin> span (process_next_task (last ts)) 4" for x
  proof -
    have "x \<notin> span (process_next_task p) 4" using that(1) 1(5) own(1) pcb_fields(3) [of p] by blast
    then show ?thesis using that m1 by (simp add: appended_outside)
  qed
  show ?case
    unfolding r1 prod.case
  proof (rule ok_mono [OF enqueue_ready_ok [OF 1(6) q1 new]], elim conjE)
    fix s'
    assume s': "runs s' (appended (last ts) p ?m1)" "reg s' = reg s1" "s' = s1\<lparr>phys := phys s', ready_to_run := \<lparr>head = hd ts, tail = p\<rparr>\<rparr>"
    have f: "current_task s' = current_task s1" "ready_to_run s' = \<lparr>head = hd ts, tail = p\<rparr>" "cr3 s' = cr3 s1"
      "heap_current s' = heap_current s1" by (subst s'(3), simp)+
    have "creates (s\<lparr>ready_to_run := \<lparr>head = hd ts, tail = p\<rparr>\<rparr>) s'"
      by (rule creates_enqueue [OF 1(1) s'(3)])
    then show "\<exists>m'. runs s' m' \<and> queue_inv (reg s') stk (ts @ [p]) s' m' \<and> reg s \<subseteq> reg s' \<and>
      creates (s\<lparr>ready_to_run := \<lparr>head = hd ts, tail = p\<rparr>\<rparr>) s' \<and> unat (heap_current s') = unat p + 4140 \<and>
      span p 4140 \<inter> reg s = {} \<and> resumed m' p = start_context p start \<and> load32 m' (process_pid p) = next_available_pid s \<and>
      (\<forall>t\<in>set (tl ts). resumed m' t = resumed m t) \<and> (\<forall>x\<in>reg s. x \<notin> span (process_next_task (last ts)) 4 \<longrightarrow> m' x = m x)"
      using s'(1) appended_inv [OF q1 new saved f(1-3)] 1(2,3,5) keep ctx pid out unfolding s'(2) f(4)
      by (intro exI [of _ "appended (last ts) p ?m1"]) simp
  qed
qed

lemma first_task_ok:
  assumes r: "runs s m" and e: "e = heap_current s" "word_aligned e" "unat e + 4140 \<le> limit" "0 < unat e"
    and lit: "cstring_in (reg s) m (literal_name s) n" "n < 20" and pd: "cr3 s = page_directory (syms s)"
    and empty: "ready_to_run s = \<lparr>head = 0, tail = 0\<rparr>" and stk: "span (stk e) 4096 \<subseteq> reg s"
  shows "ok (and_then (create_kernel_task name 0 s) (\<lambda>(task, s). enqueue_ready task (s\<lparr>current_task := task\<rparr>)))
    (\<lambda>s'. \<exists>m'. runs s' m' \<and> queue_inv (reg s') stk [e] s' m' \<and> reg s \<subseteq> reg s' \<and> unat (heap_current s') = unat e + 4140 \<and>
      span e 4140 \<inter> reg s = {} \<and>
      creates (s\<lparr>current_task := e, ready_to_run := \<lparr>head = e, tail = e\<rparr>\<rparr>) s' \<and> load32 m' (process_pid e) = next_available_pid s \<and>
      (\<forall>x\<in>reg s. m' x = m x))"
proof (rule ok_bind [OF create_ok [OF r e(2,3) [unfolded e(1)] lit]], clarsimp simp: e(1) [symmetric], goal_cases)
  case (1 s1)
  let ?m1 = "started e 0 (task_memory_at e (next_available_pid s) (literal_name s) n (page_directory (syms s)) m)"
  let ?s = "s1\<lparr>current_task := e, ready_to_run := \<lparr>head = e, tail = e\<rparr>\<rparr>"
  note c = creates_same [OF 1(1)] and F = task_memory_fields [OF e(2) lit(2) refl]
  have m1: "?m1 x = m x" if "x \<in> reg s" for x
    using that 1(5) by (intro task_memory_outside [OF lit(2)]) blast
  have rg: "reg ?s = reg s1" by (simp add: region_def)
  have run: "enqueue_ready e (s1\<lparr>current_task := e\<rparr>) = Inr ?s"
    using c(2) empty by (simp add: enqueue_ready_def enqueue_task_def)
  have runs: "runs ?s ?m1" using 1(6) by (rule runs_cong) simp_all
  have own: "pcb e \<subseteq> span e 4140" using task_block(1) by (simp add: pcb_def)
  have "queue_inv (reg ?s) stk [e] ?s ?m1"
    unfolding rg queue_inv_def
  proof (intro conjI)
    show "\<forall>p\<in>set [e]. p \<noteq> 0 \<and> word_aligned p \<and> pcb p \<subseteq> reg s1 \<and> span (stk p) 4096 \<subseteq> reg s1 \<and>
        load32 ?m1 (process_page_directory p) = cr3 ?s"
      using e(2,4) own 1(3,4) stk pd c(3) F(2) by auto
    show "\<forall>p\<in>set [e]. \<forall>q\<in>set [e]. pcb p \<inter> span (stk q) 4096 = {} \<and>
        (p \<noteq> q \<longrightarrow> pcb p \<inter> pcb q = {} \<and> span (stk p) 4096 \<inter> span (stk q) 4096 = {})"
      using own stk 1(5) by auto
  qed (simp_all add: F(3))
  moreover have "creates (s\<lparr>current_task := e, ready_to_run := \<lparr>head = e, tail = e\<rparr>\<rparr>) ?s"
    by (rule creates_first [OF 1(1)])
  ultimately show ?case
    using run runs 1 m1 F(1) rg by (simp add: ok_def) blast
qed

lemma init_tasking_ok:
  assumes r: "runs s m" and e: "e = heap_current s" "word_aligned e" "unat e + 12420 \<le> limit" "0 < unat e"
    and lit: "cstring_in (reg s) m (literal_name s) n" "n < 20" and pd: "cr3 s = page_directory (syms s)"
    and empty: "ready_to_run s = \<lparr>head = 0, tail = 0\<rparr>" and fns: "task1_fn s \<noteq> 0" "task2_fn s \<noteq> 0"
    and stk: "span (stk e) 4096 \<subseteq> reg s" "stk (e + 4140) = e + 4184" "stk (e + 8280) = e + 8324"
  shows "ok (init_tasking k n1 n2 s) (\<lambda>s'. \<exists>m'. runs s' m' \<and> queue_inv (reg s') stk [e, e + 4140, e + 8280] s' m' \<and>
    resumed m' (e + 4140) = start_context (e + 4140) (task1_fn s) \<and> resumed m' (e + 8280) = start_context (e + 8280) (task2_fn s) \<and>
    next_available_pid s' = next_available_pid s + 3 \<and> regs s' = regs s \<and> switch_return s' = switch_return s \<and>
    terminated s' = terminated s \<and> reg s \<subseteq> reg s' \<and> (\<forall>x\<in>reg s. m' x = m x) \<and> init_only s s' \<and>
    load32 m' (process_pid (e + 4140)) = next_available_pid s + 1 \<and> (\<forall>t\<in>{e, e + 4140, e + 8280}. span t 4140 \<inter> reg s = {}))"
proof -
  obtain d where d: "print_process_offsets s = s\<lparr>dev := d\<rparr>"
    by (simp add: print_process_offsets_def mlog_def)
  let ?s = "s\<lparr>dev := d\<rparr>"
  have r0: "runs ?s m" using r by (rule runs_cong) simp_all
  have g0: "reg ?s = reg s" by (simp add: region_def)
  have eq: "init_tasking k n1 n2 s =
      and_then (and_then (create_kernel_task k 0 ?s) (\<lambda>(task, s). enqueue_ready task (s\<lparr>current_task := task\<rparr>)))
       (\<lambda>s. and_then (add_task n1 (task1_fn s) s) (\<lambda>s. add_task n2 (task2_fn s) s))"
    unfolding init_tasking_def d Let_def and_then_assoc by (intro and_then_cong refl) (auto split: prod.splits)
  show ?thesis
    unfolding eq
  proof (rule ok_bind [OF first_task_ok [OF r0, of e n stk, unfolded g0]], goal_cases)
    case (10 s1)
    then obtain m1 where m1: "runs s1 m1" "queue_inv (reg s1) stk [e] s1 m1" "reg s \<subseteq> reg s1" "unat (heap_current s1) = unat e + 4140"
      "span e 4140 \<inter> reg s = {}" "creates (?s\<lparr>current_task := e, ready_to_run := \<lparr>head = e, tail = e\<rparr>\<rparr>) s1"
      "\<forall>x\<in>reg s. m1 x = m x"
      by auto
    note c1 = creates_same [OF m1(6), simplified]
    have h1: "e + 4140 = heap_current s1"
      using m1(4) unat_u32_bound [of "heap_current s1"] by (simp add: word_unat_eq_iff unat_word_ariths)
    have a1: "word_aligned (e + 4140)" "word_aligned (e + 8280)"
      using word_aligned_plus [OF e(2)] by (simp_all add: word_aligned_def)
    have lit1: "cstring_in (reg s1) m1 (literal_name s1) n"
      unfolding c1(5) using m1(7) by (intro cstring_in_keep [OF lit(1) m1(3)]) simp
    show ?case
    proof (rule ok_bind [OF add_task_ok [OF m1(1,2) h1 a1(1) _ _ lit1 lit(2), where start = "task1_fn s1" and name = n1]], goal_cases)
      case (6 s2)
      then obtain m2 where m2: "runs s2 m2" "queue_inv (reg s2) stk [e, e + 4140] s2 m2" "reg s1 \<subseteq> reg s2"
        "unat (heap_current s2) = unat (e + 4140) + 4140" "creates (s1\<lparr>ready_to_run := \<lparr>head = e, tail = e + 4140\<rparr>\<rparr>) s2"
        "resumed m2 (e + 4140) = start_context (e + 4140) (task1_fn s1)"
        "\<forall>x\<in>reg s1. x \<notin> span (process_next_task e) 4 \<longrightarrow> m2 x = m1 x" "span (e + 4140) 4140 \<inter> reg s1 = {}"
        "load32 m2 (process_pid (e + 4140)) = next_available_pid s1"
        by auto
      note c2 = creates_same [OF m2(5), simplified]
      have h2: "e + 8280 = heap_current s2" 
        using m2(4) h1 m1(4) unat_u32_bound [of "heap_current s2"] by (simp add: word_unat_eq_iff unat_word_ariths)
      have out: "x \<notin> span (process_next_task e) 4" if "x \<in> reg s" for x
        using that m1(5) pcb_fields(3) [of e] task_block(1) [of e] unfolding pcb_def by blast
      have lit2: "cstring_in (reg s2) m2 (literal_name s2) n"
        unfolding c2(5) c1(5) using m1(3,7) m2(3,7) out by (intro cstring_in_keep [OF lit(1)]) auto
      have fits: "unat (e + 4140) = unat e + 4140" "unat (e + 8280) = unat e + 8280" using h1 h2 m1(4) m2(4) by simp_all
      show ?case
      proof (rule ok_mono [OF add_task_ok [OF m2(1,2) h2 a1(2) _ _ lit2 lit(2), where start = "task2_fn s2" and name = n2]], goal_cases)
        case (6 s')
        then obtain m' where m': "runs s' m'" "queue_inv (reg s') stk [e, e + 4140, e + 8280] s' m'" "reg s2 \<subseteq> reg s'"
          "creates (s2\<lparr>ready_to_run := \<lparr>head = e, tail = e + 8280\<rparr>\<rparr>) s'" "resumed m' (e + 8280) = start_context (e + 8280) (task2_fn s2)"
          "resumed m' (e + 4140) = resumed m2 (e + 4140)"
          "\<forall>x\<in>reg s2. x \<notin> span (process_next_task (e + 4140)) 4 \<longrightarrow> m' x = m2 x" "span (e + 8280) 4140 \<inter> reg s2 = {}"
          by auto
        note c' = creates_same [OF m'(4), simplified]
        have out': "x \<notin> span (process_next_task (e + 4140)) 4" if "x \<in> reg s" for x
          using that m1(3) m2(8) pcb_fields(3) [of "e + 4140"] task_block(1) [of "e + 4140"] unfolding pcb_def by blast
        have "pcb (e + 4140) \<subseteq> reg s2" using queue_inv_process(3) [OF m2(2)] by simp
        moreover have "span (process_pid (e + 4140)) 4 \<inter> span (process_next_task (e + 4140)) 4 = {}" by (auto simp: span4 process_fields)
        ultimately have "load32 m' (process_pid (e + 4140)) = load32 m2 (process_pid (e + 4140))"
          using m'(7) pcb_fields(6) [of "e + 4140"] by (intro load32_span_cong) blast
        moreover have "init_only s s'"
        proof -
          have "init_only s ?s" by (rule init_onlyI [where d = d and p = "phys s" and c = "heap_current s" and h = "heap_mapped s" and t = "current_task s"
              and q = "ready_to_run s" and i = "next_available_pid s"]) simp
          then show ?thesis
            using init_only_creates(1) [OF m1(6)] init_only_creates(2) [OF m2(5)] init_only_creates(2) [OF m'(4)] init_only_trans by blast
        qed
        moreover have "\<forall>t\<in>{e, e + 4140, e + 8280}. span t 4140 \<inter> reg s = {}" using m1(3,5) m2(3,8) m'(8) by blast
        moreover have "\<forall>x\<in>reg s. m' x = m x" using out out' m'(7) m2(3,7) m1(3,7) by (metis subsetD)
        ultimately show ?case
          using m' m2(1-6,9) m1(3) c' c2 c1 by (intro exI [of _ m']) auto
      qed (use assms fits m1 m2 c1 c2 in \<open>auto\<close>)
    qed (use assms m1 h1 c1 in \<open>auto simp: add.commute\<close>)
  qed (use assms in auto)
qed

end

section \<open>Termination\<close>

lemma queue_inv_tl:
  assumes "queue_inv D stk (c # n # rest) s m" "current_task s' = n" "ready_to_run s' = \<lparr>head = n, tail = last (n # rest)\<rparr>" "cr3 s' = cr3 s"
  shows "queue_inv D stk (n # rest) s' m"
  unfolding queue_inv_def
  using queue_inv_list [OF assms(1)] queue_inv_process [OF assms(1)] queue_inv_apart [OF assms(1)] queue_inv_saved [OF assms(1)] assms(2-4)
  by (intro conjI ballI impI) simp_all

text \<open>What \<open>terminate_task\<close> writes before the switch, for the list \<open>q\<close> of terminated tasks.\<close>

definition retired :: "u32 \<Rightarrow> list_t \<Rightarrow> (u32 \<Rightarrow> u8) \<Rightarrow> (u32 \<Rightarrow> u8)" where
  "retired c q m = (let m = store32 (process_state c) TERMINATED m in if head q = 0 then m else appended (tail q) c m)"

text \<open>The last terminated task, if there is one, shares no memory with the ready queue.\<close>

definition graveyard :: "u32 set \<Rightarrow> (u32 \<Rightarrow> u32) \<Rightarrow> u32 list \<Rightarrow> list_t \<Rightarrow> bool" where
  "graveyard D stk ts q \<longleftrightarrow> head q = 0 \<or> word_aligned (tail q) \<and> pcb (tail q) \<subseteq> D \<and>
     (\<forall>p\<in>set ts. pcb (tail q) \<inter> (pcb p \<union> span (stk p) 4096) = {})"

lemma retired_outside:
  "x \<notin> pcb c \<Longrightarrow> head q = 0 \<or> x \<notin> pcb (tail q) \<Longrightarrow> retired c q m x = m x"
proof -
  assume "x \<notin> pcb c" and t: "head q = 0 \<or> x \<notin> pcb (tail q)"
  then have "x \<notin> span (process_state c) 4" "x \<notin> span (process_next_task c) 4" using pcb_fields(3,4) [of c] by blast+
  moreover have "head q = 0 \<or> x \<notin> span (process_next_task (tail q)) 4" using t pcb_fields(3) [of "tail q"] by blast
  ultimately show "retired c q m x = m x"
    by (cases "head q = 0") (simp_all add: retired_def Let_def store32_outside appended_outside)
qed

lemma retired_other:
  assumes q: "queue_inv D stk ts s m" and g: "graveyard D stk ts d" and p: "c \<in> set ts" "p \<in> set ts" "p \<noteq> c"
    and x: "x \<in> pcb p \<union> span (stk p) 4096"
  shows "retired c d m x = m x"
proof (rule retired_outside)
  show "x \<notin> pcb c" using x queue_inv_apart(1) [OF q p(1,2)] queue_inv_apart(2) [OF q p(2,1,3)] by blast
  show "head d = 0 \<or> x \<notin> pcb (tail d)" using x g p(2) unfolding graveyard_def by blast
qed

lemma retired_fields:
  assumes g: "graveyard D stk ts d" and c: "c \<in> set ts"
  shows "load32 (retired c d m) (process_state c) = TERMINATED"
    "load32 (retired c d m) (process_next_task c) = (if head d = 0 then load32 m (process_next_task c) else 0)"
    "head d \<noteq> 0 \<longrightarrow> load32 (retired c d m) (process_next_task (tail d)) = c"
proof -
  have t: "span (process_next_task (tail d)) 4 \<inter> pcb c = {}" if "head d \<noteq> 0"
    using g c that pcb_fields(3) [of "tail d"] unfolding graveyard_def by blast
  have cs: "span (process_state c) 4 \<inter> span (process_next_task c) 4 = {}" by (auto simp: span4 process_fields)
  note F = pcb_fields [of c]
  show "load32 (retired c d m) (process_state c) = TERMINATED"
  proof (cases "head d = 0")
    case False
    then have "span (process_next_task (tail d)) 4 \<inter> span (process_state c) 4 = {}" using t F(4) by blast
    then show ?thesis using False cs by (simp add: retired_def appended_def load32_apart Int_commute)
  qed (simp add: retired_def)
  show "load32 (retired c d m) (process_next_task c) = (if head d = 0 then load32 m (process_next_task c) else 0)"
    using cs by (simp add: retired_def appended_def load32_apart)
  show "head d \<noteq> 0 \<longrightarrow> load32 (retired c d m) (process_next_task (tail d)) = c"
  proof
    assume h: "head d \<noteq> 0"
    then have "span (process_next_task c) 4 \<inter> span (process_next_task (tail d)) 4 = {}" using t F(3) by blast
    then show "load32 (retired c d m) (process_next_task (tail d)) = c"
      using h by (simp add: retired_def appended_def load32_apart)
  qed
qed

context task_memory
begin

lemma retire_ok:
  assumes r: "runs s m" and c: "word_aligned c" "pcb c \<subseteq> reg s" and g: "graveyard (reg s) stk ts (terminated s)"
    and cur: "current_task s = c"
  shows "ok (and_then (vstore32 (process_state (current_task s)) TERMINATED s) (\<lambda>s. enqueue_task (terminated s) (current_task s) s))
    (\<lambda>(q, s'). q = (if head (terminated s) = 0 then \<lparr>head = c, tail = c\<rparr> else (terminated s)\<lparr>tail := c\<rparr>) \<and>
      s' = s\<lparr>phys := phys s'\<rparr> \<and> runs s' (retired c (terminated s) m) \<and> reg s' = reg s)"
proof -
  note A = pcb_aligned [OF c(1)] and F = pcb_fields [of c]
  let ?d = "terminated s" and ?m1 = "store32 (process_state c) TERMINATED m"
  obtain s1 where s1: "vstore32 (process_state c) TERMINATED s = Inr s1" "s1 = s\<lparr>phys := phys s1\<rparr>" "runs s1 ?m1" "reg s1 = reg s"
    using store_ok [OF r A(4) order_trans [OF F(4) c(2)]] by blast
  have f: "terminated s1 = ?d" "current_task s1 = c" by (subst s1(2), simp add: cur)+
  show ?thesis
  proof (cases "head ?d = 0")
    case True
    have run: "and_then (vstore32 (process_state (current_task s)) TERMINATED s) (\<lambda>s. enqueue_task (terminated s) (current_task s) s) =
        Inr (\<lparr>head = c, tail = c\<rparr>, s1)"
      using True s1(1) f cur by (simp add: enqueue_task_def)
    show ?thesis
      unfolding run ok_Inr prod.case using True s1(3,4) by (intro conjI s1(2)) (simp_all add: retired_def)
  next
    case False
    then have t: "word_aligned (tail ?d)" "pcb (tail ?d) \<subseteq> reg s" using g by (simp_all add: graveyard_def)
    obtain s2 where s2: "vstore32 (process_next_task (tail ?d)) c s1 = Inr s2" "s2 = s1\<lparr>phys := phys s2\<rparr>"
      "runs s2 (store32 (process_next_task (tail ?d)) c ?m1)" "reg s2 = reg s1"
      using store_ok [OF s1(3) pcb_aligned(3) [OF t(1)] order_trans [OF pcb_fields(3) t(2), folded s1(4)], of c] by blast
    obtain s3 where s3: "vstore32 (process_next_task c) 0 s2 = Inr s3" "s3 = s2\<lparr>phys := phys s3\<rparr>"
      "runs s3 (appended (tail ?d) c ?m1)" "reg s3 = reg s2"
      using store_ok [OF s2(3) A(3) order_trans [OF F(3) c(2), folded s1(4), folded s2(4)], of 0] unfolding appended_def by blast
    have e: "s3 = s\<lparr>phys := phys s3\<rparr>" by (subst s3(2), subst s2(2), subst s1(2)) simp
    have run: "and_then (vstore32 (process_state (current_task s)) TERMINATED s) (\<lambda>s. enqueue_task (terminated s) (current_task s) s) =
        Inr (?d\<lparr>tail := c\<rparr>, s3)"
      using False s1(1) s2(1) s3(1) f cur by (simp add: enqueue_task_def)
    show ?thesis
      unfolding run ok_Inr prod.case using False s1(4) s2(4) s3(3,4) by (intro conjI e) (simp_all add: retired_def)
  qed
qed

lemma terminate_ok:
  assumes r: "runs s m" and q: "queue_inv (reg s) stk (c # n # rest) s m" and rm: "room stk s"
    and pid: "load32 m (process_pid c) \<noteq> 0" and g: "graveyard (reg s) stk (c # n # rest) (terminated s)"
  shows "ok (terminate_task s) (\<lambda>s'. \<exists>m'. runs s' m' \<and> reg s' = reg s \<and> queue_inv (reg s) stk (n # rest) s' m' \<and> regs s' = resumed m n \<and>
    (\<forall>p\<in>set rest. resumed m' p = resumed m p) \<and>
    terminated s' = (if head (terminated s) = 0 then \<lparr>head = c, tail = c\<rparr> else (terminated s)\<lparr>tail := c\<rparr>) \<and>
    load32 m' (process_state c) = TERMINATED \<and>
    load32 m' (process_next_task c) = (if head (terminated s) = 0 then n else 0) \<and>
    (head (terminated s) \<noteq> 0 \<longrightarrow> load32 m' (process_next_task (tail (terminated s))) = c) \<and>
    (\<forall>x. x \<notin> pcb c \<union> span (stk c) 4096 \<and> (head (terminated s) = 0 \<or> x \<notin> pcb (tail (terminated s))) \<longrightarrow> m' x = m x) \<and>
    s' = s\<lparr>phys := phys s', last_time := last_time s', previous_task := previous_task s', current_task := current_task s', regs := regs s',
      ready_to_run := ready_to_run s', terminated := terminated s'\<rparr>)"
proof -
  let ?ts = "c # n # rest" and ?S = "span (stk c) 4096" and ?d = "terminated s"
  let ?m3 = "retired c ?d m"
  have cts: "c \<in> set ?ts" "n \<in> set ?ts" by simp_all
  note P = queue_inv_process [OF q] and PQ = queue_inv_apart [OF q] and ql = queue_inv_list(2) [OF q, simplified]
  have nc: "n \<noteq> c" using ql by auto
  let ?s0 = "s\<lparr>ready_to_run := (ready_to_run s)\<lparr>head := n\<rparr>\<rparr>"
  have ld: "vload32 (process_pid c) s = Inr (load32 m (process_pid c))" "vload32 (process_next_task c) s = Inr n"
    using runs_load32 [OF r, of "process_pid c"] runs_load32 [OF r, of "process_next_task c"] pcb_fields(3,6) [of c] P(3) [OF cts(1)]
      queue_inv_list(6) [OF q] by auto
  have cur: "current_task s = c" using queue_inv_list(3) [OF q] by simp
  obtain d s3 where s3: "and_then (vstore32 (process_state (current_task ?s0)) TERMINATED ?s0) (\<lambda>s. enqueue_task (terminated s) (current_task s) s) = Inr (d, s3)"
    "d = (if head ?d = 0 then \<lparr>head = c, tail = c\<rparr> else ?d\<lparr>tail := c\<rparr>)" "s3 = ?s0\<lparr>phys := phys s3\<rparr>" "runs s3 ?m3" "reg s3 = reg s"
    using retire_ok [OF runs_task(3) [OF r], of c "(ready_to_run s)\<lparr>head := n\<rparr>" stk ?ts] P(2,3) [OF cts(1)] g cur
    by (auto simp: ok_def reg_task)
  let ?s4 = "s3\<lparr>terminated := d\<rparr>"
  have f4: "regs ?s4 = regs s" "current_task ?s4 = c" "cr3 ?s4 = cr3 s" "switch_return ?s4 = switch_return s"
    "ready_to_run ?s4 = \<lparr>head = n, tail = last (n # rest)\<rparr>"
    using queue_inv_list(5) [OF q] by (simp, subst s3(3), simp add: cur)+
  have run: "terminate_task s = switch_to_task n ?s4"
  proof -
    have "terminate_task s = and_then (and_then (vstore32 (process_state (current_task ?s0)) TERMINATED ?s0)
        (\<lambda>s. enqueue_task (terminated s) (current_task s) s)) (\<lambda>(queue, s). switch_to_task n (s\<lparr>terminated := queue\<rparr>))"
      unfolding terminate_task_def Let_def and_then_assoc using ld pid cur by simp
    then show ?thesis unfolding s3(1) by simp
  qed
  have rs4: "runs ?s4 ?m3" "reg ?s4 = reg s" using runs_task(4) [OF s3(4)] s3(5) by (simp_all add: reg_task)
  have rm': "word_aligned (esp (regs s))" "span (esp (regs s) - 24) 24 \<subseteq> ?S" using rm cur by (simp_all add: room_def)
  have Sc: "?S \<inter> pcb c = {}" "?S \<subseteq> reg s" using PQ(1) [OF cts(1,1)] P(4) [OF cts(1)] by blast+
  note other = retired_other [OF q g cts(1)]
  have m3: "load32 ?m3 a = load32 m a" if "p \<in> set (n # rest)" "span a 4 \<subseteq> pcb p" for p a
    using that ql by (intro load32_span_cong other [of p]) auto
  have n_m3: "load32 ?m3 (process_kernel_stack_top n) = load32 m (process_kernel_stack_top n)"
    "load32 ?m3 (process_page_directory n) = cr3 s"
    using m3 [of n] pcb_fields(1,2) P(5) [OF cts(2)] by simp_all
  have pn: "pcb n \<inter> (?S \<union> pcb c) = {}" using PQ(1) [OF cts(2,1)] PQ(2) [OF cts(2,1) nc] by blast
  have top: "span (load32 m (process_kernel_stack_top n)) 20 \<subseteq> span (stk n) 4096" using queue_inv_saved [OF q, of n] by simp
  have tn: "span (load32 ?m3 (process_kernel_stack_top n)) 20 \<subseteq> reg s"
    "span (load32 ?m3 (process_kernel_stack_top n)) 20 \<inter> (?S \<union> pcb c) = {}"
    unfolding n_m3(1) using top P(4) [OF cts(2)] PQ(1) [OF cts(1,2)] PQ(3) [OF cts(2,1) nc] by blast+
  obtain s' m' where s': "switch_to_task n ?s4 = Inr s'" "runs s' m'" "reg s' = reg s"
    "s' = ?s4\<lparr>phys := phys s', last_time := ticks ?s4, previous_task := c, current_task := n, regs := resumed ?m3 n\<rparr>"
    "\<forall>x. x \<notin> ?S \<union> span (process_time_used c) 4 \<union> span (process_kernel_stack_top c) 4 \<longrightarrow> m' x = ?m3 x"
    using switch_ok [OF rs4(1) f4(2) [symmetric], unfolded f4 rs4(2), OF P(2,3) [OF cts(1)] rm' Sc(2,1) P(3) [OF cts(2)] pn n_m3(2) tn]
    by blast
  have o: "only_task stk c ?m3 m'" using s'(5) by (simp add: only_task_def)
  have all: "m' x = m x" if "p \<in> set (n # rest)" "x \<in> pcb p \<union> span (stk p) 4096" for p x
    using that ql other [of p x] only_task_other [OF q cts(1) _ _ o, of p x] by auto
  have f': "current_task s' = n" "ready_to_run s' = \<lparr>head = n, tail = last (n # rest)\<rparr>" "cr3 s' = cr3 s" "terminated s' = d"
    "regs s' = resumed ?m3 n"
    by (subst s'(4), simp add: f4(3) [simplified] f4(5) [simplified])+
  have "queue_inv (reg s) stk (n # rest) s' m'"
    using queue_inv_cong [OF queue_inv_tl [OF q f'(1-3)], of "reg s" s' m'] all by blast
  moreover have "resumed ?m3 n = resumed m n"
    using other [of n] nc by (intro resumed_keep [OF q]) simp_all
  moreover have "\<forall>p\<in>set rest. resumed m' p = resumed m p"
  proof
    fix p assume p: "p \<in> set rest"
    show "resumed m' p = resumed m p" using p all [of p] by (intro resumed_keep [OF q]) simp_all
  qed
  moreover have "load32 m' (process_state c) = TERMINATED"
    "load32 m' (process_next_task c) = (if head ?d = 0 then n else 0)"
    using only_task_load [OF q cts(1) o pcb_fields(4) pcb_fields_apart(7,8)] only_task_load [OF q cts(1) o pcb_fields(3) pcb_fields_apart(1,2)]
      retired_fields(1,2) [OF g cts(1)] queue_inv_list(6) [OF q] by simp_all
  moreover have "head ?d \<noteq> 0 \<longrightarrow> load32 m' (process_next_task (tail ?d)) = c"
  proof
    assume h: "head ?d \<noteq> 0"
    then have "pcb (tail ?d) \<inter> (pcb c \<union> ?S) = {}" using g by (simp add: graveyard_def)
    then have "load32 m' (process_next_task (tail ?d)) = load32 ?m3 (process_next_task (tail ?d))"
      using s'(5) pcb_fields(3) [of "tail ?d"] pcb_fields(1,5) [of c] by (intro load32_span_cong) blast
    then show "load32 m' (process_next_task (tail ?d)) = c" using retired_fields(3) [OF g cts(1)] h by simp
  qed
  moreover have "\<forall>x. x \<notin> pcb c \<union> ?S \<and> (head ?d = 0 \<or> x \<notin> pcb (tail ?d)) \<longrightarrow> m' x = m x"
    using s'(5) pcb_fields(1,5) [of c] retired_outside [of _ c ?d m] by fastforce
  moreover have "s' = s\<lparr>phys := phys s', last_time := last_time s', previous_task := previous_task s', current_task := current_task s', regs := regs s',
      ready_to_run := ready_to_run s', terminated := terminated s'\<rparr>"
  proof -
    have "\<exists>ph. s3 = s\<lparr>ready_to_run := (ready_to_run s)\<lparr>head := n\<rparr>, phys := ph\<rparr>" by (rule exI [of _ "phys s3"], rule s3(3))
    then obtain ph where "s3 = s\<lparr>ready_to_run := (ready_to_run s)\<lparr>head := n\<rparr>, phys := ph\<rparr>" ..
    then have "\<exists>p t r. s' = s\<lparr>ready_to_run := (ready_to_run s)\<lparr>head := n\<rparr>, terminated := d, phys := p, last_time := t, previous_task := c,
        current_task := n, regs := r\<rparr>"
      using s'(4) by (intro exI [of _ "phys s'"] exI [of _ "ticks ?s4"] exI [of _ "resumed ?m3 n"]) simp
    then obtain p t r where "s' = s\<lparr>ready_to_run := (ready_to_run s)\<lparr>head := n\<rparr>, terminated := d, phys := p, last_time := t, previous_task := c,
        current_task := n, regs := r\<rparr>" by blast
    then show ?thesis by simp
  qed
  ultimately show ?thesis
    unfolding ok_def using run s'(1-3) f'(4,5) s3(2) by (intro exI [of _ s'] exI [of _ m'] conjI) simp_all
qed

end

end
