(* ===== verification/Tasks.thy ===== *)
theory Tasks
  imports Task_Life
begin

text \<open>
  What the life of a task means on the running kernel: \<open>init_tasking\<close> establishes the ready queue of three
  tasks, \<open>terminate_task\<close> takes the running one out of it, and never the kernel's own.
\<close>

unbundle bit_operations_syntax

lemma heap_inv_cr3: "heap_inv s \<Longrightarrow> cr3 s = page_directory (syms s)"
  by (auto simp: heap_inv_def heap_pages_def pages_inv_def)

lemma tasks_at_view:
  assumes "tasks_at stk s a"
  shows "kh.runs s (vview s)" "queue_inv (kernel_region s) stk (queue a) s (vview s)" "regs s = running a"
    "\<forall>p\<in>set (tl (queue a)). resumed (vview s) p = contexts a p"
  using assms kh.runs_view [of s] by (simp_all add: tasks_at_def)

text \<open>The stacks after start-up: the boot stack at \<open>k\<close> for the kernel's task, and the block behind each control block.\<close>

definition task_stacks :: "u32 \<Rightarrow> u32 \<Rightarrow> u32 \<Rightarrow> u32" where
  "task_stacks e k p = (if p = e then k else p + 44)"

lemma init_tasking_pool:
  fixes s :: "'a tasking_scheme"
  assumes "heap_inv s" "e = heap_current s" "word_aligned e" "unat e + 12420 \<le> 0x11000000"
    and "cstring_in (kernel_region s) (vview s) (literal_name s) n" "n < 20"
    and "ready_to_run s = \<lparr>head = 0, tail = 0\<rparr>" "task1_fn s \<noteq> 0" "task2_fn s \<noteq> 0" "span k 4096 \<subseteq> kernel_region s"
  shows "\<exists>s' a. init_tasking name0 name1 name2 s = Inr s' \<and> tasks_at (task_stacks e k) s' a \<and>
    queue a = [e, e + 4140, e + 8280] \<and> running a = regs s \<and>
    contexts a (e + 4140) = \<lparr>ebx = 0, esi = 0, edi = 0, ebp = 0, esp = e + 8280, eip = task1_fn s\<rparr> \<and>
    contexts a (e + 8280) = \<lparr>ebx = 0, esi = 0, edi = 0, ebp = 0, esp = e + 12420, eip = task2_fn s\<rparr> \<and>
    next_available_pid s' = next_available_pid s + 3 \<and> (\<forall>x\<in>kernel_region s. vview s' x = vview s x) \<and>
    tk.init_only s s' \<and> kernel_region s \<subseteq> kernel_region s' \<and> load32 (vview s') (process_pid (e + 4140)) = next_available_pid s + 1 \<and>
    (\<forall>t\<in>{e, e + 4140, e + 8280}. span t 4140 \<inter> kernel_region s = {})"
proof -
  have base: "0xF000000 \<le> unat e" using assms(1,2) by (auto simp: heap_inv_def heap_pages_def)
  have stk: "span (task_stacks e k e) 4096 \<subseteq> kernel_region s" "task_stacks e k (e + 4140) = e + 4184" "task_stacks e k (e + 8280) = e + 8324"
    using assms(10) by (simp_all add: task_stacks_def)
  obtain s' m' where s': "init_tasking name0 name1 name2 s = Inr s'" "kh.runs s' m'"
    "queue_inv (kernel_region s') (task_stacks e k) [e, e + 4140, e + 8280] s' m'"
    "resumed m' (e + 4140) = tk.start_context (e + 4140) (task1_fn s)" "resumed m' (e + 8280) = tk.start_context (e + 8280) (task2_fn s)"
    "next_available_pid s' = next_available_pid s + 3" "regs s' = regs s" "kernel_region s \<subseteq> kernel_region s'"
    "\<forall>x\<in>kernel_region s. m' x = vview s x" "tk.init_only s s'" "load32 m' (process_pid (e + 4140)) = next_available_pid s + 1"
    "\<forall>t\<in>{e, e + 4140, e + 8280}. span t 4140 \<inter> kernel_region s = {}"
    using tk.init_tasking_ok [OF kh.runs_view [OF assms(1)] assms(2-4) _ assms(5,6) heap_inv_cr3 [OF assms(1)] assms(7-9) stk,
        of name0 name1 name2] base
    unfolding ok_def by auto
  let ?a = "\<lparr>queue = [e, e + 4140, e + 8280], running = regs s, contexts = resumed m'\<rparr>"
  have "tasks_at (task_stacks e k) s' ?a" using s'(2,3,7) by (intro tasks_at_runs [of _ m']) simp_all
  moreover have v: "vview s' x = m' x" if "x \<in> kernel_region s'" for x using s'(2) that by (simp add: kh.runs_def holds_def)
  then have "\<forall>x\<in>kernel_region s. vview s' x = vview s x" using s'(8,9) by auto
  moreover have "load32 (vview s') (process_pid (e + 4140)) = next_available_pid s + 1"
    using queue_inv_process(3) [OF s'(3), of "e + 4140"] pcb_fields(6) [of "e + 4140"] v s'(11) load32_span_cong [of "process_pid (e + 4140)" "vview s'" m']
    by auto
  ultimately show ?thesis
    using s'(1,4-6,8,10,12) by (intro exI [of _ s'] exI [of _ ?a]) (simp add: tk.start_context_def add.commute)
qed

text \<open>
  C34: \<open>init_tasking\<close> turns the running kernel into the first of three tasks: the ready queue holds it and the
  two test tasks, laid out one behind the other in the heap, each of which will start at its
  entry with cleared registers on an empty stack of its own.
\<close>

theorem init_tasking_ready:
  assumes "heap_inv s" "e = heap_current s" "word_aligned e" "unat e + 12420 \<le> 0x11000000"
    and "cstring_in (kernel_region s) (vview s) (literal_name s) n" "n < 20"
    and "ready_to_run s = \<lparr>head = 0, tail = 0\<rparr>" "task1_fn s \<noteq> 0" "task2_fn s \<noteq> 0" "span k 4096 \<subseteq> kernel_region s"
  shows "\<exists>s' a. init_tasking name0 name1 name2 s = Inr s' \<and> tasks_at (task_stacks e k) s' a \<and>
    queue a = [e, e + 4140, e + 8280] \<and> running a = regs s \<and>
    contexts a (e + 4140) = \<lparr>ebx = 0, esi = 0, edi = 0, ebp = 0, esp = e + 8280, eip = task1_fn s\<rparr> \<and>
    contexts a (e + 8280) = \<lparr>ebx = 0, esi = 0, edi = 0, ebp = 0, esp = e + 12420, eip = task2_fn s\<rparr> \<and>
    next_available_pid s' = next_available_pid s + 3 \<and> (\<forall>x\<in>kernel_region s. vview s' x = vview s x)"
  using init_tasking_pool [OF assms] by blast

text \<open>Logging and reading the clock of the running task keep the pool, so a turn of the kernel's task is a turn of the pool.\<close>

lemma tasks_at_mlog: "tasks_at stk s a \<Longrightarrow> tasks_at stk (mlog fmt as s) a"
proof -
  assume t: "tasks_at stk s a"
  note v = tasks_at_view [OF t]
  have r: "kh.runs (mlog fmt as s) (vview s)" by (rule kh.runs_mlog [OF v(1)])
  have "kernel_region (mlog fmt as s) = kernel_region s" by (simp add: region_def mlog_def)
  moreover have "queue_inv (kernel_region s) stk (queue a) (mlog fmt as s) (vview s)"
    by (rule queue_inv_cong [OF v(2)]) (simp_all add: mlog_def)
  moreover have "regs (mlog fmt as s) = running a" using v(3) by (simp add: mlog_def)
  ultimately show "tasks_at stk (mlog fmt as s) a" using v(4) by (intro tasks_at_runs [OF r]) simp_all
qed

lemma idle_turn_pool:
  assumes "tasks_at stk s a" "room stk s"
  shows "\<exists>s'. idle_turn s = Inr s' \<and> tasks_at stk s' (round_robin (switch_return s) a)"
    and "\<exists>s'. task2_turn s = Inr s' \<and> tasks_at stk s' (round_robin (switch_return s) a)"
proof -
  have keep: "tasks_at stk (mlog f x s) a" "room stk (mlog f x s)" "switch_return (mlog f x s) = switch_return s" if "tasks_at stk s a" "room stk s"
    for f x and s :: "'a tasking_scheme"
    using tasks_at_mlog [OF that(1)] that(2) by (simp_all add: room_def mlog_def)
  have sched: "\<exists>s'. schedule (mlog f x s) = Inr s' \<and> tasks_at stk s' (round_robin (switch_return s) a)" if "tasks_at stk s a" "room stk s"
    for f x and s :: "'a tasking_scheme"
    using schedule_pool [OF keep(1,2) [OF that, of f x]] unfolding keep(3) [OF that] by blast
  define s1 where "s1 = mlog ''Running task 0\<newline>'' [] s"
  note k1 = keep [OF assms, of "''Running task 0\<newline>''" "[]", folded s1_def]
  note v = tasks_at_view [OF k1(1)]
  have "current_task s1 \<in> set (queue a)" using queue_inv_list(1,3) [OF v(2)] by simp
  from queue_inv_process(3) [OF v(2) this] have used: "vload32 (process_time_used (current_task s1)) s1 =
      Inr (load32 (vview s1) (process_time_used (current_task s1)))"
    using kh.runs_load32 [OF v(1)] pcb_fields(5) [of "current_task s1"] by blast
  show "\<exists>s'. idle_turn s = Inr s' \<and> tasks_at stk s' (round_robin (switch_return s) a)"
    using sched [OF k1(1,2)] unfolding idle_turn_def Let_def s1_def [symmetric] used and_then_Inr k1(3) .
  show "\<exists>s'. task2_turn s = Inr s' \<and> tasks_at stk s' (round_robin (switch_return s) a)"
    using sched [OF assms] unfolding task2_turn_def .
qed

definition name_bytes :: "u8 list" where
  "name_bytes = [0x6E, 0x61, 0x6D, 0x65]"

lemma booted_tasking:
  "\<exists>s :: tasking. heap_inv s \<and> heap_current s = 0xF000000 \<and> mm.more s = mm.more (boot_tasking 0 \<lparr>head = 0, tail = 0\<rparr>) \<and>
     cstring_in (kernel_region s) (vview s) 0x110000 4 \<and> span 0x130000 4096 \<subseteq> kernel_region s"
proof -
  let ?t = "boot_tasking 0 \<lparr>head = 0, tail = 0\<rparr>"
  have "span 0x110000 (length (name_bytes @ [0])) \<subseteq> kernel_data boot_symbols"
    by (rule kernel_data_span) (simp_all add: name_bytes_def)
  then obtain s :: tasking where s: "heap_inv s" "heap_current s = 0xF000000" "syms s = boot_symbols" "mm.more s = mm.more ?t"
    "bytes (vview s) 0x110000 (length (name_bytes @ [0])) = name_bytes @ [0]"
    using booted_bytes [of "0x110000" "name_bytes @ [0]" "mm.more ?t"] by (auto simp: name_bytes_def)
  have sub: "span p n \<subseteq> kernel_region s" if "0x100000 \<le> unat p" "unat p + n < 0x200000" for p n
    using kernel_data_span [OF that] by (auto simp: region_def s(3))
  have "cstring_in (kernel_region s) (vview s) 0x110000 (length name_bytes)"
  proof (rule cstring_of_bytes)
    show "span 0x110000 (Suc (length name_bytes)) \<subseteq> kernel_region s" by (rule sub) (simp_all add: name_bytes_def)
  qed (use s(5) in \<open>simp_all add: name_bytes_def\<close>)
  moreover have "length name_bytes = 4" by (simp add: name_bytes_def)
  ultimately show ?thesis using s(1,2,4) sub [of "0x130000" 4096] by (intro exI [of _ s]) simp
qed

theorem init_tasking_ready_witness:
  "\<exists>(s :: tasking) s' a. init_tasking 0 0 0 s = Inr s' \<and> tasks_at (task_stacks 0xF000000 0x130000) s' a \<and>
    queue a = [0xF000000, 0xF00102C, 0xF002058] \<and> eip (contexts a 0xF00102C) = 0x106000 \<and> esp (contexts a 0xF00102C) = 0xF002058"
proof -
  obtain s :: tasking where s: "heap_inv s" "heap_current s = 0xF000000" "mm.more s = mm.more (boot_tasking 0 \<lparr>head = 0, tail = 0\<rparr>)"
    "cstring_in (kernel_region s) (vview s) 0x110000 4" "span 0x130000 4096 \<subseteq> kernel_region s"
    using booted_tasking by blast
  have f: "literal_name s = 0x110000" "ready_to_run s = \<lparr>head = 0, tail = 0\<rparr>" "task1_fn s = 0x106000" "task2_fn s = 0x107000"
    using same_tasking [OF s(3)] by (simp_all add: boot_tasking_def cpu.defs tasking.defs)
  have "\<exists>s' a. init_tasking 0 0 0 s = Inr s' \<and> tasks_at (task_stacks 0xF000000 0x130000) s' a \<and>
    queue a = [0xF000000, 0xF000000 + 4140, 0xF000000 + 8280] \<and> running a = regs s \<and>
    contexts a (0xF000000 + 4140) = \<lparr>ebx = 0, esi = 0, edi = 0, ebp = 0, esp = 0xF000000 + 8280, eip = task1_fn s\<rparr> \<and>
    contexts a (0xF000000 + 8280) = \<lparr>ebx = 0, esi = 0, edi = 0, ebp = 0, esp = 0xF000000 + 12420, eip = task2_fn s\<rparr> \<and>
    next_available_pid s' = next_available_pid s + 3 \<and> (\<forall>x\<in>kernel_region s. vview s' x = vview s x)"
    by (rule init_tasking_ready [OF s(1) s(2) [symmetric], of 4]) (use s(4,5) f in \<open>simp_all add: word_aligned_def\<close>)
  then obtain s' a where "init_tasking 0 0 0 s = Inr s'" "tasks_at (task_stacks 0xF000000 0x130000) s' a"
    "queue a = [0xF000000, 0xF000000 + 4140, 0xF000000 + 8280]"
    "contexts a (0xF000000 + 4140) = \<lparr>ebx = 0, esi = 0, edi = 0, ebp = 0, esp = 0xF000000 + 8280, eip = task1_fn s\<rparr>"
    by blast
  then show ?thesis using f(3) by (intro exI [of _ s] exI [of _ s'] exI [of _ a]) simp
qed

lemma task_retires:
  fixes s :: "'a tasking_scheme"
  assumes "tasks_at stk s a" "queue a = c # n # rest" "room stk s" "load32 (vview s) (process_pid c) \<noteq> 0"
    and "graveyard (kernel_region s) stk (queue a) (terminated s)"
  shows "\<exists>s'. terminate_task s = Inr s' \<and> tasks_at stk s' (a\<lparr>queue := n # rest, running := contexts a n\<rparr>) \<and>
    terminated s' = (if head (terminated s) = 0 then \<lparr>head = c, tail = c\<rparr> else (terminated s)\<lparr>tail := c\<rparr>) \<and>
    vload32 (process_state c) s' = Inr TERMINATED \<and>
    vload32 (process_next_task c) s' = Inr (if head (terminated s) = 0 then n else 0) \<and>
    (\<forall>x\<in>kernel_region s. x \<notin> pcb c \<union> span (stk c) 4096 \<and> (head (terminated s) = 0 \<or> x \<notin> pcb (tail (terminated s))) \<longrightarrow>
       vview s' x = vview s x) \<and>
    s' = s\<lparr>phys := phys s', last_time := last_time s', previous_task := previous_task s', current_task := current_task s', regs := regs s',
      ready_to_run := ready_to_run s', terminated := terminated s'\<rparr>"
proof -
  note v = tasks_at_view [OF assms(1), unfolded assms(2)]
  obtain s' m' where s': "terminate_task s = Inr s'" "kh.runs s' m'" "kernel_region s' = kernel_region s"
    "queue_inv (kernel_region s) stk (n # rest) s' m'" "regs s' = resumed (vview s) n"
    "\<forall>p\<in>set rest. resumed m' p = resumed (vview s) p"
    "terminated s' = (if head (terminated s) = 0 then \<lparr>head = c, tail = c\<rparr> else (terminated s)\<lparr>tail := c\<rparr>)"
    "load32 m' (process_state c) = TERMINATED" "load32 m' (process_next_task c) = (if head (terminated s) = 0 then n else 0)"
    "head (terminated s) \<noteq> 0 \<longrightarrow> load32 m' (process_next_task (tail (terminated s))) = c"
    "\<forall>x. x \<notin> pcb c \<union> span (stk c) 4096 \<and> (head (terminated s) = 0 \<or> x \<notin> pcb (tail (terminated s))) \<longrightarrow> m' x = vview s x"
    "s' = s\<lparr>phys := phys s', last_time := last_time s', previous_task := previous_task s', current_task := current_task s', regs := regs s',
      ready_to_run := ready_to_run s', terminated := terminated s'\<rparr>"
    using tk.terminate_ok [OF v(1,2) assms(3,4) assms(5) [unfolded assms(2)]] unfolding ok_def by (elim exE conjE) rule
  let ?a = "a\<lparr>queue := n # rest, running := contexts a n\<rparr>"
  have "tasks_at stk s' ?a"
    using s'(2,4-6) v(4) by (intro tasks_at_runs [of _ m']) (simp_all add: s'(3))
  moreover have "span (process_state c) 4 \<subseteq> kernel_region s'" "span (process_next_task c) 4 \<subseteq> kernel_region s'"
    using queue_inv_process(3) [OF v(2), of c] pcb_fields(3,4) [of c] s'(3) by auto
  then have "vload32 (process_state c) s' = Inr TERMINATED"
    "vload32 (process_next_task c) s' = Inr (if head (terminated s) = 0 then n else 0)"
    using kh.runs_load32 [OF s'(2)] s'(8,9) by simp_all
  moreover have "vview s' x = m' x" if "x \<in> kernel_region s" for x using s'(2) that unfolding s'(3) [symmetric] by (simp add: kh.runs_def holds_def)
  then have "\<forall>x\<in>kernel_region s. x \<notin> pcb c \<union> span (stk c) 4096 \<and> (head (terminated s) = 0 \<or> x \<notin> pcb (tail (terminated s))) \<longrightarrow>
       vview s' x = vview s x" using s'(11) by simp
  ultimately show ?thesis
    by (intro exI [of _ s'] conjI s'(1,7,12))
qed

text \<open>
  C35: \<open>terminate_task\<close> takes the running task out of the ready queue, marks it terminated and resumes the next one; the
  other tasks keep their contexts. Its next pointer is cleared only behind an earlier terminated
  task: the first one keeps pointing into the ready queue.
\<close>

theorem terminate_task_retires:
  assumes "tasks_at stk s a" "queue a = c # n # rest" "room stk s" "load32 (vview s) (process_pid c) \<noteq> 0"
    and "graveyard (kernel_region s) stk (queue a) (terminated s)"
  shows "\<exists>s'. terminate_task s = Inr s' \<and> tasks_at stk s' (a\<lparr>queue := n # rest, running := contexts a n\<rparr>) \<and>
    terminated s' = (if head (terminated s) = 0 then \<lparr>head = c, tail = c\<rparr> else (terminated s)\<lparr>tail := c\<rparr>) \<and>
    vload32 (process_state c) s' = Inr TERMINATED \<and>
    vload32 (process_next_task c) s' = Inr (if head (terminated s) = 0 then n else 0)"
  using task_retires [OF assms] by blast

theorem terminate_task_retires_witness:
  "\<exists>(s :: tasking) s' a. terminate_task s = Inr s' \<and> tasks_at pair_stk s' a \<and> queue a = [0x120040] \<and>
    terminated s' = \<lparr>head = 0x120000, tail = 0x120000\<rparr> \<and> vload32 (process_next_task 0x120000) s' = Inr 0x120040"
proof -
  obtain s :: tasking and a where s: "tasks_at pair_stk s a" "queue a = [0x120000, 0x120040]" "room pair_stk s"
    "mm.more s = mm.more (boot_tasking 0x120000 \<lparr>head = 0x120000, tail = 0x120040\<rparr>)" "load32 (vview s) 0x120000 = 1"
    using pair_tasks [of 1] by blast
  have t: "terminated s = \<lparr>head = 0, tail = 0\<rparr>"
    using same_tasking [OF s(4)] by (simp add: boot_tasking_def cpu.defs tasking.defs)
  have "load32 (vview s) (process_pid 0x120000) \<noteq> 0" "graveyard (kernel_region s) pair_stk (queue a) (terminated s)"
    using s(5) t by (simp_all add: process_pid_def graveyard_def)
  then obtain s' where "terminate_task s = Inr s'" "tasks_at pair_stk s' (a\<lparr>queue := [0x120040], running := contexts a 0x120040\<rparr>)"
    "terminated s' = \<lparr>head = 0x120000, tail = 0x120000\<rparr>" "vload32 (process_next_task 0x120000) s' = Inr 0x120040"
    using terminate_task_retires [OF s(1,2,3)] t by auto
  then show ?thesis
    by (intro exI [of _ s] exI [of _ s'] exI [of _ "a\<lparr>queue := [0x120040], running := contexts a 0x120040\<rparr>"]) simp
qed

text \<open>
  The kernel's own task, process 0, cannot be terminated: the attempt panics.
\<close>

theorem terminate_kernel_task_panics:
  assumes "tasks_at stk s a" "load32 (vview s) (process_pid (current_task s)) = 0"
  shows "terminate_task s = Inl (Panic ''Attempt to terminate the kernel task!'')"
proof -
  note v = tasks_at_view [OF assms(1)]
  have "current_task s \<in> set (queue a)" using queue_inv_list(1,3) [OF v(2)] by simp
  from queue_inv_process(3) [OF v(2) this]
  have "vload32 (process_pid (current_task s)) s = Inr 0"
    using kh.runs_load32 [OF v(1)] pcb_fields(6) [of "current_task s"] assms(2) by auto
  then show ?thesis by (simp add: terminate_task_def panic_def)
qed

theorem terminate_kernel_task_panics_witness:
  "\<exists>s :: tasking. current_task s = 0x120000 \<and> terminate_task s = Inl (Panic ''Attempt to terminate the kernel task!'')"
proof -
  obtain s :: tasking and a where s: "tasks_at pair_stk s a" "mm.more s = mm.more (boot_tasking 0x120000 \<lparr>head = 0x120000, tail = 0x120040\<rparr>)"
    "load32 (vview s) 0x120000 = 0"
    using pair_tasks [of 0] by blast
  have "current_task s = 0x120000"
    using same_tasking [OF s(2)] by (simp add: boot_tasking_def cpu.defs tasking.defs)
  then show ?thesis using terminate_kernel_task_panics [OF s(1)] s(3) by (auto simp: process_pid_def)
qed

end
