(* ===== verification/File_Operations.thy ===== *)
theory File_Operations
  imports Files
begin

text \<open>
  The operations of the generic layer on a file: what \<open>fs_write\<close>, \<open>fs_read\<close> and \<open>fs_seek\<close> promise, with
  their panics, as functions on abstract files, and the proof that the calls through the function
  pointers of a node implement them in the memory of the kernel.
\<close>

unbundle bit_operations_syntax

section \<open>The contract\<close>

text \<open>An operation of the generic layer: bytes to write, a number of bytes to read, a position.\<close>

datatype file_op = Write "u8 list" | Read nat | Seek nat

text \<open>The bytes an operation returns to its caller and the new file, or the message it panics with.\<close>

fun file_step :: "file_op \<Rightarrow> ramfile \<Rightarrow> string + u8 list \<times> ramfile" where
  "file_step (Write bs) f =
     (if length (fdata f) < fpos f then Inl ''Trying to RAMDISK write to a node an an invalid offset''
      else if 256 < fpos f + length bs then Inl ''Uh-oh''
      else Inr ([], file_write bs f))"
| "file_step (Read n) f =
     (if length (fdata f) < fpos f + n then Inl ''Trying to RAMDISK read past the end of a file!''
      else Inr (file_read n f))"
| "file_step (Seek p) f =
     (if 256 < p then Inl ''Position is invalid during RAMDISK seek!'' else Inr ([], file_seek p f))"

text \<open>The same operations of the C code; \<open>buf\<close> is the caller's buffer.\<close>

definition file_call :: "file_op \<Rightarrow> u32 \<Rightarrow> u32 \<Rightarrow> 'a fs_scheme \<Rightarrow> stop + u32 \<times> 'a fs_scheme" where
  "file_call oper node buf s = (case oper of
     Write bs \<Rightarrow> fs_write node (word_of_nat (length bs)) buf s
   | Read n \<Rightarrow> fs_read node (word_of_nat n) buf s
   | Seek p \<Rightarrow> fs_seek node (word_of_nat p) s)"

text \<open>The well-formed files: 256 bytes of space and a position in it.\<close>

definition file_wf :: "ramfile \<Rightarrow> bool" where
  "file_wf f \<longleftrightarrow> length (fdata f) \<le> 256 \<and> fpos f \<le> 256 \<and> length (fname f) < 128 \<and> 0 \<notin> set (fname f)"

lemma file_at_wf: "file_at im m p b f \<Longrightarrow> file_wf f"
  by (simp add: file_at_def file_wf_def name_at_def)

section \<open>Words of small numbers\<close>

lemma unat_small: "n \<le> 512 \<Longrightarrow> unat (word_of_nat n :: u32) = n"
  by (simp add: unat_of_nat)

lemma less_small: "m \<le> 512 \<Longrightarrow> n \<le> 512 \<Longrightarrow> (word_of_nat m :: u32) < word_of_nat n \<longleftrightarrow> m < n"
  by (simp add: word_less_nat_alt unat_small)

lemma max_small: "m \<le> 512 \<Longrightarrow> n \<le> 512 \<Longrightarrow> max (word_of_nat m :: u32) (word_of_nat n) = word_of_nat (max m n)"
  by (simp add: max_def word_le_nat_alt unat_small)

section \<open>The representation of a file\<close>

lemma file_at_fields:
  assumes "file_at im m p b f"
  shows "load32 m (node_type p) = FS_FILE" "load32 m (file_offset p) = word_of_nat (fpos f)" "load32 m (file_buffer p) = b"
    "load32 m (file_canonical_size p) = word_of_nat (length (fdata f))" "load32 m (file_allocated_size p) = 256"
    "load32 m (node_read p) = ramdisk_read_fn im" "load32 m (node_write p) = ramdisk_write_fn im"
    "load32 m (node_seek p) = ramdisk_seek_fn im" "bytes m b (length (fdata f)) = fdata f"
    "word_aligned p" "span p 168 \<inter> span b 256 = {}" "length (fdata f) \<le> 256" "fpos f \<le> 256"
  using assms by (simp_all add: file_at_def functions_at_def)

lemma buffer_load:
  assumes "span p 168 \<inter> span b 256 = {}" "span d n \<subseteq> span b 256" "span a 4 \<subseteq> span p 168"
  shows "load32 (copied d q n m) a = load32 m a"
  using assms by (intro load32_span_cong copied_outside) blast

lemma file_at_update:
  assumes f: "file_at im m p b f" and nm: "\<And>x. x \<in> span p 128 \<Longrightarrow> m' x = m x"
    and ld: "\<And>a. a \<in> {node_type p, node_read p, node_write p, node_seek p, file_buffer p, file_allocated_size p} \<Longrightarrow> load32 m' a = load32 m a"
    and new: "load32 m' (file_offset p) = word_of_nat (fpos f')" "load32 m' (file_canonical_size p) = word_of_nat (length (fdata f'))"
      "bytes m' b (length (fdata f')) = fdata f'" "fname f' = fname f" "length (fdata f') \<le> 256" "fpos f' \<le> 256"
  shows "file_at im m' p b f'"
proof -
  have "name_at m' p (fname f')" using f nm new(4) by (simp add: file_at_def name_cong [of m])
  then show ?thesis using f ld new by (simp add: file_at_def functions_at_def)
qed

text \<open>Setting the offset of a file, and replacing its contents and size.\<close>

lemma file_at_offset:
  assumes f: "file_at im m p b f" and i: "i \<le> 256"
  shows "file_at im (store32 (file_offset p) (word_of_nat i) m) p b (f\<lparr>fpos := i\<rparr>)"
proof (rule file_at_update [OF f])
  let ?m = "store32 (file_offset p) (word_of_nat i) m"
  note F = file_at_fields [OF f] and A = fields_aligned [OF file_at_fields(10) [OF f]] and S = file_fields_span [of p]
  have "span (file_offset p) 4 \<inter> span p 128 = {}" using span_apart [of 128 152 4 p] by (simp add: file_offset_def)
  then show "?m x = m x" if "x \<in> span p 128" for x using that by (intro store32_outside) blast
  show "load32 ?m a = load32 m a" if "a \<in> {node_type p, node_read p, node_write p, node_seek p, file_buffer p, file_allocated_size p}" for a
    using that A by (intro load_store32_other) (auto simp: field_defs)
  show "load32 ?m (file_canonical_size p) = word_of_nat (length (fdata (f\<lparr>fpos := i\<rparr>)))"
    using F(4) A by (subst load_store32_other) (auto simp: field_defs)
  have "bytes ?m b (length (fdata f)) = bytes m b (length (fdata f))"
    using F(11,12) S(5) span_mono [OF F(12), of b] by (intro bytes_cong store32_outside) auto
  then show "bytes ?m b (length (fdata (f\<lparr>fpos := i\<rparr>))) = fdata (f\<lparr>fpos := i\<rparr>)" using F(9) by simp
qed (use i file_at_fields [OF f] in simp_all)

lemma file_at_contents:
  assumes f: "file_at im m p b f" and i: "i \<le> length (fdata f)" and n: "i + n \<le> 256"
  shows "file_at im (store32 (file_canonical_size p) (word_of_nat (max (length (fdata f)) (i + n))) (copied (b + word_of_nat i) q n m)) p b
    (f\<lparr>fdata := take i (fdata f) @ bytes m q n @ drop (i + n) (fdata f)\<rparr>)"
    (is "file_at im ?m p b ?f")
proof (rule file_at_update [OF f])
  let ?c = "copied (b + word_of_nat i) q n m" and ?l = "max (length (fdata f)) (i + n)"
  note F = file_at_fields [OF f] and A = fields_aligned [OF file_at_fields(10) [OF f]] and S = file_fields_span [of p]
  have sub: "span (b + word_of_nat i) n \<subseteq> span b 256" using n by (intro span_sub) simp_all
  have l: "length (fdata ?f) = ?l" using i by simp
  show "?m x = m x" if "x \<in> span p 128" for x
  proof -
    have "x \<notin> span (file_canonical_size p) 4" using that span_apart [of 128 160 4 p] by (auto simp: file_canonical_size_def)
    moreover have "x \<notin> span (b + word_of_nat i) n" using that F(11) sub span_mono [of 128 168 p] by auto
    ultimately show ?thesis by (simp add: store32_outside copied_outside)
  qed
  have ld: "load32 ?m a = load32 m a" if "word_aligned a" "a \<noteq> file_canonical_size p" "span a 4 \<subseteq> span p 168" for a
    using that A(7) buffer_load [OF F(11) sub that(3)] by (simp add: load_store32_other)
  show "load32 ?m a = load32 m a" if "a \<in> {node_type p, node_read p, node_write p, node_seek p, file_buffer p, file_allocated_size p}" for a
    using that A S by (intro ld) (auto simp: field_defs)
  show "load32 ?m (file_offset p) = word_of_nat (fpos ?f)"
    using F(2) A S by (subst ld) (auto simp: field_defs)
  show "load32 ?m (file_canonical_size p) = word_of_nat (length (fdata ?f))" unfolding l by simp
  have "bytes ?m b ?l = bytes ?c b ?l"
    using F(11,12) S(7) span_mono [of ?l 256 b] n by (intro bytes_cong store32_outside) auto
  also have "\<dots> = take i (bytes m b (length (fdata f))) @ bytes m q n @ drop (i + n) (bytes m b (length (fdata f)))"
    using i n F(12) by (intro bytes_overwrite [of _ _ _ 256]) simp_all
  finally show "bytes ?m b (length (fdata ?f)) = fdata ?f" unfolding F(9) l by simp
qed (use i n file_at_fields [OF f] in simp_all)

section \<open>The operations on any heap\<close>

context kernel_heap
begin

lemma ok_memcpy:
  assumes "kept s0 s m" "span d (unat n) \<subseteq> reg s0" "span p (unat n) \<subseteq> reg s0" "span d (unat n) \<inter> span p (unat n) = {}"
    and "\<And>s'. kept s0 s' (copied d p (unat n) m) \<Longrightarrow> ok (f s') Q"
  shows "ok (and_then (memcpy vload8 vstore8 d p n s) f) Q"
proof -
  obtain s' where s': "memcpy vload8 vstore8 d p n s = Inr s'" "same_but (reg s) s s'" "runs s' (copied d p (unat n) m)"
    using runs_memcpy [of s m d n p] assms(1-4) kept_reg [OF assms(1)] by (auto simp: kept_def)
  show ?thesis using assms(5) [OF kept_step [OF assms(1) s'(2,3)]] s'(1) by simp
qed

lemma kept_load: "kept s0 s m \<Longrightarrow> span a 4 \<subseteq> reg s0 \<Longrightarrow> vload32 a s = Inr (load32 m a)"
  using runs_load32 [of s m a] kept_reg [of s0 s m] by (simp add: kept_def)

end

locale filesystem = kernel_heap valid data base limit
  for valid :: "'a fs_scheme \<Rightarrow> bool" and data base limit
begin

lemma kept_image: "kept s0 s m \<Longrightarrow> image s = image s0 \<and> root s = root s0"
  using heap_only_same(5) [of s0 s] by (cases s, cases s0) (auto simp: kept_def)

definition at_file :: "'a fs_scheme \<Rightarrow> 'a fs_scheme \<Rightarrow> (u32 \<Rightarrow> u8) \<Rightarrow> u32 \<Rightarrow> u32 \<Rightarrow> ramfile \<Rightarrow> bool" where
  "at_file s0 s m p b f \<longleftrightarrow> kept s0 s m \<and> file_at (image s0) m p b f \<and> footprint p b \<subseteq> reg s0 \<and> image_ok (image s0)"

lemma at_file_load:
  assumes "at_file s0 s m p b f"
  shows "vload32 (node_type p) s = Inr FS_FILE" "vload32 (file_offset p) s = Inr (word_of_nat (fpos f))" "vload32 (file_buffer p) s = Inr b"
    "vload32 (file_canonical_size p) s = Inr (word_of_nat (length (fdata f)))" "vload32 (file_allocated_size p) s = Inr 256"
    "vload32 (node_read p) s = Inr (ramdisk_read_fn (image s))" "vload32 (node_write p) s = Inr (ramdisk_write_fn (image s))"
    "vload32 (node_seek p) s = Inr (ramdisk_seek_fn (image s))"
    "ramdisk_read_fn (image s) \<noteq> 0" "ramdisk_write_fn (image s) \<noteq> 0" "ramdisk_seek_fn (image s) \<noteq> 0"
proof -
  have k: "kept s0 s m" and f: "file_at (image s0) m p b f" and sub: "span p 168 \<subseteq> reg s0" and im: "image_ok (image s0)"
    using assms by (auto simp: at_file_def footprint_def)
  note F = file_at_fields [OF f] and S = file_fields_span [of p] and i = kept_image [OF k]
  have ld: "vload32 a s = Inr (load32 m a)" if "span a 4 \<subseteq> span p 168" for a
    using kept_load [OF k order_trans [OF that sub]] .
  show "vload32 (node_type p) s = Inr FS_FILE" "vload32 (file_offset p) s = Inr (word_of_nat (fpos f))" "vload32 (file_buffer p) s = Inr b"
    "vload32 (file_canonical_size p) s = Inr (word_of_nat (length (fdata f)))" "vload32 (file_allocated_size p) s = Inr 256"
    "vload32 (node_read p) s = Inr (ramdisk_read_fn (image s))" "vload32 (node_write p) s = Inr (ramdisk_write_fn (image s))"
    "vload32 (node_seek p) s = Inr (ramdisk_seek_fn (image s))"
    using S F(1-8) i by (simp_all add: ld)
  show "ramdisk_read_fn (image s) \<noteq> 0" "ramdisk_write_fn (image s) \<noteq> 0" "ramdisk_seek_fn (image s) \<noteq> 0"
    using im i by (simp_all add: image_ok_def)
qed

lemma at_file_aligned:
  assumes "at_file s0 s m p b f"
  shows "word_aligned (file_offset p)" "word_aligned (file_canonical_size p)" "span (file_offset p) 4 \<subseteq> reg s0" "span (file_canonical_size p) 4 \<subseteq> reg s0"
    "span b 256 \<subseteq> reg s0" "span p 168 \<subseteq> reg s0"
  using assms fields_aligned [of p] file_fields_span [of p] by (auto simp: at_file_def footprint_def file_at_def)

text \<open>The result of an operation: what is kept, the file after it, and the bytes outside of it.\<close>

definition leaves :: "'a fs_scheme \<Rightarrow> u32 \<Rightarrow> u32 \<Rightarrow> u32 set \<Rightarrow> ramfile \<Rightarrow> (u32 \<Rightarrow> u8) \<Rightarrow> 'a fs_scheme \<Rightarrow> (u32 \<Rightarrow> u8) \<Rightarrow> bool" where
  "leaves s0 p b W f' m s' m' \<longleftrightarrow> at_file s0 s' m' p b f' \<and> (\<forall>x. x \<notin> footprint p b \<union> W \<longrightarrow> m' x = m x)"

lemma ok_offset:
  assumes at: "at_file s0 s m p b f" and i: "i \<le> 256" and m0: "\<forall>x. x \<notin> footprint p b \<union> W \<longrightarrow> m x = m0 x"
    and Q: "\<And>s' m'. leaves s0 p b W (f\<lparr>fpos := i\<rparr>) m0 s' m' \<Longrightarrow> (\<forall>x. x \<notin> span p 168 \<longrightarrow> m' x = m x) \<Longrightarrow> ok (g s') Q"
  shows "ok (and_then (vstore32 (file_offset p) (word_of_nat i) s) g) Q"
proof -
  note A = at_file_aligned [OF at]
  have k: "kept s0 s m" and f: "file_at (image s0) m p b f" using at by (simp_all add: at_file_def)
  show ?thesis
  proof (rule ok_store [OF k A(1,3)], rule Q)
    fix s' assume k': "kept s0 s' (store32 (file_offset p) (word_of_nat i) m)"
    have out: "store32 (file_offset p) (word_of_nat i) m x = m x" if "x \<notin> span p 168" for x
      using that file_fields_span(5) [of p] by (intro store32_outside) blast
    show "leaves s0 p b W (f\<lparr>fpos := i\<rparr>) m0 s' (store32 (file_offset p) (word_of_nat i) m)"
      using k' out file_at_offset [OF f i] at m0 by (simp add: leaves_def at_file_def footprint_def)
    show "\<forall>x. x \<notin> span p 168 \<longrightarrow> store32 (file_offset p) (word_of_nat i) m x = m x" using out by blast
  qed
qed

lemma seek_ok:
  assumes at: "at_file s0 s m p b f"
  shows "case file_step (Seek i) f of Inl e \<Rightarrow> i < 2 ^ 32 \<longrightarrow> file_call (Seek i) p buf s = Inl (Panic e)
    | Inr (_, f') \<Rightarrow> ok (file_call (Seek i) p buf s) (\<lambda>(r, s'). \<exists>m'. leaves s0 p b {} f' m s' m')"
proof (cases "256 < i")
  case True
  have "256 < (word_of_nat i :: u32)" if "i < 2 ^ 32" using True that by (simp add: word_less_nat_alt unat_of_nat)
  then show ?thesis using True at_file_load [OF at] by (simp add: file_call_def fs_seek_def ramdisk_seek_def panic_def)
next
  case False
  then have small: "\<not> 256 < (word_of_nat i :: u32)" by (simp add: word_less_nat_alt unat_small)
  have seek: "ok (and_then (vstore32 (file_offset p) (word_of_nat i) s) (\<lambda>s. Inr (word_of_nat i, s)))
      (\<lambda>(r, s'). \<exists>m'. leaves s0 p b {} (f\<lparr>fpos := i\<rparr>) m s' m')"
    using False by (intro ok_offset [OF at, where W = "{}" and ?m0.0 = m]) auto
  show ?thesis
    using False small seek at_file_load [OF at] by (simp add: file_call_def fs_seek_def ramdisk_seek_def file_seek_def)
qed

lemma write_ok:
  assumes at: "at_file s0 s m p b f" and bs: "bytes m buf (length bs) = bs" "fpos f + length bs < 2 ^ 32"
    and buf: "span buf (length bs) \<subseteq> reg s0" "span buf (length bs) \<inter> footprint p b = {}"
  shows "case file_step (Write bs) f of Inl e \<Rightarrow> file_call (Write bs) p buf s = Inl (Panic e)
    | Inr (_, f') \<Rightarrow> ok (file_call (Write bs) p buf s) (\<lambda>(r, s'). \<exists>m'. leaves s0 p b {} f' m s' m')"
proof -
  let ?i = "fpos f" and ?n = "length bs" and ?l = "length (fdata f)"
  note L = at_file_load [OF at] and A = at_file_aligned [OF at]
  have k: "kept s0 s m" and f: "file_at (image s0) m p b f" using at by (simp_all add: at_file_def)
  note F = file_at_fields [OF f]
  have u: "unat (word_of_nat ?n :: u32) = ?n" using bs(2) by (simp add: unat_of_nat)
  have sum: "(word_of_nat ?i + word_of_nat ?n :: u32) = word_of_nat (?i + ?n)" by simp
  have cmp: "(word_of_nat ?i :: u32) > word_of_nat ?l \<longleftrightarrow> ?l < ?i" using F(12,13) by (simp add: less_small)
  have cmp2: "(256 :: u32) < word_of_nat (?i + ?n) \<longleftrightarrow> 256 < ?i + ?n"
    using bs(2) by (simp add: word_less_nat_alt unat_of_nat del: of_nat_add)
  consider (past) "?l < ?i" | (full) "\<not> ?l < ?i" "256 < ?i + ?n" | (fits) "?i \<le> ?l" "?i + ?n \<le> 256" by linarith
  then show ?thesis
  proof cases
    case past
    then show ?thesis using L cmp by (simp add: file_call_def fs_write_def ramdisk_write_def panic_def)
  next
    case full
    then show ?thesis using L cmp cmp2 unfolding file_call_def fs_write_def ramdisk_write_def
      by (simp add: panic_def sum del: of_nat_add)
  next
    case fits
    have sub: "span (b + word_of_nat ?i) ?n \<subseteq> span b 256" using fits by (intro span_sub) simp_all
    let ?c = "copied (b + word_of_nat ?i) buf ?n m"
    have canon: "load32 ?c (file_canonical_size p) = word_of_nat ?l"
      using buffer_load [OF F(11) sub file_fields_span(7)] F(4) by simp
    have conds: "(FS_FILE \<noteq> FS_FILE) = False" "(word_of_nat ?l < (word_of_nat ?i :: u32)) = False"
      "((256 :: u32) < word_of_nat (?i + ?n)) = False"
      using fits unfolding cmp cmp2 by auto
    have "ok (ramdisk_write p (word_of_nat ?i) (word_of_nat ?n) buf s) (\<lambda>(r, s'). \<exists>m'. leaves s0 p b {} (file_write bs f) m s' m')"
      unfolding ramdisk_write_def L and_then_Inr sum conds if_False
    proof (rule ok_memcpy [OF k, where n = "word_of_nat ?n", unfolded u, OF order_trans [OF sub A(5)] buf(1)], goal_cases)
      case 1
      show ?case using buf(2) sub by (auto simp: footprint_def)
    next
      case (2 s1)
      have k1: "vload32 (file_canonical_size p) s1 = Inr (word_of_nat ?l)" using kept_load [OF 2 A(4)] canon by simp
      have mx: "max (word_of_nat ?l) (word_of_nat (?i + ?n)) = (word_of_nat (max ?l (?i + ?n)) :: u32)"
        using fits F(12) by (intro max_small) simp_all
      let ?f = "f\<lparr>fdata := take ?i (fdata f) @ bs @ drop (?i + ?n) (fdata f)\<rparr>"
      show ?case
        unfolding k1 and_then_Inr mx
      proof (rule ok_store [OF 2 A(2,4)], goal_cases)
        case (1 s2)
        have at2: "at_file s0 s2 (store32 (file_canonical_size p) (word_of_nat (max ?l (?i + ?n))) ?c) p b ?f"
          using 1 file_at_contents [OF f fits, of buf] at unfolding bs(1) by (simp add: at_file_def)
        show ?case
        proof (rule ok_offset [OF at2 fits(2), where ?m0.0 = m and W = "{}"], goal_cases)
          case 1
          show ?case
            using sub file_fields_span(7) [of p]
            by (intro allI impI) (subst store32_outside, auto simp: footprint_def intro!: copied_outside)
        next
          case (2 s' m')
          then show ?case by (auto simp: file_write_def simp flip: numeral_2_eq_2)
        qed
      qed
    qed
    then show ?thesis using fits L by (simp add: file_call_def fs_write_def)
  qed
qed

lemma read_ok:
  assumes at: "at_file s0 s m p b f" and n: "fpos f + n < 2 ^ 32"
    and buf: "span buf n \<subseteq> reg s0" "span buf n \<inter> footprint p b = {}"
  shows "case file_step (Read n) f of Inl e \<Rightarrow> file_call (Read n) p buf s = Inl (Panic e)
    | Inr (bs, f') \<Rightarrow> ok (file_call (Read n) p buf s) (\<lambda>(r, s'). \<exists>m'. leaves s0 p b (span buf n) f' m s' m' \<and> bytes m' buf n = bs)"
proof -
  let ?i = "fpos f" and ?l = "length (fdata f)"
  note L = at_file_load [OF at] and A = at_file_aligned [OF at]
  have k: "kept s0 s m" and f: "file_at (image s0) m p b f" using at by (simp_all add: at_file_def)
  note F = file_at_fields [OF f]
  have u: "unat (word_of_nat n :: u32) = n" using n by (simp add: unat_of_nat)
  have sum: "(word_of_nat ?i + word_of_nat n :: u32) = word_of_nat (?i + n)" by simp
  have cmp: "(word_of_nat ?l :: u32) < word_of_nat (?i + n) \<longleftrightarrow> ?l < ?i + n"
    using n F(12) by (simp add: word_less_nat_alt unat_of_nat del: of_nat_add)
  show ?thesis
  proof (cases "?l < ?i + n")
    case True
    then show ?thesis using L cmp unfolding file_call_def fs_read_def ramdisk_read_def
      by (simp add: panic_def sum del: of_nat_add)
  next
    case False
    then have le: "?i + n \<le> ?l" "?i + n \<le> 256" using F(12) by simp_all
    have sub: "span (b + word_of_nat ?i) n \<subseteq> span b 256" using le by (intro span_sub) simp_all
    have conds: "(FS_FILE \<noteq> FS_FILE) = False" "((word_of_nat ?l :: u32) < word_of_nat (?i + n)) = False"
      using False unfolding cmp by auto
    have "ok (ramdisk_read p (word_of_nat ?i) (word_of_nat n) buf s)
        (\<lambda>(r, s'). \<exists>m'. leaves s0 p b (span buf n) (f\<lparr>fpos := ?i + n\<rparr>) m s' m' \<and> bytes m' buf n = take n (drop ?i (fdata f)))"
      unfolding ramdisk_read_def L and_then_Inr sum conds if_False
    proof (rule ok_memcpy [OF k, where n = "word_of_nat n", unfolded u, OF buf(1) order_trans [OF sub A(5)]], goal_cases)
      case 1
      show ?case using buf(2) sub by (auto simp: footprint_def)
    next
      case (2 s1)
      let ?c = "copied buf (b + word_of_nat ?i) n m"
      have "?c x = m x" if "x \<in> footprint p b" for x using that buf(2) by (intro copied_outside) blast
      then have at1: "at_file s0 s1 ?c p b f"
        using 2 at file_at_cong [OF f, of ?c] by (simp add: at_file_def)
      have "bytes ?c buf n = bytes m (b + word_of_nat ?i) n" using n by (intro bytes_copied) simp
      also have "\<dots> = take n (drop ?i (bytes m b ?l))"
        using le by (intro nth_equalityI) (simp_all add: nth_bytes add.assoc)
      finally have data: "bytes ?c buf n = take n (drop ?i (fdata f))" unfolding F(9) .
      show ?case
      proof (rule ok_offset [OF at1 le(2), where ?m0.0 = m and W = "span buf n"], goal_cases)
        case 1
        show ?case by (simp add: copied_outside)
      next
        case (2 s' m')
        have "bytes m' buf n = bytes ?c buf n"
          using 2(2) buf(2) n by (intro bytes_cong) (auto simp: footprint_def)
        then show ?case using 2(1) data by auto
      qed
    qed
    then show ?thesis using False L by (simp add: file_call_def fs_read_def file_read_def)
  qed
qed

text \<open>A size of more than the space of a file is refused before the buffer is looked at, unless its sum with the position wraps.\<close>

lemma large_calls:
  assumes at: "at_file s0 s m p b f" and n: "256 < unat n" "unat n + 256 < 2 ^ 32"
  shows "fs_write p n buf s = Inl (Panic ''Trying to RAMDISK write to a node an an invalid offset'') \<or> fs_write p n buf s = Inl (Panic ''Uh-oh'')"
    and "fs_read p n buf s = Inl (Panic ''Trying to RAMDISK read past the end of a file!'')"
proof -
  note L = at_file_load [OF at]
  have "file_at (image s0) m p b f" using at by (simp add: at_file_def)
  note F = file_at_fields [OF this]
  have "unat (word_of_nat (fpos f) + n) = fpos f + unat n" using F(13) n(2) by (simp add: unat_word_ariths unat_of_nat)
  then have "256 < word_of_nat (fpos f) + n" "word_of_nat (length (fdata f)) < word_of_nat (fpos f) + n"
    using n(1) F(12) by (simp_all add: word_less_nat_alt unat_of_nat)
  then show "fs_write p n buf s = Inl (Panic ''Trying to RAMDISK write to a node an an invalid offset'') \<or> fs_write p n buf s = Inl (Panic ''Uh-oh'')"
    "fs_read p n buf s = Inl (Panic ''Trying to RAMDISK read past the end of a file!'')"
    using L by (simp_all add: fs_write_def ramdisk_write_def fs_read_def ramdisk_read_def panic_def)
qed

end

section \<open>On the running kernel\<close>

interpretation fk: filesystem heap_inv kernel_data "0xF000000" "0x11000000"
  by unfold_locales

text \<open>
  A file in the kernel's memory, with its node at \<open>p\<close> and its buffer at \<open>b\<close>, and what a call needs of the caller's buffer.
\<close>

definition file_in :: "'a fs_scheme \<Rightarrow> u32 \<Rightarrow> u32 \<Rightarrow> ramfile \<Rightarrow> bool" where
  "file_in s p b f \<longleftrightarrow> heap_inv s \<and> image_ok (image s) \<and> file_at (image s) (vview s) p b f \<and> footprint p b \<subseteq> kernel_region s"

fun caller_buffer :: "file_op \<Rightarrow> u32 \<Rightarrow> u32 \<Rightarrow> u32 \<Rightarrow> ramfile \<Rightarrow> 'a fs_scheme \<Rightarrow> bool" where
  "caller_buffer (Write bs) p b buf f s \<longleftrightarrow> bytes (vview s) buf (length bs) = bs \<and> fpos f + length bs < 2 ^ 32 \<and>
     span buf (length bs) \<subseteq> kernel_region s \<and> span buf (length bs) \<inter> footprint p b = {}"
| "caller_buffer (Read n) p b buf f s \<longleftrightarrow> fpos f + n < 2 ^ 32 \<and>
     span buf n \<subseteq> kernel_region s \<and> span buf n \<inter> footprint p b = {}"
| "caller_buffer (Seek n) p b buf f s \<longleftrightarrow> n < 2 ^ 32"

text \<open>The bytes of the caller that an operation changes.\<close>

fun written :: "file_op \<Rightarrow> u32 \<Rightarrow> u32 set" where
  "written (Read n) buf = span buf n"
| "written _ buf = {}"

lemma leaves_file_in:
  assumes "fk.leaves s p b W f' (vview s) s' m'"
  shows "file_in s' p b f'" "kernel_region s' = kernel_region s"
    "\<forall>x\<in>kernel_region s. x \<notin> footprint p b \<union> W \<longrightarrow> vview s' x = vview s x"
    "\<forall>x\<in>kernel_region s. vview s' x = m' x"
proof -
  have k: "kh.kept s s' m'" "file_at (image s) m' p b f'" "footprint p b \<subseteq> kernel_region s" "image_ok (image s)"
    "\<forall>x. x \<notin> footprint p b \<union> W \<longrightarrow> m' x = vview s x"
    using assms by (simp_all add: fk.leaves_def fk.at_file_def)
  show r: "kernel_region s' = kernel_region s" by (rule kh.kept_reg [OF k(1)])
  show v: "\<forall>x\<in>kernel_region s. vview s' x = m' x" and "\<forall>x\<in>kernel_region s. x \<notin> footprint p b \<union> W \<longrightarrow> vview s' x = vview s x"
    using k(1,5) by (auto simp: kh.kept_def kh.runs_def holds_def r)
  have "file_at (image s) (vview s') p b f'" using k(2,3) v by (intro file_at_cong [OF k(2)]) auto
  then show "file_in s' p b f'"
    using k fk.kept_image [OF k(1)] r by (simp add: file_in_def kh.kept_def kh.runs_def)
qed

text \<open>A file on the running kernel, for the witness.\<close>

definition file_words :: "(u32 \<times> u32) list" where
  "file_words = [(0x120000, 0), (0x120080, 0), (0x120084, 0x100100), (0x120088, 0x100200), (0x12008C, 0x100300),
     (0x120098, 0), (0x12009C, 0x130000), (0x1200A0, 0), (0x1200A4, 256), (0x140000, 0x6948)]"

lemma some_file:
  "\<exists>s :: fs. file_in s 0x120000 0x130000 \<lparr>fname = [], fpos = 0, fdata = []\<rparr> \<and> syms s = boot_symbols \<and> bytes (vview s) 0x140000 2 = [72, 105]"
proof -
  have "\<forall>(a, v)\<in>set file_words. word_aligned a \<and> 0x100000 \<le> unat a \<and> unat a + 4 < 0x200000"
    by (simp add: file_words_def word_aligned_def)
  then obtain s :: fs and m where s: "kh.runs s (words file_words m)" "syms s = boot_symbols" "mm.more s = fs.fields boot_image 0"
    using booted_words [of file_words "fs.fields boot_image 0"] by blast
  let ?m = "words file_words m"
  have im: "image s = boot_image" using s(3) by (cases s) (simp add: fs.defs)
  have sub: "span p n \<subseteq> kernel_region s" if "0x100000 \<le> unat p" "unat p + n < 0x200000" for p n
    using kernel_data_span [OF that] by (auto simp: region_def s(2))
  have ld: "load32 ?m 0x120080 = 0" "load32 ?m 0x120084 = 0x100100" "load32 ?m 0x120088 = 0x100200" "load32 ?m 0x12008C = 0x100300"
    "load32 ?m 0x120098 = 0" "load32 ?m 0x12009C = 0x130000" "load32 ?m 0x1200A0 = 0" "load32 ?m 0x1200A4 = 256"
    by (simp_all add: file_words_def load_store32_other word_aligned_def)
  have bm: "?m 0x140000 = 72" "?m 0x140001 = 105"
    by (simp_all add: file_words_def store32_def)
  have f: "file_at boot_image ?m 0x120000 0x130000 \<lparr>fname = [], fpos = 0, fdata = []\<rparr>"
    by (simp add: file_at_def functions_at_def name_at_def field_defs ld word_aligned_def FS_FILE_def boot_image_def bytes_def span_range)
      (simp add: file_words_def store32_def)
  have v: "vview s x = ?m x" if "x \<in> kernel_region s" for x using s(1) that by (simp add: kh.runs_def holds_def)
  have fp: "footprint 0x120000 0x130000 \<subseteq> kernel_region s" by (simp add: footprint_def sub)
  have "file_at boot_image (vview s) 0x120000 0x130000 \<lparr>fname = [], fpos = 0, fdata = []\<rparr>"
    using fp v by (intro file_at_cong [OF f]) auto
  moreover have "bytes (vview s) 0x140000 2 = bytes ?m 0x140000 2"
    using v sub [of "0x140000" 2] by (intro bytes_cong) auto
  moreover have "bytes ?m 0x140000 2 = [72, 105]"
    by (simp add: bytes_def upt_rec bm)
  ultimately show ?thesis
    using s fp by (intro exI [of _ s]) (simp add: file_in_def kh.runs_def im image_ok_def, simp add: boot_image_def)
qed

lemma file_call_ok:
  assumes "file_in s p b f" "caller_buffer oper p b buf f s"
  shows "case file_step oper f of
      Inl e \<Rightarrow> file_call oper p buf s = Inl (Panic e)
    | Inr (bs, f') \<Rightarrow> \<exists>r s'. file_call oper p buf s = Inr (r, s') \<and> file_in s' p b f' \<and> file_wf f' \<and> kernel_region s' = kernel_region s \<and>
        (\<forall>n. oper = Read n \<longrightarrow> bytes (vview s') buf n = bs) \<and>
        (\<forall>x\<in>kernel_region s. x \<notin> footprint p b \<union> written oper buf \<longrightarrow> vview s' x = vview s x)"
proof -
  have at: "fk.at_file s s (vview s) p b f"
    using assms(1) kh.kept_refl [OF kh.runs_view, of s] by (simp add: file_in_def fk.at_file_def)
  have run: "case file_step oper f of Inl e \<Rightarrow> file_call oper p buf s = Inl (Panic e)
    | Inr (bs, f') \<Rightarrow> ok (file_call oper p buf s) (\<lambda>(r, s'). \<exists>m'. fk.leaves s p b (written oper buf) f' (vview s) s' m' \<and>
        (\<forall>n. oper = Read n \<longrightarrow> bytes m' buf n = bs))"
  proof (cases oper)
    case (Write bs)
    then show ?thesis using fk.write_ok [OF at, of buf bs] assms(2) by (auto split: sum.splits)
  next
    case (Read n)
    then show ?thesis using fk.read_ok [OF at, of n buf] assms(2) by (auto split: sum.splits)
  next
    case (Seek n)
    then show ?thesis using fk.seek_ok [OF at, of n buf] assms(2) by (auto split: sum.splits)
  qed
  show ?thesis
  proof (cases "file_step oper f")
    case (Inl e)
    then show ?thesis using run by simp
  next
    case (Inr a)
    obtain bs f' where a: "a = (bs, f')" by fastforce
    obtain r s' m' where s': "file_call oper p buf s = Inr (r, s')" "fk.leaves s p b (written oper buf) f' (vview s) s' m'"
      "\<forall>n. oper = Read n \<longrightarrow> bytes m' buf n = bs"
      using run unfolding Inr a by (auto simp: ok_def)
    note l = leaves_file_in [OF s'(2)]
    have "bytes (vview s') buf n = bs" if "oper = Read n" for n
    proof -
      have "bytes (vview s') buf n = bytes m' buf n"
        using l(4) assms(2) that by (intro bytes_cong) auto
      then show ?thesis using s'(3) that by simp
    qed
    moreover have "file_wf f'" using l(1) file_at_wf by (auto simp: file_in_def)
    ultimately show ?thesis unfolding Inr a using s'(1) l(1-3) by auto
  qed
qed

text \<open>
  C37: the filesystem calls implement the abstract files: on every file of the kernel each of \<open>fs_write\<close>, \<open>fs_read\<close> and
  \<open>fs_seek\<close> panics with the message of the contract, or returns with the file the contract names,
  the bytes read in the caller's buffer and the rest of the kernel's memory as it was.
\<close>

theorem file_calls_refine:
  assumes "file_in s p b f" "caller_buffer oper p b buf f s"
  shows "case file_step oper f of
      Inl e \<Rightarrow> file_call oper p buf s = Inl (Panic e)
    | Inr (bs, f') \<Rightarrow> \<exists>r s'. file_call oper p buf s = Inr (r, s') \<and> file_in s' p b f' \<and> file_wf f' \<and>
        (\<forall>n. oper = Read n \<longrightarrow> bytes (vview s') buf n = bs) \<and>
        (\<forall>x\<in>kernel_region s. x \<notin> footprint p b \<union> written oper buf \<longrightarrow> vview s' x = vview s x)"
  using file_call_ok [OF assms] by (auto split: sum.splits)

theorem file_calls_refine_witness:
  "\<exists>(s :: fs) r s'. file_call (Write [72, 105]) 0x120000 0x140000 s = Inr (r, s') \<and>
     file_in s' 0x120000 0x130000 \<lparr>fname = [], fpos = 2, fdata = [72, 105]\<rparr>"
proof -
  obtain s :: fs where s: "file_in s 0x120000 0x130000 \<lparr>fname = [], fpos = 0, fdata = []\<rparr>" "syms s = boot_symbols"
    "bytes (vview s) 0x140000 2 = [72, 105]"
    using some_file by blast
  have "span 0x140000 2 \<subseteq> kernel_region s" using kernel_data_span [of "0x140000" 2] s(2) by (auto simp: region_def)
  moreover have "span 0x140000 2 \<inter> footprint 0x120000 0x130000 = {}"
    by (simp add: footprint_def Int_Un_distrib span_range)
  ultimately have "caller_buffer (Write [72, 105]) 0x120000 0x130000 0x140000 \<lparr>fname = [], fpos = 0, fdata = []\<rparr> s"
    using s(3) by (simp flip: numeral_2_eq_2)
  then show ?thesis using file_calls_refine [OF s(1), of "Write [72, 105]" "0x140000"] by (auto simp: file_write_def simp flip: numeral_2_eq_2)
qed

section \<open>Programs of calls\<close>

text \<open>The calls a program makes on an open file: sizes, buffers and positions are arbitrary words.\<close>

datatype node_call = Call_write u32 u32 | Call_read u32 u32 | Call_seek u32

fun run_calls :: "u32 \<Rightarrow> node_call list \<Rightarrow> 'a fs_scheme \<Rightarrow> stop + 'a fs_scheme" where
  "run_calls node [] s = Inr s"
| "run_calls node (Call_write n buf # cs) s = and_then (fs_write node n buf s) (\<lambda>(_, s). run_calls node cs s)"
| "run_calls node (Call_read n buf # cs) s = and_then (fs_read node n buf s) (\<lambda>(_, s). run_calls node cs s)"
| "run_calls node (Call_seek position # cs) s = and_then (fs_seek node position s) (\<lambda>(_, s). run_calls node cs s)"

text \<open>
  A call whose size does not wrap when it is added to a position in a file. Its buffer, if the size is one a file can have, is memory of
  the kernel apart from the node.
\<close>

fun typed_call :: "u32 set \<Rightarrow> u32 \<Rightarrow> u32 \<Rightarrow> node_call \<Rightarrow> bool" where
  "typed_call D p b (Call_write n buf) \<longleftrightarrow> unat n + 256 < 2 ^ 32 \<and>
     (unat n \<le> 256 \<longrightarrow> span buf (unat n) \<subseteq> D \<and> span buf (unat n) \<inter> footprint p b = {})"
| "typed_call D p b (Call_read n buf) \<longleftrightarrow> unat n + 256 < 2 ^ 32 \<and>
     (unat n \<le> 256 \<longrightarrow> span buf (unat n) \<subseteq> D \<and> span buf (unat n) \<inter> footprint p b = {})"
| "typed_call D p b (Call_seek position) \<longleftrightarrow> True"

definition file_panics :: "string set" where
  "file_panics = {''Trying to RAMDISK write to a node an an invalid offset'', ''Uh-oh'',
     ''Trying to RAMDISK read past the end of a file!'', ''Position is invalid during RAMDISK seek!''}"

lemma file_step_panics: "file_step oper f = Inl e \<Longrightarrow> e \<in> file_panics"
  by (cases oper) (auto simp: file_panics_def split: if_splits)

lemma file_step_name: "file_step oper f = Inr (bs, f') \<Longrightarrow> fname f' = fname f"
  by (cases oper) (auto simp: file_write_def file_read_def file_seek_def split: if_splits)

lemma typed_call_ok:
  fixes s :: "'a fs_scheme"
  assumes f: "file_in s p b f" and c: "typed_call (kernel_region s) p b c"
    and k: "\<And>(s' :: 'a fs_scheme) f'. file_in s' p b f' \<Longrightarrow> fname f' = fname f \<Longrightarrow> kernel_region s' = kernel_region s \<Longrightarrow>
      case run_calls p cs s' of Inl e \<Rightarrow> e \<in> Panic ` file_panics | Inr s'' \<Rightarrow> Q s''"
  shows "case run_calls p (c # cs) s of Inl e \<Rightarrow> e \<in> Panic ` file_panics | Inr s'' \<Rightarrow> Q s''"
proof -
  have pos: "fpos f \<le> 256" using f file_at_wf by (auto simp: file_in_def file_wf_def)
  have step: "case and_then (file_call oper p buf s) (\<lambda>(_, s). run_calls p cs s) of Inl e \<Rightarrow> e \<in> Panic ` file_panics | Inr s'' \<Rightarrow> Q s''"
    if cb: "caller_buffer oper p b buf f s" for oper buf
  proof (cases "file_step oper f")
    case (Inl e)
    then show ?thesis using file_call_ok [OF f cb] file_step_panics [OF Inl] by simp
  next
    case (Inr a)
    obtain bs f' where a: "a = (bs, f')" by fastforce
    obtain r s' where "file_call oper p buf s = Inr (r, s')" "file_in s' p b f'" "kernel_region s' = kernel_region s"
      using file_call_ok [OF f cb] unfolding Inr a by auto
    then show ?thesis using k [of s' f'] file_step_name [of oper f bs f'] Inr a by simp
  qed
  have at: "fk.at_file s s (vview s) p b f"
    using f kh.kept_refl [OF kh.runs_view, of s] by (simp add: file_in_def fk.at_file_def)
  show ?thesis
  proof (cases c)
    case (Call_write n buf)
    show ?thesis
    proof (cases "unat n \<le> 256")
      case True
      then show ?thesis using step [of "Write (bytes (vview s) buf (unat n))" buf] c pos Call_write by (simp add: file_call_def)
    next
      case False
      then show ?thesis using fk.large_calls(1) [OF at, of n buf] c Call_write by (auto simp: file_panics_def)
    qed
  next
    case (Call_read n buf)
    show ?thesis
    proof (cases "unat n \<le> 256")
      case True
      then show ?thesis using step [of "Read (unat n)" buf] c pos Call_read by (simp add: file_call_def)
    next
      case False
      then show ?thesis using fk.large_calls(2) [OF at, of n buf] c Call_read by (auto simp: file_panics_def)
    qed
  next
    case (Call_seek n)
    then show ?thesis using step [of "Seek (unat n)"] unat_u32_bound [of n] by (simp add: file_call_def)
  qed
qed

text \<open>
  C36: nodes are type safe against sizes that do not wrap. A program that makes any calls on a file node, with any positions, any sizes below
  \<open>2 ^ 32 - 256\<close>, and buffers of the kernel apart from the node where the size is at most the 256 bytes of a file, never faults, hangs or does what C
  leaves undefined: it ends in one of four panics, or the node is a well-formed file of the same name after every call. A size
  from \<open>2 ^ 32 - 256\<close> on can wrap in the check of the bounds, and nothing is said of it.
\<close>

theorem file_nodes_type_safe:
  fixes s :: "'a fs_scheme"
  assumes "file_in s p b f" "\<forall>c\<in>set cs. typed_call (kernel_region s) p b c"
  shows "case run_calls p cs s of Inl e \<Rightarrow> e \<in> Panic ` file_panics
    | Inr s' \<Rightarrow> \<exists>f'. file_in s' p b f' \<and> fname f' = fname f \<and> length (fdata f') \<le> 256 \<and> fpos f' \<le> 256"
  using assms
proof (induction cs arbitrary: s f)
  case Nil
  then show ?case using file_at_wf by (auto simp: file_in_def file_wf_def)
next
  case (Cons c cs)
  show ?case
  proof (rule typed_call_ok [OF Cons.prems(1)])
    show "typed_call (kernel_region s) p b c" using Cons.prems(2) by simp
    fix s' :: "'a fs_scheme" and f' assume "file_in s' p b f'" "fname f' = fname f" "kernel_region s' = kernel_region s"
    then show "case run_calls p cs s' of Inl e \<Rightarrow> e \<in> Panic ` file_panics
      | Inr s' \<Rightarrow> \<exists>f'. file_in s' p b f' \<and> fname f' = fname f \<and> length (fdata f') \<le> 256 \<and> fpos f' \<le> 256"
      using Cons.IH [of s' f'] Cons.prems(2) by (auto split: sum.splits)
  qed
qed

theorem file_nodes_type_safe_witness:
  "\<exists>s :: fs. case run_calls 0x120000 [Call_write 2 0x140000, Call_seek 1, Call_read 1 0x140010, Call_read 9 0x140010] s of
     Inl e \<Rightarrow> e \<in> Panic ` file_panics | Inr s' \<Rightarrow> \<exists>f'. file_in s' 0x120000 0x130000 f' \<and> fname f' = []"
proof -
  obtain s :: fs where s: "file_in s 0x120000 0x130000 \<lparr>fname = [], fpos = 0, fdata = []\<rparr>" "syms s = boot_symbols"
    using some_file by blast
  have sub: "span x n \<subseteq> kernel_region s" if "0x140000 \<le> unat x" "unat x + n < 0x200000" for x n
    using kernel_data_span [of x n] that s(2) by (auto simp: region_def)
  have dis: "span x n \<inter> footprint 0x120000 0x130000 = {}" if "0x140000 \<le> unat x" "unat x + n < 0x200000" for x n
    using that by (auto simp: footprint_def span_iff)
  have "\<forall>c\<in>set [Call_write 2 0x140000, Call_seek 1, Call_read 1 0x140010, Call_read 9 0x140010]. typed_call (kernel_region s) 0x120000 0x130000 c"
    using sub [of "0x140000" 2] sub [of "0x140010" 1] sub [of "0x140010" 9] dis [of "0x140000" 2] dis [of "0x140010" 1] dis [of "0x140010" 9]
    by simp
  from file_nodes_type_safe [OF s(1) this] show ?thesis
    by (intro exI [of _ s]) (auto split: sum.splits)
qed

end
