(* ===== verification/Boot.thy ===== *)
theory Boot
  imports Tasks File_Operations
begin

text \<open>
  The entry of the kernel, \<open>kernel/kernel.c\<close>, with the parts of \<open>kernel/includes/multiboot.h\<close> it reads: the
  checks of the boot information, the walk over the memory map, and \<open>kmain\<close>.
\<close>

unbundle bit_operations_syntax

section \<open>Boot information\<close>

definition MULTIBOOT_BOOTLOADER_MAGIC :: u32 where "MULTIBOOT_BOOTLOADER_MAGIC = 0x2BADB002"
definition MULTIBOOT_INFO_MEMORY :: u32 where "MULTIBOOT_INFO_MEMORY = 0x00000001"
definition MULTIBOOT_INFO_MEM_MAP :: u32 where "MULTIBOOT_INFO_MEM_MAP = 0x00000040"

text \<open>The fields of \<open>multiboot_info_t\<close> and of \<open>multiboot_memory_map_t\<close> the kernel reads.\<close>

definition mbd_flags :: "u32 \<Rightarrow> u32" where "mbd_flags p = p"
definition mbd_mem_lower :: "u32 \<Rightarrow> u32" where "mbd_mem_lower p = p + 4"
definition mbd_mem_upper :: "u32 \<Rightarrow> u32" where "mbd_mem_upper p = p + 8"
definition mbd_mods_count :: "u32 \<Rightarrow> u32" where "mbd_mods_count p = p + 20"
definition mbd_mods_addr :: "u32 \<Rightarrow> u32" where "mbd_mods_addr p = p + 24"
definition mbd_mmap_length :: "u32 \<Rightarrow> u32" where "mbd_mmap_length p = p + 44"
definition mbd_mmap_addr :: "u32 \<Rightarrow> u32" where "mbd_mmap_addr p = p + 48"

definition map_size :: "u32 \<Rightarrow> u32" where "map_size p = p"
definition map_addr_lower :: "u32 \<Rightarrow> u32" where "map_addr_lower p = p + 4"
definition map_len_lower :: "u32 \<Rightarrow> u32" where "map_len_lower p = p + 12"
definition map_type :: "u32 \<Rightarrow> u32" where "map_type p = p + 20"

text \<open>
  The loop over the memory map. Its body only logs, so a walk of \<open>2 ^ 32\<close> entries has come back to an
  address already seen and never ends.
\<close>

fun mmap_loop :: "nat \<Rightarrow> u32 \<Rightarrow> u32 \<Rightarrow> 'a machine_scheme \<Rightarrow> stop + 'a machine_scheme" where
  "mmap_loop 0 mbd entry s = Inl Diverges"
| "mmap_loop (Suc k) mbd entry s =
     and_then (vload32 (mbd_mmap_addr mbd) s) (\<lambda>addr.
     and_then (vload32 (mbd_mmap_length mbd) s) (\<lambda>len.
     if entry < addr + len
     then and_then (vload32 (map_addr_lower entry) s) (\<lambda>base.
          and_then (vload32 (map_len_lower entry) s) (\<lambda>size.
          and_then (vload32 (map_type entry) s) (\<lambda>ty.
          let s = mlog ''base_addr= %x, length= %x, type = %x\<newline>'' [Num base, Num size, Num ty] s in
          and_then (vload32 (map_size entry) s) (\<lambda>sz. mmap_loop k mbd (entry + sz + 4) s))))
     else Inr s))"

definition log_memory_map :: "u32 \<Rightarrow> 'a machine_scheme \<Rightarrow> stop + 'a machine_scheme" where
  "log_memory_map mbd s =
     and_then (vload32 (mbd_mmap_addr mbd) s) (\<lambda>addr.
     and_then (vload32 (mbd_mmap_length mbd) s) (\<lambda>len.
     let s = mlog ''mmap_addr = %x, mmap_length = %x\<newline>'' [Num addr, Num len] s in
     and_then (vload32 (mbd_mmap_addr mbd) s) (\<lambda>entry. mmap_loop (2 ^ 32) mbd entry s)))"

definition check_multiboot_info :: "u32 \<Rightarrow> u32 \<Rightarrow> 'a machine_scheme \<Rightarrow> stop + 'a machine_scheme" where
  "check_multiboot_info mbd magic s =
     (if magic \<noteq> MULTIBOOT_BOOTLOADER_MAGIC
      then let s = mlog ''Magic is incorrect...: %x\<newline>'' [Num magic] s in panic ''Kernel Panic due to Incorrect Magic''
      else and_then (vload32 (mbd_flags mbd) s) (\<lambda>flags.
      let s = mlog ''mbd->flags: %x\<newline>'' [Num flags] s in
      and_then (vload32 (mbd_flags mbd) s) (\<lambda>flags.
      and_then
        (if flags AND MULTIBOOT_INFO_MEMORY \<noteq> 0
         then and_then (vload32 (mbd_mem_lower mbd) s) (\<lambda>lower.
              let s = mlog ''mem_lower = %x\<newline>'' [Num lower] s in
              and_then (vload32 (mbd_mem_upper mbd) s) (\<lambda>upper.
              Inr (mlog ''mem_upper = %x\<newline>'' [Num upper] s)))
         else Inr s) (\<lambda>s.
      and_then (vload32 (mbd_flags mbd) s) (\<lambda>flags.
      and_then (if flags AND MULTIBOOT_INFO_MEM_MAP \<noteq> 0 then log_memory_map mbd s else Inr s) (\<lambda>s.
      and_then (vload32 (mbd_mods_count mbd) s) (\<lambda>mods_count.
      if mods_count \<le> 0 then panic ''Module counter shows no ramdisk present'' else Inr s)))))))"

section \<open>The entry\<close>

text \<open>
  The part of \<open>kmain\<close> behind the panic, up to the endless loop of the kernel's task: the enabling of the interrupts leaves no
  trace in the model, and \<open>init_tasking\<close> ignores the addresses of the names it passes on.
\<close>

definition start_services :: "'a tasking_scheme \<Rightarrow> stop + 'a tasking_scheme" where
  "start_services s =
     and_then (init_gdt s) (\<lambda>s.
     let s = mlog ''GDT initialized\<newline>'' [] s;
         s = init_pic s; s = mlog ''PIC initialized\<newline>'' [] s;
         s = init_idt s; s = mlog ''IDT initialized\<newline>'' [] s in
     and_then (init_terminal s) (\<lambda>s.
     let s = mlog ''Terminal initialized\<newline>'' [] s in
     and_then (init_keyboard s) (\<lambda>s.
     let s = mlog ''Keyboard intialized\<newline>'' [] s in
     and_then (init_paging s) (\<lambda>s.
     let s = mlog ''Paging initialized\<newline>'' [] s in
     and_then (init_timer TIMER_FREQUENCY s) (\<lambda>s.
     let s = mlog ''Timer initialized\<newline>'' [] s in
     init_tasking 0 0 0 s)))))"

definition kmain :: "u32 \<Rightarrow> u32 \<Rightarrow> 'a tasking_scheme \<Rightarrow> stop + 'a tasking_scheme" where
  "kmain mbd magic s =
     (let s = s\<lparr>dev := init_logger (dev s)\<rparr>; s = mlog ''Logger initialized\<newline>'' [] s in
      and_then (check_multiboot_info mbd magic s) (\<lambda>s.
      and_then (vload32 (mbd_mods_addr mbd) s) (\<lambda>mods. and_then (vload32 mods s) (\<lambda>initrd_start.
      and_then (vload32 (mbd_mods_addr mbd) s) (\<lambda>mods. and_then (vload32 (mods + 4) s) (\<lambda>initrd_end.
      let s = mlog ''initrd_start: %x\<newline>'' [Num initrd_start] s; s = mlog ''initrd_end: %x\<newline>'' [Num initrd_end] s in
      if initrd_end > KERNEL_END then panic ''Ramdisk is bleeding past the kernel area!''
      else and_then (init_filesystem initrd_start initrd_end s) (\<lambda>s.
      let s = mlog ''Filesystem Initialized\<newline>'' [] s in
      and_then (panic ''stop'') start_services)))))))"

section \<open>The memory map\<close>

text \<open>A map whose entries, at the addresses \<open>es\<close>, lie one behind the other from \<open>a\<close> to \<open>e\<close>, each of at least 24 bytes.\<close>

fun mmap_ok :: "(u32 \<Rightarrow> u8) \<Rightarrow> u32 list \<Rightarrow> u32 \<Rightarrow> u32 \<Rightarrow> bool" where
  "mmap_ok m [] a e \<longleftrightarrow> a = e"
| "mmap_ok m (x # xs) a e \<longleftrightarrow> x = a \<and> 20 \<le> load32 m a \<and> unat a + unat (load32 m a) + 4 \<le> unat e \<and>
     mmap_ok m xs (a + load32 m a + 4) e"

definition log_entry :: "(u32 \<Rightarrow> u8) \<Rightarrow> u32 \<Rightarrow> 'a machine_scheme \<Rightarrow> 'a machine_scheme" where
  "log_entry m a s = mlog ''base_addr= %x, length= %x, type = %x\<newline>''
     [Num (load32 m (a + 4)), Num (load32 m (a + 12)), Num (load32 m (a + 20))] s"

lemma load_off: "\<not> paging_on s \<Longrightarrow> vload32 a s = Inr (load32 (phys s) a)"
  using holds_load32 [of UNIV s "phys s" a] by (simp add: holds_def flat_off vview_off)

lemma log_entry_fields [simp]: "phys (log_entry m a s) = phys s" "paging_on (log_entry m a s) = paging_on s"
  by (simp_all add: log_entry_def)

lemma fold_log_entry: "\<exists>d. fold (log_entry m) es s = s\<lparr>dev := d\<rparr>"
proof (induction es arbitrary: s)
  case Nil
  show ?case by (intro exI [of _ "dev s"]) simp
next
  case (Cons x es)
  obtain d where "fold (log_entry m) es (log_entry m x s) = log_entry m x s\<lparr>dev := d\<rparr>" using Cons.IH by blast
  then show ?case by (intro exI [of _ d]) (simp only: fold_simps o_apply, simp add: log_entry_def mlog_def)
qed

lemma fold_log_same: "phys (fold (log_entry m) es s) = phys s" "paging_on (fold (log_entry m) es s) = paging_on s"
  by (induction es arbitrary: s) simp_all

lemma mmap_entry_step:
  assumes "20 \<le> load32 m a" "unat a + unat (load32 m a) + 4 \<le> unat e"
  shows "a < e" "unat (a + load32 m a + 4) = unat a + unat (load32 m a) + 4"
proof -
  have b: "unat a + unat (load32 m a) + 4 < 4294967296" using assms(2) unat_u32_bound [of e] by (rule le_less_trans)
  then show "unat (a + load32 m a + 4) = unat a + unat (load32 m a) + 4" by (simp add: unat_word_ariths)
  show "a < e" using assms(2) by (simp add: word_less_nat_alt)
qed

lemma mmap_ok_length: "mmap_ok m es a e \<Longrightarrow> unat a + 24 * length es \<le> unat e"
proof (induction es arbitrary: a)
  case (Cons x es)
  then have h: "20 \<le> load32 m a" "unat a + unat (load32 m a) + 4 \<le> unat e" "mmap_ok m es (a + load32 m a + 4) e" by simp_all
  have "20 \<le> unat (load32 m a)" using h(1) by (simp add: word_le_nat_alt)
  then show ?case using Cons.IH [OF h(3)] mmap_entry_step(2) [OF h(1,2)] by simp
qed simp

lemma mmap_loop_ok:
  assumes "\<not> paging_on s" "m = phys s" "e = load32 m (mbd_mmap_addr mbd) + load32 m (mbd_mmap_length mbd)"
    and "mmap_ok m es a e" "length es < k"
  shows "mmap_loop k mbd a s = Inr (fold (log_entry m) es s)"
  using assms
proof (induction es arbitrary: a s k)
  case Nil
  then show ?case by (cases k) (simp_all add: load_off)
next
  case (Cons x es)
  obtain j where k: "k = Suc j" using Cons.prems(5) by (cases k) simp_all
  have h: "x = a" "20 \<le> load32 m a" "unat a + unat (load32 m a) + 4 \<le> unat e" "mmap_ok m es (a + load32 m a + 4) e"
    using Cons.prems(4) by simp_all
  have step: "mmap_loop k mbd a s = mmap_loop j mbd (a + load32 m a + 4) (log_entry m a s)"
    using Cons.prems(1-3) mmap_entry_step(1) [OF h(2,3)]
    by (simp add: k load_off log_entry_def map_addr_lower_def map_len_lower_def map_type_def map_size_def)
  have "mmap_loop j mbd (a + load32 m a + 4) (log_entry m a s) = Inr (fold (log_entry m) es (log_entry m a s))"
    using Cons.prems h(4) by (intro Cons.IH) (simp_all add: k)
  then show ?case unfolding step by (simp add: h(1))
qed

text \<open>The walk as an iteration: it ends with the first address at or behind the end, if there is one.\<close>

definition mmap_next :: "(u32 \<Rightarrow> u8) \<Rightarrow> u32 \<Rightarrow> u32" where
  "mmap_next m a = a + load32 m a + 4"

lemma mmap_loop_step:
  assumes "\<not> paging_on s" "m = phys s" "e = load32 m (mbd_mmap_addr mbd) + load32 m (mbd_mmap_length mbd)"
  shows "mmap_loop (Suc k) mbd a s = (if a < e then mmap_loop k mbd (mmap_next m a) (log_entry m a s) else Inr s)"
  using assms by (simp add: load_off log_entry_def map_addr_lower_def map_len_lower_def map_type_def map_size_def mmap_next_def)

lemma mmap_loop_walk:
  assumes "\<not> paging_on s" "m = phys s" "e = load32 m (mbd_mmap_addr mbd) + load32 m (mbd_mmap_length mbd)"
    and "\<forall>i<n. (mmap_next m ^^ i) a < e"
  shows "mmap_loop (n + k) mbd a s =
    mmap_loop k mbd ((mmap_next m ^^ n) a) (fold (log_entry m) (map (\<lambda>i. (mmap_next m ^^ i) a) [0..<n]) s)"
  using assms
proof (induction n arbitrary: a s)
  case (Suc n)
  have sw: "(mmap_next m ^^ i) (mmap_next m a) = (mmap_next m ^^ Suc i) a" for i by (simp only: funpow_Suc_right o_apply)
  have "\<forall>i<n. (mmap_next m ^^ i) (mmap_next m a) < e" "a < e"
    using Suc.prems(4) unfolding sw by (blast intro: Suc_mono, metis funpow_0 zero_less_Suc)
  moreover have "map (\<lambda>i. (mmap_next m ^^ i) a) [0..<Suc n] = a # map (\<lambda>i. (mmap_next m ^^ i) (mmap_next m a)) [0..<n]"
    unfolding sw by (simp add: upt_conv_Cons map_Suc_upt [symmetric] del: upt_Suc funpow.simps)
  moreover have "(mmap_next m ^^ Suc n) a = (mmap_next m ^^ n) (mmap_next m a)" by (simp only: sw)
  moreover have "mmap_loop (n + k) mbd (mmap_next m a) (log_entry m a s) = mmap_loop k mbd ((mmap_next m ^^ n) (mmap_next m a))
      (fold (log_entry m) (map (\<lambda>i. (mmap_next m ^^ i) (mmap_next m a)) [0..<n]) (log_entry m a s))"
    using Suc.prems(1-3) calculation(1) by (intro Suc.IH) simp_all
  ultimately show ?case
    by (simp only: add_Suc mmap_loop_step [OF Suc.prems(1-3)] if_True fold_simps o_apply)
qed simp

text \<open>A walk that ends visits no address twice, so it takes fewer than \<open>2 ^ 32\<close> steps.\<close>

lemma walk_distinct:
  fixes f :: "u32 \<Rightarrow> u32"
  assumes before: "\<forall>i<n. (f ^^ i) a < e" and stop: "\<not> (f ^^ n) a < e"
  shows "n < 2 ^ 32"
proof -
  have "inj_on (\<lambda>i. (f ^^ i) a) {0..n}"
  proof (rule linorder_inj_onI')
    fix i j assume ij: "i \<in> {0..n}" "j \<in> {0..n}" "i < j"
    show "(f ^^ i) a \<noteq> (f ^^ j) a"
    proof
      assume eq: "(f ^^ i) a = (f ^^ j) a"
      have "(f ^^ (n - j + j)) a = (f ^^ (n - j + i)) a" by (simp only: funpow_add o_apply eq)
      moreover have "n - j + j = n" "n - j + i < n" using ij by auto
      ultimately show False using stop before by simp
    qed
  qed
  then have "card {0..n} \<le> card (UNIV :: u32 set)" by (rule card_inj_on_le) simp_all
  then show ?thesis by (simp add: card_word)
qed

lemma log_memory_map_ok:
  assumes "\<not> paging_on s" "mmap_ok (phys s) es (load32 (phys s) (mbd_mmap_addr mbd))
      (load32 (phys s) (mbd_mmap_addr mbd) + load32 (phys s) (mbd_mmap_length mbd))"
  shows "log_memory_map mbd s = Inr (fold (log_entry (phys s)) es (mlog ''mmap_addr = %x, mmap_length = %x\<newline>''
      [Num (load32 (phys s) (mbd_mmap_addr mbd)), Num (load32 (phys s) (mbd_mmap_length mbd))] s))"
proof -
  let ?e = "load32 (phys s) (mbd_mmap_addr mbd) + load32 (phys s) (mbd_mmap_length mbd)"
  have "length es < 4294967296" using mmap_ok_length [OF assms(2)] unat_u32_bound [of ?e] by linarith
  let ?s = "mlog ''mmap_addr = %x, mmap_length = %x\<newline>''
    [Num (load32 (phys s) (mbd_mmap_addr mbd)), Num (load32 (phys s) (mbd_mmap_length mbd))] s"
  have s: "\<not> paging_on ?s" using assms(1) by (simp add: paging_on_def)
  have "mmap_loop (2 ^ 32) mbd (load32 (phys s) (mbd_mmap_addr mbd)) ?s = Inr (fold (log_entry (phys s)) es ?s)"
    by (rule mmap_loop_ok [OF s _ _ assms(2)]) (simp_all add: \<open>length es < 4294967296\<close>)
  then show ?thesis using assms(1) load_off [OF s] by (simp add: log_memory_map_def load_off)
qed

section \<open>What the boot does\<close>

text \<open>A state that differs only in what has been written to the devices.\<close>

definition logged :: "'a machine_scheme \<Rightarrow> 'a machine_scheme \<Rightarrow> bool" where
  "logged s s' \<longleftrightarrow> (\<exists>d. s' = s\<lparr>dev := d\<rparr>)"

lemma logged_mlog [intro]: "logged s s' \<Longrightarrow> logged s (mlog fmt args s')"
  by (auto simp: logged_def mlog_def)

lemma logged_refl [intro]: "logged s s"
  unfolding logged_def by (intro exI [of _ "dev s"]) simp

lemma logged_fold [intro]: "logged s s' \<Longrightarrow> logged s (fold (log_entry m) es s')"
  using fold_log_entry [of m es s'] by (auto simp: logged_def)

lemma logged_trans: "logged s t \<Longrightarrow> logged t u \<Longrightarrow> logged s u"
  by (auto simp: logged_def)

lemma logged_same: "logged s s' \<Longrightarrow> phys s' = phys s" "logged s s' \<Longrightarrow> paging_on s' = paging_on s"
  by (auto simp: logged_def paging_on_def)

lemma log_memory_map_loop:
  "\<not> paging_on s \<Longrightarrow> log_memory_map mbd s = mmap_loop (2 ^ 32) mbd (load32 (phys s) (mbd_mmap_addr mbd))
     (mlog ''mmap_addr = %x, mmap_length = %x\<newline>'' [Num (load32 (phys s) (mbd_mmap_addr mbd)), Num (load32 (phys s) (mbd_mmap_length mbd))] s)"
  by (simp add: log_memory_map_def load_off paging_on_def)

lemma mlog_off: "\<not> paging_on s \<Longrightarrow> \<not> paging_on (mlog fmt args s)"
  by (simp add: paging_on_def)

text \<open>The address of the \<open>k\<close>-th entry of the memory map, and the end of the map.\<close>

definition map_entry :: "(u32 \<Rightarrow> u8) \<Rightarrow> u32 \<Rightarrow> nat \<Rightarrow> u32" where
  "map_entry m mbd k = (mmap_next m ^^ k) (load32 m (mbd_mmap_addr mbd))"

definition map_end :: "(u32 \<Rightarrow> u8) \<Rightarrow> u32 \<Rightarrow> u32" where
  "map_end m mbd = load32 m (mbd_mmap_addr mbd) + load32 m (mbd_mmap_length mbd)"

definition map_logged :: "u32 \<Rightarrow> u32 list \<Rightarrow> 'a machine_scheme \<Rightarrow> 'a machine_scheme" where
  "map_logged mbd es s = fold (log_entry (phys s)) es (mlog ''mmap_addr = %x, mmap_length = %x\<newline>''
     [Num (load32 (phys s) (mbd_mmap_addr mbd)), Num (load32 (phys s) (mbd_mmap_length mbd))] s)"

lemma logged_map [intro]: "logged s (map_logged mbd es s)"
  unfolding map_logged_def by auto

lemma log_memory_map_walk:
  assumes "\<not> paging_on s" "\<forall>i<n. map_entry (phys s) mbd i < map_end (phys s) mbd" "2 ^ 32 = n + k"
  shows "log_memory_map mbd s = mmap_loop k mbd (map_entry (phys s) mbd n) (map_logged mbd (map (map_entry (phys s) mbd) [0..<n]) s)"
  using mmap_loop_walk [OF mlog_off [OF assms(1)], where mbd = mbd, of "phys s", OF mlog_simps(1) [symmetric] refl] assms(2)
  by (simp only: log_memory_map_loop [OF assms(1)] assms(3) map_entry_def [abs_def] map_end_def map_logged_def)

lemma log_memory_map_ends:
  assumes "\<not> paging_on s" "\<forall>i<k. map_entry (phys s) mbd i < map_end (phys s) mbd" "\<not> map_entry (phys s) mbd k < map_end (phys s) mbd"
  shows "log_memory_map mbd s = Inr (map_logged mbd (map (map_entry (phys s) mbd) [0..<k]) s)"
proof -
  let ?s = "map_logged mbd (map (map_entry (phys s) mbd) [0..<k]) s"
  have "k < 2 ^ 32" using assms(2,3) walk_distinct unfolding map_entry_def by blast
  then have "log_memory_map mbd s = mmap_loop (Suc (2 ^ 32 - k - 1)) mbd (map_entry (phys s) mbd k) ?s"
    by (intro log_memory_map_walk [OF assms(1,2)]) simp
  moreover have "\<not> paging_on ?s" "phys s = phys ?s" using assms(1) by (simp_all add: map_logged_def fold_log_same)
  note step = mmap_loop_step [where mbd = mbd and a = "map_entry (phys s) mbd k" and k = "2 ^ 32 - k - 1", OF this map_end_def]
  ultimately show ?thesis using assms(3) by (simp only: step if_False)
qed

lemma log_memory_map_endless:
  assumes "\<not> paging_on s" "\<forall>k. map_entry (phys s) mbd k < map_end (phys s) mbd"
  shows "log_memory_map mbd s = Inl Diverges"
  using log_memory_map_walk [OF assms(1), of "2 ^ 32" mbd 0] assms(2) by (simp only: add_0_right mmap_loop.simps HOL.simp_thms)

text \<open>
  C38: the walk over the memory map returns exactly when the size fields lead to the end of the map: if the \<open>k\<close>-th entry is the
  first at or behind the end, the boot logs the entries before it in order, without touching memory, and goes on;
  if no entry is, the boot hangs. A well-formed map, its entries one behind the other up to the end, is logged entry by entry.
\<close>

theorem memory_map_terminates:
  assumes "\<not> paging_on s"
  shows "(\<forall>k. (\<forall>i<k. map_entry (phys s) mbd i < map_end (phys s) mbd) \<and> \<not> map_entry (phys s) mbd k < map_end (phys s) mbd \<longrightarrow>
      log_memory_map mbd s = Inr (map_logged mbd (map (map_entry (phys s) mbd) [0..<k]) s)) \<and>
    ((\<forall>k. map_entry (phys s) mbd k < map_end (phys s) mbd) \<longrightarrow> log_memory_map mbd s = Inl Diverges) \<and>
    (\<forall>es. mmap_ok (phys s) es (load32 (phys s) (mbd_mmap_addr mbd)) (map_end (phys s) mbd) \<longrightarrow>
      log_memory_map mbd s = Inr (map_logged mbd es s)) \<and>
    (\<forall>es. \<exists>d. map_logged mbd es s = s\<lparr>dev := d\<rparr>)"
  using log_memory_map_ends [OF assms] log_memory_map_endless [OF assms] log_memory_map_ok [OF assms] logged_map
  unfolding logged_def map_logged_def [symmetric] map_end_def by blast

text \<open>A boot with one memory region, and one whose map does not end.\<close>

definition boot_words :: "u32 \<Rightarrow> (u32 \<times> u32) list" where
  "boot_words sz = [(0x9000, 0x40), (0x902C, 24), (0x9030, 0xA000), (0xA000, sz), (0xA014, 1)]"

definition boot_machine :: "u32 \<Rightarrow> mm" where
  "boot_machine sz = \<lparr>dev = \<lparr>out = []\<rparr>, phys = words (boot_words sz) (\<lambda>_. 0), cr0 = 0x11, cr3 = 0, interrupt_handlers = (\<lambda>_. None),
     syms = boot_symbols, heap_current = 0, heap_mapped = 0\<rparr>"

lemma boot_machine_loads [simp]:
  "\<not> paging_on (boot_machine sz)" "load32 (phys (boot_machine sz)) 0x9000 = 0x40" "load32 (phys (boot_machine sz)) 0x902C = 24"
  "load32 (phys (boot_machine sz)) 0x9030 = 0xA000" "load32 (phys (boot_machine sz)) 0xA000 = sz"
  by (simp_all add: boot_machine_def boot_words_def load_store32_other word_aligned_def paging_on_def)

lemma stuck_entry: "map_entry (phys (boot_machine (- 4))) 0x9000 k = 0xA000"
proof (induction k)
  case (Suc k)
  then show ?case by (simp add: map_entry_def mmap_next_def)
qed (simp add: map_entry_def mbd_mmap_addr_def)

theorem memory_map_terminates_witness:
  "(\<exists>d. log_memory_map 0x9000 (boot_machine 20) = Inr (boot_machine 20\<lparr>dev := d\<rparr>)) \<and>
   log_memory_map 0x9000 (boot_machine (- 4)) = Inl Diverges"
proof
  have "mmap_ok (phys (boot_machine 20)) [0xA000] (load32 (phys (boot_machine 20)) (mbd_mmap_addr 0x9000)) (map_end (phys (boot_machine 20)) 0x9000)"
    by (simp add: map_end_def mbd_mmap_addr_def mbd_mmap_length_def)
  then show "\<exists>d. log_memory_map 0x9000 (boot_machine 20) = Inr (boot_machine 20\<lparr>dev := d\<rparr>)"
    using memory_map_terminates [OF boot_machine_loads(1), of 20 "0x9000"] by metis
  have "\<forall>k. map_entry (phys (boot_machine (- 4))) 0x9000 k < map_end (phys (boot_machine (- 4))) 0x9000"
    by (simp add: stuck_entry) (simp add: map_end_def mbd_mmap_addr_def mbd_mmap_length_def)
  then show "log_memory_map 0x9000 (boot_machine (- 4)) = Inl Diverges"
    using memory_map_terminates [OF boot_machine_loads(1), of "- 4" "0x9000"] by blast
qed

section \<open>The whole boot\<close>

lemma check_multiboot_ok:
  assumes "\<not> paging_on s"
  shows "\<exists>s'. logged s s' \<and> check_multiboot_info mbd magic s =
    (if magic \<noteq> MULTIBOOT_BOOTLOADER_MAGIC then Inl (Panic ''Kernel Panic due to Incorrect Magic'')
     else if load32 (phys s) (mbd_flags mbd) AND MULTIBOOT_INFO_MEM_MAP \<noteq> 0 \<and> (\<forall>k. map_entry (phys s) mbd k < map_end (phys s) mbd) then Inl Diverges
     else if load32 (phys s) (mbd_mods_count mbd) = 0 then Inl (Panic ''Module counter shows no ramdisk present'') else Inr s')"
proof -
  let ?m = "phys s"
  let ?map = "load32 ?m (mbd_flags mbd) AND MULTIBOOT_INFO_MEM_MAP \<noteq> 0" and ?endless = "\<forall>k. map_entry ?m mbd k < map_end ?m mbd"
  have ld: "vload32 a s' = Inr (load32 ?m a)" if "logged s s'" for a s'
    using load_off [of s' a] assms logged_same [OF that] by simp
  define s1 where "s1 = mlog ''mbd->flags: %x\<newline>'' [Num (load32 ?m (mbd_flags mbd))] s"
  define s2 where "s2 = (if load32 ?m (mbd_flags mbd) AND MULTIBOOT_INFO_MEMORY \<noteq> 0
    then mlog ''mem_upper = %x\<newline>'' [Num (load32 ?m (mbd_mem_upper mbd))] (mlog ''mem_lower = %x\<newline>'' [Num (load32 ?m (mbd_mem_lower mbd))] s1) else s1)"
  have l1: "logged s s1" and l2: "logged s s2" unfolding s1_def s2_def by auto
  have "\<exists>s3. logged s s3 \<and> (if ?map then log_memory_map mbd s2 else Inr s2) = (if ?map \<and> ?endless then Inl Diverges else Inr s3)"
  proof (cases "?map \<and> \<not> ?endless")
    case True
    define k where "k = (LEAST k. \<not> map_entry ?m mbd k < map_end ?m mbd)"
    have "\<not> map_entry ?m mbd k < map_end ?m mbd" "\<forall>i<k. map_entry ?m mbd i < map_end ?m mbd"
      using True unfolding k_def by (metis (mono_tags, lifting) LeastI not_less_Least)+
    then have "log_memory_map mbd s2 = Inr (map_logged mbd (map (map_entry ?m mbd) [0..<k]) s2)"
      using log_memory_map_ends [of s2 k mbd] assms logged_same [OF l2] by simp
    moreover have "logged s (map_logged mbd (map (map_entry ?m mbd) [0..<k]) s2)" using l2 logged_map by (rule logged_trans)
    ultimately show ?thesis using True by auto
  qed (use l2 log_memory_map_endless [of s2 mbd] assms logged_same [OF l2] in auto)
  then obtain s3 where s3: "logged s s3" "(if ?map then log_memory_map mbd s2 else Inr s2) = (if ?map \<and> ?endless then Inl Diverges else Inr s3)"
    by blast
  show ?thesis
  proof (intro exI [of _ s3] conjI)
    show "check_multiboot_info mbd magic s =
      (if magic \<noteq> MULTIBOOT_BOOTLOADER_MAGIC then Inl (Panic ''Kernel Panic due to Incorrect Magic'')
       else if ?map \<and> ?endless then Inl Diverges
       else if load32 ?m (mbd_mods_count mbd) = 0 then Inl (Panic ''Module counter shows no ramdisk present'') else Inr s3)"
      using s3 l1 l2 unfolding check_multiboot_info_def s2_def
      by (cases "load32 ?m (mbd_flags mbd) AND MULTIBOOT_INFO_MEMORY = 0"; cases ?map; cases ?endless)
        (simp_all add: ld logged_refl s1_def [symmetric] logged_mlog panic_def, blast+)
  qed (rule s3(1))
qed

lemma kmain_result:
  assumes "\<not> paging_on s"
  shows "\<exists>d. kmain mbd magic s = Inl
    (let mods = load32 (phys s) (mbd_mods_addr mbd); initrd_start = load32 (phys s) mods; initrd_end = load32 (phys s) (mods + 4)
     in if magic \<noteq> MULTIBOOT_BOOTLOADER_MAGIC then Panic ''Kernel Panic due to Incorrect Magic''
        else if load32 (phys s) (mbd_flags mbd) AND MULTIBOOT_INFO_MEM_MAP \<noteq> 0 \<and> (\<forall>k. map_entry (phys s) mbd k < map_end (phys s) mbd) then Diverges
        else if load32 (phys s) (mbd_mods_count mbd) = 0 then Panic ''Module counter shows no ramdisk present''
        else if KERNEL_END < initrd_end then Panic ''Ramdisk is bleeding past the kernel area!''
        else (case init_filesystem initrd_start initrd_end (s\<lparr>dev := d\<rparr>) of Inl e \<Rightarrow> e | Inr s' \<Rightarrow> Panic ''stop''))"
proof -
  define s0 where "s0 = mlog ''Logger initialized\<newline>'' [] (s\<lparr>dev := init_logger (dev s)\<rparr>)"
  let ?endless = "load32 (phys s) (mbd_flags mbd) AND MULTIBOOT_INFO_MEM_MAP \<noteq> 0 \<and> (\<forall>k. map_entry (phys s) mbd k < map_end (phys s) mbd)"
  have l0: "logged s s0" by (auto simp: s0_def logged_def mlog_def)
  obtain s1 where s1: "logged s0 s1" "check_multiboot_info mbd magic s0 =
    (if magic \<noteq> MULTIBOOT_BOOTLOADER_MAGIC then Inl (Panic ''Kernel Panic due to Incorrect Magic'')
     else if ?endless then Inl Diverges
     else if load32 (phys s) (mbd_mods_count mbd) = 0 then Inl (Panic ''Module counter shows no ramdisk present'') else Inr s1)"
    using check_multiboot_ok [of s0 mbd magic] assms logged_same [OF l0] by auto
  have l1: "logged s s1" by (rule logged_trans [OF l0 s1(1)])
  have ld: "vload32 a s' = Inr (load32 (phys s) a)" if "logged s s'" for a s'
    using load_off [of s' a] assms logged_same [OF that] by simp
  let ?mods = "load32 (phys s) (mbd_mods_addr mbd)"
  let ?start = "load32 (phys s) ?mods" and ?stop = "load32 (phys s) (?mods + 4)"
  obtain d where d: "mlog ''initrd_end: %x\<newline>'' [Num ?stop] (mlog ''initrd_start: %x\<newline>'' [Num ?start] s1) = s\<lparr>dev := d\<rparr>"
    using logged_mlog [OF logged_mlog [OF l1]] unfolding logged_def by blast
  show ?thesis
    by (intro exI [of _ d])
      (simp add: kmain_def s0_def [symmetric] s1(2) ld l1 d panic_def Let_def split: sum.split)
qed

text \<open>
  C39: the boot. \<open>kmain\<close> never comes to the services behind \<open>panic("stop")\<close>, whatever the boot information: it ends in the first
  of the wrong magic, a memory map without end, the missing RAM disk, a RAM disk behind the kernel area, and
  what stops \<open>init_filesystem\<close>; and with all of this in order it ends in the panic \<open>stop\<close>.
\<close>

theorem kmain_outcome:
  assumes "\<not> paging_on s"
  shows "\<exists>d. kmain mbd magic s = Inl
    (let mods = load32 (phys s) (mbd_mods_addr mbd); initrd_start = load32 (phys s) mods; initrd_end = load32 (phys s) (mods + 4)
     in if magic \<noteq> MULTIBOOT_BOOTLOADER_MAGIC then Panic ''Kernel Panic due to Incorrect Magic''
        else if load32 (phys s) (mbd_flags mbd) AND MULTIBOOT_INFO_MEM_MAP \<noteq> 0 \<and> (\<forall>k. map_entry (phys s) mbd k < map_end (phys s) mbd) then Diverges
        else if load32 (phys s) (mbd_mods_count mbd) = 0 then Panic ''Module counter shows no ramdisk present''
        else if KERNEL_END < initrd_end then Panic ''Ramdisk is bleeding past the kernel area!''
        else (case init_filesystem initrd_start initrd_end (s\<lparr>dev := d\<rparr>) of Inl e \<Rightarrow> e | Inr s' \<Rightarrow> Panic ''stop''))"
  by (rule kmain_result [OF assms])

theorem kmain_outcome_witness:
  "kmain 0x9000 0x2BADB002 (boot_tasking 0 \<lparr>head = 0, tail = 0\<rparr>) = Inl (Panic ''Module counter shows no ramdisk present'') \<and>
   kmain 0x9000 0 (boot_tasking 0 \<lparr>head = 0, tail = 0\<rparr>) = Inl (Panic ''Kernel Panic due to Incorrect Magic'')"
proof -
  let ?s = "boot_tasking 0 \<lparr>head = 0, tail = 0\<rparr>"
  have s: "phys ?s = (\<lambda>_. 0)" "\<not> paging_on ?s"
    by (simp_all add: boot_tasking_def boot_cpu_def boot_keyboard_def boot_timer_def boot_tty_def paging_on_def
      cpu.defs keyboard.defs timer.defs tty.defs tasking.defs)
  have "load32 (\<lambda>_. 0) a = 0" for a by (simp add: load32_def)
  then show ?thesis
    using kmain_outcome [OF s(2), of "0x9000" "0x2BADB002"] kmain_outcome [OF s(2), of "0x9000" 0]
    by (simp add: s(1) MULTIBOOT_BOOTLOADER_MAGIC_def Let_def)
qed

end
