(* ===== verification/Directories.thy ===== *)
theory Directories
  imports File_Operations
begin

text \<open>
  Nodes and directories: \<open>fs_construct_node\<close> builds an empty file or directory in fresh memory of the heap, and a
  directory is the linked list of the files that \<open>fs_add_dirent\<close> appends to it.
\<close>

unbundle bit_operations_syntax

section \<open>A new node\<close>

definition node_header :: "fs_image \<Rightarrow> u32 \<Rightarrow> u32 \<Rightarrow> nat \<Rightarrow> u32 \<Rightarrow> (u32 \<Rightarrow> u8) \<Rightarrow> (u32 \<Rightarrow> u8)" where
  "node_header im e src n ty m =
     store32 (node_seek e) (ramdisk_seek_fn im) (store32 (node_write e) (ramdisk_write_fn im)
       (store32 (node_read e) (ramdisk_read_fn im) (store32 (node_type e) ty (copied e src (Suc n) (fill e 168 0 m)))))"

lemma header_outside: "n < 128 \<Longrightarrow> x \<notin> span e 168 \<Longrightarrow> node_header im e src n ty m x = m x"
  using file_fields_span [of e] span_mono [of "Suc n" 168 e]
  by (auto simp: node_header_def intro!: trans [OF store32_outside] trans [OF copied_outside] fill_outside)

lemma header_name:
  assumes "n < 128" "cstring_in D m src n" "span e 168 \<inter> D = {}"
  shows "name_at (node_header im e src n ty m) e (bytes m src n)"
proof -
  let ?m = "copied e src (Suc n) (fill e 168 0 m)"
  have src: "span src (Suc n) \<subseteq> D" "m (src + word_of_nat n) = 0" "\<forall>i<n. m (src + word_of_nat i) \<noteq> 0"
    using assms(2) by (simp_all add: cstring_in_def)
  have "name_at ?m e (bytes m src n)"
    unfolding name_at_def
  proof (intro conjI)
    have "fill e 168 0 m x = m x" if "x \<in> span src (Suc n)" for x using that src(1) assms(3) by (intro fill_outside) auto
    then have c: "bytes ?m e (Suc n) = bytes m src (Suc n)"
      using assms(1) by (simp add: bytes_copied) (intro bytes_cong, simp_all)
    have at: "?m (e + word_of_nat i) = m (src + word_of_nat i)" if "i \<le> n" for i
      using arg_cong [OF c, of "\<lambda>l. l ! i"] that by (simp add: nth_bytes)
    show "bytes ?m e (length (bytes m src n)) = bytes m src n"
      by (rule nth_equalityI) (simp_all add: nth_bytes at)
    show "?m (e + word_of_nat (length (bytes m src n))) = 0" using at src(2) by simp
  qed (use src(3) assms(1) in \<open>auto simp: bytes_def\<close>)
  then show ?thesis
  proof (rule name_cong)
    fix x assume "x \<in> span e 128"
    then have "x \<notin> span (e + word_of_nat k) 4" if "128 \<le> k" "k < 168" for k
      using span_apart [of 128 k 4 e] that by auto
    from this [of 128] this [of 132] this [of 136] this [of 140]
    show "node_header im e src n ty m x = ?m x" by (simp add: node_header_def field_defs store32_outside)
  qed
qed

lemma header_fields:
  assumes "word_aligned e"
  shows "load32 (node_header im e src n ty m) (node_type e) = ty" "functions_at im (node_header im e src n ty m) e"
  using fields_aligned [OF assms]
  by (simp_all add: node_header_def functions_at_def load_store32_other field_defs)

text \<open>Names of nodes as the logger reads them.\<close>

lemma cstring_loop_name:
  assumes "\<And>i. i \<le> length nm \<Longrightarrow> vload8 (p + word_of_nat i) s = Inr ((nm @ [0]) ! i)" "0 \<notin> set nm" "length nm < k"
  shows "cstring_loop e k p s = Inr nm"
  using assms
proof (induction nm arbitrary: p k)
  case Nil
  then show ?case using Nil(1) [of 0] by (cases k) simp_all
next
  case (Cons c nm)
  obtain j where k: "k = Suc j" using Cons.prems(3) by (cases k) simp_all
  have "cstring_loop e j (p + 1) s = Inr nm"
  proof (rule Cons.IH)
    show "vload8 (p + 1 + word_of_nat i) s = Inr ((nm @ [0]) ! i)" if "i \<le> length nm" for i
      using Cons.prems(1) [of "Suc i"] that by (simp add: add.assoc)
  qed (use Cons.prems k in simp_all)
  then show ?case using Cons.prems(1) [of 0] Cons.prems(2) by (simp add: k)
qed

context kernel_heap
begin

lemma ok_memset:
  assumes "kept s0 s m" "span p (unat n) \<subseteq> reg s0" "\<And>s'. kept s0 s' (fill p (unat n) (ucast v) m) \<Longrightarrow> ok (f s') Q"
  shows "ok (and_then (memset vstore8 p v n s) f) Q"
proof -
  obtain s' where s': "memset vstore8 p v n s = Inr s'" "same_but (reg s) s s'" "runs s' (fill p (unat n) (ucast v) m)"
    using runs_memset [of s m p n v] assms(1,2) kept_reg [OF assms(1)] by (auto simp: kept_def)
  show ?thesis using assms(3) [OF kept_step [OF assms(1) s'(2,3)]] s'(1) by simp
qed

text \<open>What the heap hands out between two states.\<close>

lemma fresh_block:
  fixes s s' :: "'a mm_scheme"
  assumes r: "runs s m" and h: "heap_only s s'" "unat (heap_current s') \<le> limit"
    and p: "unat (heap_current s) \<le> unat p" "unat p + k \<le> unat (heap_current s')"
  shows "span p k \<subseteq> reg s'" "span p k \<inter> reg s = {}"
proof -
  have v: "valid s" using r by (simp add: runs_def)
  have "unat p + k \<le> 4294967296" using p(2) unat_u32_bound [of "heap_current s'"] by linarith
  then have k: "unat p + k \<le> 2 ^ 32" by simp
  show "span p k \<subseteq> reg s'" using base_le [OF v] p by (auto simp: region_def span_iff [OF k])
  show "span p k \<inter> reg s = {}"
    using base_le [OF v] data_apart [OF v] p h(2) by (fastforce simp: region_def span_iff [OF k])
qed

lemma region_grows:
  fixes s s' :: "'a mm_scheme"
  shows "heap_only s s' \<Longrightarrow> unat (heap_current s) \<le> unat (heap_current s') \<Longrightarrow> reg s \<subseteq> reg s'"
  using heap_only_same(1) [of s s'] by (auto simp: region_def)

lemma runs_name:
  assumes "runs s m" "name_at m p nm" "span p 128 \<subseteq> reg s"
  shows "c_string p s = Inr nm"
proof -
  have n: "length nm < 128" "0 \<notin> set nm" "bytes m p (length nm) = nm" "m (p + word_of_nat (length nm)) = 0"
    using assms(2) by (simp_all add: name_at_def)
  have "vload8 (p + word_of_nat i) s = Inr ((nm @ [0]) ! i)" if "i \<le> length nm" for i
  proof -
    have "p + word_of_nat i \<in> reg s" using that n(1) assms(3) span_memI [of i 128 p] by auto
    moreover have "m (p + word_of_nat i) = (nm @ [0]) ! i"
      using that n(4) arg_cong [OF n(3), of "\<lambda>l. l ! i"] by (cases "i = length nm") (simp_all add: nth_bytes nth_append)
    ultimately show ?thesis using runs_load8 [OF assms(1)] by simp
  qed
  then show ?thesis unfolding c_string_def by (rule cstring_loop_name) (use n in simp_all)
qed

end

lemma aligned_grow:
  fixes a b :: u32
  shows "word_aligned a \<Longrightarrow> unat b = unat a + k \<Longrightarrow> k mod 4 = 0 \<Longrightarrow> word_aligned b"
  unfolding word_aligned_unat by presburger

lemma heap_next:
  fixes a b :: u32
  assumes "unat b = unat a + n"
  shows "b = a + word_of_nat n"
proof -
  have "b = word_of_nat (unat b)" by simp
  also have "\<dots> = a + word_of_nat n" unfolding assms by simp
  finally show ?thesis .
qed

definition file_memory :: "fs_image \<Rightarrow> u32 \<Rightarrow> u32 \<Rightarrow> nat \<Rightarrow> (u32 \<Rightarrow> u8) \<Rightarrow> (u32 \<Rightarrow> u8)" where
  "file_memory im e src n m = store32 (file_allocated_size e) 256 (store32 (file_canonical_size e) 0 (store32 (file_buffer e) (e + 168)
     (fill (e + 168) 256 0 (store32 (file_offset e) 0 (node_header im e src n FS_FILE m)))))"

lemma file_memory_at:
  assumes al: "word_aligned e" and e: "unat e + 424 < 2 ^ 32" and src: "n < 128" "cstring_in D m src n" "span e 168 \<inter> D = {}"
  shows "file_at im (file_memory im e src n m) e (e + 168) \<lparr>fname = bytes m src n, fpos = 0, fdata = []\<rparr>"
proof -
  note A = fields_aligned [OF al] and S = file_fields_span [of e]
  let ?h = "node_header im e src n FS_FILE m" and ?m = "file_memory im e src n m"
  have apart: "span e 168 \<inter> span (e + 168) 256 = {}" using span_apart [of 168 168 256 e] by auto
  have fl: "load32 (fill (e + 168) 256 0 m') a = load32 m' a" if "span a 4 \<subseteq> span e 168" for a m'
    using that apart by (intro fill_load) blast
  have ld: "load32 ?m a = load32 ?h a"
    if "word_aligned a" "span a 4 \<subseteq> span e 168" "file_allocated_size e \<noteq> a" "file_canonical_size e \<noteq> a" "file_buffer e \<noteq> a" "file_offset e \<noteq> a" for a
    using that A by (simp add: file_memory_def load_store32_other fl)
  have "functions_at im ?h e" "load32 ?h (node_type e) = FS_FILE" using header_fields [OF al, of im src n FS_FILE m] by simp_all
  then have h: "functions_at im ?m e" "load32 ?m (node_type e) = FS_FILE"
    using ld A S by (simp_all add: functions_at_def field_defs)
  have off: "load32 ?m (file_offset e) = 0"
    using A fl [OF S(5)] by (simp add: file_memory_def load_store32_other field_defs)
  have sz: "load32 ?m (file_buffer e) = e + 168" "load32 ?m (file_canonical_size e) = 0" "load32 ?m (file_allocated_size e) = 256"
    using A by (simp_all add: file_memory_def load_store32_other field_defs)
  have "name_at ?m e (bytes m src n)"
  proof (rule name_cong [OF header_name [OF src]])
    fix x assume x: "x \<in> span e 128"
    then have "x \<notin> span (e + word_of_nat k) 4" if "128 \<le> k" "k < 168" for k
      using span_apart [of 128 k 4 e] that by auto
    from this [of 152] this [of 156] this [of 160] this [of 164]
    have "x \<notin> span (file_offset e) 4" "x \<notin> span (file_buffer e) 4" "x \<notin> span (file_canonical_size e) 4" "x \<notin> span (file_allocated_size e) 4"
      by (simp_all add: field_defs)
    moreover have "x \<notin> span (e + 168) 256" using x apart span_mono [of 128 168 e] by auto
    ultimately show "?m x = ?h x" by (simp add: file_memory_def store32_outside fill_outside)
  qed
  then show ?thesis using al e h off sz apart by (simp add: file_at_def unat_word_ariths bytes_def)
qed

lemma file_memory_outside:
  "n < 128 \<Longrightarrow> x \<notin> span e 424 \<Longrightarrow> file_memory im e src n m x = m x"
  using file_fields_span [of e] span_mono [of 168 424 e] span_sub [of 168 256 424 e]
  by (auto simp: file_memory_def intro!: trans [OF store32_outside] trans [OF fill_outside] header_outside)

definition directory_memory :: "fs_image \<Rightarrow> u32 \<Rightarrow> u32 \<Rightarrow> nat \<Rightarrow> (u32 \<Rightarrow> u8) \<Rightarrow> (u32 \<Rightarrow> u8)" where
  "directory_memory im e src n m = store32 (directory_parent e) 0 (store32 (directory_size e) 0 (store32 (directory_head e) 0
     (node_header im e src n FS_DIRECTORY m)))"

context filesystem
begin

lemma construct_ok:
  assumes r: "runs s m" and al: "word_aligned (heap_current s)" and room: "unat (heap_current s) + 168 \<le> limit"
    and src: "cstring_in (reg s) m name n" "n < 128"
    and tail: "\<And>s1 s'. heap_only s s1 \<Longrightarrow> unat (heap_current s1) = unat (heap_current s) + 168 \<Longrightarrow> image s' = image s \<Longrightarrow>
      span (heap_current s) 168 \<subseteq> reg s1 \<Longrightarrow> kept s1 s' (node_header (image s) (heap_current s) name n ty m) \<Longrightarrow>
      ok (and_then (fs_node_contents (heap_current s) ty s') (\<lambda>s'. Inr (heap_current s, s'))) Q"
  shows "ok (fs_construct_node name ty s) Q"
proof -
  define e where "e = heap_current s"
  note A = fields_aligned [OF al [folded e_def]] and S = file_fields_span [of e]
  have lsub: "span name (Suc n) \<subseteq> reg s" using src(1) by (simp add: cstring_in_def)
  have clear: "fill e 128 0 (fill e 168 0 m) = fill e 168 0 m"
    using span_mono [of 128 168 e] by (auto simp: fill_def fun_eq_iff)
  have nm: "span e (Suc n) \<subseteq> span e 168" using src(2) by (intro span_mono) simp
  show ?thesis
    unfolding fs_construct_node_def
  proof (rule ok_alloc [OF r], goal_cases)
    case 1
    show ?case using room by (simp add: sizeof_fs_node_def)
  next
    case (2 s1)
    note s1 = 2 [folded e_def, unfolded sizeof_fs_node_def, simplified]
    have im: "image s1 = image s" using kept_image [of s s1] heap_only_same(5) [OF s1(1)] by (cases s, cases s1) auto
    have imk: "image s' = image s" if "kept s1 s' m'" for s' m' using kept_image [OF that] im by simp
    have sub: "span a 4 \<subseteq> reg s1" if "span a 4 \<subseteq> span e 168" for a using that s1(4) by blast
    have "cstring_in (reg s1) (fill e 168 0 m) name n"
    proof -
      have "fill e 168 0 m x = m x" if "x \<in> span name (Suc n)" for x using that lsub s1(5) by (intro fill_outside) auto
      then show ?thesis using src(1) s1(3) by (auto simp: cstring_in_def span_memI)
    qed
    note lit = this
    have dis: "span e (Suc n) \<inter> span name (Suc n) = {}" "span e (Suc n) \<subseteq> reg s1" using nm lsub s1(4,5) by blast+
    show ?case
      unfolding prod.case e_def [symmetric]
    proof (rule ok_memset [OF kept_refl [OF s1(6)]], goal_cases)
      case 1
      show ?case using s1(4) span_mono [of 128 168 e] by auto
    next
      case (2 s2)
      then have k2: "kept s1 s2 (fill e 168 0 m)" by (simp add: clear)
      show ?case
      proof (rule ok_strcpy [OF k2 lit dis(2,1)], goal_cases)
        case (1 s3)
        show ?case
        proof (rule ok_store [OF 1 A(1) sub [OF S(1)]], goal_cases)
          case (1 s4)
          show ?case unfolding imk [OF 1]
          proof (rule ok_store [OF 1 A(2) sub [OF S(2)]], goal_cases)
            case (1 s5)
            show ?case unfolding imk [OF 1]
            proof (rule ok_store [OF 1 A(3) sub [OF S(3)]], goal_cases)
              case (1 s6)
              show ?case unfolding imk [OF 1]
              proof (rule ok_store [OF 1 A(4) sub [OF S(4)]], goal_cases)
                case (1 s7)
                show ?case
                  using tail [folded e_def, OF s1(1,2) imk [OF 1] s1(4)] 1 by (simp add: node_header_def)
              qed
            qed
          qed
        qed
      qed
    qed
  qed
qed

text \<open>A new file, and a new directory.\<close>

lemma construct_file_ok:
  assumes r: "runs s m" and al: "word_aligned (heap_current s)" and room: "unat (heap_current s) + 424 \<le> limit"
    and src: "cstring_in (reg s) m name n" "n < 128"
  shows "ok (fs_construct_node name FS_FILE s) (\<lambda>(p, s'). p = heap_current s \<and> heap_only s s' \<and>
    unat (heap_current s') = unat (heap_current s) + 424 \<and> runs s' (file_memory (image s) p name n m))"
proof (rule construct_ok [OF r al _ src], goal_cases)
  case (2 s1 s2)
  define e where "e = heap_current s"
  note k = 2(5) [folded e_def] and A = fields_aligned [OF al [folded e_def]] and S = file_fields_span [of e]
  have sub: "span a 4 \<subseteq> reg s1" if "span a 4 \<subseteq> span e 168" for a using that 2(4) by (auto simp: e_def)
  have body: "ok (fs_node_contents e FS_FILE s2) (\<lambda>s'. heap_only s s' \<and> unat (heap_current s') = unat e + 424 \<and>
      runs s' (file_memory (image s) e name n m))"
    unfolding fs_node_contents_def if_P [OF refl]
  proof (rule ok_store [OF k A(5) sub [OF S(5)]], goal_cases)
    case (1 s3)
    have k3: "runs s3 (store32 (file_offset e) 0 (node_header (image s) e name n FS_FILE m))" "heap_only s s3"
      "heap_current s3 = e + 168" "unat (heap_current s3) = unat e + 168" "reg s3 = reg s1"
      using 1 2(1,2) kept_reg [OF 1] heap_only_trans [OF 2(1)] heap_next [OF 2(2)] by (simp_all add: kept_def e_def)
    show ?case
    proof (rule ok_alloc [OF k3(1)], goal_cases)
      case 1
      show ?case using room k3(4) by (simp add: e_def)
    next
      case (2 s4)
      note s4 = 2 [unfolded k3(3,5), folded k3(3), unfolded k3(3,4), simplified]
      have al4: "span a 4 \<subseteq> reg s4" if "span a 4 \<subseteq> span e 168" for a using sub [OF that] 2(3) k3(5) by auto
      show ?case
        unfolding prod.case k3(3)
      proof (rule ok_store [OF kept_refl [OF s4(6)] A(6) al4 [OF S(6)]], goal_cases)
        case (1 s5)
        show ?case
        proof (rule ok_store [OF 1 A(7) al4 [OF S(7)]], goal_cases)
          case (1 s6)
          show ?case
          proof (rule ok_store_last [OF 1 A(8) al4 [OF S(8)]], goal_cases)
            case (1 s7)
            then show ?case
              using heap_only_trans [OF heap_only_trans [OF k3(2) s4(1)]] s4(2) k3(4) [unfolded k3(3)] by (simp add: kept_def file_memory_def)
          qed
        qed
      qed
    qed
  qed
  show ?case by (rule ok_bind [OF body [unfolded e_def]]) simp
qed (use room in simp)

lemma construct_directory_ok:
  assumes r: "runs s m" and al: "word_aligned (heap_current s)" and room: "unat (heap_current s) + 168 \<le> limit"
    and src: "cstring_in (reg s) m name n" "n < 128"
  shows "ok (fs_construct_node name FS_DIRECTORY s) (\<lambda>(p, s'). p = heap_current s \<and> heap_only s s' \<and>
    unat (heap_current s') = unat (heap_current s) + 168 \<and> runs s' (directory_memory (image s) p name n m))"
proof (rule construct_ok [OF r al room src], goal_cases)
  case (1 s1 s2)
  define e where "e = heap_current s"
  note k = 1(5) [folded e_def] and A = fields_aligned [OF al [folded e_def]] and S = file_fields_span [of e]
  have sub: "span a 4 \<subseteq> reg s1" if "span a 4 \<subseteq> span e 168" for a using that 1(4) by (auto simp: e_def)
  have ty: "FS_DIRECTORY \<noteq> FS_FILE" by (simp add: FS_DIRECTORY_def FS_FILE_def)
  have body: "ok (fs_node_contents e FS_DIRECTORY s2) (\<lambda>s'. heap_only s s' \<and> unat (heap_current s') = unat e + 168 \<and>
      runs s' (directory_memory (image s) e name n m))"
    unfolding fs_node_contents_def if_not_P [OF ty] if_P [OF refl]
  proof (rule ok_store [OF k A(9) sub [OF S(9)]], goal_cases)
    case (1 s3)
    show ?case
    proof (rule ok_store [OF 1 A(10) sub [OF S(10)]], goal_cases)
      case (1 s4)
      show ?case
      proof (rule ok_store_last [OF 1 A(11) sub [OF S(11)]], goal_cases)
        case (1 s5)
        then show ?case
          using heap_only_trans [OF \<open>heap_only s s1\<close>] \<open>unat (heap_current s1) = unat (heap_current s) + 168\<close>
          by (simp add: kept_def directory_memory_def e_def)
      qed
    qed
  qed
  show ?case by (rule ok_bind [OF body [unfolded e_def]]) simp
qed

end

section \<open>Directories as lists\<close>

text \<open>An entry of a directory: the addresses of the list element, of the node and of its buffer.\<close>

type_synonym entry = "u32 \<times> u32 \<times> u32"

fun dirents :: "(u32 \<Rightarrow> u8) \<Rightarrow> u32 \<Rightarrow> entry list \<Rightarrow> bool" where
  "dirents m a [] \<longleftrightarrow> a = 0"
| "dirents m a ((e, p, b) # es) \<longleftrightarrow> a = e \<and> e \<noteq> 0 \<and> word_aligned e \<and> load32 m (dirent_node e) = p \<and>
     dirents m (load32 m (dirent_next e)) es"

fun entry_memory :: "entry \<Rightarrow> u32 set" where
  "entry_memory (e, p, b) = span e 8 \<union> footprint p b"

definition dir_memory :: "u32 \<Rightarrow> entry list \<Rightarrow> u32 set" where
  "dir_memory d es = span d 168 \<union> \<Union> (entry_memory ` set es)"

definition dir_apart :: "u32 \<Rightarrow> entry list \<Rightarrow> bool" where
  "dir_apart d es \<longleftrightarrow> (\<forall>(e, p, b)\<in>set es. span d 168 \<inter> (span e 8 \<union> footprint p b) = {} \<and> span e 8 \<inter> footprint p b = {}) \<and>
     sorted_wrt (\<lambda>x y. entry_memory x \<inter> entry_memory y = {}) es"

text \<open>The node at \<open>d\<close> is the directory \<open>nm\<close> with the files \<open>fs\<close>, whose entries are at \<open>es\<close>.\<close>

definition dir_at :: "fs_image \<Rightarrow> (u32 \<Rightarrow> u8) \<Rightarrow> u32 \<Rightarrow> u8 list \<Rightarrow> entry list \<Rightarrow> ramfile list \<Rightarrow> bool" where
  "dir_at im m d nm es fs \<longleftrightarrow> word_aligned d \<and> name_at m d nm \<and> load32 m (node_type d) = FS_DIRECTORY \<and>
     dirents m (load32 m (directory_head d)) es \<and> load32 m (directory_size d) = word_of_nat (length es) \<and>
     list_all2 (\<lambda>(e, p, b) f. file_at im m p b f) es fs \<and> dir_apart d es"

lemma dirent_span: "span (dirent_node e) 4 \<subseteq> span e 8" "span (dirent_next e) 4 \<subseteq> span e 8"
  using span_sub [of 0 4 8 e] span_sub [of 4 4 8 e] by (simp_all add: dirent_node_def dirent_next_def)

lemma dirent_aligned: "word_aligned e \<Longrightarrow> word_aligned (dirent_node e)" "word_aligned e \<Longrightarrow> word_aligned (dirent_next e)"
  using word_aligned_plus [of e 4] by (simp_all add: dirent_node_def dirent_next_def word_aligned_def)

lemma store32_apart: "span a 4 \<inter> span b 4 = {} \<Longrightarrow> load32 (store32 a v m) b = load32 m b"
  by (intro load32_span_cong store32_outside) blast

lemma dirents_cong:
  assumes "dirents m a es" "\<And>e p b x. (e, p, b) \<in> set es \<Longrightarrow> x \<in> span e 8 \<Longrightarrow> m' x = m x"
  shows "dirents m' a es"
  using assms
proof (induction es arbitrary: a)
  case (Cons x es)
  obtain e p b where x: "x = (e, p, b)" by (cases x)
  have "load32 m' (dirent_node e) = load32 m (dirent_node e)" "load32 m' (dirent_next e) = load32 m (dirent_next e)"
    using Cons.prems(2) dirent_span [of e] unfolding x by (intro load32_span_cong, fastforce)+
  moreover have "dirents m' (load32 m (dirent_next e)) es"
    by (rule Cons.IH) (use Cons.prems in \<open>auto simp: x\<close>)
  ultimately show ?case using Cons.prems(1) unfolding x by auto
qed simp

text \<open>The address where the next entry will be linked: the head of the directory or the last entry.\<close>

fun link_field :: "u32 \<Rightarrow> entry list \<Rightarrow> u32" where
  "link_field h [] = h"
| "link_field h ((e, p, b) # es) = link_field (dirent_next e) es"

lemma link_field_snoc: "link_field h (es @ [(e, p, b)]) = dirent_next e"
  by (induction h es rule: link_field.induct) auto

lemma link_field_cases: "link_field h es = h \<or> (\<exists>(e, p, b)\<in>set es. link_field h es = dirent_next e)"
  by (induction h es rule: link_field.induct) auto

lemma dirents_link:
  assumes "dirents m (load32 m h) es" "e \<noteq> 0" "word_aligned e" "load32 m' (dirent_node e) = p" "load32 m' (dirent_next e) = 0"
    and "load32 m' (link_field h es) = e"
    and "\<And>x. x \<in> set (h # map (\<lambda>(e, p, b). dirent_next e) es) \<Longrightarrow> x \<noteq> link_field h es \<Longrightarrow> load32 m' x = load32 m x"
    and "\<And>e p b. (e, p, b) \<in> set es \<Longrightarrow> load32 m' (dirent_node e) = load32 m (dirent_node e)"
    and "distinct (h # map (\<lambda>(e, p, b). dirent_next e) es)"
  shows "dirents m' (load32 m' h) (es @ [(e, p, b)])"
  using assms
proof (induction es arbitrary: h)
  case (Cons x es)
  obtain e1 p1 b1 where x: "x = (e1, p1, b1)" by (cases x)
  have "link_field (dirent_next e1) es \<noteq> h"
    using link_field_cases [of "dirent_next e1" es] Cons.prems(9) unfolding x by force
  then have "load32 m' h = load32 m h" using Cons.prems(7) [of h] unfolding x by auto
  moreover have "dirents m' (load32 m' (dirent_next e1)) (es @ [(e, p, b)])"
    by (rule Cons.IH) (use Cons.prems in \<open>auto simp: x\<close>)
  ultimately show ?case using Cons.prems(1,8) unfolding x by auto
qed simp

lemma last_dirent_ok:
  assumes "dirents m a (es @ [x])" "\<And>e p b. (e, p, b) \<in> set (es @ [x]) \<Longrightarrow> vload32 (dirent_next e) s = Inr (load32 m (dirent_next e))" "length es < k"
  shows "last_dirent k a s = Inr (fst x)"
  using assms
proof (induction es arbitrary: a k)
  case Nil
  obtain j where k: "k = Suc j" using Nil.prems(3) by (cases k) simp_all
  obtain e p b where x: "x = (e, p, b)" by (cases x)
  show ?case using Nil.prems(1,2) by (simp add: k x)
next
  case (Cons y es)
  obtain j where k: "k = Suc j" using Cons.prems(3) by (cases k) simp_all
  obtain e p b where y: "y = (e, p, b)" by (cases y)
  have n: "load32 m (dirent_next e) \<noteq> 0" using Cons.prems(1) by (cases es; cases x) (auto simp: y)
  have "last_dirent j (load32 m (dirent_next e)) s = Inr (fst x)"
    by (rule Cons.IH) (use Cons.prems in \<open>auto simp: y k\<close>)
  then show ?case using Cons.prems(1) Cons.prems(2) [of e p b] n by (simp add: k y)
qed

lemma sorted_wrt_pair:
  "sorted_wrt (\<lambda>x y. X x \<inter> X y = {}) xs \<Longrightarrow> x \<in> set xs \<Longrightarrow> y \<in> set xs \<Longrightarrow> x = y \<or> X x \<inter> X y = {}"
  by (induction xs) auto

lemma apart_entries:
  assumes "dir_apart d es" "(e, p, b) \<in> set es"
  shows "span d 168 \<inter> span e 8 = {}" "span d 168 \<inter> footprint p b = {}"
    and "(e', p', b') \<in> set es \<Longrightarrow> span e 8 \<inter> footprint p' b' = {}"
    and "(e', p', b') \<in> set es \<Longrightarrow> e = e' \<or> span e 8 \<inter> span e' 8 = {}"
proof -
  have d: "span d 168 \<inter> (span e 8 \<union> footprint p b) = {}" "span e 8 \<inter> footprint p b = {}"
    and so: "sorted_wrt (\<lambda>x y. entry_memory x \<inter> entry_memory y = {}) es"
    using assms by (auto simp: dir_apart_def)
  show "span d 168 \<inter> span e 8 = {}" "span d 168 \<inter> footprint p b = {}" using d(1) by blast+
  assume "(e', p', b') \<in> set es"
  then have "(e, p, b) = (e', p', b') \<or> entry_memory (e, p, b) \<inter> entry_memory (e', p', b') = {}"
    by (rule sorted_wrt_pair [OF so assms(2)])
  then show "span e 8 \<inter> footprint p' b' = {}" "e = e' \<or> span e 8 \<inter> span e' 8 = {}" using d(2) by auto
qed

lemma in_span_start: "0 < n \<Longrightarrow> a \<in> span a n"
  by (simp add: span_def)

lemma field_member: "directory_head d \<in> span d 168" "directory_size d \<in> span d 168" "dirent_node e \<in> span e 8" "dirent_next e \<in> span e 8"
  using file_fields_span(9,10) [of d] dirent_span [of e] in_span_start [of 4] by (simp_all add: subset_iff)

lemma apart_links:
  assumes "dir_apart d es"
  shows "distinct (directory_head d # map (\<lambda>(e, p, b). dirent_next e) es)"
proof -
  have "sorted_wrt (\<lambda>x y. entry_memory x \<inter> entry_memory y = {}) es \<Longrightarrow> distinct (map (\<lambda>(e, p, b). dirent_next e) es)"
  proof (induction es)
    case (Cons x es)
    obtain e p b where x: "x = (e, p, b)" by (cases x)
    have "dirent_next e \<noteq> dirent_next e'" if "(e', p', b') \<in> set es" for e' p' b'
    proof -
      have "span e 8 \<inter> span e' 8 = {}" using Cons.prems that unfolding x by fastforce
      then show ?thesis using field_member(4) [of e] field_member(4) [of e'] by (metis IntI empty_iff)
    qed
    then show ?case using Cons unfolding x by auto
  qed simp
  moreover have "directory_head d \<noteq> dirent_next e" if "(e, p, b) \<in> set es" for e p b
    using apart_entries(1) [OF assms that] field_member(1) [of d] field_member(4) [of e] by (metis IntI empty_iff)
  ultimately show ?thesis using assms by (auto simp: dir_apart_def)
qed

text \<open>The memory after an entry has been appended.\<close>

definition appended_entry :: "u32 \<Rightarrow> entry list \<Rightarrow> u32 \<Rightarrow> u32 \<Rightarrow> (u32 \<Rightarrow> u8) \<Rightarrow> (u32 \<Rightarrow> u8)" where
  "appended_entry d es e p m = store32 (directory_size d) (word_of_nat (Suc (length es))) (store32 (dirent_next e) 0 (store32 (dirent_node e) p
     (store32 (link_field (directory_head d) es) e (fill e 8 0 m))))"

lemma link_field_span:
  assumes "dir_apart d es" "dirents m a es" "word_aligned d"
  shows "word_aligned (link_field (directory_head d) es)" "link_field (directory_head d) es \<noteq> directory_size d"
    and "span (link_field (directory_head d) es) 4 \<subseteq> dir_memory d es"
    and "(e, p, b) \<in> set es \<Longrightarrow> dirent_node e \<noteq> link_field (directory_head d) es"
    and "(e, p, b) \<in> set es \<Longrightarrow> span (link_field (directory_head d) es) 4 \<inter> footprint p b = {}"
    and "span (link_field (directory_head d) es) 4 \<inter> span d 152 = {}"
proof -
  let ?L = "link_field (directory_head d) es"
  have al: "word_aligned e" if "(e, p, b) \<in> set es" for e p b
    using assms(2) that by (induction es arbitrary: a) auto
  have hd: "span (directory_head d) 4 \<inter> span d 152 = {}" using span_apart [of 152 152 4 d] by (simp add: directory_head_def)
  consider (head) "?L = directory_head d" | (entry) e p b where "(e, p, b) \<in> set es" "?L = dirent_next e"
    using link_field_cases [of "directory_head d" es] by blast
  note L = this
  show "word_aligned ?L" using L
    by cases (simp_all add: assms(3) fields_aligned(9) al dirent_aligned)
  show "?L \<noteq> directory_size d" using L
  proof cases
    case (entry e p b)
    then show ?thesis using apart_entries(1) [OF assms(1) entry(1)] field_member(2) [of d] field_member(4) [of e] by (metis IntI empty_iff)
  qed (simp add: directory_head_def directory_size_def)
  show "span ?L 4 \<subseteq> dir_memory d es" using L
  proof cases
    case head
    then show ?thesis using file_fields_span(9) [of d] by (auto simp: dir_memory_def)
  next
    case (entry e p b)
    then have "span ?L 4 \<subseteq> entry_memory (e, p, b)" using dirent_span(2) [of e] by auto
    then show ?thesis using entry(1) unfolding dir_memory_def by blast
  qed
  show "span ?L 4 \<inter> span d 152 = {}" using L
  proof cases
    case (entry e p b)
    have "span ?L 4 \<subseteq> span e 8" "span d 152 \<subseteq> span d 168" using dirent_span(2) [of e] span_mono [of 152 168 d] entry(2) by simp_all
    then show ?thesis using apart_entries(1) [OF assms(1) entry(1)] by blast
  qed (simp add: hd)
  show "dirent_node e \<noteq> ?L" if ep: "(e, p, b) \<in> set es" using L
  proof cases
    case head
    then show ?thesis using apart_entries(1) [OF assms(1) ep] field_member(1) [of d] field_member(3) [of e] by (metis IntI empty_iff)
  next
    case (entry e1 p1 b1)
    show ?thesis
    proof (cases "e = e1")
      case False
      then have "span e 8 \<inter> span e1 8 = {}" using apart_entries(4) [OF assms(1) ep entry(1)] by blast
      then show ?thesis using field_member(3) [of e] field_member(4) [of e1] entry(2) by (metis IntI empty_iff)
    qed (simp add: entry(2) dirent_node_def dirent_next_def)
  qed
  show "span ?L 4 \<inter> footprint p b = {}" if ep: "(e, p, b) \<in> set es" using L
  proof cases
    case head
    then show ?thesis using apart_entries(2) [OF assms(1) ep] file_fields_span(9) [of d] by auto
  next
    case (entry e1 p1 b1)
    then show ?thesis using apart_entries(3) [OF assms(1) entry(1) ep] dirent_span(2) [of e1] by auto
  qed
qed

lemma entry_in_memory:
  assumes "(e, p, b) \<in> set es"
  shows "span e 8 \<subseteq> dir_memory d es" "footprint p b \<subseteq> dir_memory d es"
proof -
  have "entry_memory (e, p, b) \<subseteq> dir_memory d es" unfolding dir_memory_def using assms by blast
  then show "span e 8 \<subseteq> dir_memory d es" "footprint p b \<subseteq> dir_memory d es" by simp_all
qed

lemma dir_apart_snoc:
  assumes "dir_apart d es" "entry_memory (e, p, b) \<inter> dir_memory d es = {}" "span e 8 \<inter> footprint p b = {}"
  shows "dir_apart d (es @ [(e, p, b)])"
proof -
  have "\<forall>x\<in>set es. entry_memory x \<inter> entry_memory (e, p, b) = {}" "span d 168 \<inter> (span e 8 \<union> footprint p b) = {}"
    using assms(2) unfolding dir_memory_def entry_memory.simps by blast+
  then show ?thesis using assms(1,3) by (simp add: dir_apart_def sorted_wrt_append)
qed

lemma list_all2_mono_in: "list_all2 P xs ys \<Longrightarrow> (\<And>x y. x \<in> set xs \<Longrightarrow> P x y \<Longrightarrow> Q x y) \<Longrightarrow> list_all2 Q xs ys"
  by (induction rule: list_all2_induct) auto

lemma dirents_aligned: "dirents m a es \<Longrightarrow> (e, p, b) \<in> set es \<Longrightarrow> word_aligned e"
  by (induction es arbitrary: a) auto

lemma appended_entry_outside:
  assumes "dir_apart d es" "dirents m a es" "word_aligned d" "x \<notin> span e 8" "x \<notin> dir_memory d es"
  shows "appended_entry d es e p m x = m x"
proof -
  have "x \<notin> span (link_field (directory_head d) es) 4" "x \<notin> span (directory_size d) 4"
    using link_field_span(3) [OF assms(1-3)] assms(5) file_fields_span(10) [of d] by (auto simp: dir_memory_def)
  then show ?thesis
    using assms(4) dirent_span [of e] by (auto simp: appended_entry_def intro!: trans [OF store32_outside] fill_outside)
qed

lemma dir_at_append:
  assumes at: "dir_at im m d nm es fs" and D: "dir_memory d es \<subseteq> D" "span e 8 \<inter> D = {}"
    and f: "file_at im m p b f" "footprint p b \<subseteq> D" "footprint p b \<inter> dir_memory d es = {}"
    and e: "e \<noteq> 0" "word_aligned e"
  shows "dir_at im (appended_entry d es e p m) d nm (es @ [(e, p, b)]) (fs @ [f])"
proof -
  let ?L = "link_field (directory_head d) es" and ?m = "appended_entry d es e p m"
  have at': "word_aligned d" "name_at m d nm" "load32 m (node_type d) = FS_DIRECTORY" "dirents m (load32 m (directory_head d)) es"
    "list_all2 (\<lambda>(e, p, b) f. file_at im m p b f) es fs" "dir_apart d es"
    using at by (simp_all add: dir_at_def)
  note A = fields_aligned [OF at'(1)] and S = file_fields_span [of d] and E = dirent_aligned [OF e(2)] and ap = apart_entries [OF at'(6)]
  note L = link_field_span [OF at'(6,4,1)]
  have inD: "span d 168 \<subseteq> D" using D(1) by (auto simp: dir_memory_def)
  have eD: "span e' 8 \<subseteq> D" "footprint p' b' \<subseteq> D" if "(e', p', b') \<in> set es" for e' p' b'
    using entry_in_memory [OF that, of d] D(1) by blast+
  have "dirent_node e \<notin> D" "dirent_next e \<notin> D" using D(2) field_member(3,4) [of e] by blast+
  moreover have "?L \<in> D" "directory_size d \<in> D" using L(3) D(1) in_span_start [of 4 ?L] field_member(2) [of d] inD by auto
  ultimately have ne: "dirent_node e \<noteq> ?L" "dirent_next e \<noteq> ?L" "dirent_node e \<noteq> directory_size d" "dirent_next e \<noteq> directory_size d"
    "dirent_node e \<noteq> dirent_next e" by (auto simp: dirent_node_def dirent_next_def)
  have ld: "load32 ?m a = load32 m a" if "word_aligned a" "span a 4 \<subseteq> D" "?L \<noteq> a" "directory_size d \<noteq> a" for a
  proof -
    have "span a 4 \<inter> span e 8 = {}" using that(2) D(2) by blast
    moreover have "dirent_node e \<noteq> a" "dirent_next e \<noteq> a" using calculation field_member(3,4) [of e] in_span_start [of 4 a] by auto
    ultimately show ?thesis using that L(1) A E by (simp add: appended_entry_def load_store32_other fill_load)
  qed
  have new: "load32 ?m (dirent_node e) = p" "load32 ?m (dirent_next e) = 0" "load32 ?m ?L = e" "load32 ?m (directory_size d) = word_of_nat (Suc (length es))"
    using ne ne [symmetric] L(1,2) L(2) [symmetric] A E by (simp_all add: appended_entry_def load_store32_other del: of_nat_Suc)
  have out: "?m x = m x" if "x \<in> D" "x \<notin> span ?L 4" "x \<notin> span (directory_size d) 4" for x
    using that D(2) dirent_span [of e] by (auto simp: appended_entry_def intro!: trans [OF store32_outside] fill_outside)
  have name: "name_at ?m d nm"
  proof (rule name_cong [OF at'(2)])
    fix x assume x: "x \<in> span d 128"
    then have "x \<in> span d 152" "x \<in> D" using span_mono [of 128 152 d] span_mono [of 128 168 d] inD by auto
    moreover have "span (directory_size d) 4 \<inter> span d 128 = {}" using span_apart [of 128 156 4 d] by (simp add: directory_size_def)
    ultimately show "?m x = m x" using L(6) x by (intro out) auto
  qed
  have "node_type d \<in> span d 152" "node_type d \<noteq> directory_size d"
    using span_sub [of 128 4 152 d] in_span_start [of 4 "node_type d"] by (auto simp: node_type_def directory_size_def)
  then have "?L \<noteq> node_type d" using L(6) in_span_start [of 4 ?L] by auto
  then have ty: "load32 ?m (node_type d) = FS_DIRECTORY"
    using ld [of "node_type d"] A(1) S(1) inD at'(3) by (simp add: node_type_def directory_size_def)
  have sz: "directory_size d \<noteq> dirent_node e'" "directory_size d \<noteq> dirent_next e'" if "(e', p', b') \<in> set es" for e' p' b'
    using ap(1) [OF that] field_member(2) [of d] field_member(3,4) [of e'] by (metis IntI empty_iff)+
  have link: "dirents ?m (load32 ?m (directory_head d)) (es @ [(e, p, b)])"
  proof (rule dirents_link [OF at'(4) e new(1,2,3) _ _ apart_links [OF at'(6)]])
    show "load32 ?m x = load32 m x" if x: "x \<in> set (directory_head d # map (\<lambda>(e, p, b). dirent_next e) es)" "x \<noteq> ?L" for x
    proof (cases "x = directory_head d")
      case True
      then show ?thesis using x A S(9) inD by (intro ld) (auto simp: directory_head_def directory_size_def)
    next
      case False
      then obtain e' p' b' where e': "(e', p', b') \<in> set es" "x = dirent_next e'" using x(1) by auto
      have "span x 4 \<subseteq> D" using dirent_span(2) [of e'] eD(1) [OF e'(1)] e'(2) by auto
      then show ?thesis
        using x(2) e' sz(2) [OF e'(1)] dirent_aligned(2) [OF dirents_aligned [OF at'(4) e'(1)]] by (intro ld) auto
    qed
    show "load32 ?m (dirent_node e') = load32 m (dirent_node e')" if e': "(e', p', b') \<in> set es" for e' p' b'
    proof (rule ld)
      show "span (dirent_node e') 4 \<subseteq> D" using dirent_span(1) [of e'] eD(1) [OF e'] by auto
    qed (use L(4) [OF e'] sz(1) [OF e'] dirent_aligned(1) [OF dirents_aligned [OF at'(4) e']] in auto)
  qed
  have keep: "file_at im ?m p' b' f'" if "file_at im m p' b' f'" "footprint p' b' \<subseteq> D" "footprint p' b' \<inter> (span ?L 4 \<union> span d 168) = {}" for p' b' f'
    using that(2,3) S(10) by (intro file_at_cong [OF that(1)] out) auto
  have old: "file_at im ?m p' b' f'" if "(e', p', b') \<in> set es" "file_at im m p' b' f'" for e' p' b' f'
    using keep [OF that(2) eD(2) [OF that(1)]] L(5) [OF that(1)] ap(2) [OF that(1)] by blast
  have "list_all2 (\<lambda>(e, p, b) f. file_at im ?m p b f) es fs"
    using at'(5)
  proof (rule list_all2_mono_in)
    fix x f' assume x: "x \<in> set es" "(\<lambda>(e, p, b) f. file_at im m p b f) x f'"
    obtain e' p' b' where "x = (e', p', b')" by (cases x)
    then show "(\<lambda>(e, p, b) f. file_at im ?m p b f) x f'" using old [of e' p' b' f'] x by simp
  qed
  moreover have "file_at im ?m p b f"
  proof (rule keep [OF f(1,2)])
    show "footprint p b \<inter> (span ?L 4 \<union> span d 168) = {}" using f(3) L(3) by (auto simp: dir_memory_def)
  qed
  moreover have "dir_apart d (es @ [(e, p, b)])"
  proof -
    have "entry_memory (e, p, b) \<inter> dir_memory d es = {}" "span e 8 \<inter> footprint p b = {}" using D f(2,3) by auto
    then show ?thesis by (rule dir_apart_snoc [OF at'(6)])
  qed
  moreover have "list_all2 (\<lambda>(e, p, b) f. file_at im ?m p b f) (es @ [(e, p, b)]) (fs @ [f])"
    using calculation(1,2) by (intro list_all2_appendI) simp_all
  ultimately show ?thesis using at'(1) name ty link new(4) by (simp add: dir_at_def)
qed

text \<open>A list in memory has fewer entries than there are addresses, so the walk to its end returns.\<close>

lemma dirents_length:
  assumes "dir_apart d es"
  shows "length es < 2 ^ 32"
proof -
  have "distinct (directory_head d # map (\<lambda>(e, p, b). dirent_next e) es)" by (rule apart_links [OF assms])
  then have "card (set (directory_head d # map (\<lambda>(e, p, b). dirent_next e) es)) = Suc (length es)"
    by (simp only: distinct_card list.size length_map)
  moreover have "card (set (directory_head d # map (\<lambda>(e, p, b). dirent_next e) es)) \<le> card (UNIV :: u32 set)"
    by (intro card_mono) simp_all
  ultimately show ?thesis by (simp add: card_word)
qed

context filesystem
begin

lemma add_dirent_ok:
  assumes r: "runs s m" and d: "dir_at (image s) m d nm es fs" "dir_memory d es \<subseteq> reg s"
    and f: "file_at (image s) m p b f" "footprint p b \<subseteq> reg s" "footprint p b \<inter> dir_memory d es = {}"
    and e: "heap_current s \<noteq> 0" "word_aligned (heap_current s)" "unat (heap_current s) + 8 \<le> limit"
  shows "ok (fs_add_dirent d p s) (\<lambda>s'. heap_only s s' \<and> unat (heap_current s') = unat (heap_current s) + 8 \<and>
    runs s' (appended_entry d es (heap_current s) p m))"
proof -
  define h where "h = heap_current s"
  let ?L = "link_field (directory_head d) es"
  let ?s = "mlog ''Adding file %s to directory %s\<newline>'' [Str (fname f), Str nm] s"
  have d': "word_aligned d" "name_at m d nm" "load32 m (node_type d) = FS_DIRECTORY" "dirents m (load32 m (directory_head d)) es"
    "load32 m (directory_size d) = word_of_nat (length es)" "dir_apart d es"
    using d(1) by (simp_all add: dir_at_def)
  have ds: "span d 168 \<subseteq> reg s" using d(2) by (auto simp: dir_memory_def)
  have ps: "span p 168 \<subseteq> reg s" using f(2) by (auto simp: footprint_def)
  note A = fields_aligned [OF d'(1)] and S = file_fields_span [of d] and E = dirent_aligned [OF e(2) [folded h_def]]
  note L = link_field_span [OF d'(6,4,1)]
  have n: "c_string p s = Inr (fname f)" "c_string d s = Inr nm"
    using runs_name [OF r _ order_trans [OF span_mono ps]] runs_name [OF r d'(2) order_trans [OF span_mono ds]] f(1)
    by (simp_all add: file_at_def)
  have k0: "kept s ?s m" by (rule kept_mlog [OF kept_refl [OF r]])
  have ld: "vload32 (node_type d) ?s = Inr FS_DIRECTORY" "vload32 (node_type p) ?s = Inr FS_FILE"
    "vload32 (directory_head d) ?s = Inr (load32 m (directory_head d))"
    using kept_load [OF k0] S(1,9) file_fields_span(1) [of p] ds ps d'(3) file_at_fields(1) [OF f(1)] by auto
  let ?Q = "\<lambda>s'. heap_only s s' \<and> unat (heap_current s') = unat (heap_current s) + 8 \<and> runs s' (appended_entry d es h p m)"
  \<comment> \<open>what both branches do once they know the field that links the new entry\<close>
  have link: "ok (and_then (heap_allocate sizeof_fs_dirent ?s) (\<lambda>(q, s).
      and_then (vstore32 ?L q s) (\<lambda>s. and_then (vload32 ?L s) (\<lambda>current. fill_dirent current p s))))
      (\<lambda>s'. heap_only s s' \<and> unat (heap_current s') = unat h + 8 \<and> reg s \<subseteq> reg s' \<and> span h 8 \<inter> reg s = {} \<and>
        runs s' (store32 (dirent_next h) 0 (store32 (dirent_node h) p (store32 ?L h (fill h 8 0 m)))))"
  proof (rule ok_alloc [of _ m], goal_cases)
    case 1
    show ?case using k0 by (simp add: kept_def)
  next
    case 2
    show ?case using e(3) by (simp add: sizeof_fs_dirent_def mlog_def)
  next
    case (3 s1)
    have hs: "heap_current ?s = h" "reg ?s = reg s" using kept_reg [OF k0] by (simp_all add: mlog_def h_def)
    note s1 = 3 [unfolded hs sizeof_fs_dirent_def, simplified]
    have h1: "heap_only s s1" using heap_only_trans [of s ?s s1] k0 s1(1) by (simp add: kept_def)
    have Ls: "span ?L 4 \<subseteq> reg s1" using L(3) d(2) s1(3) by blast
    have hd: "span (dirent_node h) 4 \<subseteq> reg s1" "span (dirent_next h) 4 \<subseteq> reg s1" using dirent_span [of h] s1(4) by blast+
    show ?case
      unfolding prod.case hs
    proof (rule ok_store [OF kept_refl [OF s1(6)] L(1) Ls], goal_cases)
      case (1 s2)
      show ?case
      proof (rule ok_load [OF 1 Ls], unfold load_store32 fill_dirent_def, rule ok_store [OF 1 E(1) hd(1)], goal_cases)
        case (1 s3)
        show ?case
        proof (rule ok_store_last [OF 1 E(2) hd(2)], goal_cases)
          case (1 s4)
          then show ?case using heap_only_trans [OF h1] s1(2,3,5) kept_reg [OF 1] by (simp add: kept_def)
        qed
      qed
    qed
  qed
  let ?m = "store32 (dirent_next h) 0 (store32 (dirent_node h) p (store32 ?L h (fill h 8 0 m)))"
  have sized: "ok (and_then (vload32 (directory_size d) s1) (\<lambda>n. vstore32 (directory_size d) (n + 1) s1)) ?Q"
    if s1: "heap_only s s1 \<and> unat (heap_current s1) = unat h + 8 \<and> reg s \<subseteq> reg s1 \<and> span h 8 \<inter> reg s = {} \<and> runs s1 ?m" for s1
  proof -
    have sub: "span (directory_size d) 4 \<subseteq> reg s1" using S(10) ds s1 by blast
    have "span (directory_size d) 4 \<inter> span h 8 = {}" using S(10) ds s1 by blast
    moreover have "dirent_node h \<noteq> directory_size d" "dirent_next h \<noteq> directory_size d"
      using calculation field_member(3,4) [of h] in_span_start [of 4 "directory_size d"] by auto
    ultimately have "load32 ?m (directory_size d) = word_of_nat (length es)"
      using A(10) E L(1,2) d'(5) by (simp add: load_store32_other fill_load)
    moreover have rm: "runs s1 ?m" using s1 by blast
    ultimately have v: "vload32 (directory_size d) s1 = Inr (word_of_nat (length es))"
      using kept_load [OF kept_refl [OF rm] sub] by (simp only:)
    show ?thesis
      unfolding v and_then_Inr
    proof (rule ok_store_last [OF kept_refl [OF rm] A(10) sub], goal_cases)
      case (1 s2)
      then show ?case using heap_only_trans [of s s1 s2] s1 by (simp add: kept_def appended_entry_def h_def add.commute)
    qed
  qed
  have conds: "(FS_DIRECTORY \<noteq> FS_DIRECTORY) = False" "(FS_FILE \<noteq> FS_FILE) = False" by simp_all
  have branch: "(if load32 m (directory_head d) = 0
      then and_then (heap_allocate sizeof_fs_dirent ?s) (\<lambda>(p', s).
           and_then (vstore32 (directory_head d) p' s) (\<lambda>s.
           and_then (vload32 (directory_head d) s) (\<lambda>current.
           fill_dirent current p s)))
      else and_then (last_dirent (2 ^ 32) (load32 m (directory_head d)) ?s) (\<lambda>current.
           and_then (heap_allocate sizeof_fs_dirent ?s) (\<lambda>(p', s).
           and_then (vstore32 (dirent_next current) p' s) (\<lambda>s.
           and_then (vload32 (dirent_next current) s) (\<lambda>current.
           fill_dirent current p s))))) =
    and_then (heap_allocate sizeof_fs_dirent ?s) (\<lambda>(q, s).
      and_then (vstore32 ?L q s) (\<lambda>s. and_then (vload32 ?L s) (\<lambda>current. fill_dirent current p s)))"
  proof (cases es rule: rev_cases)
    case Nil
    then show ?thesis using d'(4) by simp
  next
    case (snoc es' x)
    obtain e1 p1 b1 where x: "x = (e1, p1, b1)" by (cases x)
    have L1: "?L = dirent_next e1" unfolding snoc x by (rule link_field_snoc)
    have "load32 m (directory_head d) \<noteq> 0" using d'(4) unfolding snoc by (cases es'; cases x) auto
    moreover have "last_dirent (2 ^ 32) (load32 m (directory_head d)) ?s = Inr (fst x)"
    proof (rule last_dirent_ok [OF d'(4) [unfolded snoc]])
      show "length es' < 2 ^ 32" using dirents_length [OF d'(6)] unfolding snoc by simp
      show "vload32 (dirent_next e') ?s = Inr (load32 m (dirent_next e'))" if "(e', p', b') \<in> set (es' @ [x])" for e' p' b'
        using kept_load [OF k0] dirent_span(2) [of e'] entry_in_memory(1) [of e' p' b' es d] that d(2) unfolding snoc by blast
    qed
    ultimately show ?thesis by (simp add: L1 x)
  qed
  show ?thesis
    unfolding fs_add_dirent_def n and_then_Inr Let_def ld conds if_False branch
    by (rule ok_bind [OF link]) (use sized in \<open>simp add: h_def\<close>)
qed

end

end
