(* ===== verification/Ramdisk.thy ===== *)
theory Ramdisk
  imports Directories
begin

text \<open>
  The loading of the initial RAM disk: the layout of the disk in memory, and the proof that \<open>read_ramdisk\<close> turns
  its blocks into the files of a directory.
\<close>

unbundle bit_operations_syntax

section \<open>The disk in memory\<close>

text \<open>
  The blocks of the disk, a name and the contents each, lie one behind the other from \<open>a\<close> to \<open>e\<close>.
\<close>

fun disk_at :: "(u32 \<Rightarrow> u8) \<Rightarrow> u32 \<Rightarrow> (u8 list \<times> u8 list) list \<Rightarrow> u32 \<Rightarrow> bool" where
  "disk_at m a [] e \<longleftrightarrow> a = e"
| "disk_at m a ((nm, bs) # files) e \<longleftrightarrow> unat a + 132 + length bs \<le> unat e \<and> load32 m (block_size a) = word_of_nat (length bs) \<and>
     name_at m (block_name a) nm \<and> bytes m (a + sizeof_block) (length bs) = bs \<and>
     disk_at m (a + (sizeof_block + word_of_nat (length bs))) files e"

definition disk_memory :: "u32 \<Rightarrow> u32 \<Rightarrow> u32 set" where
  "disk_memory a e = {x. unat a \<le> unat x \<and> unat x \<le> unat e}"

definition file_of :: "u8 list \<times> u8 list \<Rightarrow> ramfile" where
  "file_of = (\<lambda>(nm, bs). \<lparr>fname = nm, fpos = length bs, fdata = bs\<rparr>)"

lemma add_below:
  fixes a e :: u32
  assumes "unat a + k \<le> unat e"
  shows "unat (a + word_of_nat k) = unat a + k" "k < 2 ^ 32"
proof -
  have b: "unat a + k < 4294967296" using assms unat_u32_bound [of e] by (rule le_less_trans)
  then show "unat (a + word_of_nat k) = unat a + k" by (simp add: unat_word_ariths unat_of_nat)
  show "k < 2 ^ 32" using b by simp
qed

lemma block_end:
  fixes a e :: u32
  assumes "unat a + 132 + length bs \<le> unat e"
  shows "unat (a + (sizeof_block + word_of_nat (length bs))) = unat a + 132 + length bs"
  using add_below(1) [of a "132 + length bs" e] assms by (simp add: sizeof_block_def add.assoc)

lemma disk_le: "disk_at m a files e \<Longrightarrow> unat a + 132 * length files \<le> unat e"
proof (induction m a files e rule: disk_at.induct)
  case (2 m a nm bs files e)
  then show ?case using block_end [of a bs e] by simp
qed simp

lemma disk_next:
  assumes "disk_at m a ((nm, bs) # files) e"
  shows "unat (a + (sizeof_block + word_of_nat (length bs))) = unat a + 132 + length bs" "a < e"
    and "span a (132 + length bs) \<subseteq> disk_memory a e"
proof -
  have b: "unat a + 132 + length bs \<le> unat e" using assms by simp
  then show "unat (a + (sizeof_block + word_of_nat (length bs))) = unat a + 132 + length bs" by (rule block_end)
  show "a < e" using b by (simp add: word_less_nat_alt)
  show "span a (132 + length bs) \<subseteq> disk_memory a e"
    using b add_below(2) [of 0 "unat a + 132 + length bs" e] span_iff [of a "132 + length bs"] by (auto simp: disk_memory_def)
qed

lemma disk_cong:
  assumes "disk_at m a files e" "\<And>x. x \<in> disk_memory a e \<Longrightarrow> m' x = m x"
  shows "disk_at m' a files e"
  using assms
proof (induction m a files e rule: disk_at.induct)
  case (2 m a nm bs files e)
  note n = disk_next [OF 2(2)]
  have le: "length bs \<le> 2 ^ 32" using 2(2) add_below(2) [of a "length bs" e] by simp
  have at: "x \<in> disk_memory a e" if "x \<in> span (a + word_of_nat k) j" "k + j \<le> 132 + length bs" for x k j
  proof -
    have "unat a + 132 + length bs \<le> unat e" using 2(2) by simp
    then have "132 + length bs \<le> 2 ^ 32" using add_below(2) [of a "132 + length bs" e] by simp
    then show ?thesis using span_sub [of k j "132 + length bs" a] that n(3) by blast
  qed
  have "load32 m' (block_size a) = load32 m (block_size a)"
    by (rule load32_span_cong, rule 2(3), rule at [of _ 0 4]) (simp_all add: block_size_def)
  moreover have "name_at m' (block_name a) nm"
  proof (rule name_cong [of m])
    show "name_at m (block_name a) nm" using 2(2) by simp
    show "m' x = m x" if "x \<in> span (block_name a) 128" for x
      by (rule 2(3), rule at [of _ 4 128]) (use that in \<open>simp_all add: block_name_def\<close>)
  qed
  moreover have "bytes m' (a + sizeof_block) (length bs) = bytes m (a + sizeof_block) (length bs)"
    by (rule bytes_cong [OF _ le], rule 2(3), rule at [of _ 132 "length bs"]) (simp_all add: sizeof_block_def)
  moreover have "disk_at m' (a + (sizeof_block + word_of_nat (length bs))) files e"
  proof (rule 2(1))
    show "disk_at m (a + (sizeof_block + word_of_nat (length bs))) files e" using 2(2) by simp
    show "m' x = m x" if "x \<in> disk_memory (a + (sizeof_block + word_of_nat (length bs))) e" for x
      using that n(1) by (intro 2(3)) (simp add: disk_memory_def)
  qed
  ultimately show ?case using 2(2) by simp
qed simp

lemma file_of_write: "file_write bs \<lparr>fname = nm, fpos = 0, fdata = []\<rparr> = file_of (nm, bs)"
  by (simp add: file_write_def file_of_def)

lemma heap_only_image:
  fixes s s' :: "'a fs_scheme"
  shows "heap_only s s' \<Longrightarrow> image s' = image s \<and> root s' = root s"
  using heap_only_same(5) [of s s'] by (cases s, cases s') auto

context kernel_heap
begin

text \<open>A string that has a terminator in front of the end of the disk.\<close>

lemma disk_string:
  assumes "runs s m" "disk_memory a e \<subseteq> reg s" "m e = 0" "unat a \<le> unat e"
  shows "\<exists>cs. c_string a s = Inr cs"
proof -
  define n where "n = (LEAST i. m (a + word_of_nat i) = 0)"
  have e: "a + word_of_nat (unat e - unat a) = e" using assms(4) by (simp add: of_nat_diff)
  then have z: "m (a + word_of_nat (unat e - unat a)) = 0" using assms(3) by simp
  have n0: "m (a + word_of_nat n) = 0" unfolding n_def by (rule LeastI, rule z)
  have le: "n \<le> unat e - unat a" unfolding n_def by (rule Least_le, rule z)
  have nz: "m (a + word_of_nat i) \<noteq> 0" if "i < n" for i using that not_less_Least unfolding n_def by blast
  have bnd: "unat e - unat a < 4294967296" using unat_u32_bound [of e] by linarith
  have reg: "a + word_of_nat i \<in> reg s" if "i \<le> n" for i
  proof -
    have "unat a + i \<le> unat e" using that le assms(4) by linarith
    then have "unat (a + word_of_nat i) = unat a + i" by (rule add_below)
    then show ?thesis using assms(2,4) that le by (auto simp: disk_memory_def)
  qed
  have "cstring_loop Diverges (2 ^ 32) a s = Inr (bytes m a n)"
  proof (rule cstring_loop_name)
    show "vload8 (a + word_of_nat i) s = Inr ((bytes m a n @ [0]) ! i)" if "i \<le> length (bytes m a n)" for i
      using that runs_load8 [OF assms(1) reg] n0 by (auto simp: nth_append nth_bytes)
    show "0 \<notin> set (bytes m a n)" using nz by (auto simp: bytes_def)
    show "length (bytes m a n) < 2 ^ 32" using le bnd by simp
  qed
  then show ?thesis by (auto simp: c_string_def)
qed

end

lemma dir_at_cong:
  assumes d: "dir_at im m d nm es fs" and eq: "\<And>x. x \<in> dir_memory d es \<Longrightarrow> m' x = m x"
  shows "dir_at im m' d nm es fs"
proof -
  have sd: "m' x = m x" if "x \<in> span d 168" for x using that eq by (simp add: dir_memory_def)
  have ld: "load32 m' a = load32 m a" if "span a 4 \<subseteq> span d 168" for a
    using that sd by (intro load32_span_cong) blast
  have "name_at m' d nm"
  proof (rule name_cong [of m])
    show "name_at m d nm" using d by (simp add: dir_at_def)
    show "m' x = m x" if "x \<in> span d 128" for x using that span_mono [of 128 168 d] by (intro sd) auto
  qed
  moreover have "dirents m' (load32 m (directory_head d)) es"
  proof (rule dirents_cong)
    show "dirents m (load32 m (directory_head d)) es" using d by (simp add: dir_at_def)
    show "m' x = m x" if "(e, p, b) \<in> set es" "x \<in> span e 8" for e p b x
      using entry_in_memory(1) [OF that(1), of d] that(2) by (intro eq) blast
  qed
  moreover have "list_all2 (\<lambda>(e, p, b) f. file_at im m' p b f) es fs"
  proof (rule list_all2_mono_in)
    show "list_all2 (\<lambda>(e, p, b) f. file_at im m p b f) es fs" using d by (simp add: dir_at_def)
    fix x f assume x: "x \<in> set es" "(\<lambda>(e, p, b) f. file_at im m p b f) x f"
    obtain e p b where e: "x = (e, p, b)" by (cases x)
    have "file_at im m' p b f"
    proof (rule file_at_cong)
      show "file_at im m p b f" using x(2) by (simp add: e)
      show "m' y = m y" if "y \<in> footprint p b" for y
        using entry_in_memory(2) [of e p b es d] x(1) that by (intro eq) (auto simp: e)
    qed
    then show "(\<lambda>(e, p, b) f. file_at im m' p b f) x f" by (simp add: e)
  qed
  ultimately show ?thesis using d ld file_fields_span [of d] by (simp add: dir_at_def)
qed

lemma name_cstring: "name_at m p nm \<Longrightarrow> span p 128 \<subseteq> D \<Longrightarrow> cstring_in D m p (length nm) \<and> bytes m p (length nm) = nm"
proof -
  assume n: "name_at m p nm" and D: "span p 128 \<subseteq> D"
  have l: "length nm < 128" "bytes m p (length nm) = nm" "0 \<notin> set nm" "m (p + word_of_nat (length nm)) = 0"
    using n by (simp_all add: name_at_def)
  have "m (p + word_of_nat i) \<noteq> 0" if "i < length nm" for i
  proof -
    have "nm ! i \<noteq> 0" using nth_mem [OF that] l(3) by metis
    then show ?thesis using arg_cong [OF l(2), of "\<lambda>l. l ! i"] that by (simp add: nth_bytes)
  qed
  moreover have "span p (Suc (length nm)) \<subseteq> D" using D span_mono [of "Suc (length nm)" 128 p] l(1) by auto
  ultimately show "cstring_in D m p (length nm) \<and> bytes m p (length nm) = nm" using l by (simp add: cstring_in_def)
qed

section \<open>Loading a block\<close>

context filesystem
begin

text \<open>The directory \<open>nm\<close> with the files \<open>fs\<close> is the root directory, and more files may be allocated.\<close>

definition in_dir :: "'a fs_scheme \<Rightarrow> (u32 \<Rightarrow> u8) \<Rightarrow> u32 \<Rightarrow> u8 list \<Rightarrow> entry list \<Rightarrow> ramfile list \<Rightarrow> bool" where
  "in_dir s m d nm es fs \<longleftrightarrow> runs s m \<and> root s = d \<and> image_ok (image s) \<and> word_aligned (heap_current s) \<and>
     dir_at (image s) m d nm es fs \<and> dir_memory d es \<subseteq> reg s"

text \<open>The blocks \<open>files\<close> of the disk, each small enough for a file, are in memory, and a terminator is behind them.\<close>

definition disk_in :: "'a fs_scheme \<Rightarrow> (u32 \<Rightarrow> u8) \<Rightarrow> u32 \<Rightarrow> entry list \<Rightarrow> u32 \<Rightarrow> (u8 list \<times> u8 list) list \<Rightarrow> u32 \<Rightarrow> bool" where
  "disk_in s m d es a files e \<longleftrightarrow> disk_at m a files e \<and> disk_memory a e \<subseteq> reg s \<and> disk_memory a e \<inter> dir_memory d es = {} \<and>
     m e = 0 \<and> (\<forall>(nm, bs)\<in>set files. length bs \<le> 256)"

lemma kept_runs: "kept s0 s m \<Longrightarrow> runs s m"
  by (simp add: kept_def)

lemma ok_string:
  assumes k: "kept s0 s m" and D: "disk_memory a e \<subseteq> reg s0" "m e = 0" "unat a \<le> unat e" and f: "\<And>cs. ok (f cs) Q"
  shows "ok (and_then (c_string a s) f) Q"
  using disk_string [OF kept_runs [OF k], of a e] D kept_reg [OF k] f by auto

lemma ok_construct:
  assumes k: "kept s0 s m" and al: "word_aligned (heap_current s0)" and room: "unat (heap_current s0) + 424 \<le> limit"
    and src: "cstring_in (reg s0) m name n" "n < 128"
    and f: "\<And>s'. heap_only s0 s' \<Longrightarrow> unat (heap_current s') = unat (heap_current s0) + 424 \<Longrightarrow>
      runs s' (file_memory (image s0) (heap_current s0) name n m) \<Longrightarrow> ok (f (heap_current s0, s')) Q"
  shows "ok (and_then (fs_construct_node name FS_FILE s) f) Q"
proof (rule ok_bind [OF construct_file_ok [OF kept_runs [OF k], of name n]])
  have h: "heap_only s0 s" "heap_current s = heap_current s0" "reg s = reg s0" "image s = image s0"
    using k kept_reg [OF k] kept_image [OF k] by (simp_all add: kept_def)
  show "word_aligned (heap_current s)" "unat (heap_current s) + 424 \<le> limit" "cstring_in (reg s) m name n" "n < 128"
    using al room src h by simp_all
  fix r assume "(\<lambda>(p, s'). p = heap_current s \<and> heap_only s s' \<and>
      unat (heap_current s') = unat (heap_current s) + 424 \<and> runs s' (file_memory (image s) p name n m)) r"
  then show "ok (f r) Q" using f [of "snd r"] heap_only_trans [OF h(1)] h by (cases r) simp
qed

lemma ok_write:
  assumes at: "at_file s0 s m p b f" and bs: "bytes m buf (length bs) = bs" "fpos f \<le> length (fdata f)" "fpos f + length bs \<le> 256"
    and buf: "span buf (length bs) \<subseteq> reg s0" "span buf (length bs) \<inter> footprint p b = {}"
    and g: "\<And>r s' m'. at_file s0 s' m' p b (file_write bs f) \<Longrightarrow> (\<And>x. x \<notin> footprint p b \<Longrightarrow> m' x = m x) \<Longrightarrow> ok (g (r, s')) Q"
  shows "ok (and_then (fs_write p (word_of_nat (length bs)) buf s) g) Q"
proof -
  have "ok (fs_write p (word_of_nat (length bs)) buf s) (\<lambda>(r, s'). \<exists>m'. leaves s0 p b {} (file_write bs f) m s' m')"
    using write_ok [OF at bs(1) _ buf] bs(2,3) by (simp add: file_call_def)
  then show ?thesis by (rule ok_bind) (auto simp: leaves_def intro!: g)
qed

lemma ok_add_dirent:
  assumes k: "kept s0 s m" and d: "dir_at (image s0) m d nm es fs" "dir_memory d es \<subseteq> reg s0"
    and f: "file_at (image s0) m p b f" "footprint p b \<subseteq> reg s0" "footprint p b \<inter> dir_memory d es = {}"
    and e: "heap_current s0 \<noteq> 0" "word_aligned (heap_current s0)" "unat (heap_current s0) + 8 \<le> limit"
    and g: "\<And>s'. heap_only s0 s' \<Longrightarrow> unat (heap_current s') = unat (heap_current s0) + 8 \<Longrightarrow>
      runs s' (appended_entry d es (heap_current s0) p m) \<Longrightarrow> ok (g s') Q"
  shows "ok (and_then (fs_add_dirent d p s) g) Q"
proof -
  have h: "heap_only s0 s" "heap_current s = heap_current s0" "reg s = reg s0" "image s = image s0"
    using k kept_reg [OF k] kept_image [OF k] by (simp_all add: kept_def)
  show ?thesis
    by (rule ok_bind [OF add_dirent_ok [OF kept_runs [OF k], of d nm es fs p b f]])
      (use d f e h g heap_only_trans [OF h(1)] in auto)
qed

text \<open>What a file is right after its construction.\<close>

lemma new_file:
  assumes r: "runs s m" and al: "word_aligned (heap_current s)" and room: "unat (heap_current s) + 424 \<le> limit"
    and src: "cstring_in (reg s) m name n" "n < 128" and im: "image_ok (image s)"
    and s': "heap_only s s'" "unat (heap_current s') = unat (heap_current s) + 424" "runs s' (file_memory (image s) (heap_current s) name n m)"
  shows "at_file s' s' (file_memory (image s) (heap_current s) name n m) (heap_current s) (heap_current s + 168)
      \<lparr>fname = bytes m name n, fpos = 0, fdata = []\<rparr>"
    and "footprint (heap_current s) (heap_current s + 168) \<subseteq> span (heap_current s) 424"
    and "span (heap_current s) 424 \<subseteq> reg s'" "span (heap_current s) 424 \<inter> reg s = {}" "reg s \<subseteq> reg s'"
    and "\<And>x. x \<in> reg s \<Longrightarrow> file_memory (image s) (heap_current s) name n m x = m x"
proof -
  let ?h = "heap_current s"
  have lim: "unat (heap_current s') \<le> limit" using s'(2) room by simp
  note blk = fresh_block [OF r s'(1) lim, of ?h 424]
  show fresh: "span ?h 424 \<subseteq> reg s'" "span ?h 424 \<inter> reg s = {}" using blk s'(2) by simp_all
  show "reg s \<subseteq> reg s'" using region_grows [OF s'(1)] s'(2) by simp
  show "file_memory (image s) ?h name n m x = m x" if "x \<in> reg s" for x
    using fresh(2) that by (intro file_memory_outside [OF src(2)]) blast
  have h168: "span ?h 168 \<subseteq> span ?h 424" by (rule span_mono) simp
  show fp: "footprint ?h (?h + 168) \<subseteq> span ?h 424" using h168 span_sub [of 168 256 424 ?h] by (simp add: footprint_def)
  have bound: "unat ?h + 424 < 2 ^ 32" using s'(2) unat_u32_bound [of "heap_current s'"] by simp
  have "span ?h 168 \<inter> reg s = {}" using h168 fresh(2) by blast
  then have "file_at (image s') (file_memory (image s) ?h name n m) ?h (?h + 168) \<lparr>fname = bytes m name n, fpos = 0, fdata = []\<rparr>"
    using file_memory_at [OF al bound src(2,1), of "image s"] heap_only_image [OF s'(1)] by simp
  then show "at_file s' s' (file_memory (image s) ?h name n m) ?h (?h + 168) \<lparr>fname = bytes m name n, fpos = 0, fdata = []\<rparr>"
    using kept_refl [OF s'(3)] fp fresh(1) im heap_only_image [OF s'(1)] by (simp add: at_file_def)
qed

lemma load_block:
  assumes dir: "in_dir s m d nm es fs" and disk: "disk_in s m d es a ((n, bs) # files) e" and room: "unat (heap_current s) + 432 \<le> limit"
    and rest: "\<And>s' m' es'. heap_only s s' \<Longrightarrow> unat (heap_current s') = unat (heap_current s) + 432 \<Longrightarrow>
      in_dir s' m' d nm es' (fs @ [file_of (n, bs)]) \<Longrightarrow> disk_in s' m' d es' (a + (sizeof_block + word_of_nat (length bs))) files e \<Longrightarrow>
      dir_memory d es' \<inter> reg s \<subseteq> dir_memory d es \<Longrightarrow> (\<And>x. x \<in> reg s \<Longrightarrow> x \<notin> dir_memory d es \<Longrightarrow> m' x = m x) \<Longrightarrow>
      ok (read_ramdisk_loop k (a + (sizeof_block + word_of_nat (length bs))) e s') Q"
  shows "ok (read_ramdisk_loop (Suc k) a e s) Q"
proof -
  define h where "h = heap_current s"
  have r: "runs s m" and dd: "root s = d" "image_ok (image s)" "word_aligned h" "dir_at (image s) m d nm es fs" "dir_memory d es \<subseteq> reg s"
    using dir by (simp_all add: in_dir_def h_def)
  have at: "disk_at m a ((n, bs) # files) e" and dm: "disk_memory a e \<subseteq> reg s" "disk_memory a e \<inter> dir_memory d es = {}" and z: "m e = 0"
    and small: "length bs \<le> 256" "\<forall>(nm, bs)\<in>set files. length bs \<le> 256"
    using disk by (simp_all add: disk_in_def)
  note nx = disk_next [OF at]
  have b: "load32 m (block_size a) = word_of_nat (length bs)" "name_at m (block_name a) n" "bytes m (a + sizeof_block) (length bs) = bs"
    "unat a + 132 + length bs \<le> unat e"
    using at by simp_all
  have sub: "span (a + word_of_nat i) j \<subseteq> disk_memory a e" if "i + j \<le> 132 + length bs" for i j
    using span_sub [OF that, of a] small(1) nx(3) by auto
  have spans: "span (block_size a) 4 \<subseteq> disk_memory a e" "span (block_name a) 128 \<subseteq> disk_memory a e" "span (a + sizeof_block) (length bs) \<subseteq> disk_memory a e"
    using sub [of 0 4] sub [of 4 128] sub [of 132 "length bs"] by (simp_all add: block_size_def block_name_def sizeof_block_def)
  have str: "c_string (block_name a) s = Inr n" using runs_name [OF r b(2)] spans(2) dm(1) by blast
  note k0 = kept_mlog [OF kept_mlog [OF kept_refl [OF r]]]
  have nc: "cstring_in (reg s) m (block_name a) (length n)" "bytes m (block_name a) (length n) = n" "length n < 128"
    using name_cstring [OF b(2)] spans(2) dm(1) b(2) by (auto simp: name_at_def)
  show ?thesis
    unfolding read_ramdisk_loop.simps(2) if_P [OF nx(2)] Let_def str and_then_Inr
  proof (rule ok_load [OF kept_mlog [OF kept_refl [OF r]] order_trans [OF spans(1) dm(1)]], unfold b(1),
      rule ok_string [OF kept_mlog [OF kept_mlog [OF kept_refl [OF r]]], of _ e], goal_cases)
    case 1
    show ?case using dm(1) add_below(1) [of a 132 e] b(4) by (auto simp: disk_memory_def sizeof_block_def)
  next
    case 2
    show ?case by (rule z)
  next
    case 3
    show ?case using add_below [of a 132 e] b(4) by (simp add: sizeof_block_def)
  next
    case (4 cs)
    show ?case
    proof (rule ok_construct [OF kept_mlog [OF k0] dd(3) [unfolded h_def] _ nc(1,3)], goal_cases)
      case 1
      show ?case using room by simp
    next
      case (2 s4)
      note s4 = 2 [folded h_def]
      let ?m4 = "file_memory (image s) h (block_name a) (length n) m"
      let ?new = "\<lparr>fname = n, fpos = 0, fdata = []\<rparr>" and ?f = "file_of (n, bs)" and ?b = "h + 168"
      have room4: "unat (heap_current s) + 424 \<le> limit" using room by simp
      note nf = new_file [OF r dd(3) [unfolded h_def] room4 nc(1,3) dd(2) 2, folded h_def, unfolded nc(2)]
      note at4 = nf(1) and fp = nf(2) and fresh = nf(3,4) and up = nf(5) and m4 = nf(6)
      have file4: "file_at (image s4) ?m4 h ?b ?new" using at4 by (simp add: at_file_def)
      have im: "image s4 = image s" "root s4 = d" using heap_only_image [OF s4(1)] dd(1) by simp_all
      have disk4: "load32 ?m4 (block_size a) = word_of_nat (length bs)"
        using m4 spans(1) dm(1) b(1) by (subst load32_span_cong) auto
      have data4: "bytes ?m4 (a + sizeof_block) (length bs) = bs"
      proof -
        have "bytes ?m4 (a + sizeof_block) (length bs) = bytes m (a + sizeof_block) (length bs)"
          using m4 spans(3) dm(1) small(1) by (intro bytes_cong) auto
        then show ?thesis using b(3) by simp
      qed
      note k4 = kept_refl [OF s4(3)]
      have bs4: "span (block_size a) 4 \<subseteq> reg s4" using spans(1) dm(1) up by blast
      have as4: "span (file_allocated_size h) 4 \<subseteq> reg s4" using file_fields_span(8) [of h] fp fresh(1) by (auto simp: footprint_def)
      have at7: "at_file s4 (mlog f2 l2 (mlog f1 l1 s4)) ?m4 h ?b ?new" for f1 l1 f2 l2
        using at4 kept_mlog [OF kept_mlog [OF k4]] by (simp add: at_file_def)
      show ?case
        unfolding prod.case h_def [symmetric]
      proof (rule ok_load [OF k4 as4], unfold file_at_fields(5) [OF file4], rule ok_load [OF kept_mlog [OF k4] bs4], unfold disk4,
          rule ok_load [OF kept_mlog [OF kept_mlog [OF k4]] bs4], unfold disk4,
          rule ok_write [OF at7 data4], goal_cases)
        case 1
        show ?case by simp
      next
        case 2
        show ?case using small(1) by simp
      next
        case 3
        show ?case using spans(3) dm(1) up by blast
      next
        case 4
        show ?case using spans(3) dm(1) fp fresh(2) by blast
      next
        case (5 r8 s8 m8)
        have k8: "kept s4 s8 m8" and f8: "file_at (image s4) m8 h ?b ?f" using 5(1) by (simp_all add: at_file_def file_of_write)
        have m8: "m8 x = m x" if "x \<in> reg s" for x
        proof -
          have "x \<notin> footprint h ?b" using that fp fresh(2) by blast
          then show ?thesis using 5(2) m4 [OF that] by simp
        qed
        have root8: "root s8 = d" using kept_image [OF k8] im(2) by simp
        define q where "q = heap_current s4"
        have qh: "unat q = unat h + 424" using s4(2) by (simp add: q_def h_def)
        have al: "word_aligned q" using aligned_grow [OF dd(3) qh] by simp
        have nz: "q \<noteq> 0" using qh by auto
        have d8: "dir_at (image s4) m8 d nm es fs" unfolding im(1) by (rule dir_at_cong [OF dd(4)], rule m8, rule subsetD [OF dd(5)])
        have apart: "footprint h ?b \<inter> dir_memory d es = {}" using fp fresh(2) dd(5) by blast
        have room8: "unat q + 8 \<le> limit" using room qh by (simp add: h_def)
        show ?case
          unfolding prod.case root8
        proof (rule ok_add_dirent [OF k8 d8 order_trans [OF dd(5) up] f8 order_trans [OF fp fresh(1)] apart nz [unfolded q_def] al [unfolded q_def] room8 [unfolded q_def]],
            goal_cases)
          case (1 s9)
          note s9 = 1 [folded q_def]
          let ?m9 = "appended_entry d es q h m8" and ?es = "es @ [(q, h, ?b)]"
          have lim9: "unat (heap_current s9) \<le> limit" using s9(2) room8 by simp
          have ho: "heap_only s s9" by (rule heap_only_trans [OF s4(1) s9(1)])
          have new: "span h 432 \<subseteq> reg s9" "span h 432 \<inter> reg s = {}"
            using fresh_block [OF r ho lim9, of h 432] s9(2) qh by (simp_all add: h_def)
          have up9: "reg s4 \<subseteq> reg s9" using region_grows [OF s9(1)] s9(2) by (simp add: q_def)
          have q8: "span q 8 \<subseteq> span h 432" using span_sub [of 424 8 432 h] heap_next [OF qh] by simp
          have qD: "span q 8 \<inter> reg s4 = {}" using fresh_block(2) [OF s4(3) s9(1) lim9, of q 8] s9(2) by (simp add: q_def)
          have mem: "dir_memory d ?es \<subseteq> dir_memory d es \<union> span h 432"
            using q8 fp span_mono [of 424 432 h] by (auto simp: dir_memory_def)
          have da: "dir_apart d es" "dirents m8 (load32 m8 (directory_head d)) es" "word_aligned d" using d8 by (simp_all add: dir_at_def)
          have m9: "?m9 x = m x" if "x \<in> reg s" "x \<notin> dir_memory d es" for x
          proof -
            have "x \<notin> span q 8" using that(1) up qD by blast
            then show ?thesis using appended_entry_outside [OF da, of x q h] that(2) m8 [OF that(1)] by simp
          qed
          have dir9: "dir_at (image s9) ?m9 d nm ?es (fs @ [?f])"
            using dir_at_append [OF d8 order_trans [OF dd(5) up] qD f8 order_trans [OF fp fresh(1)] apart nz al] heap_only_image [OF s9(1)] by simp
          have disk9: "load32 ?m9 (block_size a) = word_of_nat (length bs)"
          proof -
            have "load32 ?m9 (block_size a) = load32 m (block_size a)"
              using m9 spans(1) dm by (intro load32_span_cong) blast
            then show ?thesis using b(1) by simp
          qed
          have bs9: "span (block_size a) 4 \<subseteq> reg s9" using bs4 up9 by blast
          have next_disk: "disk_memory (a + (sizeof_block + word_of_nat (length bs))) e \<subseteq> disk_memory a e"
            using nx(1) by (auto simp: disk_memory_def)
          have e_in: "e \<in> disk_memory a e" using b(4) by (simp add: disk_memory_def)
          show ?case
          proof (rule ok_load [OF kept_refl [OF s9(3)] bs9], unfold disk9, rule rest [OF ho, of ?m9 ?es], goal_cases)
            case 1
            show ?case using s9(2) qh by (simp add: h_def)
          next
            case 2
            have "word_aligned (heap_current s9)" using aligned_grow [OF al s9(2)] by simp
            moreover have "dir_memory d ?es \<subseteq> reg s9" using mem new(1) dd(5) up up9 by blast
            ultimately show ?case
              using s9(3) dir9 heap_only_image [OF ho] dd(1,2) by (simp add: in_dir_def)
          next
            case 3
            have "disk_at ?m9 (a + (sizeof_block + word_of_nat (length bs))) files e"
            proof (rule disk_cong)
              show "disk_at m (a + (sizeof_block + word_of_nat (length bs))) files e" using at by simp
              show "?m9 x = m x" if "x \<in> disk_memory (a + (sizeof_block + word_of_nat (length bs))) e" for x
                by (rule m9) (use that dm next_disk in blast)+
            qed
            moreover have "?m9 e = m e" by (rule m9) (use e_in dm in blast)+
            moreover have "disk_memory (a + (sizeof_block + word_of_nat (length bs))) e \<inter> dir_memory d ?es = {}"
              using next_disk mem dm new(2) by blast
            moreover have "disk_memory (a + (sizeof_block + word_of_nat (length bs))) e \<subseteq> reg s9" using next_disk dm(1) up up9 by blast
            ultimately show ?case using small(2) z by (simp add: disk_in_def)
          next
            case 4
            show ?case using mem new(2) by blast
          next
            case (5 x)
            then show ?case by (rule m9)
          qed
        qed
      qed
    qed
  qed
qed

text \<open>The whole disk: the files are appended to the directory in the order of the blocks.\<close>

definition loaded :: "'a fs_scheme \<Rightarrow> (u32 \<Rightarrow> u8) \<Rightarrow> u32 \<Rightarrow> u8 list \<Rightarrow> entry list \<Rightarrow> ramfile list \<Rightarrow> nat \<Rightarrow> 'a fs_scheme \<Rightarrow> bool" where
  "loaded s m d nm es fs n s' \<longleftrightarrow> heap_only s s' \<and> unat (heap_current s') = unat (heap_current s) + n \<and>
     (\<exists>m' es'. in_dir s' m' d nm es' fs \<and> dir_memory d es' \<inter> reg s \<subseteq> dir_memory d es \<and>
       (\<forall>x\<in>reg s. x \<notin> dir_memory d es \<longrightarrow> m' x = m x))"

lemma read_ramdisk_loop_ok:
  assumes "in_dir s m d nm es fs" "disk_in s m d es a files e" "unat (heap_current s) + 432 * length files \<le> limit" "length files \<le> k"
  shows "ok (read_ramdisk_loop k a e s) (loaded s m d nm es (fs @ map file_of files) (432 * length files))"
  using assms
proof (induction files arbitrary: s m es fs a k)
  case Nil
  have "a = e" using Nil.prems(2) by (simp add: disk_in_def)
  then have "read_ramdisk_loop k a e s = Inr s" by (cases k) simp_all
  moreover have "loaded s m d nm es fs 0 s" using Nil.prems(1) by (auto simp: loaded_def heap_only_def)
  ultimately show ?case by simp
next
  case (Cons x files)
  obtain n bs where x: "x = (n, bs)" by (cases x)
  obtain j where k: "k = Suc j" using Cons.prems(4) by (cases k) simp_all
  have room: "unat (heap_current s) + 432 \<le> limit" using Cons.prems(3) by simp
  show ?case
    unfolding k
  proof (rule load_block [OF Cons.prems(1) Cons.prems(2) [unfolded x] room], goal_cases)
    case (1 s' m' es')
    have up: "reg s \<subseteq> reg s'" using region_grows [OF 1(1)] 1(2) by simp
    have IH: "ok (read_ramdisk_loop j (a + (sizeof_block + word_of_nat (length bs))) e s')
        (loaded s' m' d nm es' ((fs @ [file_of (n, bs)]) @ map file_of files) (432 * length files))"
      by (rule Cons.IH [OF 1(3,4)]) (use Cons.prems(3,4) 1(2) k in simp_all)
    then show ?case
    proof (rule ok_mono)
      fix t assume "loaded s' m' d nm es' ((fs @ [file_of (n, bs)]) @ map file_of files) (432 * length files) t"
      then obtain m2 es2 where t: "heap_only s' t" "unat (heap_current t) = unat (heap_current s') + 432 * length files"
        "in_dir t m2 d nm es2 (fs @ map file_of (x # files))" "dir_memory d es2 \<inter> reg s' \<subseteq> dir_memory d es'"
        "\<forall>x\<in>reg s'. x \<notin> dir_memory d es' \<longrightarrow> m2 x = m' x"
        by (auto simp: loaded_def x)
      have "dir_memory d es2 \<inter> reg s \<subseteq> dir_memory d es" using t(4) up 1(5) by blast
      moreover have "m2 y = m y" if "y \<in> reg s" "y \<notin> dir_memory d es" for y
      proof -
        have "y \<notin> dir_memory d es'" using that 1(5) by blast
        then show ?thesis using t(5) up 1(6) [OF that] that(1) by auto
      qed
      ultimately show "loaded s m d nm es (fs @ map file_of (x # files)) (432 * length (x # files)) t"
        using heap_only_trans [OF 1(1) t(1)] t(2,3) 1(2) unfolding loaded_def by auto
    qed
  qed
qed

lemma read_ramdisk_ok:
  assumes "in_dir s m d nm es fs" "disk_in s m d es a files e" "unat (heap_current s) + 432 * length files \<le> limit"
  shows "ok (read_ramdisk a e s) (loaded s m d nm es (fs @ map file_of files) (432 * length files))"
proof -
  let ?s = "mlog ''===== READING FROM RAMDISK =====\<newline>'' [] s"
  have k: "kept s ?s m" using kept_mlog [OF kept_refl] assms(1) by (simp add: in_dir_def)
  have h: "heap_only s ?s" "heap_current ?s = heap_current s" "reg ?s = reg s" "image ?s = image s" "root ?s = root s"
    using k kept_reg [OF k] kept_image [OF k] by (simp_all add: kept_def)
  have d: "in_dir ?s m d nm es fs" "disk_in ?s m d es a files e"
    using assms(1,2) k h by (simp_all add: in_dir_def disk_in_def kept_def)
  have "length files \<le> unat e" using disk_le [of m a files e] assms(2) by (simp add: disk_in_def)
  then have "length files \<le> 2 ^ 32" using add_below(2) [of 0 "length files" e] by simp
  then have "ok (read_ramdisk_loop (2 ^ 32) a e ?s) (loaded ?s m d nm es (fs @ map file_of files) (432 * length files))"
    using assms(3) h(2) by (intro read_ramdisk_loop_ok [OF d]) simp_all
  then show ?thesis
    unfolding read_ramdisk_def Let_def
    by (rule ok_mono) (use h heap_only_trans [OF h(1)] in \<open>simp add: loaded_def\<close>)
qed

end

end
