(* ===== verification/Init_Filesystem.thy ===== *)
theory Init_Filesystem
  imports Ramdisk
begin

text \<open>
  \<open>init_filesystem\<close> as a whole: the root directory, the files of the disk, the listing of the directory and the
  self-test, on any heap that keeps its contract.
\<close>

unbundle bit_operations_syntax

section \<open>A file of a directory\<close>

lemma dirents_append: "dirents m a (es @ fs) \<Longrightarrow> \<exists>b. dirents m b fs"
  by (induction es arbitrary: a) auto

text \<open>A file that changes within its memory.\<close>

lemma dir_at_replace:
  assumes d: "dir_at im m d nm (es1 @ (e, p, b) # es2) (fs1 @ f # fs2)" and len: "length es1 = length fs1"
    and f: "file_at im m' p b f'"
    and out: "\<And>x. x \<in> dir_memory d (es1 @ (e, p, b) # es2) \<Longrightarrow> x \<notin> footprint p b \<Longrightarrow> m' x = m x"
  shows "dir_at im m' d nm (es1 @ (e, p, b) # es2) (fs1 @ f' # fs2)"
proof -
  let ?es = "es1 @ (e, p, b) # es2"
  have d': "word_aligned d" "name_at m d nm" "load32 m (node_type d) = FS_DIRECTORY" "dirents m (load32 m (directory_head d)) ?es"
    "list_all2 (\<lambda>(e, p, b) f. file_at im m p b f) ?es (fs1 @ f # fs2)" "dir_apart d ?es" "load32 m (directory_size d) = word_of_nat (length ?es)"
    using d by (simp_all add: dir_at_def)
  have e: "(e, p, b) \<in> set ?es" by simp
  note ap = apart_entries [OF d'(6)]
  have sd: "m' x = m x" if x: "x \<in> span d 168" for x
    by (rule out) (use x ap(2) [OF e] in \<open>auto simp: dir_memory_def\<close>)
  have ld: "load32 m' a = load32 m a" if "span a 4 \<subseteq> span d 168" for a using that sd by (intro load32_span_cong) blast
  have "name_at m' d nm"
    by (rule name_cong [OF d'(2)], rule sd) (use span_mono [of 128 168 d] in auto)
  moreover have "dirents m' (load32 m (directory_head d)) ?es"
  proof (rule dirents_cong [OF d'(4)])
    fix e' p' b' x assume x: "(e', p', b') \<in> set ?es" "x \<in> span e' 8"
    have "x \<in> dir_memory d ?es" using entry_in_memory(1) [OF x(1)] x(2) by blast
    then show "m' x = m x" using ap(3) [OF x(1) e] x(2) by (intro out) auto
  qed
  moreover have "list_all2 (\<lambda>(e, p, b) f. file_at im m' p b f) ?es (fs1 @ f' # fs2)"
  proof -
    have keep: "file_at im m' p' b' f''" if "entry_memory (e', p', b') \<inter> entry_memory (e, p, b) = {}" "(e', p', b') \<in> set ?es" "file_at im m p' b' f''" for e' p' b' f''
    proof (rule file_at_cong [OF that(3)])
      fix x assume "x \<in> footprint p' b'"
      then show "m' x = m x" using that(1) entry_in_memory(2) [OF that(2), of d] by (intro out) auto
    qed
    have so: "sorted_wrt (\<lambda>x y. entry_memory x \<inter> entry_memory y = {}) ?es" using d'(6) by (simp add: dir_apart_def)
    have l: "list_all2 (\<lambda>(e, p, b) f. file_at im m p b f) es1 fs1" "list_all2 (\<lambda>(e, p, b) f. file_at im m p b f) es2 fs2"
      using d'(5) len by (simp_all add: list_all2_append)
    have "\<forall>x\<in>set es1. entry_memory x \<inter> entry_memory (e, p, b) = {}" "\<forall>x\<in>set es2. entry_memory (e, p, b) \<inter> entry_memory x = {}"
      using so by (simp_all add: sorted_wrt_append del: entry_memory.simps)
    then have dis: "entry_memory x \<inter> entry_memory (e, p, b) = {}" if "x \<in> set es1 \<union> set es2" for x
      using that by (metis Int_commute Un_iff)
    have part: "list_all2 (\<lambda>(e, p, b) f. file_at im m' p b f) es fs"
      if "list_all2 (\<lambda>(e, p, b) f. file_at im m p b f) es fs" "set es \<subseteq> set es1 \<union> set es2" for es fs
    proof (rule list_all2_mono_in [OF that(1)])
      fix x f assume x: "x \<in> set es" "(\<lambda>(e, p, b) f. file_at im m p b f) x f"
      obtain e' p' b' where e': "x = (e', p', b')" by (cases x)
      have "(e', p', b') \<in> set ?es" "entry_memory (e', p', b') \<inter> entry_memory (e, p, b) = {}"
        using x(1) that(2) dis [of x] unfolding e' by auto
      then have "file_at im m' p' b' f" using keep x(2) unfolding e' by simp
      then show "(\<lambda>(e, p, b) f. file_at im m' p b f) x f" unfolding e' by simp
    qed
    have "list_all2 (\<lambda>(e, p, b) f. file_at im m' p b f) es1 fs1" "list_all2 (\<lambda>(e, p, b) f. file_at im m' p b f) es2 fs2"
      using part l by auto
    then show ?thesis using f by (intro list_all2_appendI) simp_all
  qed
  ultimately show ?thesis using d' ld file_fields_span [of d] by (simp add: dir_at_def)
qed

lemma strncmp_equal:
  "(\<And>i. i < n \<Longrightarrow> \<exists>c. ld (p + word_of_nat i) s = Inr c \<and> ld (q + word_of_nat i) s = Inr c) \<Longrightarrow> strncmp_loop ld n p q s = Inr 0"
proof (induction n arbitrary: p q)
  case (Suc n)
  obtain c where c: "ld p s = Inr c" "ld q s = Inr c" using Suc.prems [of 0] by auto
  have "strncmp_loop ld n (p + 1) (q + 1) s = Inr 0"
  proof (rule Suc.IH)
    show "\<exists>c. ld (p + 1 + word_of_nat i) s = Inr c \<and> ld (q + 1 + word_of_nat i) s = Inr c" if "i < n" for i
      using Suc.prems [of "Suc i"] that by (simp add: add.assoc)
  qed
  then show ?case by (simp add: c)
qed simp

definition at_end :: "ramfile \<Rightarrow> ramfile" where
  "at_end f = f\<lparr>fpos := length (fdata f)\<rparr>"

section \<open>The listing of the root directory\<close>

context filesystem
begin

lemma ok_seek:
  assumes at: "at_file s0 s m p b f" and i: "i \<le> 256"
    and g: "\<And>r s' m'. at_file s0 s' m' p b (f\<lparr>fpos := i\<rparr>) \<Longrightarrow> (\<And>x. x \<notin> footprint p b \<Longrightarrow> m' x = m x) \<Longrightarrow> ok (g (r, s')) Q"
  shows "ok (and_then (fs_seek p (word_of_nat i) s) g) Q"
proof -
  have "ok (fs_seek p (word_of_nat i) s) (\<lambda>(r, s'). \<exists>m'. leaves s0 p b {} (f\<lparr>fpos := i\<rparr>) m s' m')"
    using seek_ok [OF at, of i] i by (simp add: file_call_def file_seek_def)
  then show ?thesis by (rule ok_bind) (auto simp: leaves_def intro!: g)
qed

lemma ok_read:
  assumes at: "at_file s0 s m p b f" and n: "fpos f + n \<le> length (fdata f)"
    and buf: "span buf n \<subseteq> reg s0" "span buf n \<inter> footprint p b = {}"
    and g: "\<And>r s' m'. at_file s0 s' m' p b (f\<lparr>fpos := fpos f + n\<rparr>) \<Longrightarrow> (\<And>x. x \<notin> footprint p b \<union> span buf n \<Longrightarrow> m' x = m x) \<Longrightarrow>
      bytes m' buf n = take n (drop (fpos f) (fdata f)) \<Longrightarrow> ok (g (r, s')) Q"
  shows "ok (and_then (fs_read p (word_of_nat n) buf s) g) Q"
proof -
  have "length (fdata f) \<le> 256" using at by (simp add: at_file_def file_at_def)
  then have "fpos f + n < 2 ^ 32" using n by simp
  then have "ok (fs_read p (word_of_nat n) buf s) (\<lambda>(r, s'). \<exists>m'. leaves s0 p b (span buf n) (f\<lparr>fpos := fpos f + n\<rparr>) m s' m' \<and>
      bytes m' buf n = take n (drop (fpos f) (fdata f)))"
    using read_ok [OF at _ buf] n by (simp add: file_call_def file_read_def)
  then show ?thesis by (rule ok_bind) (auto simp: leaves_def intro!: g)
qed

lemma ok_array_string:
  assumes k: "kept s0 s m" and D: "span p n \<subseteq> reg s0" "i < n" "m (p + word_of_nat i) = 0" "n \<le> 2 ^ 32" and f: "\<And>cs. ok (f cs) Q"
  shows "ok (and_then (array_string n p s) f) Q"
proof -
  define l where "l = (LEAST i. m (p + word_of_nat i) = 0)"
  have z: "m (p + word_of_nat l) = 0" unfolding l_def by (rule LeastI, rule D(3))
  have le: "l < n" using Least_le [of "\<lambda>i. m (p + word_of_nat i) = 0", OF D(3)] D(2) by (simp add: l_def)
  have nz: "m (p + word_of_nat j) \<noteq> 0" if "j < l" for j using that not_less_Least unfolding l_def by blast
  have "cstring_loop Undefined n p s = Inr (bytes m p l)"
  proof (rule cstring_loop_name)
    show "vload8 (p + word_of_nat j) s = Inr ((bytes m p l @ [0]) ! j)" if "j \<le> length (bytes m p l)" for j
    proof -
      have "p + word_of_nat j \<in> reg s" using that le D(1,4) span_memI [of j n p] kept_reg [OF k] by auto
      then show ?thesis using runs_load8 [OF kept_runs [OF k]] that z by (auto simp: nth_append nth_bytes)
    qed
    show "0 \<notin> set (bytes m p l)" using nz by (auto simp: bytes_def)
  qed (use le in simp)
  then show ?thesis using f by (simp add: array_string_def)
qed

text \<open>
  The listing reads every file from its start to its end. The local array holds a terminator behind the
  contents as long as its last byte is zero and no file is longer than 99 bytes.
\<close>

lemma read_root_ok:
  assumes "kept s0 s m" "image_ok (image s0)" "span (local_test (image s0)) 100 \<subseteq> reg s0"
    and "span (local_test (image s0)) 100 \<inter> dir_memory d (es1 @ es2) = {}" "dir_memory d (es1 @ es2) \<subseteq> reg s0"
    and "dir_at (image s0) m d nm (es1 @ es2) (map at_end fs1 @ fs2)" "length es1 = length fs1" "dirents m cur es2" "length es2 < n"
    and "m (local_test (image s0) + 99) = 0" "\<forall>f\<in>set fs2. length (fdata f) \<le> 99"
  shows "ok (read_root n cur s) (\<lambda>s'. \<exists>m'. kept s0 s' m' \<and> dir_at (image s0) m' d nm (es1 @ es2) (map at_end (fs1 @ fs2)) \<and>
    (\<forall>x. x \<notin> dir_memory d (es1 @ es2) \<union> span (local_test (image s0)) 100 \<longrightarrow> m' x = m x))"
  using assms
proof (induction es2 arbitrary: es1 fs1 fs2 s m cur n)
  case Nil
  have "length fs1 + length fs2 = length es1" using list_all2_lengthD Nil.prems(6) by (fastforce simp: dir_at_def)
  then have "fs2 = []" using Nil.prems(7) by simp
  moreover have "read_root n cur s = Inr s" using Nil.prems(8,9) by (cases n) simp_all
  ultimately show ?case using Nil.prems(1,6) by auto
next
  case (Cons y es2)
  obtain e p b where y: "y = (e, p, b)" by (cases y)
  obtain k where n: "n = Suc k" using Cons.prems(9) by (cases n) simp_all
  let ?T = "local_test (image s0)" and ?es = "es1 @ y # es2"
  note k0 = Cons.prems(1) and T = Cons.prems(3,4) and dm = Cons.prems(5) and d = Cons.prems(6)
  have all: "list_all2 (\<lambda>(e, p, b) f. file_at (image s0) m p b f) ?es (map at_end fs1 @ fs2)" using d by (simp add: dir_at_def)
  then obtain f fs where fs2: "fs2 = f # fs" using list_all2_lengthD [OF all] Cons.prems(7) by (cases fs2) simp_all
  have fat: "file_at (image s0) m p b f" using all Cons.prems(7) unfolding fs2 y by (simp add: list_all2_append)
  have cur: "cur = e" "e \<noteq> 0" "load32 m (dirent_node e) = p" "dirents m (load32 m (dirent_next e)) es2"
    using Cons.prems(8) by (simp_all add: y)
  have y_in: "(e, p, b) \<in> set ?es" by (simp add: y)
  note mem = entry_in_memory [OF y_in, of d]
  have ap: "span e 8 \<inter> footprint p b = {}" using apart_entries(3) [OF _ y_in y_in] d by (auto simp: dir_at_def)
  have sub: "span (dirent_node e) 4 \<subseteq> reg s0" "span (dirent_next e) 4 \<subseteq> reg s0" "footprint p b \<subseteq> reg s0"
    using dirent_span [of e] mem dm by blast+
  have at: "at_file s0 s m p b f" using k0 fat sub(3) Cons.prems(2) by (simp add: at_file_def)
  have small: "length (fdata f) \<le> 99" using Cons.prems(11) by (simp add: fs2)
  have Tf: "span ?T (length (fdata f)) \<subseteq> span ?T 100" using small by (intro span_mono) simp
  have ldE: "load32 m' (dirent_node e) = p" "load32 m' (dirent_next e) = load32 m (dirent_next e)" if "\<And>x. x \<in> span e 8 \<Longrightarrow> m' x = m x" for m'
  proof -
    have "load32 m' (dirent_node e) = load32 m (dirent_node e)" using that dirent_span(1) [of e] by (intro load32_span_cong) blast
    then show "load32 m' (dirent_node e) = p" using cur(3) by simp
    show "load32 m' (dirent_next e) = load32 m (dirent_next e)" using that dirent_span(2) [of e] by (intro load32_span_cong) blast
  qed
  have im: "image s' = image s0" if "kept s0 s' m'" for s' m' using kept_image [OF that] by simp
  show ?case
    unfolding n cur(1) read_root.simps(2) if_P [OF cur(2)] Let_def im [OF k0]
  proof (rule ok_load [OF k0 sub(1)], unfold cur(3), rule ok_seek [where i = 0, simplified, OF at], goal_cases)
    case (1 r s1 m1)
    note 2 = 1
    have k1: "kept s0 s1 m1" using 2(1) by (simp add: at_file_def)
    have e1: "m1 x = m x" if "x \<in> span e 8" for x using 2(2) that ap by blast
    have l1: "load32 m1 (dirent_node e) = p" by (rule ldE(1), rule e1, assumption)
    have c1: "vload32 (file_canonical_size p) s1 = Inr (word_of_nat (length (fdata f)))" using at_file_load(4) [OF 2(1)] by simp
    have le: "(word_of_nat (length (fdata f)) :: u32) \<le> 100" using small by (simp add: word_le_nat_alt unat_of_nat)
    show ?case
      unfolding prod.case
    proof (rule ok_load [OF k1 sub(1)], unfold l1 c1 and_then_Inr if_P [OF le], rule ok_read [OF 2(1)], goal_cases)
      case (4 r s2 m2)
      have k2: "kept s0 s2 m2" and f2: "file_at (image s0) m2 p b (at_end f)" using 4(1) by (simp_all add: at_file_def at_end_def)
      have out: "m2 x = m x" if "x \<notin> footprint p b" "x \<notin> span ?T 100" for x
        using 4(2) [of x] 2(2) [of x] that Tf by auto
      have e2: "m2 x = m x" if "x \<in> span e 8" for x using out [of x] that ap mem(1) T(2) by blast
      have l2: "load32 m2 (dirent_node e) = p" "load32 m2 (dirent_next e) = load32 m (dirent_next e)" by (rule ldE, rule e2, assumption)+
      have d2: "dir_at (image s0) m2 d nm ?es (map at_end (fs1 @ [f]) @ fs)"
        using dir_at_replace [OF d [unfolded fs2 y] _ f2, unfolded map_append] Cons.prems(7) out T(2) unfolding y by auto
      have z: "m2 (?T + 99) = 0"
      proof -
        have "?T + 99 \<in> span ?T 100" using span_memI [of 99 100 ?T] by simp
        moreover have "?T + 99 \<notin> span ?T (length (fdata f))" using small by (simp add: span_def)
        moreover have "?T + 99 \<notin> footprint p b" using calculation(1) mem(2) T(2) by blast
        ultimately show ?thesis using 4(2) [of "?T + 99"] 2(2) [of "?T + 99"] Cons.prems(10) by auto
      qed
      have nm: "name_at m2 p (fname f)" using f2 by (simp add: file_at_def at_end_def)
      have ps: "span p 128 \<subseteq> reg s2" using sub(3) span_mono [of 128 168 p] kept_reg [OF k2] by (auto simp: footprint_def)
      have str: "c_string p s2 = Inr (fname f)" by (rule runs_name [OF kept_runs [OF k2] nm ps])
      have sz: "vload32 (file_canonical_size p) (mlog fmt l s2) = Inr (word_of_nat (length (fdata f)))" for fmt l
        using at_file_load(4) [OF 4(1)] by (simp add: at_end_def)
      show ?case
        unfolding prod.case
      proof (rule ok_load [OF k2 sub(1)], unfold l2(1) str and_then_Inr sz,
          rule ok_array_string [OF kept_mlog [OF kept_mlog [OF k2]] T(1), of 99], goal_cases)
        case (4 cs)
        show ?case
        proof (rule ok_load [OF kept_mlog [OF kept_mlog [OF kept_mlog [OF k2]]] sub(2)], unfold l2(2), goal_cases)
          case 1
          have dn: "dirents m2 (load32 m (dirent_next e)) es2"
          proof (rule dirents_cong [OF cur(4)])
            fix e' p' b' x assume x: "(e', p', b') \<in> set es2" "x \<in> span e' 8"
            have i: "(e', p', b') \<in> set ?es" using x(1) by simp
            have "dir_apart d ?es" using d by (simp add: dir_at_def)
            then have "x \<notin> footprint p b" using apart_entries(3) [OF _ i y_in] x(2) by blast
            moreover have "x \<notin> span ?T 100" using entry_in_memory(1) [OF i, of d] x(2) T(2) by blast
            ultimately show "m2 x = m x" by (rule out)
          qed
          note IH = Cons.IH [of _ m2 "es1 @ [y]" "fs1 @ [f]" fs "load32 m (dirent_next e)" k]
          show ?case
          proof (rule ok_mono [OF IH [OF kept_mlog [OF kept_mlog [OF kept_mlog [OF k2]]] Cons.prems(2)]], goal_cases)
            case (10 t)
            then obtain m' where m': "kept s0 t m'" "dir_at (image s0) m' d nm ?es (map at_end (fs1 @ f # fs))"
              "\<forall>x. x \<notin> dir_memory d ?es \<union> span ?T 100 \<longrightarrow> m' x = m2 x" by auto
            have "m' x = m x" if "x \<notin> dir_memory d ?es \<union> span ?T 100" for x
              using m'(3) out [of x] that mem(2) by auto
            then show ?case using m'(1,2) by (auto simp: fs2)
          qed (use T dm d2 dn Cons.prems(7,9,11) z in \<open>simp_all add: n fs2\<close>)
        qed
      qed (use z in simp_all)
    qed (use small T(1) Tf T(2) mem(2) in auto)
  qed
qed

end

section \<open>The whole of \<open>init_filesystem\<close>\<close>

lemma heap_only_sym:
  assumes "heap_only s s'"
  shows "heap_only s' s"
proof -
  obtain d p c h where "s' = s\<lparr>dev := d, phys := p, heap_current := c, heap_mapped := h\<rparr>"
    using assms unfolding heap_only_def by blast
  then show ?thesis unfolding heap_only_def by simp
qed

text \<open>The local arrays.\<close>

definition test_memory :: "fs_image \<Rightarrow> u32 set" where
  "test_memory im = span (local_test im) 100 \<union> span (local_test_data im) 5 \<union> span (local_test_buffer im) 5"

text \<open>
  What \<open>init_filesystem\<close> needs of the memory \<open>m\<close> in the region \<open>D\<close>: the two literals, the local arrays apart from them, and a disk
  between \<open>a\<close> and \<open>e\<close> with a terminator behind it. The last byte of the array \<open>test\<close> is zero, and no file is longer than 99 bytes.
\<close>

definition init_ready :: "fs_image \<Rightarrow> u32 set \<Rightarrow> (u32 \<Rightarrow> u8) \<Rightarrow> u8 list \<Rightarrow> u32 \<Rightarrow> (u8 list \<times> u8 list) list \<Rightarrow> u32 \<Rightarrow> bool" where
  "init_ready im D m nm a files e \<longleftrightarrow> image_ok im \<and>
     (cstring_in D m (literal_root im) (length nm) \<and> length nm < 128 \<and> bytes m (literal_root im) (length nm) = nm) \<and>
     (\<exists>n<128. cstring_in D m (literal_test_file im) n \<and> span (literal_test_file im) (Suc n) \<inter> test_memory im = {}) \<and>
     test_memory im \<subseteq> D \<and> span (local_test_data im) 5 \<inter> span (local_test_buffer im) 5 = {} \<and> m (local_test im + 99) = 0 \<and>
     disk_at m a files e \<and> disk_memory a e \<subseteq> D \<and> m e = 0 \<and> (\<forall>(nm, bs)\<in>set files. length bs \<le> 99)"

lemma heap_only_root:
  fixes s s' :: "'a fs_scheme"
  assumes "heap_only s s'"
  shows "heap_only (s\<lparr>root := r\<rparr>) (s'\<lparr>root := r\<rparr>)"
proof -
  obtain d p c h where "s' = s\<lparr>dev := d, phys := p, heap_current := c, heap_mapped := h\<rparr>"
    using assms unfolding heap_only_def by blast
  then show ?thesis unfolding heap_only_def by simp
qed

lemma at_end_file_of: "map at_end (map file_of files) = map file_of files"
  by (simp add: at_end_def file_of_def case_prod_beta)

lemma directory_memory_outside:
  "n < 128 \<Longrightarrow> x \<notin> span e 168 \<Longrightarrow> directory_memory im e src n m x = m x"
  using file_fields_span [of e] by (auto simp: directory_memory_def intro!: trans [OF store32_outside] header_outside)

lemma directory_memory_at:
  assumes al: "word_aligned e" and src: "n < 128" "cstring_in D m src n" "span e 168 \<inter> D = {}"
  shows "dir_at im (directory_memory im e src n m) e (bytes m src n) [] []"
proof -
  note A = fields_aligned [OF al]
  let ?h = "node_header im e src n FS_DIRECTORY m" and ?m = "directory_memory im e src n m"
  have "name_at ?m e (bytes m src n)"
  proof (rule name_cong [OF header_name [OF src]])
    fix x assume x: "x \<in> span e 128"
    then have "x \<notin> span (e + word_of_nat k) 4" if "128 \<le> k" "k < 168" for k
      using span_apart [of 128 k 4 e] that by auto
    from this [of 152] this [of 156] this [of 160]
    show "?m x = ?h x" by (simp add: directory_memory_def field_defs store32_outside)
  qed
  moreover have "load32 ?m (node_type e) = FS_DIRECTORY" "load32 ?m (directory_head e) = 0" "load32 ?m (directory_size e) = 0"
    using A header_fields(1) [OF al, of im src n FS_DIRECTORY m] by (simp_all add: directory_memory_def load_store32_other field_defs)
  ultimately show ?thesis using al by (simp add: dir_at_def dir_apart_def)
qed

context filesystem
begin

lemma ok_store_bytes:
  assumes "kept s0 s m" "span p (length bs) \<subseteq> reg s0" "length bs < 2 ^ 32" "\<And>s'. kept s0 s' (stored p bs m) \<Longrightarrow> ok (f s') Q"
  shows "ok (and_then (store_bytes p bs s) f) Q"
proof -
  obtain s' where s': "store_bytes p bs s = Inr s'" "same_but (reg s) s s'" "runs s' (stored p bs m)"
    using runs_store_bytes [of s m p bs] assms(1-3) kept_reg [OF assms(1)] by (auto simp: kept_def)
  show ?thesis using assms(4) [OF kept_step [OF assms(1) s'(2,3)]] s'(1) by simp
qed

lemma ok_strncmp:
  assumes k: "kept s0 s m" and pq: "span p n \<subseteq> reg s0" "span q n \<subseteq> reg s0" "bytes m p n = bytes m q n" "n < 2 ^ 32" and f: "ok (f 0) Q"
  shows "ok (and_then (strncmp vload8 p q (word_of_nat n) s) f) Q"
proof -
  have u: "unat (word_of_nat n :: u32) = n" using pq(4) by (simp add: unat_of_nat)
  have "\<exists>c. vload8 (p + word_of_nat i) s = Inr c \<and> vload8 (q + word_of_nat i) s = Inr c" if i: "i < n" for i
  proof -
    have "p + word_of_nat i \<in> reg s" "q + word_of_nat i \<in> reg s"
      using pq i span_memI [of i n] kept_reg [OF k] by auto
    moreover have "m (p + word_of_nat i) = m (q + word_of_nat i)"
      using arg_cong [OF pq(3), of "\<lambda>l. l ! i"] i by (simp add: nth_bytes)
    ultimately show ?thesis using runs_load8 [OF kept_runs [OF k]] by simp
  qed
  then have "strncmp vload8 p q (word_of_nat n) s = Inr 0" unfolding strncmp_def u by (rule strncmp_equal)
  then show ?thesis using f by simp
qed

lemma fs_self_test_ok:
  assumes k: "kept s0 s m" and im: "image_ok (image s0)"
    and locals: "span (local_test_data (image s0)) 5 \<subseteq> reg s0" "span (local_test_buffer (image s0)) 5 \<subseteq> reg s0"
      "span (local_test_data (image s0)) 5 \<inter> span (local_test_buffer (image s0)) 5 = {}"
    and al: "word_aligned (heap_current s0)" and room: "unat (heap_current s0) + 424 \<le> limit"
    and lit: "cstring_in (reg s0) m (literal_test_file (image s0)) n" "n < 128"
      "span (literal_test_file (image s0)) (Suc n) \<inter> test_memory (image s0) = {}"
  shows "ok (fs_self_test s) (\<lambda>s'. \<exists>m'. heap_only s0 s' \<and> unat (heap_current s') = unat (heap_current s0) + 424 \<and> runs s' m' \<and>
    (\<forall>x\<in>reg s0. x \<notin> test_memory (image s0) \<longrightarrow> m' x = m x))"
proof -
  define h where "h = heap_current s0"
  define td where "td = local_test_data (image s0)"
  define tb where "tb = local_test_buffer (image s0)"
  define nm where "nm = literal_test_file (image s0)"
  define hello where "hello = (map of_char ''Hello'' :: u8 list)"
  have len: "length hello = 5" by (simp add: hello_def)
  note L = locals [folded td_def tb_def] and lt = lit [folded nm_def]
  define m1 where "m1 = fill tb 5 0 (stored td hello m)"
  have m1: "m1 x = m x" if "x \<notin> span td 5" "x \<notin> span tb 5" for x
    using that by (simp add: m1_def fill_outside stored_outside len)
  have td1: "bytes m1 td 5 = hello"
  proof -
    have "bytes m1 td 5 = bytes (stored td hello m) td 5"
      unfolding m1_def using L(3) by (intro bytes_cong fill_outside) auto
    also have "\<dots> = hello" using bytes_stored [of hello td m] by (simp add: len)
    finally show ?thesis .
  qed
  have src: "cstring_in (reg s0) m1 nm n"
  proof -
    have "m1 x = m x" if "x \<in> span nm (Suc n)" for x
      using that lt(3) by (intro m1) (auto simp: test_memory_def td_def tb_def)
    then show ?thesis using lt(1) lt(2) by (auto simp: cstring_in_def span_memI)
  qed
  have imk: "image s' = image s0" if "kept s0 s' m'" for s' m' using kept_image [OF that] by simp
  show ?thesis
    unfolding fs_self_test_def Let_def imk [OF k] td_def [symmetric] tb_def [symmetric] hello_def [symmetric]
  proof (rule ok_store_bytes [where bs = hello and p = td, OF k, unfolded len, OF L(1)], goal_cases)
    case 1
    show ?case by simp
  next
    case (2 s1)
    show ?case
    proof (rule ok_memset [OF 2], goal_cases)
      case 1
      show ?case using L(2) by simp
    next
      case (2 s2)
      then have k2: "kept s0 s2 m1" by (simp add: m1_def)
      show ?case
        unfolding imk [OF kept_mlog [OF k2]] nm_def [symmetric]
      proof (rule ok_construct [OF kept_mlog [OF k2] al room src lt(2)], goal_cases)
        case (1 s3)
        note s3 = 1 [folded h_def]
        have r2: "runs s2 m1" "reg s2 = reg s0" "heap_current s2 = h" "image s2 = image s0"
          using k2 kept_reg [OF k2] kept_image [OF k2] by (simp_all add: kept_def h_def)
        have s23: "heap_only s2 s3" using heap_only_sym [of s0 s2] heap_only_trans [of s2 s0 s3] k2 s3(1) by (simp add: kept_def)
        note nf = new_file [OF r2(1), unfolded r2(2-4), OF al [folded h_def] room [folded h_def] src lt(2) im s23 s3(2,3)]
        show ?case
          unfolding prod.case h_def [symmetric]
        proof (rule ok_seek [where i = 0, simplified, OF nf(1)], goal_cases)
          case (1 r s4 m4)
          let ?b = "h + 168" and ?new = "\<lparr>fname = bytes m1 nm n, fpos = 0, fdata = []\<rparr>"
          let ?P = "footprint h ?b"
          have apart: "x \<notin> ?P" if "x \<in> reg s0" for x using that nf(2,4) by blast
          have keep: "bytes m' td 5 = hello" if "\<And>x. x \<in> span td 5 \<Longrightarrow> m' x = m1 x" for m'
            using bytes_cong [of td 5 m' m1] that td1 by simp
          have in0: "x \<in> reg s0" if "x \<in> span td 5" for x using that L(1) by blast
          have up: "span td 5 \<subseteq> reg s3" "span tb 5 \<subseteq> reg s3" "span td 5 \<inter> ?P = {}" "span tb 5 \<inter> ?P = {}"
            using L(1,2) nf(5) apart by blast+
          have m4: "m4 x = m1 x" if "x \<in> reg s0" for x using 1(2) [OF apart [OF that]] nf(6) [OF that] by simp
          have td4: "bytes m4 td (length hello) = hello" unfolding len by (rule keep) (use m4 in0 in blast)
          let ?f = "file_of (bytes m1 nm n, hello)"
          have fw: "file_write hello (?new\<lparr>fpos := 0\<rparr>) = ?f" by (simp add: file_write_def file_of_def)
          show ?case
            unfolding prod.case
          proof (rule ok_write [OF 1(1) td4, unfolded fw, unfolded len of_nat_numeral], goal_cases)
            case (5 r s5 m5)
            show ?case
              unfolding prod.case
            proof (rule ok_seek [where i = 0, simplified, OF 5(1)], goal_cases)
              case (1 r s6 m6)
              have m6: "m6 x = m1 x" if "x \<in> reg s0" for x using 1(2) [OF apart [OF that]] 5(2) [OF apart [OF that]] m4 [OF that] by simp
              show ?case
                unfolding prod.case
              proof (rule ok_read [where n = 5, unfolded of_nat_numeral, OF 1(1)], goal_cases)
                case (4 r s7 m7)
                have k7: "kept s3 s7 m7" using 4(1) by (simp add: at_file_def)
                have m7: "m7 x = m1 x" if "x \<in> reg s0" "x \<notin> span tb 5" for x
                  using 4(2) [of x] apart [OF that(1)] that(2) m6 [OF that(1)] by simp
                have "bytes m7 td 5 = hello" by (rule keep, rule m7) (use in0 L(3) in blast)+
                moreover have "bytes m7 tb 5 = hello" using 4(3) by (simp add: file_of_def len)
                ultimately have eq: "bytes m7 td 5 = bytes m7 tb 5" by simp
                have off: "vload32 (file_offset h) s7 = Inr 5"
                  using at_file_load(2) [OF 4(1)] by (simp add: file_of_def len)
                show ?case
                  unfolding prod.case
                proof (rule ok_strncmp [OF k7 up(1,2) eq, unfolded of_nat_numeral], goal_cases)
                  case 2
                  have out: "m7 x = m x" if "x \<in> reg s0" "x \<notin> test_memory (image s0)" for x
                    using m7 [of x] m1 [of x] that by (simp add: test_memory_def td_def tb_def)
                  have "kept s3 (mlog ''Test Passed!\<newline>'' [] s7) m7" by (rule kept_mlog [OF k7])
                  then show ?case
                    using out s3(1,2) heap_only_trans [OF s3(1)] by (auto simp: off [unfolded h_def] kept_def h_def)
                qed simp
              qed (use up in \<open>simp_all add: file_of_def len\<close>)
            qed
          qed (use up in simp_all)
        qed
      qed
    qed
  qed
qed

lemma init_filesystem_ok:
  assumes r: "runs s m" and al: "word_aligned (heap_current s)" and room: "unat (heap_current s) + 592 + 432 * length files \<le> limit"
    and i: "init_ready (image s) (reg s) m nm a files e"
  shows "ok (init_filesystem a e s) (\<lambda>s'. heap_only (s\<lparr>root := heap_current s\<rparr>) s' \<and>
    unat (heap_current s') = unat (heap_current s) + 592 + 432 * length files \<and>
    (\<exists>m' es. runs s' m' \<and> dir_at (image s) m' (heap_current s) nm es (map file_of files) \<and> dir_memory (heap_current s) es \<subseteq> reg s' \<and>
      (\<forall>x\<in>reg s. x \<notin> test_memory (image s) \<longrightarrow> m' x = m x)))"
proof -
  define h where "h = heap_current s"
  let ?name = "literal_root (image s)" and ?im = "image s" and ?n = "length nm"
  obtain n2 where lit: "n2 < 128" "cstring_in (reg s) m (literal_test_file ?im) n2" "span (literal_test_file ?im) (Suc n2) \<inter> test_memory ?im = {}"
    using i by (auto simp: init_ready_def)
  have im: "image_ok ?im" and nr: "cstring_in (reg s) m ?name ?n" "?n < 128" "bytes m ?name ?n = nm"
    and T: "test_memory ?im \<subseteq> reg s" "span (local_test_data ?im) 5 \<inter> span (local_test_buffer ?im) 5 = {}" "m (local_test ?im + 99) = 0"
    and disk: "disk_at m a files e" "disk_memory a e \<subseteq> reg s" "m e = 0" "\<forall>(nm, bs)\<in>set files. length bs \<le> 99"
    using i by (simp_all add: init_ready_def)
  have Ts: "span (local_test ?im) 100 \<subseteq> test_memory ?im" "span (local_test_data ?im) 5 \<subseteq> reg s" "span (local_test_buffer ?im) 5 \<subseteq> reg s"
    using T(1) by (auto simp: test_memory_def)
  let ?m1 = "directory_memory ?im h ?name ?n m"
  have room1: "unat (heap_current s) + 168 \<le> limit" using room by simp
  show ?thesis
    unfolding init_filesystem_def Let_def
  proof (rule ok_bind [OF construct_directory_ok [OF r al room1 nr(1,2)]], goal_cases)
    case (1 x)
    obtain s1 where x: "x = (h, s1)" and s1: "heap_only s s1" "unat (heap_current s1) = unat h + 168" "runs s1 ?m1"
      using 1 by (cases x) (simp add: h_def)
    define s2 where "s2 = s1\<lparr>root := h\<rparr>"
    have r2: "runs s2 ?m1" "reg s2 = reg s1" "image s2 = ?im" "root s2 = h" "heap_current s2 = heap_current s1"
      using runs_cong [OF s1(3), of s2] heap_only_image [OF s1(1)] by (simp_all add: s2_def region_def)
    have lim: "unat (heap_current s1) \<le> limit" using s1(2) room by (simp add: h_def)
    have fresh: "span h 168 \<subseteq> reg s1" "span h 168 \<inter> reg s = {}" using fresh_block [OF r s1(1) lim, of h 168] s1(2) by (simp_all add: h_def)
    have up: "reg s \<subseteq> reg s2" using region_grows [OF s1(1)] s1(2) r2(2) by (simp add: h_def)
    have m1: "?m1 x = m x" if "x \<in> reg s" for x using fresh(2) that by (intro directory_memory_outside [OF nr(2)]) blast
    have d1: "dir_at ?im ?m1 h nm [] []"
      using directory_memory_at [OF al [folded h_def] nr(2,1) fresh(2), of ?im] nr(3) by simp
    have dm: "dir_memory h [] = span h 168" by (simp add: dir_memory_def)
    have dm2: "dir_memory h [] \<subseteq> reg s2" unfolding dm r2(2) by (rule fresh(1))
    have al1: "word_aligned (heap_current s1)" using aligned_grow [OF al, of "heap_current s1" 168] s1(2) by (simp add: h_def)
    have in2: "in_dir s2 ?m1 h nm [] []" unfolding in_dir_def using r2 d1 im dm2 al1 by simp
    have "disk_at ?m1 a files e" by (rule disk_cong [OF disk(1)], rule m1) (use disk(2) in blast)
    moreover have "e \<in> disk_memory a e" using disk_le [OF disk(1)] by (simp add: disk_memory_def)
    ultimately have disk2: "disk_in s2 ?m1 h [] a files e"
      using disk up fresh(2) m1 unfolding disk_in_def dm by fastforce
    have room2: "unat (heap_current s2) + 432 * length files \<le> limit" using room s1(2) r2(5) by (simp add: h_def)
    show ?case
      unfolding x prod.case s2_def [symmetric]
    proof (rule ok_bind [OF read_ramdisk_ok [OF in2 disk2 room2]], goal_cases)
      case (1 s3)
      then obtain m3 es where s3: "heap_only s2 s3" "unat (heap_current s3) = unat h + 168 + 432 * length files"
        "in_dir s3 m3 h nm es (map file_of files)" "dir_memory h es \<inter> reg s2 \<subseteq> span h 168"
        "\<forall>x\<in>reg s2. x \<notin> span h 168 \<longrightarrow> m3 x = ?m1 x"
        using r2(5) s1(2) by (auto simp: loaded_def dm)
      let ?s3 = "mlog ''==== Reading Root Directory ====\<newline>'' [] s3"
      have im3: "image s3 = ?im" "root s3 = h" using heap_only_image [OF s3(1)] r2 by simp_all
      have r3: "runs s3 m3" and d3: "dir_at ?im m3 h nm es (map file_of files)" "dir_memory h es \<subseteq> reg s3" and al3: "word_aligned (heap_current s3)"
        using s3(3) im3 by (simp_all add: in_dir_def)
      have up3: "reg s2 \<subseteq> reg s3" using region_grows [OF s3(1)] s3(2) s1(2) r2(5) by simp
      have m3: "m3 x = m x" if "x \<in> reg s" for x
        using that s3(5) up fresh(2) m1 [OF that] by auto
      have apart: "dir_memory h es \<inter> reg s = {}" using s3(4) up fresh(2) by blast
      have T3: "span (local_test ?im) 100 \<subseteq> reg s3" using Ts(1) T(1) up up3 by blast
      have T3d: "span (local_test ?im) 100 \<inter> dir_memory h es = {}" using Ts(1) T(1) apart by blast
      have t99: "local_test ?im + 99 \<in> reg s" using Ts(1) T(1) span_memI [of 99 100 "local_test ?im"] by auto
      have k3: "kept s3 ?s3 m3" by (rule kept_mlog [OF kept_refl [OF r3]])
      have head: "span (directory_head h) 4 \<subseteq> reg s3" using file_fields_span [of h] d3(2) by (auto simp: dir_memory_def)
      have dl: "dirents m3 (load32 m3 (directory_head h)) es" "length es < 2 ^ 32"
        using d3(1) dirents_length [of h es] by (simp_all add: dir_at_def)
      have sm: "\<forall>f\<in>set (map file_of files). length (fdata f) \<le> 99" using disk(4) by (auto simp: file_of_def)
      have root3: "root ?s3 = h" using im3(2) kept_image [OF k3] by simp
      have im': "image_ok (image s3)" using im im3(1) by simp
      have listed: "ok (read_root (2 ^ 32) (load32 m3 (directory_head h)) ?s3) (\<lambda>s4. \<exists>m4. kept s3 s4 m4 \<and>
          dir_at ?im m4 h nm es (map file_of files) \<and>
          (\<forall>x. x \<notin> dir_memory h es \<union> span (local_test ?im) 100 \<longrightarrow> m4 x = m3 x))"
        using read_root_ok [OF k3 im', of h "[]" es nm "[]" "map file_of files" "load32 m3 (directory_head h)" "2 ^ 32"]
          T3 T3d d3 dl sm m3 [OF t99] T(3) by (simp add: im3 at_end_file_of [unfolded list.map_comp])
      show ?case
        unfolding root3
      proof (rule ok_load [OF k3 head], rule ok_bind [OF listed], goal_cases)
        case (1 s4)
        then obtain m4 where s4: "kept s3 s4 m4" "dir_at ?im m4 h nm es (map file_of files)"
          "\<And>x. x \<notin> dir_memory h es \<Longrightarrow> x \<notin> span (local_test ?im) 100 \<Longrightarrow> m4 x = m3 x"
          by auto
        have r4: "runs s4 m4" "heap_only s3 s4" "heap_current s4 = heap_current s3" "reg s4 = reg s3" "image s4 = ?im"
          using s4(1) kept_reg [OF s4(1)] kept_image [OF s4(1)] im3 by (simp_all add: kept_def)
        have m4: "m4 x = m x" if "x \<in> reg s" "x \<notin> span (local_test ?im) 100" for x
          using s4(3) [of x] m3 [OF that(1)] that apart by auto
        have lit4: "cstring_in (reg s4) m4 (literal_test_file ?im) n2"
        proof -
          have sub: "span (literal_test_file ?im) (Suc n2) \<subseteq> reg s" using lit(2) by (simp add: cstring_in_def)
          have "m4 x = m x" if "x \<in> span (literal_test_file ?im) (Suc n2)" for x
            using that lit(3) sub Ts(1) by (intro m4) auto
          moreover have "reg s \<subseteq> reg s4" using up up3 r4(4) by blast
          ultimately show ?thesis using lit(1,2) by (auto simp: cstring_in_def span_memI)
        qed
        have room4: "unat (heap_current s4) + 424 \<le> limit" using room s3(2) r4(3) by (simp add: h_def)
        note locals = order_trans [OF Ts(2) order_trans [OF up up3]] order_trans [OF Ts(3) order_trans [OF up up3]]
        have self: "ok (fs_self_test s4) (\<lambda>s'. \<exists>m'. heap_only s4 s' \<and> unat (heap_current s') = unat (heap_current s4) + 424 \<and>
            runs s' m' \<and> (\<forall>x\<in>reg s4. x \<notin> test_memory ?im \<longrightarrow> m' x = m4 x))"
          using fs_self_test_ok [OF kept_refl [OF r4(1)], unfolded r4(3-5), OF im locals T(2) al3 room4 [unfolded r4(3)]
              lit4 [unfolded r4(4)] lit(1,3)] r4(3-5) by simp
        show ?case
        proof (rule ok_mono [OF self])
          fix s' assume "\<exists>m'. heap_only s4 s' \<and> unat (heap_current s') = unat (heap_current s4) + 424 \<and>
            runs s' m' \<and> (\<forall>x\<in>reg s4. x \<notin> test_memory ?im \<longrightarrow> m' x = m4 x)"
          then obtain m' where s': "heap_only s4 s'" "unat (heap_current s') = unat (heap_current s4) + 424" "runs s' m'"
            "\<forall>x\<in>reg s4. x \<notin> test_memory ?im \<longrightarrow> m' x = m4 x" by blast
          have ho: "heap_only (s\<lparr>root := h\<rparr>) s'"
            using heap_only_trans [OF heap_only_trans [OF heap_only_trans [OF heap_only_root [OF s1(1)] s3(1) [unfolded s2_def]] r4(2)] s'(1)] .
          have cur: "unat (heap_current s') = unat h + 592 + 432 * length files" using s'(2) r4(3) s3(2) by simp
          have up4: "reg s4 \<subseteq> reg s'" using region_grows [OF s'(1)] s'(2) by simp
          have in4: "dir_memory h es \<subseteq> reg s4" using d3(2) r4(4) by simp
          have "test_memory ?im \<inter> dir_memory h es = {}" using apart T(1) by blast
          then have "m' x = m4 x" if "x \<in> dir_memory h es" for x using that s'(4) in4 by blast
          then have "dir_at ?im m' h nm es (map file_of files)" by (rule dir_at_cong [OF s4(2)])
          moreover have "m' x = m x" if "x \<in> reg s" "x \<notin> test_memory ?im" for x
          proof -
            have "x \<in> reg s4" using that(1) up up3 r4(4) by blast
            moreover have "x \<notin> span (local_test ?im) 100" using that(2) Ts(1) by blast
            ultimately show ?thesis using s'(4) that m4 by simp
          qed
          ultimately show "heap_only (s\<lparr>root := heap_current s\<rparr>) s' \<and>
            unat (heap_current s') = unat (heap_current s) + 592 + 432 * length files \<and>
            (\<exists>m' es. runs s' m' \<and> dir_at ?im m' (heap_current s) nm es (map file_of files) \<and> dir_memory (heap_current s) es \<subseteq> reg s' \<and>
              (\<forall>x\<in>reg s. x \<notin> test_memory ?im \<longrightarrow> m' x = m x))"
            using ho cur s'(3) order_trans [OF in4 up4] unfolding h_def by blast
        qed
      qed
    qed
  qed
qed

end

end
