(* ===== verification/Early_Heap.thy ===== *)
theory Early_Heap
  imports Init_Filesystem
begin

text \<open>
  The heap before \<open>init_paging\<close>: \<open>kmain\<close> initialises the filesystem first, with paging off and \<open>heap_current\<close> and
  \<open>heap_mapped\<close> still 0, so the blocks of the filesystem come from the bottom of physical memory. The page tables
  that \<open>heap_allocate\<close> fills on the way have no effect yet. This theory shows that the contract of the heap holds
  there too, up to the end of conventional memory: a second interpretation of \<open>kernel_heap\<close>.
\<close>

unbundle bit_operations_syntax

section \<open>The page tables and bitmaps before \<open>init_paging\<close>\<close>

text \<open>
  What the heap writes besides its blocks: the page directory, the two bitmaps and, in \<open>early_meta\<close>, the first
  page of the table area.
\<close>

definition early_tables_memory :: "symbols \<Rightarrow> u32 set" where
  "early_tables_memory sy = {b. page_of b = page_directory sy \<or> b \<in> span (page_frame_bitmap sy) 7392 \<or>
     b \<in> span (page_table_bitmap sy) 128}"

definition early_meta :: "symbols \<Rightarrow> u32 set" where
  "early_meta sy = early_tables_memory sy \<union> {b. page_of b = PAGE_TABLE_AREA_START}"

text \<open>One page table at most, and the first \<open>f\<close> frames in use.\<close>

definition early_tables :: "symbols \<Rightarrow> bool \<Rightarrow> nat \<Rightarrow> (u32 \<Rightarrow> u8) \<Rightarrow> bool" where
  "early_tables sy t f m \<longleftrightarrow>
     (\<forall>i<1024. load32 m (page_directory sy + 4 * i) = (if i = 0 \<and> t then PAGE_TABLE_AREA_START OR 3 else 0)) \<and>
     used m (page_table_bitmap sy) 32 = (if t then {0} else {}) \<and>
     used m (page_frame_bitmap sy) PAGE_FRAME_BITMAP_SIZE = {..<f}"

definition early :: "bool \<Rightarrow> nat \<Rightarrow> 'a mm_scheme \<Rightarrow> bool" where
  "early t f s \<longleftrightarrow> \<not> paging_on s \<and> layout_ok (syms s) \<and> early_tables (syms s) t f (phys s)"

lemma early_tables_agree:
  assumes l: "layout_ok sy" and e: "early_tables sy t f m" and eq: "\<And>b. b \<in> early_tables_memory sy \<Longrightarrow> m' b = m b"
  shows "early_tables sy t f m'"
proof -
  have "load32 m' (page_directory sy + 4 * i) = load32 m (page_directory sy + 4 * i)" if "i < 1024" for i
    using layout_aligned [OF l] by (intro load32_page_cong that eq) (auto simp: early_tables_memory_def)
  moreover have "used m' (page_table_bitmap sy) 32 = used m (page_table_bitmap sy) 32"
    by (rule used_agree [OF l], rule eq) (simp add: early_tables_memory_def)
  moreover have "used m' (page_frame_bitmap sy) PAGE_FRAME_BITMAP_SIZE = used m (page_frame_bitmap sy) PAGE_FRAME_BITMAP_SIZE"
    by (rule used_frames_agree [OF l], rule eq) (simp add: early_tables_memory_def)
  ultimately show ?thesis using e by (simp add: early_tables_def)
qed

lemma early_agree:
  assumes "early t f s" "syms s' = syms s" "cr0 s' = cr0 s" "\<And>b. b \<in> early_tables_memory (syms s) \<Longrightarrow> phys s' b = phys s b"
  shows "early t f s'"
  using assms early_tables_agree [of "syms s" t f "phys s" "phys s'"] by (simp add: early_def paging_on_def)

lemma early_bitmaps:
  assumes "early t f s"
  shows "bitmap_ok (page_frame_bitmap (syms s)) PAGE_FRAME_BITMAP_SIZE s" "bitmap_ok (page_table_bitmap (syms s)) 32 s"
  using assms by (simp_all add: early_def bitmap_ok_def layout_ok_def translate_off)

lemma early_scan_frame:
  assumes e: "early t f s" and f: "f < 32 * PAGE_FRAME_BITMAP_SIZE"
  shows "\<exists>d. bitmap_scan (page_frame_bitmap (syms s)) look_at_frames PAGE_FRAME_BITMAP_SIZE 0 s =
      Inr (Some f, s\<lparr>dev := d, phys := mark (phys s) (page_frame_bitmap (syms s)) f\<rparr>) \<and>
    early t (Suc f) (s\<lparr>dev := d, phys := mark (phys s) (page_frame_bitmap (syms s)) f\<rparr>)"
proof -
  let ?fb = "page_frame_bitmap (syms s)" and ?sy = "syms s"
  have l: "layout_ok ?sy" and ti: "early_tables ?sy t f (phys s)" and u: "used (phys s) ?fb PAGE_FRAME_BITMAP_SIZE = {..<f}"
    using e by (simp_all add: early_def early_tables_def)
  note ok = early_bitmaps(1) [OF e]
  have look: "\<exists>d. look_at_frames i w s = s\<lparr>dev := d\<rparr>" for i w and s :: "'b mm_scheme"
    by (auto simp: look_at_frames_def mlog_def)
  have least: "(LEAST x. x \<notin> {..<f}) = f" by (rule Least_equality) auto
  have free: "\<exists>x<32 * PAGE_FRAME_BITMAP_SIZE. x \<notin> used (phys s) ?fb PAGE_FRAME_BITMAP_SIZE"
    using u f by (intro exI [of _ f]) simp
  obtain d where d: "bitmap_scan ?fb look_at_frames PAGE_FRAME_BITMAP_SIZE 0 s =
      Inr (Some f, s\<lparr>dev := d, phys := mark (phys s) ?fb f\<rparr>)"
    using bitmap_scan_alloc(3) [where look = look_at_frames, OF look ok free] unfolding u least by blast
  have out: "mark (phys s) ?fb f b = phys s b" if "page_of b = page_directory ?sy \<or> b \<in> span (page_table_bitmap ?sy) 128" for b
  proof (rule mark_frame_elsewhere [OF l f], rule notI)
    assume "b \<in> span ?fb 7392"
    then show False using frame_bitmap_apart(1) [OF l, of b] that by (auto simp: table_memory_def)
  qed
  have "load32 (mark (phys s) ?fb f) (page_directory ?sy + 4 * i) = load32 (phys s) (page_directory ?sy + 4 * i)" if "i < 1024" for i
    using layout_aligned [OF l] by (intro load32_page_cong that out) auto
  moreover have "used (mark (phys s) ?fb f) (page_table_bitmap ?sy) 32 = used (phys s) (page_table_bitmap ?sy) 32"
    by (rule used_agree [OF l], rule out) simp
  moreover have "used (mark (phys s) ?fb f) ?fb PAGE_FRAME_BITMAP_SIZE = {..<Suc f}"
    using used_mark [of ?fb PAGE_FRAME_BITMAP_SIZE f "phys s"] ok u f by (auto simp: bitmap_ok_def)
  ultimately have "early_tables ?sy t (Suc f) (mark (phys s) ?fb f)" using ti by (simp add: early_tables_def)
  then show ?thesis using d e by (auto simp: early_def paging_on_def)
qed

text \<open>\<open>map_page\<close> on a page of the first 4 MB: the first call takes the first table of the area.\<close>

lemma early_table_page: "page_aligned (0x500000 :: u32)" "page_of (0x500000 OR 3 :: u32) = 0x500000" "bit (0x500000 OR 3 :: u32) 0"
  by (simp_all add: page_aligned_def page_of_def bit_0)

lemma low_page:
  assumes "n < 1024"
  shows "page_aligned (PAGE_SIZE * word_of_nat n)" "unat (PAGE_SIZE * word_of_nat n :: u32) = 4096 * n"
    "drop_bit 22 (PAGE_SIZE * word_of_nat n :: u32) = 0"
proof -
  show u: "unat (PAGE_SIZE * word_of_nat n :: u32) = 4096 * n" using assms by (simp add: unat_word_ariths unat_of_nat)
  then show "page_aligned (PAGE_SIZE * word_of_nat n)" by (simp add: page_aligned_unat)
  have "unat (drop_bit 22 (PAGE_SIZE * word_of_nat n :: u32)) = 0" unfolding dir_index u using assms by simp
  then show "drop_bit 22 (PAGE_SIZE * word_of_nat n :: u32) = 0" by (simp only: unat_eq_0)
qed

lemma early_directory:
  assumes e: "early t f s"
  shows "directory (page_directory (syms s)) UNIV s"
proof -
  have l: "layout_ok (syms s)" using e by (simp add: early_def)
  have "(0x500000 :: u32) \<noteq> page_directory (syms s)" using layout_below [OF l] by auto
  moreover have "load32 (phys s) (page_directory (syms s) + 4 * i) = (if i = 0 \<and> t then PAGE_TABLE_AREA_START OR 3 else 0)" if "i < 1024" for i
    using e that by (simp add: early_def early_tables_def)
  ultimately have "clean_dir (phys s) (page_directory (syms s))"
    using layout_aligned [OF l] early_table_page by (auto simp: clean_dir_def)
  then show ?thesis using e by (simp add: directory_def early_def ident_pages_off)
qed

lemma early_map:
  assumes e: "early t f s" and n: "n < 1024" and fr: "page_aligned fr"
  shows "\<exists>d m. map_page (page_directory (syms s)) (PAGE_SIZE * word_of_nat n) fr s = Inr (s\<lparr>dev := d, phys := m\<rparr>) \<and>
    early True f (s\<lparr>dev := d, phys := m\<rparr>) \<and> (\<forall>b. b \<notin> early_meta (syms s) \<longrightarrow> m b = phys s b)"
proof -
  let ?sy = "syms s" and ?m = "phys s" and ?T = "0x500000 :: u32"
  let ?pd = "page_directory ?sy" and ?tb = "page_table_bitmap ?sy"
  define va where "va = PAGE_SIZE * (word_of_nat n :: u32)"
  have l: "layout_ok ?sy" and off: "\<not> paging_on s" and ti: "early_tables ?sy t f ?m" using e by (simp_all add: early_def)
  have pd: "page_aligned ?pd" using layout_aligned [OF l] by simp
  note al = low_page(1) [OF n, folded va_def] and ix = low_page(3) [OF n, folded va_def]
  have pda: "pde_addr ?pd va = ?pd + 4 * 0" by (simp add: pde_addr_def ix)
  have pde: "load32 ?m (pde_addr ?pd va) = (if t then ?T OR 3 else 0)"
    using ti unfolding pda early_tables_def by (auto dest: spec [of _ 0])
  have pte: "pte_addr (?T OR 3) va = pte_addr ?T va"
    using page_of_aligned [OF early_table_page(1)] early_table_page(2) by (simp add: pte_addr_def)
  have in_table: "store32 (pte_addr ?T va) v m b = m b" if "page_of b \<noteq> ?T" for v m b
    using store_entry_elsewhere [OF early_table_page(1) pt_index_less that, of "drop_bit 12 va"]
    by (simp add: pte_addr_def page_of_aligned [OF early_table_page(1)])
  have table_apart: "page_of b \<noteq> ?T" if "b \<in> early_tables_memory ?sy" for b
  proof
    assume b: "page_of b = ?T"
    then have "0x500000 \<le> unat b" using page_range [OF early_table_page(1), of b] by simp
    moreover have "?pd \<noteq> ?T" using layout_below [OF l] by auto
    moreover have "unat b < 0x300000" if "b \<in> span (page_frame_bitmap ?sy) 7392"
      using frame_bitmap_apart(2) [OF l that] by (simp add: word_less_nat_alt)
    moreover have "unat b < 0x300000" if "b \<in> span ?tb 128"
      using table_bitmap_pages(2) [OF l that] by (simp add: word_less_nat_alt)
    ultimately show False using that b by (auto simp: early_tables_memory_def)
  qed
  have keep: "early True f (s\<lparr>dev := d, phys := store32 (pte_addr ?T va) (fr OR 3) m\<rparr>)" if "early_tables ?sy True f m" for d m
    using early_tables_agree [OF l that, of "store32 (pte_addr ?T va) (fr OR 3) m"] in_table table_apart off l
    by (simp add: early_def paging_on_def)
  show ?thesis
  proof (cases t)
    case True
    define m where "m = store32 (pte_addr ?T va) (fr OR 3) ?m"
    have "map_page ?pd va fr s = Inr (s\<lparr>phys := m\<rparr>)"
      using map_page_present [OF early_directory [OF e] al fr] by (simp add: pde True pte [simplified] m_def bit_0)
    then have "map_page ?pd va fr s = Inr (s\<lparr>dev := dev s, phys := m\<rparr>)" by simp
    moreover have "early True f (s\<lparr>dev := dev s, phys := m\<rparr>)" unfolding m_def by (rule keep) (use ti True in simp)
    moreover have "m b = ?m b" if "b \<notin> early_meta ?sy" for b
      unfolding m_def using that by (intro in_table) (simp add: early_meta_def)
    ultimately show ?thesis unfolding va_def by metis
  next
    case False
    have u: "used ?m ?tb 32 = {}" using ti False by (simp add: early_tables_def)
    have least: "(LEAST x. x \<notin> used ?m ?tb 32) = 0" unfolding u by (rule Least_equality) simp_all
    have free: "\<exists>x<1024. x \<notin> used ?m ?tb 32" unfolding u by (intro exI [of _ 0]) simp
    define m1 where "m1 = store32 (?pd + 4 * 0) (?T OR 3) (mark ?m ?tb 0)"
    define m where "m = store32 (pte_addr ?T va) (fr OR 3) m1"
    have absent: "\<not> bit (load32 ?m (pde_addr ?pd va)) 0" by (simp add: pde False)
    have away: "away ?tb 32 {?pd}" using pd by (intro away_layout [OF l]) simp
    have t': "?T \<noteq> ?pd" using layout_below [OF l] by auto
    have T0: "PAGE_TABLE_AREA_START + PAGE_SIZE * word_of_nat 0 = ?T" by simp
    note mp = map_page_fresh [OF early_directory [OF e] al fr absent, unfolded least T0,
        OF early_table_page(1) UNIV_I t' _ early_bitmaps(2) [OF e] away free, unfolded pda, folded m1_def, folded m_def]
    obtain d where d: "map_page ?pd va fr s = Inr (s\<lparr>dev := d, phys := m\<rparr>)"
      using mp off by auto
    have out: "m1 b = ?m b" if "page_of b \<noteq> ?pd" "b \<notin> span ?tb 128" for b
      unfolding m1_def using store_entry_elsewhere [OF pd _ that(1), of 0] mark_table_elsewhere [OF l _ that(2), of 0] by simp
    have "early_tables ?sy True f m1"
      unfolding early_tables_def
    proof (intro conjI allI impI)
      fix i :: u32 assume i: "i < 1024"
      have "load32 (mark ?m ?tb 0) (?pd + 4 * i) = load32 ?m (?pd + 4 * i)"
        using mark_elsewhere [OF away, of 0] by (intro load32_page_cong [OF pd i]) simp
      then show "load32 m1 (?pd + 4 * i) = (if i = 0 \<and> True then ?T OR 3 else 0)"
        using ti i False load_store_entry [OF pd pd, of 0 i] by (simp add: m1_def early_tables_def)
    next
      have "used m1 ?tb 32 = used (mark ?m ?tb 0) ?tb 32"
        unfolding m1_def using store_entry_elsewhere [OF pd, of 0] table_bitmap_pages(1) [OF l]
        by (intro used_agree [OF l]) simp
      then show "used m1 ?tb 32 = (if True then {0} else {})"
        using used_mark [of ?tb 32 0 ?m] early_bitmaps(2) [OF e] u by (simp add: bitmap_ok_def)
      have "used m1 (page_frame_bitmap ?sy) PAGE_FRAME_BITMAP_SIZE = used ?m (page_frame_bitmap ?sy) PAGE_FRAME_BITMAP_SIZE"
      proof (rule used_frames_agree [OF l], rule out)
        fix b assume b: "b \<in> span (page_frame_bitmap ?sy) 7392"
        show "page_of b \<noteq> ?pd" "b \<notin> span ?tb 128"
          using frame_bitmap_apart(1) [OF l b] by (auto simp: table_memory_def)
      qed
      then show "used m1 (page_frame_bitmap ?sy) PAGE_FRAME_BITMAP_SIZE = {..<f}" using ti by (simp add: early_tables_def)
    qed
    then have "early True f (s\<lparr>dev := d, phys := m\<rparr>)" unfolding m_def by (rule keep)
    moreover have "m b = ?m b" if "b \<notin> early_meta ?sy" for b
      using in_table [of b] out [of b] that by (simp add: m_def early_meta_def early_tables_memory_def)
    ultimately show ?thesis using d unfolding va_def by metis
  qed
qed

section \<open>Pages for the heap\<close>

text \<open>Conventional memory ends at \<open>0x80000\<close>; the heap has room for 128 pages below it.\<close>

definition early_pages :: "nat \<Rightarrow> 'a mm_scheme \<Rightarrow> bool" where
  "early_pages n s \<longleftrightarrow> n \<le> 128 \<and> early (0 < n) n s \<and> heap_mapped s = PAGE_SIZE * word_of_nat n \<and> unat (heap_current s) \<le> 4096 * n"

definition early_inv :: "'a mm_scheme \<Rightarrow> bool" where
  "early_inv s \<longleftrightarrow> (\<exists>n. early_pages n s)"

lemma early_pages_mapped: "early_pages n s \<Longrightarrow> unat (heap_mapped s) = 4096 * n"
  using low_page(2) [of n] by (simp add: early_pages_def)

lemma early_meta_high: "layout_ok sy \<Longrightarrow> b \<in> early_meta sy \<Longrightarrow> 0x100000 \<le> unat b"
proof -
  assume l: "layout_ok sy" and b: "b \<in> early_meta sy"
  have k: "in_kernel (page_frame_bitmap sy) 7392" "in_kernel (page_table_bitmap sy) 7392" "in_kernel (page_directory sy) 4096"
    and pd: "page_aligned (page_directory sy)" using l by (simp_all add: layout_ok_def)
  have "0x100000 \<le> unat b" if "page_of b = page_directory sy" using page_range [OF pd, of b] that k(3) by (simp add: in_kernel_def)
  moreover have "0x100000 \<le> unat b" if "b \<in> span (page_frame_bitmap sy) 7392" using that k(1) by (simp add: in_kernel_def span_iff)
  moreover have "0x100000 \<le> unat b" if "b \<in> span (page_table_bitmap sy) 128" using that k(2) by (simp add: in_kernel_def span_iff)
  moreover have "0x100000 \<le> unat b" if "page_of b = PAGE_TABLE_AREA_START" using page_range [OF early_table_page(1), of b] that by simp
  ultimately show ?thesis using b by (auto simp: early_meta_def early_tables_memory_def)
qed

lemma early_frame_allocate:
  fixes s :: "'a mm_scheme"
  assumes e: "early (0 < n) n s" and n: "n < 128"
  defines "va \<equiv> PAGE_SIZE * (word_of_nat n :: u32)"
  shows "\<exists>s'. page_frame_allocate va s = Inr (va, s') \<and> mem_only s s' \<and> early True (Suc n) s' \<and>
    (\<forall>b. b \<notin> early_meta (syms s) \<longrightarrow> phys s' b = (if b \<in> span va 4096 then 0 else phys s b))"
proof -
  let ?sy = "syms s" and ?fb = "page_frame_bitmap (syms s)"
  have l: "layout_ok ?sy" using e by (simp add: early_def)
  have n': "n < 1024" "n < 32 * PAGE_FRAME_BITMAP_SIZE" "n < 8192" using n by simp_all
  have va: "va mod PAGE_SIZE = 0" using low_page(1) [OF n'(1)] by (simp add: va_def page_aligned_def)
  define s1 where "s1 d = s\<lparr>dev := d, phys := mark (phys s) ?fb n\<rparr>" for d
  obtain d1 where 1: "bitmap_scan ?fb look_at_frames PAGE_FRAME_BITMAP_SIZE 0 s = Inr (Some n, s1 d1)" "early (0 < n) (Suc n) (s1 d1)"
    using early_scan_frame [OF e n'(2)] unfolding s1_def by blast
  have s1: "syms (s1 d1) = ?sy" "mem_only s (s1 d1)" by (simp_all add: s1_def mem_only_def)
  have fr: "page_aligned (PAGE_FRAME_ALLOCATOR_AREA_START + PAGE_SIZE * word_of_nat n)" using n'(3) heap_pages_aligned(2) by simp
  obtain d2 m2 where 2: "map_page (page_directory ?sy) va (PAGE_FRAME_ALLOCATOR_AREA_START + PAGE_SIZE * word_of_nat n) (s1 d1) =
      Inr (s1 d1\<lparr>dev := d2, phys := m2\<rparr>)" "early True (Suc n) (s1 d1\<lparr>dev := d2, phys := m2\<rparr>)"
    "\<forall>b. b \<notin> early_meta ?sy \<longrightarrow> m2 b = phys (s1 d1) b"
    using early_map [OF 1(2) n'(1) fr] unfolding s1(1) va_def by blast
  define s2 where "s2 = s1 d1\<lparr>dev := d2, phys := m2\<rparr>"
  have off: "\<not> paging_on s2" using 2(2) by (simp add: early_def s2_def)
  obtain m3 where 3: "memset vstore8 va 0 PAGE_SIZE s2 = Inr (s2\<lparr>phys := m3\<rparr>)"
    "\<forall>b. m3 b = (if b \<in> span va 4096 then 0 else phys s2 b)"
    using memset_off [OF off, of va 0 PAGE_SIZE] by auto
  have low: "unat b < 0x80000" if "b \<in> span va 4096" for b
    using that span_iff [of va 4096 b] low_page(2) [OF n'(1)] n by (simp add: va_def)
  have e3: "early True (Suc n) (s2\<lparr>phys := m3\<rparr>)"
  proof (rule early_agree [of _ _ s2])
    show "early True (Suc n) s2" using 2(2) by (simp add: s2_def)
    fix b assume "b \<in> early_tables_memory (syms s2)"
    then have "0x100000 \<le> unat b" using early_meta_high [OF l, of b] by (simp add: early_meta_def s2_def s1_def)
    then show "phys (s2\<lparr>phys := m3\<rparr>) b = phys s2 b" using 3(2) low [of b] by auto
  qed simp_all
  have "page_frame_allocate va s = Inr (va, s2\<lparr>phys := m3\<rparr>)"
    using va 1(1) 2(1) 3(1) s1(1) by (simp add: page_frame_allocate_def Let_def flip: s2_def)
  moreover have "mem_only s (s2\<lparr>phys := m3\<rparr>)" by (simp add: s2_def s1_def mem_only_def)
  moreover have "m3 b = (if b \<in> span va 4096 then 0 else phys s b)" if "b \<notin> early_meta ?sy" for b
  proof -
    have "b \<notin> span ?fb 7392" using that by (simp add: early_meta_def early_tables_memory_def)
    then show ?thesis using 3(2) 2(3) that mark_frame_elsewhere [OF l n'(2)] by (simp add: s2_def s1_def)
  qed
  ultimately show ?thesis using e3 by (intro exI [of _ "s2\<lparr>phys := m3\<rparr>"]) simp
qed

lemma early_grow:
  "early_pages n s \<Longrightarrow> unat target \<le> 0x80000 \<Longrightarrow>
   \<exists>s' k. heap_grow target s = Inr s' \<and> early_pages k s' \<and> unat target \<le> 4096 * k \<and> heap_only s s' \<and> heap_current s' = heap_current s \<and>
     (\<forall>b. b \<notin> early_meta (syms s) \<longrightarrow> \<not> (4096 * n \<le> unat b \<and> unat b < 0x80000) \<longrightarrow> phys s' b = phys s b)"
proof (induction "128 - n" arbitrary: n s rule: less_induct)
  case less
  note m = early_pages_mapped [OF less.prems(1)]
  show ?case
  proof (cases "target > heap_mapped s")
    case False
    then show ?thesis using less.prems m by (intro exI [of _ s] exI [of _ n]) (simp add: heap_grow.simps [of target s] word_less_nat_alt)
  next
    case True
    then have n: "n < 128" using m less.prems(2) by (simp add: word_less_nat_alt)
    let ?va = "PAGE_SIZE * word_of_nat n :: u32"
    have va: "heap_mapped s = ?va" and e: "early (0 < n) n s" using less.prems(1) by (simp_all add: early_pages_def)
    obtain s1 where 1: "page_frame_allocate ?va s = Inr (?va, s1)" "mem_only s s1" "early True (Suc n) s1"
      "\<forall>b. b \<notin> early_meta (syms s) \<longrightarrow> phys s1 b = (if b \<in> span ?va 4096 then 0 else phys s b)"
      using early_frame_allocate [OF e n] by blast
    define s2 where "s2 = s1\<lparr>heap_mapped := heap_mapped s1 + PAGE_SIZE\<rparr>"
    have same: "heap_mapped s1 = ?va" "heap_current s1 = heap_current s" "syms s1 = syms s"
      using mem_only_mm [OF 1(2)] va by auto
    have e2: "early True (Suc n) s2" by (rule early_agree [OF 1(3)]) (simp_all add: s2_def)
    have f2: "phys s2 = phys s1" "syms s2 = syms s" "heap_current s2 = heap_current s" "heap_mapped s2 = PAGE_SIZE * word_of_nat (Suc n)"
      using same by (simp_all add: s2_def distrib_left add.commute)
    have hp: "early_pages (Suc n) s2" using e2 less.prems(1) n f2(3,4) by (simp add: early_pages_def del: of_nat_Suc)
    have d: "128 - Suc n < 128 - n" using n by arith
    from less.hyps [OF d hp less.prems(2)] obtain s3 k where
      3: "heap_grow target s2 = Inr s3" "early_pages k s3" "unat target \<le> 4096 * k" "heap_only s2 s3" "heap_current s3 = heap_current s2"
        "\<forall>b. b \<notin> early_meta (syms s2) \<longrightarrow> \<not> (4096 * Suc n \<le> unat b \<and> unat b < 0x80000) \<longrightarrow> phys s3 b = phys s2 b" by blast
    have "heap_grow target s = Inr s3"
      using True 1(1) 3(1) less.prems(2) unfolding heap_grow.simps [of target s]
      by (simp add: va word_le_nat_alt flip: s2_def)
    moreover have "heap_only s s3"
    proof -
      have "heap_only s1 s2" by (simp add: s2_def)
      then show ?thesis using heap_only_mem [OF 1(2)] 3(4) heap_only_trans by blast
    qed
    moreover have "phys s3 b = phys s b" if "b \<notin> early_meta (syms s)" "\<not> (4096 * n \<le> unat b \<and> unat b < 0x80000)" for b
    proof -
      have "b \<notin> span ?va 4096" using that(2) span_iff [of ?va 4096 b] low_page(2) [of n] n by auto
      moreover have "\<not> (4096 * Suc n \<le> unat b \<and> unat b < 0x80000)" using that(2) by auto
      ultimately show ?thesis using 3(6) 1(4) that(1) f2 by simp
    qed
    ultimately show ?thesis using 3(2,3,5) f2(3) by (intro exI [of _ s3] exI [of _ k]) simp
  qed
qed

section \<open>\<open>heap_allocate\<close>\<close>

text \<open>The memory of the kernel besides the blocks: its image and what the boot loader put behind it.\<close>

definition early_data :: "symbols \<Rightarrow> u32 set" where
  "early_data sy = {a. 0x100000 \<le> unat a \<and> unat a < 0x500000 \<and> a \<notin> early_tables_memory sy}"

abbreviation early_region :: "'a mm_scheme \<Rightarrow> u32 set" where
  "early_region s \<equiv> region early_data 0 s"

lemma early_inv_layout: "early_inv s \<Longrightarrow> layout_ok (syms s)" "early_inv s \<Longrightarrow> \<not> paging_on s"
  "early_inv s \<Longrightarrow> unat (heap_current s) \<le> 0x80000"
  by (auto simp: early_inv_def early_pages_def early_def)

lemma early_data_meta: "a \<in> early_data sy \<Longrightarrow> a \<notin> early_meta sy"
  using page_range [OF early_table_page(1), of a] by (auto simp: early_data_def early_meta_def)

lemma early_region_meta:
  assumes "early_inv s" "a \<in> early_region s"
  shows "a \<notin> early_meta (syms s)"
proof (cases "a \<in> early_data (syms s)")
  case False
  then have "unat a < 0x80000" using assms(2) early_inv_layout(3) [OF assms(1)] by (simp add: region_def)
  then show ?thesis using early_meta_high [OF early_inv_layout(1) [OF assms(1)], of a] by auto
qed (rule early_data_meta)

lemma early_inv_agree:
  assumes "early_inv s" "syms s' = syms s" "cr0 s' = cr0 s" "heap_current s' = heap_current s" "heap_mapped s' = heap_mapped s"
    and "\<And>b. b \<in> early_tables_memory (syms s) \<Longrightarrow> phys s' b = phys s b"
  shows "early_inv s'"
  using assms early_agree [OF _ assms(2,3,6)] by (auto simp: early_inv_def early_pages_def)

lemma early_allocate:
  fixes s :: "'a mm_scheme"
  assumes inv: "early_inv s" and room: "unat (heap_current s) + unat sz \<le> 0x80000"
  shows "\<exists>s'. heap_allocate sz s = Inr (heap_current s, s') \<and> early_inv s' \<and> heap_only s s' \<and>
    unat (heap_current s') = unat (heap_current s) + unat sz \<and>
    (\<forall>a. unat (heap_current s) \<le> unat a \<and> unat a < unat (heap_current s') \<longrightarrow> vview s' a = 0) \<and>
    (\<forall>a\<in>early_region s. vview s' a = vview s a)"
proof -
  obtain n where n: "early_pages n s" using inv by (auto simp: early_inv_def)
  define c where "c = heap_current s"
  define s0 where "s0 = mlog ''Heap allocation of size %x bytes at address %x\<newline>'' [Num sz, Num c] s"
  have cs: "unat (c + sz) = unat c + unat sz" using room by (simp add: unat_word_ariths c_def)
  have f0: "heap_current s0 = c" "syms s0 = syms s" "phys s0 = phys s" "heap_mapped s0 = heap_mapped s"
    by (simp_all add: s0_def c_def mlog_def)
  have e0: "early (0 < n) n s0"
    by (rule early_agree [of _ _ s]) (use n f0 in \<open>simp_all add: early_pages_def s0_def\<close>)
  have p0: "early_pages n s0" using n e0 f0 by (simp add: early_pages_def c_def)
  have tgt: "unat (c + sz) \<le> 0x80000" using cs room by (simp add: c_def)
  obtain s1 k where 1: "heap_grow (c + sz) s0 = Inr s1" "early_pages k s1" "unat (c + sz) \<le> 4096 * k" "heap_only s0 s1"
    "heap_current s1 = c" "\<forall>b. b \<notin> early_meta (syms s) \<longrightarrow> \<not> (4096 * n \<le> unat b \<and> unat b < 0x80000) \<longrightarrow> phys s1 b = phys s b"
    using early_grow [OF p0 tgt] unfolding f0 by blast
  have e1: "early (0 < k) k s1" and off1: "\<not> paging_on s1" using 1(2) by (simp_all add: early_pages_def early_def)
  have sy: "syms s1 = syms s" using heap_only_same(1) [OF 1(4)] f0 by simp
  have l: "layout_ok (syms s)" by (rule early_inv_layout(1) [OF inv])
  have blk: "a \<in> span c (unat sz) \<longleftrightarrow> unat c \<le> unat a \<and> unat a < unat c + unat sz" for a
    using span_iff [of c "unat sz" a] room by (simp add: c_def)
  obtain m2 where 2: "memset vstore8 c 0 sz s1 = Inr (s1\<lparr>phys := m2\<rparr>)" "\<forall>b. m2 b = (if b \<in> span c (unat sz) then 0 else phys s1 b)"
    using memset_off [OF off1, of c 0 sz] by auto
  define s3 where "s3 = s1\<lparr>phys := m2, heap_current := c + sz\<rparr>"
  have low: "0x100000 \<le> unat b" if "b \<in> early_meta (syms s)" for b by (rule early_meta_high [OF l that])
  have "early (0 < k) k s3"
  proof (rule early_agree [OF e1])
    fix b assume "b \<in> early_tables_memory (syms s1)"
    then have "0x100000 \<le> unat b" by (intro low) (simp add: early_meta_def sy)
    then have "b \<notin> span c (unat sz)" using room by (simp add: blk) (simp add: c_def)
    then show "phys s3 b = phys s1 b" using 2(2) by (simp add: s3_def)
  qed (simp_all add: s3_def)
  then have hp: "early_pages k s3" using 1(2,3) by (simp add: early_pages_def s3_def)
  have off: "\<not> paging_on s" "\<not> paging_on s3"
    using early_inv_layout(2) [OF inv] off1 by (simp_all add: s3_def paging_on_def)
  have ho: "heap_only s s3"
  proof -
    have "heap_only s s0" by (simp add: s0_def)
    moreover have "heap_only s1 s3" by (simp add: s3_def heap_only_def)
    ultimately show ?thesis using 1(4) heap_only_trans by blast
  qed
  have alloc: "heap_allocate sz s = Inr (c, s3)"
  proof -
    have "\<not> HEAP_ALLOCATOR_AREA_END < c + sz" using tgt by (simp add: word_less_nat_alt)
    then show ?thesis using 1(1,5) 2(1) f0(1) by (simp add: heap_allocate_def Let_def s3_def flip: s0_def c_def)
  qed
  have v3: "vview s3 = m2" unfolding vview_off [OF off(2)] by (simp add: s3_def)
  have zero: "vview s3 a = 0" if "unat c \<le> unat a" "unat a < unat (c + sz)" for a
    using that 2(2) by (simp add: v3 blk cs)
  have keep: "vview s3 a = vview s a" if a: "a \<in> early_region s" for a
  proof -
    have lt: "\<not> (unat c \<le> unat a \<and> unat a < 0x80000)" using a by (auto simp: region_def early_data_def c_def)
    moreover have "unat c \<le> 4096 * n" using n by (simp add: early_pages_def c_def)
    ultimately have "\<not> (4096 * n \<le> unat a \<and> unat a < 0x80000)" "a \<notin> span c (unat sz)"
      using room [folded c_def] unfolding blk by linarith+
    then show ?thesis
      using 1(6) 2(2) early_region_meta [OF inv a] by (simp add: v3 vview_off [OF off(1)])
  qed
  show ?thesis
    using alloc hp ho zero keep cs by (intro exI [of _ s3]) (auto simp: early_inv_def s3_def c_def)
qed

interpretation eh: kernel_heap early_inv early_data 0 "0x80000"
proof (unfold_locales, goal_cases)
  case (1 s)
  then show ?case by (intro flat_off early_inv_layout(2))
next
  case (2 s)
  show ?case by simp
next
  case (3 s a)
  then show ?case by (auto simp: early_data_def)
next
  case (4 s s')
  have eq: "s' = s\<lparr>phys := phys s'\<rparr>" using 4(2) by (simp add: same_but_def)
  show ?case
  proof (rule early_inv_agree [OF 4(1)])
    fix b assume "b \<in> early_tables_memory (syms s)"
    then have "b \<notin> early_region s" using early_region_meta [OF 4(1), of b] by (auto simp: early_meta_def)
    then show "phys s' b = phys s b"
      using 4(2) translate_off [OF early_inv_layout(2) [OF 4(1)]] by (auto simp: same_but_def)
  qed (subst eq, simp)+
next
  case (5 s s')
  then show ?case by (intro early_inv_agree [of s s']) simp_all
next
  case (6 s n)
  then show ?case by (rule early_allocate)
qed

end
