(* ===== verification/Early_Boot.thy ===== *)
theory Early_Boot
  imports Boot Early_Heap
begin

text \<open>
  The filesystem where \<open>kmain\<close> initialises it: before paging, on the heap of \<open>Early_Heap\<close>. The two results are that
  \<open>init_filesystem\<close> loads the RAM disk, and that a boot with everything in order comes to its end.
\<close>

unbundle bit_operations_syntax

interpretation fe: filesystem early_inv early_data 0 "0x80000"
  by unfold_locales

text \<open>What the boot loader leaves of the memory manager: paging off, its variables and its arrays zero.\<close>

definition before_paging :: "'a mm_scheme \<Rightarrow> bool" where
  "before_paging s \<longleftrightarrow> \<not> paging_on s \<and> layout_ok (syms s) \<and> heap_current s = 0 \<and> heap_mapped s = 0 \<and>
     (\<forall>a\<in>early_tables_memory (syms s). phys s a = 0)"

lemma before_paging_inv:
  assumes "before_paging s"
  shows "early_inv s"
proof -
  let ?sy = "syms s"
  have z: "phys s a = 0" if "a \<in> early_tables_memory ?sy" for a
    using assms that by (simp_all add: before_paging_def)
  have l: "layout_ok ?sy" using assms by (simp add: before_paging_def)
  have k: "in_kernel (page_frame_bitmap ?sy) 7392" "in_kernel (page_table_bitmap ?sy) 7392" using l by (simp_all add: layout_ok_def)
  have pd: "page_aligned (page_directory ?sy)" using layout_aligned [OF l] by simp
  have "load32 (phys s) (page_directory ?sy + 4 * i) = 0" if i: "i < 1024" for i
  proof (rule load32_zero, rule z)
    fix j :: u32 assume "j \<le> 3"
    then show "page_directory ?sy + 4 * i + j \<in> early_tables_memory ?sy"
      using entry_page [OF pd i] by (simp add: early_tables_memory_def)
  qed
  moreover have "used (phys s) (page_table_bitmap ?sy) 32 = {}"
    by (rule used_zero [OF k(2)]) (use z in \<open>simp_all add: early_tables_memory_def\<close>)
  moreover have "used (phys s) (page_frame_bitmap ?sy) PAGE_FRAME_BITMAP_SIZE = {}"
    by (rule used_zero [OF k(1)]) (use z in \<open>simp_all add: early_tables_memory_def\<close>)
  ultimately have "early False 0 s" using assms by (simp add: before_paging_def early_def early_tables_def)
  then show ?thesis
    using assms unfolding early_inv_def early_pages_def before_paging_def by (intro exI [of _ 0]) simp
qed

lemma before_paging_dev: "before_paging s \<Longrightarrow> before_paging (s\<lparr>dev := d\<rparr>)"
  by (simp add: before_paging_def paging_on_def)

lemma filesystem_loads:
  assumes "before_paging s" "init_ready (image s) (early_data (syms s)) (phys s) nm a files e" "length files \<le> 1212"
  shows "\<exists>s' es. init_filesystem a e s = Inr s' \<and> root s' = 0 \<and> dir_at (image s) (phys s') (root s') nm es (map file_of files) \<and>
    unat (heap_current s') = 592 + 432 * length files \<and> \<not> paging_on s' \<and>
    (\<forall>x\<in>early_data (syms s). x \<notin> test_memory (image s) \<longrightarrow> phys s' x = phys s x)"
proof -
  have inv: "early_inv s" by (rule before_paging_inv [OF assms(1)])
  have h: "heap_current s = 0" and off: "\<not> paging_on s" using assms(1) by (simp_all add: before_paging_def)
  have reg: "early_region s = early_data (syms s)" by (simp add: region_def h)
  have r: "eh.runs s (phys s)" using eh.runs_view [OF inv] by (simp add: vview_off [OF off])
  have al: "word_aligned (heap_current s)" by (simp add: h word_aligned_def)
  have room: "unat (heap_current s) + 592 + 432 * length files \<le> 0x80000" using assms(3) by (simp add: h)
  obtain s' m' es where s': "init_filesystem a e s = Inr s'" "heap_only (s\<lparr>root := 0\<rparr>) s'"
    "unat (heap_current s') = 592 + 432 * length files" "eh.runs s' m'" "dir_at (image s) m' 0 nm es (map file_of files)"
    "dir_memory 0 es \<subseteq> early_region s'" "\<forall>x\<in>early_data (syms s). x \<notin> test_memory (image s) \<longrightarrow> m' x = phys s x"
    using fe.init_filesystem_ok [OF r al room assms(2) [folded reg]] unfolding ok_def reg by (auto simp: h)
  have sy: "syms s' = syms s" "root s' = 0" using heap_only_same(1) [OF s'(2)] heap_only_image [OF s'(2)] by simp_all
  have off': "\<not> paging_on s'" using heap_only_same(2) [OF s'(2)] off by (simp add: paging_on_def)
  have v: "phys s' x = m' x" if "x \<in> early_region s'" for x
    using s'(4) that by (simp add: eh.runs_def holds_def vview_off [OF off'])
  have "dir_at (image s) (phys s') 0 nm es (map file_of files)"
    by (rule dir_at_cong [OF s'(5)]) (use v s'(6) in blast)
  moreover have "phys s' x = phys s x" if "x \<in> early_data (syms s)" "x \<notin> test_memory (image s)" for x
    using v [of x] s'(7) that by (simp add: region_def sy)
  ultimately show ?thesis using s'(1,3) sy(2) off' by auto
qed

text \<open>
  C6: at boot \<open>init_filesystem\<close> loads the RAM disk. From the state the boot loader leaves, with the literals and the disk in memory, it
  returns, its self-test passed, for at most 1212 files of at most 99 bytes each, if the last byte of the array \<open>test\<close>, which nothing
  initialises, is zero (\<open>init_ready\<close>). The root directory has the name of the literal and lists the files of the disk in the order
  of their blocks, each with its name and contents and its position at the end. It lies at address 0, as the heap is not set up yet. Of
  \<open>early_data\<close>, the kernel's image and what lies behind it but not the page directory and the bitmaps, which the heap
  writes, nothing changes but the three local arrays.
\<close>

theorem init_filesystem_loads:
  assumes "before_paging s" "init_ready (image s) (early_data (syms s)) (phys s) nm a files e" "length files \<le> 1212"
  shows "\<exists>s' es. init_filesystem a e s = Inr s' \<and> root s' = 0 \<and> dir_at (image s) (phys s') (root s') nm es (map file_of files) \<and>
    unat (heap_current s') = 592 + 432 * length files \<and> \<not> paging_on s' \<and>
    (\<forall>x\<in>early_data (syms s). x \<notin> test_memory (image s) \<longrightarrow> phys s' x = phys s x)"
  by (rule filesystem_loads [OF assms])

text \<open>A machine that boots with a disk of one file, \<open>a\<close> with the contents \<open>hi\<close>.\<close>

definition disk_words :: "(u32 \<times> u32) list" where
  "disk_words = [(0x9014, 1), (0x9018, 0xB000), (0xB000, 0x150000), (0xB004, 0x150086), (0x110000, 0x746F6F72),
     (0x110010, 0x74736554), (0x110014, 0x6C694620), (0x110018, 0x65), (0x150000, 2), (0x150004, 0x61), (0x150084, 0x6968)]"

definition disk_machine :: tasking where
  "disk_machine = boot_tasking 0 \<lparr>head = 0, tail = 0\<rparr>\<lparr>phys := words disk_words (\<lambda>_. 0)\<rparr>"

lemma words_outside: "(\<And>w v. (w, v) \<in> set ws \<Longrightarrow> a \<notin> span w 4) \<Longrightarrow> words ws m a = m a"
  by (induction ws m rule: words.induct) (auto intro!: trans [OF store32_outside])

lemma disk_machine_fields [simp]:
  "\<not> paging_on disk_machine" "syms disk_machine = boot_symbols" "heap_current disk_machine = 0" "heap_mapped disk_machine = 0"
  "image disk_machine = boot_image" "phys disk_machine = words disk_words (\<lambda>_. 0)"
  by (simp_all add: disk_machine_def boot_tasking_def boot_cpu_def boot_keyboard_def boot_timer_def boot_tty_def paging_on_def
    cpu.defs keyboard.defs timer.defs tty.defs tasking.defs)

lemma early_tables_range: "a \<in> early_tables_memory boot_symbols \<Longrightarrow> 0x200000 \<le> unat a"
  using page_range [of "0x200000" a]
  by (auto simp: early_tables_memory_def boot_symbols_def page_aligned_def span_iff)

lemma early_data_span:
  assumes "0x100000 \<le> unat p" "unat p + n < 0x200000"
  shows "span p n \<subseteq> early_data boot_symbols"
proof
  fix a assume "a \<in> span p n"
  then have "unat p \<le> unat a" "unat a < unat p + n" using assms span_iff [of p n a] by auto
  then show "a \<in> early_data boot_symbols"
    using assms early_tables_range [of a] by (auto simp: early_data_def)
qed

lemma disk_before_paging: "before_paging disk_machine"
proof -
  have "words disk_words (\<lambda>_. 0) a = 0" if "a \<in> early_tables_memory boot_symbols" for a
    using early_tables_range [OF that] by (subst words_outside) (auto simp: disk_words_def span_iff)
  then show ?thesis using boot_layout by (simp add: before_paging_def)
qed

lemma disk_ready: "init_ready boot_image (early_data boot_symbols) (words disk_words (\<lambda>_. 0)) [0x72, 0x6F, 0x6F, 0x74] 0x150000
  [([0x61], [0x68, 0x69])] 0x150086"
proof -
  let ?m = "words disk_words (\<lambda>_. 0)"
  have ld: "load32 ?m 0x150000 = 2" by (simp add: disk_words_def load_store32_other word_aligned_def)
  have lits: "?m 0x110000 = 0x72" "?m 0x110001 = 0x6F" "?m 0x110002 = 0x6F" "?m 0x110003 = 0x74" "?m 0x110004 = 0"
    "?m 0x110163 = 0" "?m 0x150004 = 0x61" "?m 0x150005 = 0" "?m 0x150084 = 0x68" "?m 0x150085 = 0x69" "?m 0x150086 = 0"
    by (simp_all add: disk_words_def store32_def)
  have "?m 0x110010 = 0x54" "?m 0x110011 = 0x65" "?m 0x110012 = 0x73" "?m 0x110013 = 0x74" "?m 0x110014 = 0x20"
    "?m 0x110015 = 0x46" "?m 0x110016 = 0x69" "?m 0x110017 = 0x6C" "?m 0x110018 = 0x65" "?m 0x110019 = 0"
    by (simp_all add: disk_words_def store32_def)
  then have names: "name_at ?m 0x110010 [0x54, 0x65, 0x73, 0x74, 0x20, 0x46, 0x69, 0x6C, 0x65]" "name_at ?m 0x110000 [0x72, 0x6F, 0x6F, 0x74]"
      "name_at ?m 0x150004 [0x61]"
    using lits by (simp_all add: name_at_def bytes_def upt_rec)
  have disk: "disk_at ?m 0x150000 [([0x61], [0x68, 0x69])] 0x150086"
    using names(3) ld lits by (simp add: block_size_def block_name_def sizeof_block_def bytes_def upt_rec)
  have "disk_memory 0x150000 0x150086 \<subseteq> early_data boot_symbols"
    using early_data_span [of "0x150000" "0x87"] by (auto simp: disk_memory_def span_iff)
  moreover have "test_memory boot_image \<subseteq> early_data boot_symbols"
    by (simp add: test_memory_def boot_image_def early_data_span)
  moreover have "span 0x110010 10 \<inter> test_memory boot_image = {}"
    by (simp add: test_memory_def boot_image_def Int_Un_distrib span_range)
  moreover have "span (local_test_data boot_image) 5 \<inter> span (local_test_buffer boot_image) 5 = {}"
    by (simp add: boot_image_def span_range)
  have sp: "span 0x110010 128 \<subseteq> early_data boot_symbols" "span 0x110000 128 \<subseteq> early_data boot_symbols"
    by (simp_all add: early_data_span)
  have "cstring_in (early_data boot_symbols) ?m 0x110010 9"
    using name_cstring [OF names(1) sp(1)] by (simp add: eval_nat_numeral)
  then have "\<exists>n<128. cstring_in (early_data boot_symbols) ?m 0x110010 n \<and> span 0x110010 (Suc n) \<inter> test_memory boot_image = {}"
    using calculation(3) by (intro exI [of _ 9]) simp
  moreover note name_cstring [OF names(2) sp(2)]
  ultimately show ?thesis
    unfolding init_ready_def using disk lits by (simp add: boot_image_def image_ok_def span_range)
qed

theorem init_filesystem_loads_witness:
  "\<exists>s' es. init_filesystem 0x150000 0x150086 disk_machine = Inr s' \<and>
     dir_at boot_image (phys s') 0 [0x72, 0x6F, 0x6F, 0x74] es [\<lparr>fname = [0x61], fpos = 2, fdata = [0x68, 0x69]\<rparr>]"
  using init_filesystem_loads [of disk_machine, OF disk_before_paging, unfolded disk_machine_fields, OF disk_ready]
  by (auto simp: file_of_def simp flip: numeral_2_eq_2)

section \<open>Adding a file to a directory\<close>

text \<open>A directory in memory with the files \<open>fs\<close>, the \<open>i\<close>-th of them at the \<open>i\<close>-th entry of \<open>es\<close>.\<close>

definition directory_in :: "'a fs_scheme \<Rightarrow> u32 \<Rightarrow> u8 list \<Rightarrow> entry list \<Rightarrow> ramfile list \<Rightarrow> bool" where
  "directory_in s d nm es fs \<longleftrightarrow> early_inv s \<and> dir_at (image s) (phys s) d nm es fs \<and> dir_memory d es \<subseteq> early_region s"

text \<open>
  C11: \<open>fs_add_dirent\<close> appends to the list a directory stands for: a file in memory of its own becomes the last file of the
  directory, behind the others in their order, with the new entry on the heap; the other files and the rest of
  the memory stay. The entry must not come to lie at address 0.
\<close>

theorem fs_add_dirent_appends:
  assumes "directory_in s d nm es fs" "file_at (image s) (phys s) p b f" "footprint p b \<subseteq> early_region s - dir_memory d es"
    and "heap_current s \<noteq> 0" "word_aligned (heap_current s)" "unat (heap_current s) + 8 \<le> 0x80000"
  shows "\<exists>s'. fs_add_dirent d p s = Inr s' \<and> directory_in s' d nm (es @ [(heap_current s, p, b)]) (fs @ [f]) \<and>
    unat (heap_current s') = unat (heap_current s) + 8 \<and>
    (\<forall>x\<in>early_region s. x \<notin> dir_memory d es \<longrightarrow> phys s' x = phys s x)"
proof -
  let ?q = "heap_current s" and ?m = "appended_entry d es (heap_current s) p (phys s)"
  have inv: "early_inv s" and d: "dir_at (image s) (phys s) d nm es fs" "dir_memory d es \<subseteq> early_region s"
    using assms(1) by (simp_all add: directory_in_def)
  have fp: "footprint p b \<subseteq> early_region s" "footprint p b \<inter> dir_memory d es = {}" using assms(3) by auto
  have r: "eh.runs s (phys s)" using eh.runs_view [OF inv] by (simp add: vview_off [OF early_inv_layout(2) [OF inv]])
  obtain s' where s': "fs_add_dirent d p s = Inr s'" "heap_only s s'" "unat (heap_current s') = unat ?q + 8" "eh.runs s' ?m"
    using fe.add_dirent_ok [OF r d assms(2) fp assms(4-6)] unfolding ok_def by auto
  have inv': "early_inv s'" using s'(4) by (simp add: eh.runs_def)
  have v: "phys s' x = ?m x" if "x \<in> early_region s'" for x
    using s'(4) that by (simp add: eh.runs_def holds_def vview_off [OF early_inv_layout(2) [OF inv']])
  have lim: "unat (heap_current s') \<le> 0x80000" using s'(3) assms(6) by simp
  have new: "span ?q 8 \<subseteq> early_region s'" "span ?q 8 \<inter> early_region s = {}"
    using eh.fresh_block [OF r s'(2) lim, of ?q 8] s'(3) by simp_all
  have up: "early_region s \<subseteq> early_region s'" using eh.region_grows [OF s'(2)] s'(3) by simp
  have dir: "dir_at (image s) ?m d nm (es @ [(?q, p, b)]) (fs @ [f])"
    by (rule dir_at_append [OF d new(2) assms(2) fp assms(4,5)])
  have mem: "dir_memory d (es @ [(?q, p, b)]) \<subseteq> early_region s'"
    using new(1) fp(1) d(2) up by (auto simp: dir_memory_def)
  have "dir_at (image s) (phys s') d nm (es @ [(?q, p, b)]) (fs @ [f])"
    by (rule dir_at_cong [OF dir], rule v, rule subsetD [OF mem])
  then have "directory_in s' d nm (es @ [(?q, p, b)]) (fs @ [f])"
    using inv' mem heap_only_image [OF s'(2)] by (simp add: directory_in_def)
  moreover have "phys s' x = phys s x" if "x \<in> early_region s" "x \<notin> dir_memory d es" for x
  proof -
    have x: "x \<notin> span ?q 8" "x \<in> early_region s'" using that(1) new(2) up by blast+
    have da: "dir_apart d es" "dirents (phys s) (load32 (phys s) (directory_head d)) es" "word_aligned d"
      using d(1) by (simp_all add: dir_at_def)
    show ?thesis using v [OF x(2)] appended_entry_outside [OF da x(1) that(2)] by simp
  qed
  ultimately show ?thesis using s'(1,3) by auto
qed

definition dir_machine :: tasking where
  "dir_machine = disk_machine\<lparr>phys := words ((0x122080, FS_DIRECTORY) # file_words) (\<lambda>_. 0)\<rparr>"

theorem fs_add_dirent_appends_witness:
  "\<exists>(s :: tasking) s'. fs_add_dirent 0x122000 0x120000 s = Inr s' \<and>
     directory_in s' 0x122000 [] [(8, 0x120000, 0x130000)] [\<lparr>fname = [], fpos = 0, fdata = []\<rparr>]"
proof -
  define m where "m = words ((0x122080, FS_DIRECTORY) # file_words) (\<lambda>_. 0)"
  let ?f = "\<lparr>fname = [], fpos = 0, fdata = []\<rparr>"
  have dm: "dir_machine = disk_machine\<lparr>phys := m\<rparr>" by (simp only: dir_machine_def m_def)
  have f: "syms dir_machine = boot_symbols" "heap_current dir_machine = 0" "image dir_machine = boot_image" "phys dir_machine = m" "\<not> paging_on dir_machine"
    using disk_machine_fields by (simp_all add: dm paging_on_def)
  have "m a = 0" if "a \<in> early_tables_memory boot_symbols" for a
    using early_tables_range [OF that] unfolding m_def by (subst words_outside) (auto simp: file_words_def span_iff)
  then have inv: "early_inv dir_machine"
    using disk_before_paging by (intro before_paging_inv) (simp add: before_paging_def dm paging_on_def)
  obtain s where s: "early_inv s" "heap_only dir_machine s" "unat (heap_current s) = 8" "\<forall>a\<in>early_region dir_machine. vview s a = vview dir_machine a"
    using early_allocate [OF inv, of 8] f(2) by auto
  have h: "heap_current s = 8" using s(3) by (simp add: word_unat_eq_iff)
  have sy: "syms s = boot_symbols" "image s = boot_image" using heap_only_same(1) [OF s(2)] heap_only_image [OF s(2)] f by simp_all
  have sub: "span p n \<subseteq> early_region dir_machine" if "0x100000 \<le> unat p" "unat p + n < 0x200000" for p n
    using early_data_span [OF that] by (auto simp: region_def f)
  have up: "early_region dir_machine \<subseteq> early_region s" by (simp add: region_def f sy)
  have v: "phys s a = m a" if "a \<in> early_region dir_machine" for a
    using s(4) that vview_off [OF early_inv_layout(2) [OF s(1)]] vview_off [OF f(5)] f(4) by auto
  have ld: "load32 m 0x120080 = 0" "load32 m 0x120084 = 0x100100" "load32 m 0x120088 = 0x100200" "load32 m 0x12008C = 0x100300"
    "load32 m 0x120098 = 0" "load32 m 0x12009C = 0x130000" "load32 m 0x1200A0 = 0" "load32 m 0x1200A4 = 256"
    "load32 m 0x122080 = FS_DIRECTORY" "load32 m 0x122098 = 0" "load32 m 0x12209C = 0" "load32 m 0x1220A0 = 0"
    by (simp_all add: m_def file_words_def load_store32_other word_aligned_def load32_zero)
  have z: "m 0x120000 = 0" "m 0x122000 = 0" by (simp_all add: m_def file_words_def store32_def)
  have fl: "file_at boot_image m 0x120000 0x130000 ?f"
    by (simp add: file_at_def functions_at_def name_at_def field_defs ld z word_aligned_def FS_FILE_def boot_image_def bytes_def span_range)
  have dir: "dir_at boot_image m 0x122000 [] [] []"
    by (simp add: dir_at_def name_at_def field_defs ld z word_aligned_def bytes_def dir_apart_def)
  have mem: "dir_memory 0x122000 [] = span 0x122000 168" by (simp add: dir_memory_def)
  have "file_at boot_image (phys s) 0x120000 0x130000 ?f"
    by (rule file_at_cong [OF fl], rule v) (use sub [of "0x120000" 168] sub [of "0x130000" 256] in \<open>auto simp: footprint_def\<close>)
  moreover have "dir_at boot_image (phys s) 0x122000 [] [] []"
    by (rule dir_at_cong [OF dir], rule v) (use sub [of "0x122000" 168] in \<open>auto simp: mem\<close>)
  then have "directory_in s 0x122000 [] [] []" using s(1) sub [of "0x122000" 168] up by (auto simp: directory_in_def sy mem)
  moreover have "footprint 0x120000 0x130000 \<subseteq> early_region s - dir_memory 0x122000 []"
  proof -
    have "span 0x120000 168 \<inter> span 0x122000 168 = {}" "span 0x130000 256 \<inter> span 0x122000 168 = {}" by (simp_all add: span_range)
    then show ?thesis using sub [of "0x120000" 168] sub [of "0x130000" 256] up by (auto simp: mem footprint_def)
  qed
  ultimately show ?thesis
    using fs_add_dirent_appends [of s "0x122000" "[]" "[]" "[]" "0x120000" "0x130000" ?f] h by (auto simp: sy word_aligned_def)
qed

section \<open>The boot to its end\<close>

text \<open>
  C8: with everything in order the boot comes to its end. When the boot loader hands over with the right magic, a memory map that ends, if
  there is one, and a RAM disk inside the kernel area that \<open>init_filesystem\<close> can load, \<open>kmain\<close> neither faults nor hangs: it ends in the panic \<open>stop\<close> behind
  the initialisation of the filesystem.
\<close>

theorem kmain_stops:
  assumes "before_paging s" "magic = MULTIBOOT_BOOTLOADER_MAGIC" "load32 (phys s) (mbd_mods_count mbd) \<noteq> 0"
    and "load32 (phys s) (mbd_flags mbd) AND MULTIBOOT_INFO_MEM_MAP \<noteq> 0 \<longrightarrow> (\<exists>k. map_end (phys s) mbd \<le> map_entry (phys s) mbd k)"
    and "a = load32 (phys s) (load32 (phys s) (mbd_mods_addr mbd))" "e = load32 (phys s) (load32 (phys s) (mbd_mods_addr mbd) + 4)" "e \<le> KERNEL_END"
    and "init_ready (image s) (early_data (syms s)) (phys s) nm a files e" "length files \<le> 1212"
  shows "kmain mbd magic s = Inl (Panic ''stop'')"
proof -
  have off: "\<not> paging_on s" using assms(1) by (simp add: before_paging_def)
  have loads: "\<exists>s'. init_filesystem a e (s\<lparr>dev := d\<rparr>) = Inr s'" for d
    using filesystem_loads [OF before_paging_dev [OF assms(1)], of d nm a files e] assms(8,9) by auto
  have "\<not> (load32 (phys s) (mbd_flags mbd) AND MULTIBOOT_INFO_MEM_MAP \<noteq> 0 \<and> (\<forall>k. map_entry (phys s) mbd k < map_end (phys s) mbd))"
    using assms(4) by (meson leD)
  then show ?thesis
    using kmain_result [OF off, of mbd magic] assms(2,3,7) loads unfolding assms(5,6) Let_def by (auto split: sum.splits)
qed

theorem kmain_stops_witness: "kmain 0x9000 0x2BADB002 disk_machine = Inl (Panic ''stop'')"
  by (rule kmain_stops [where a = "0x150000" and e = "0x150086", OF disk_before_paging, unfolded disk_machine_fields, OF _ _ _ _ _ _ disk_ready])
    (simp_all add: MULTIBOOT_BOOTLOADER_MAGIC_def mbd_mods_count_def mbd_mods_addr_def mbd_flags_def disk_words_def load_store32_other word_aligned_def load32_zero)

end
