(* ===== verification/Disk_Image.thy ===== *)
theory Disk_Image
  imports Early_Boot
begin

text \<open>
  The script \<open>initfs/make_initrd.py\<close> that packs files into the RAM disk, and the round trip through the kernel: what the
  script packs is what \<open>init_filesystem\<close> loads.
\<close>

unbundle bit_operations_syntax

section \<open>The script\<close>

text \<open>
  \<open>struct.pack\<close> with the formats \<open>I\<close>, which fails on what does not fit 32 bits, and \<open>128s\<close>, which cuts a
  long string off and fills a short one with zeros. The files come in the order of \<open>os.listdir\<close>, their names encoded.
\<close>

definition pack_size :: "nat \<Rightarrow> u8 list option" where
  "pack_size n = (if n < 2 ^ 32 then Some (map (\<lambda>i. ucast (drop_bit (8 * i) (word_of_nat n :: u32))) [0..<4]) else None)"

definition pack_name :: "u8 list \<Rightarrow> u8 list" where
  "pack_name nm = take 128 (nm @ replicate 128 0)"

fun make_initrd :: "(u8 list \<times> u8 list) list \<Rightarrow> u8 list option" where
  "make_initrd [] = Some []"
| "make_initrd ((nm, bs) # files) = Option.bind (pack_size (length bs)) (\<lambda>size.
     Option.bind (make_initrd files) (\<lambda>rest. Some (size @ pack_name nm @ bs @ rest)))"

section \<open>Lemmas\<close>

lemma bytes_append:
  "bytes m a (length (xs @ ys)) = xs @ ys \<longleftrightarrow> bytes m a (length xs) = xs \<and> bytes m (a + word_of_nat (length xs)) (length ys) = ys"
proof -
  have "bytes m a (j + k) = bytes m a j @ bytes m (a + word_of_nat j) k" for j k
    by (intro nth_equalityI) (auto simp: nth_bytes nth_append of_nat_diff)
  then show ?thesis by simp
qed

lemma pack_name_short: "length nm < 128 \<Longrightarrow> pack_name nm = nm @ 0 # replicate (127 - length nm) 0"
  by (simp add: pack_name_def take_replicate min_absorb1 Suc_diff_le flip: replicate_Suc)

lemma length_pack: "pack_size n = Some bs \<Longrightarrow> length bs = 4" "length (pack_name nm) = 128"
  by (auto simp: pack_size_def pack_name_def split: if_splits)

lemma packed_size: "pack_size n = Some bs \<Longrightarrow> bytes m a 4 = bs \<Longrightarrow> load32 m a = word_of_nat n"
  using bytes_of_word [of "word_of_nat n"] by (auto simp: pack_size_def bytes_def load32_def upt_rec split: if_splits)

lemma packed_name: "length nm < 128 \<Longrightarrow> 0 \<notin> set nm \<Longrightarrow> bytes m p 128 = pack_name nm \<Longrightarrow> name_at m p nm"
proof -
  assume nm: "length nm < 128" "0 \<notin> set nm" "bytes m p 128 = pack_name nm"
  let ?r = "replicate (127 - length nm) 0 :: u8 list"
  have "length (nm @ 0 # ?r) = 128" using nm(1) by simp
  then have "bytes m p (length (nm @ 0 # ?r)) = nm @ 0 # ?r" using nm(3) pack_name_short [OF nm(1)] by simp
  then have b: "bytes m p (length nm) = nm" "bytes m (p + word_of_nat (length nm)) (length (0 # ?r)) = 0 # ?r"
    unfolding bytes_append by blast+
  have "m (p + word_of_nat (length nm)) = 0"
    using arg_cong [OF b(2), of "\<lambda>xs. xs ! 0"] nth_bytes [of 0 "length (0 # ?r)" m "p + word_of_nat (length nm)"] by simp
  then show "name_at m p nm" using nm(1,2) b(1) by (simp add: name_at_def)
qed

lemma packed_disk:
  assumes "make_initrd files = Some img" "bytes m a (length img) = img" "unat a + length img < 2 ^ 32"
    and "\<forall>(nm, bs)\<in>set files. length nm < 128 \<and> 0 \<notin> set nm"
  shows "disk_at m a files (a + word_of_nat (length img))"
  using assms
proof (induction files arbitrary: a img)
  case (Cons f files)
  obtain nm bs where f: "f = (nm, bs)" by (cases f)
  obtain size rest where p: "pack_size (length bs) = Some size" "make_initrd files = Some rest" "img = size @ pack_name nm @ bs @ rest"
    using Cons.prems(1) by (auto simp: f bind_eq_Some_conv)
  note len = length_pack(1) [OF p(1)] length_pack(2) [of nm]
  have n: "length nm < 128" "0 \<notin> set nm" using Cons.prems(4) by (simp_all add: f)
  have b: "bytes m a 4 = size" "bytes m (a + 4) 128 = pack_name nm" "bytes m (a + 132) (length bs) = bs"
    "bytes m (a + (132 + word_of_nat (length bs))) (length rest) = rest"
    using Cons.prems(2) unfolding p(3) bytes_append len by (simp_all add: add.assoc len)
  have total: "length img = 132 + length bs + length rest" by (simp add: p(3) len)
  have e: "unat (a + word_of_nat (length img)) = unat a + length img"
    using Cons.prems(3) by (simp add: unat_word_ariths unat_of_nat)
  have next_a: "unat (a + (132 + word_of_nat (length bs))) = unat a + 132 + length bs"
    using Cons.prems(3) total by (simp add: unat_word_ariths unat_of_nat)
  have "disk_at m (a + (132 + word_of_nat (length bs))) files (a + (132 + word_of_nat (length bs)) + word_of_nat (length rest))"
    using Cons.IH [OF p(2) b(4)] Cons.prems(3,4) total next_a by simp
  then show ?case
    using e total packed_size [OF p(1) b(1)] packed_name [OF n b(2)] b(3)
    by (simp add: f sizeof_block_def block_size_def block_name_def add.assoc)
qed simp

section \<open>Properties\<close>

text \<open>
  C7: files survive the RAM disk. When the boot loader has copied what the script packed to address \<open>a\<close>, \<open>init_filesystem\<close>
  builds a root directory that lists exactly the packed files in their order, each with its name and its contents, provided
  that there are at most 1212, the names are shorter than their 128 bytes and without a zero byte, no file is longer than 99 bytes, and the
  kernel is ready for a disk that ends there (\<open>init_ready\<close>, which takes the last byte of the uninitialised array \<open>test\<close> to be zero).
\<close>

theorem packed_files_are_loaded:
  assumes "before_paging s" "make_initrd files = Some img" "bytes (phys s) a (length img) = img" "unat a + length img < 2 ^ 32"
    and "e = a + word_of_nat (length img)" "init_ready (image s) (early_data (syms s)) (phys s) nm e [] e" "disk_memory a e \<subseteq> early_data (syms s)"
    and "\<forall>(nm, bs)\<in>set files. length nm < 128 \<and> 0 \<notin> set nm \<and> length bs \<le> 99" "length files \<le> 1212"
  shows "\<exists>s' es. init_filesystem a e s = Inr s' \<and> dir_at (image s) (phys s') (root s') nm es
    (map (\<lambda>(nm, bs). \<lparr>fname = nm, fpos = length bs, fdata = bs\<rparr>) files)"
proof -
  have "disk_at (phys s) a files e" unfolding assms(5) using assms(8) by (intro packed_disk [OF assms(2-4)]) auto
  then have "init_ready (image s) (early_data (syms s)) (phys s) nm a files e"
    using assms(6-8) unfolding init_ready_def by auto
  from filesystem_loads [OF assms(1) this assms(9)] show ?thesis by (auto simp: file_of_def)
qed

text \<open>The disk of \<open>disk_machine\<close> is the packed one.\<close>

lemma packed_disk_machine:
  "make_initrd [([0x61], [0x68, 0x69])] = Some ([2, 0, 0, 0] @ pack_name [0x61] @ [0x68, 0x69])"
  "bytes (phys disk_machine) 0x150000 (length ([2, 0, 0, 0] @ pack_name [0x61] @ [0x68, 0x69])) = [2, 0, 0, 0] @ pack_name [0x61] @ [0x68, 0x69]"
proof -
  show "make_initrd [([0x61], [0x68, 0x69])] = Some ([2, 0, 0, 0] @ pack_name [0x61] @ [0x68, 0x69])"
    by (simp add: pack_size_def upt_rec)
  let ?m = "words disk_words (\<lambda>_. 0)"
  have ends: "bytes ?m 0x150000 4 = [2, 0, 0, 0]" "bytes ?m 0x150084 2 = [0x68, 0x69]"
    and name: "?m 0x150004 = 0x61" "?m 0x150005 = 0" "?m 0x150006 = 0" "?m 0x150007 = 0"
    by (simp_all add: bytes_def upt_rec disk_words_def store32_def)
  have rest: "?m (0x150004 + word_of_nat i) = 0" if "4 \<le> i" "i < 128" for i
  proof -
    have "unat (0x150004 + word_of_nat i :: u32) = 0x150004 + i" using that by (simp add: unat_word_ariths unat_of_nat)
    then show ?thesis using that by (subst words_outside) (auto simp: disk_words_def span_iff)
  qed
  have p: "pack_name [0x61] = 0x61 # replicate 127 (0 :: u8)" by (simp add: pack_name_def flip: replicate_Suc)
  have "bytes ?m 0x150004 128 = pack_name [0x61]"
  proof (rule nth_equalityI)
    fix i assume "i < length (bytes ?m 0x150004 128)"
    then consider "i = 0" | "i = 1" | "i = 2" | "i = 3" | "4 \<le> i" "i < 128" by fastforce
    then show "bytes ?m 0x150004 128 ! i = pack_name [0x61] ! i"
      by cases (simp_all add: nth_bytes p name rest nth_Cons')
  qed (simp add: length_pack)
  then show "bytes (phys disk_machine) 0x150000 (length ([2, 0, 0, 0] @ pack_name [0x61] @ [0x68, 0x69])) = [2, 0, 0, 0] @ pack_name [0x61] @ [0x68, 0x69]"
    unfolding bytes_append using ends by (simp add: length_pack flip: numeral_2_eq_2)
qed

theorem packed_files_are_loaded_witness:
  "\<exists>img s' es. make_initrd [([0x61], [0x68, 0x69])] = Some img \<and> init_filesystem 0x150000 0x150086 disk_machine = Inr s' \<and>
     dir_at boot_image (phys s') (root s') [0x72, 0x6F, 0x6F, 0x74] es [\<lparr>fname = [0x61], fpos = 2, fdata = [0x68, 0x69]\<rparr>]"
proof -
  let ?img = "[2, 0, 0, 0] @ pack_name [0x61] @ [0x68, 0x69]"
  have len: "length ?img = 134" by (simp add: length_pack)
  have sub: "disk_memory 0x150086 0x150086 \<subseteq> disk_memory 0x150000 0x150086" "disk_memory 0x150000 0x150086 \<subseteq> early_data boot_symbols"
    using disk_ready by (auto simp: disk_memory_def init_ready_def)
  have "init_ready boot_image (early_data boot_symbols) (words disk_words (\<lambda>_. 0)) [0x72, 0x6F, 0x6F, 0x74] 0x150086 [] 0x150086"
    using disk_ready sub unfolding init_ready_def by auto
  then show ?thesis
    using packed_files_are_loaded [of disk_machine "[([0x61], [0x68, 0x69])]" ?img "0x150000" "0x150086"] packed_disk_machine disk_before_paging sub(2) len
    by (auto simp flip: numeral_2_eq_2)
qed

end
