(* ===== verification/Boot_Entry.thy ===== *)
theory Boot_Entry
  imports Disk_Image
begin

text \<open>
  The entry of the kernel, \<open>kernel/boot.asm\<close>: the header by which a multiboot loader recognises the kernel, and \<open>start\<close>,
  which hands the two registers of the loader to \<open>kmain\<close>.
\<close>

unbundle bit_operations_syntax

definition MAGIC :: u32 where "MAGIC = 0x1BADB002"
definition FLAGS :: u32 where "FLAGS = 0"
definition CHECKSUM :: u32 where "CHECKSUM = - (MAGIC + FLAGS)"

text \<open>The words at the start of section \<open>.multiboot\<close>, which the linker puts first.\<close>

definition multiboot_header :: "u32 list" where
  "multiboot_header = [MAGIC, FLAGS, CHECKSUM]"

text \<open>
  \<open>kernel_stack_top\<close> and the address behind the call are the linker's. \<open>kmain\<close> finds its parameters behind the return
  address. If it came back the code would halt with interrupts disabled.
\<close>

definition start :: "u32 \<Rightarrow> u32 \<Rightarrow> u32 \<Rightarrow> u32 \<Rightarrow> 'a tasking_scheme \<Rightarrow> stop + 'a tasking_scheme" where
  "start kernel_stack_top return_to loader_eax loader_ebx s =
     (let sp = kernel_stack_top; sp = sp - 4 in
      and_then (vstore32 sp loader_eax s) (\<lambda>s. let sp = sp - 4 in
      and_then (vstore32 sp loader_ebx s) (\<lambda>s. let sp = sp - 4 in
      and_then (vstore32 sp return_to s) (\<lambda>s.
      and_then (vload32 (sp + 4) s) (\<lambda>mbd.
      and_then (vload32 (sp + 8) s) (\<lambda>magic.
      and_then (kmain mbd magic s) (\<lambda>_. Inl Hang)))))))"

text \<open>What \<open>start\<close> leaves on the stack for \<open>kmain\<close>.\<close>

definition entry_frame :: "u32 \<Rightarrow> u32 \<Rightarrow> u32 \<Rightarrow> u32 \<Rightarrow> (u32 \<Rightarrow> u8) \<Rightarrow> (u32 \<Rightarrow> u8)" where
  "entry_frame st return_to loader_eax loader_ebx m = store32 (st - 12) return_to (store32 (st - 8) loader_ebx (store32 (st - 4) loader_eax m))"

text \<open>
  C10: the header is a multiboot header, whose three words add up to zero, and \<open>start\<close> calls \<open>kmain\<close> with the pointer and the
  magic that a multiboot loader leaves in \<open>ebx\<close> and \<open>eax\<close>, having changed only the three words below the top of its
  stack; \<open>kmain\<close> never returns, so the \<open>hlt\<close> behind the call is not reached.
\<close>

theorem start_calls_kmain:
  assumes "\<not> paging_on s" "word_aligned st"
  shows "sum_list multiboot_header = 0 \<and> hd multiboot_header = 0x1BADB002 \<and>
    (\<exists>e. kmain loader_ebx loader_eax (s\<lparr>phys := entry_frame st ret loader_eax loader_ebx (phys s)\<rparr>) = Inl e \<and> start st ret loader_eax loader_ebx s = Inl e) \<and>
    (\<forall>x. x \<notin> span (st - 12) 12 \<longrightarrow> entry_frame st ret loader_eax loader_ebx (phys s) x = phys s x)"
proof (intro conjI allI impI)
  show "sum_list multiboot_header = 0" "hd multiboot_header = 0x1BADB002"
    by (simp_all add: multiboot_header_def MAGIC_def FLAGS_def CHECKSUM_def)
  let ?m = "entry_frame st ret loader_eax loader_ebx (phys s)"
  let ?s = "s\<lparr>phys := ?m\<rparr>"
  have off: "\<not> paging_on (s\<lparr>phys := m\<rparr>)" for m using assms(1) by (simp add: paging_on_def)
  have sto: "vstore32 a v (s\<lparr>phys := m\<rparr>) = Inr (s\<lparr>phys := store32 a v m\<rparr>)" for a v m
    using translate_off [OF off [of m]] by (simp add: vstore32_def)
  have al: "word_aligned (st - 4)" "word_aligned (st - 8)" "word_aligned (st - 12)"
    using word_aligned_plus [OF assms(2), of "- 4"] word_aligned_plus [OF assms(2), of "- 8"] word_aligned_plus [OF assms(2), of "- 12"]
    by (simp_all add: word_aligned_def)
  have ld: "load32 ?m (st - 8) = loader_ebx" "load32 ?m (st - 4) = loader_eax"
    using al by (simp_all add: entry_frame_def load_store32_other)
  have "start st ret loader_eax loader_ebx s = and_then (kmain loader_ebx loader_eax ?s) (\<lambda>_. Inl Hang)"
    using sto [of "st - 4" loader_eax "phys s"] ld load_off [OF off [of ?m]]
    by (simp add: start_def Let_def sto entry_frame_def diff_diff_eq [symmetric])
  moreover obtain e where "kmain loader_ebx loader_eax ?s = Inl e" using kmain_result [OF off [of ?m], of loader_ebx loader_eax] by blast
  ultimately show "\<exists>e. kmain loader_ebx loader_eax ?s = Inl e \<and> start st ret loader_eax loader_ebx s = Inl e" by auto
  show "?m x = phys s x" if "x \<notin> span (st - 12) 12" for x
  proof -
    have "x \<notin> span (st - 12 + word_of_nat k) 4" if "k + 4 \<le> 12" for k
      using span_sub [of k 4 12 "st - 12"] that \<open>x \<notin> span (st - 12) 12\<close> by auto
    from this [of 0] this [of 4] this [of 8] show ?thesis by (simp add: entry_frame_def store32_outside)
  qed
qed

theorem start_calls_kmain_witness:
  "start 0x180000 0x100040 0x2BADB002 0x9100 disk_machine = Inl (Panic ''Module counter shows no ramdisk present'')"
proof -
  let ?m = "entry_frame 0x180000 0x100040 0x2BADB002 0x9100 (words disk_words (\<lambda>_. 0))"
  let ?s = "disk_machine\<lparr>phys := ?m\<rparr>"
  obtain e where e: "kmain 0x9100 0x2BADB002 ?s = Inl e" "start 0x180000 0x100040 0x2BADB002 0x9100 disk_machine = Inl e"
    using start_calls_kmain [of disk_machine "0x180000" "0x9100" "0x2BADB002" "0x100040"] by (auto simp: word_aligned_def)
  have off: "\<not> paging_on ?s" using disk_machine_fields(1) by (simp add: paging_on_def)
  have z: "load32 ?m (mbd_flags 0x9100) = 0" "load32 ?m (mbd_mods_count 0x9100) = 0"
    by (simp_all add: entry_frame_def mbd_flags_def mbd_mods_count_def disk_words_def load_store32_other word_aligned_def load32_zero)
  then have "kmain 0x9100 0x2BADB002 ?s = Inl (Panic ''Module counter shows no ramdisk present'')"
    using kmain_result [OF off, of "0x9100" "0x2BADB002"] by (simp add: MULTIBOOT_BOOTLOADER_MAGIC_def Let_def)
  then show ?thesis using e by simp
qed

end
