(* ===== verification/Interrupt_Stubs.thy ===== *)
theory Interrupt_Stubs
  imports Interrupts
begin

text \<open>
  The entry and exit of interrupts: the stubs of \<open>kernel/interrupts.asm\<close> as lists of instructions, run on the
  registers and the stack, between what the processor does at an interrupt and at \<open>iret\<close>.
\<close>

unbundle bit_operations_syntax

section \<open>The processor\<close>

record cpu_regs =
  r_eax :: u32
  r_ecx :: u32
  r_edx :: u32
  r_ebx :: u32
  r_esp :: u32
  r_ebp :: u32
  r_esi :: u32
  r_edi :: u32
  r_eip :: u32
  r_eflags :: u32
  r_cs :: u16
  r_ds :: u16
  r_es :: u16
  r_fs :: u16
  r_gs :: u16

datatype sreg = DS | ES | FS | GS

text \<open>The instructions the stubs use. \<open>Call_isr_handler\<close> and \<open>Call_irq_handler\<close> are the calls of the C functions.\<close>

datatype instr =
    Cli
  | Sti
  | Push_byte u8
  | Pusha
  | Popa
  | Mov_ax_ds
  | Mov_ax u16
  | Mov_sreg_ax sreg
  | Mov_sreg_bx sreg
  | Push_eax
  | Push_esp
  | Pop_eax
  | Pop_ebx
  | Add_esp u8
  | Call_isr_handler
  | Call_irq_handler
  | Iret

text \<open>
  What a C function leaves in the registers it need not preserve and in the words of its stack frame, from the highest, with those of
  the functions it calls; and the address of the instruction behind its call.
\<close>

record cdecl =
  left_eax :: u32
  left_ecx :: u32
  left_edx :: u32
  left_eflags :: u32
  left_frame :: "u32 list"
  return_address :: u32

fun set_sreg :: "sreg \<Rightarrow> u16 \<Rightarrow> cpu_regs \<Rightarrow> cpu_regs" where
  "set_sreg DS v r = r\<lparr>r_ds := v\<rparr>"
| "set_sreg ES v r = r\<lparr>r_es := v\<rparr>"
| "set_sreg FS v r = r\<lparr>r_fs := v\<rparr>"
| "set_sreg GS v r = r\<lparr>r_gs := v\<rparr>"

text \<open>Pushes of the values \<open>vs\<close>, one after the other, and pops of \<open>n\<close> values.\<close>

fun push_all :: "u32 list \<Rightarrow> cpu_regs \<times> 'a cpu_scheme \<Rightarrow> stop + cpu_regs \<times> 'a cpu_scheme" where
  "push_all [] (r, s) = Inr (r, s)"
| "push_all (v # vs) (r, s) =
     and_then (vstore32 (r_esp r - 4) v s) (\<lambda>s. push_all vs (r\<lparr>r_esp := r_esp r - 4\<rparr>, s))"

fun pop_all :: "nat \<Rightarrow> cpu_regs \<times> 'a cpu_scheme \<Rightarrow> stop + u32 list \<times> cpu_regs" where
  "pop_all 0 (r, s) = Inr ([], r)"
| "pop_all (Suc n) (r, s) =
     and_then (vload32 (r_esp r) s) (\<lambda>v.
     and_then (pop_all n (r\<lparr>r_esp := r_esp r + 4\<rparr>, s)) (\<lambda>(vs, r). Inr (v # vs, r)))"

text \<open>The context a handler is passed a pointer to, read from memory.\<close>

definition context_at :: "u32 \<Rightarrow> 'a machine_scheme \<Rightarrow> context_t" where
  "context_at p s = (let ld = (\<lambda>k. load32 (vview s) (p + k)) in
     \<lparr>ctx_ds = ld 0, ctx_edi = ld 4, ctx_esi = ld 8, ctx_ebp = ld 12, ctx_useless_esp = ld 16, ctx_ebx = ld 20, ctx_edx = ld 24,
      ctx_ecx = ld 28, ctx_eax = ld 32, int_no = ld 36, err_code = ld 40, ctx_eip = ld 44, ctx_cs = ld 48, ctx_eflags = ld 52,
      ctx_esp = ld 56, ctx_ss = ld 60\<rparr>)"

text \<open>
  The call of a handler: the argument is the word behind the return address. The functions read no more of the
  context than \<open>int_no\<close>. Their frames overwrite the stack below the return address; what they compute does not depend on them.
\<close>

definition call_handler :: "cdecl \<Rightarrow> (context_t \<Rightarrow> 'a cpu_scheme \<Rightarrow> stop + 'a cpu_scheme) \<Rightarrow>
    cpu_regs \<times> 'a cpu_scheme \<Rightarrow> stop + cpu_regs \<times> 'a cpu_scheme" where
  "call_handler ce h rs =
     and_then (push_all [return_address ce] rs) (\<lambda>(r, s).
     and_then (vload32 (r_esp r + 4) s) (\<lambda>p.
     and_then (vload32 (p + 36) s) (\<lambda>_.
     let c = context_at p s in
     and_then (push_all (left_frame ce) (r, s)) (\<lambda>(_, s).
     and_then (h c s) (\<lambda>s.
     and_then (pop_all 1 (r, s)) (\<lambda>(_, r).
     Inr (r\<lparr>r_eax := left_eax ce, r_ecx := left_ecx ce, r_edx := left_edx ce, r_eflags := left_eflags ce\<rparr>, s)))))))"

text \<open>
  The effect of an instruction. The flags that \<open>add\<close> would change are replaced by \<open>iret\<close> before anyone reads
  them; an \<open>iret\<close> to another code segment is outside of the model.
\<close>

fun exec :: "cdecl \<Rightarrow> u8 \<Rightarrow> instr \<Rightarrow> cpu_regs \<times> 'a cpu_scheme \<Rightarrow> stop + cpu_regs \<times> 'a cpu_scheme" where
  "exec ce sc Cli (r, s) = Inr (r\<lparr>r_eflags := r_eflags r AND NOT 0x200\<rparr>, s)"
| "exec ce sc Sti (r, s) = Inr (r\<lparr>r_eflags := r_eflags r OR 0x200\<rparr>, s)"
| "exec ce sc (Push_byte b) (r, s) = push_all [scast b] (r, s)"
| "exec ce sc Pusha (r, s) = push_all [r_eax r, r_ecx r, r_edx r, r_ebx r, r_esp r, r_ebp r, r_esi r, r_edi r] (r, s)"
| "exec ce sc Popa (r, s) =
     and_then (pop_all 8 (r, s)) (\<lambda>(vs, r).
     Inr (r\<lparr>r_edi := vs ! 0, r_esi := vs ! 1, r_ebp := vs ! 2, r_ebx := vs ! 4, r_edx := vs ! 5, r_ecx := vs ! 6, r_eax := vs ! 7\<rparr>, s))"
| "exec ce sc Mov_ax_ds (r, s) = Inr (r\<lparr>r_eax := (r_eax r AND 0xFFFF0000) OR ucast (r_ds r)\<rparr>, s)"
| "exec ce sc (Mov_ax w) (r, s) = Inr (r\<lparr>r_eax := (r_eax r AND 0xFFFF0000) OR ucast w\<rparr>, s)"
| "exec ce sc (Mov_sreg_ax sr) (r, s) = Inr (set_sreg sr (ucast (r_eax r)) r, s)"
| "exec ce sc (Mov_sreg_bx sr) (r, s) = Inr (set_sreg sr (ucast (r_ebx r)) r, s)"
| "exec ce sc Push_eax (r, s) = push_all [r_eax r] (r, s)"
| "exec ce sc Push_esp (r, s) = push_all [r_esp r] (r, s)"
| "exec ce sc Pop_eax (r, s) = and_then (pop_all 1 (r, s)) (\<lambda>(vs, r). Inr (r\<lparr>r_eax := vs ! 0\<rparr>, s))"
| "exec ce sc Pop_ebx (r, s) = and_then (pop_all 1 (r, s)) (\<lambda>(vs, r). Inr (r\<lparr>r_ebx := vs ! 0\<rparr>, s))"
| "exec ce sc (Add_esp b) (r, s) = Inr (r\<lparr>r_esp := r_esp r + scast b\<rparr>, s)"
| "exec ce sc Call_isr_handler rs = call_handler ce (\<lambda>c. isr_handler c sc) rs"
| "exec ce sc Call_irq_handler rs = call_handler ce (\<lambda>c. irq_handler c sc) rs"
| "exec ce sc Iret (r, s) =
     and_then (pop_all 3 (r, s)) (\<lambda>(vs, r').
     if ucast (vs ! 1) = r_cs r then Inr (r'\<lparr>r_eip := vs ! 0, r_eflags := vs ! 2\<rparr>, s) else Inl Undefined)"

fun run_code :: "cdecl \<Rightarrow> u8 \<Rightarrow> instr list \<Rightarrow> cpu_regs \<times> 'a cpu_scheme \<Rightarrow> stop + cpu_regs \<times> 'a cpu_scheme" where
  "run_code ce sc [] rs = Inr rs"
| "run_code ce sc (i # code) rs = and_then (exec ce sc i rs) (run_code ce sc code)"

section \<open>The stubs\<close>

definition isr_common_stub :: "instr list" where
  "isr_common_stub =
     [Pusha,
      Mov_ax_ds, Push_eax, Push_esp,
      Mov_ax 0x10, Mov_sreg_ax DS, Mov_sreg_ax ES, Mov_sreg_ax FS, Mov_sreg_ax GS,
      Call_isr_handler,
      Add_esp 4, Pop_eax,
      Mov_sreg_ax DS, Mov_sreg_ax ES, Mov_sreg_ax FS, Mov_sreg_ax GS,
      Popa, Add_esp 8, Sti, Iret]"

definition ISR_NOERRCODE :: "nat \<Rightarrow> instr list" where
  "ISR_NOERRCODE n = [Cli, Push_byte 0, Push_byte (word_of_nat n)] @ isr_common_stub"

definition ISR_ERRCODE :: "nat \<Rightarrow> instr list" where
  "ISR_ERRCODE n = [Cli, Push_byte (word_of_nat n)] @ isr_common_stub"

text \<open>The stub \<open>isr\<close>\<open>n\<close>, for \<open>n\<close> below 32.\<close>

definition isr_code :: "nat \<Rightarrow> instr list" where
  "isr_code n = (if n \<in> {8, 10, 11, 12, 13, 14} then ISR_ERRCODE n else ISR_NOERRCODE n)"

definition irq_common_stub :: "instr list" where
  "irq_common_stub =
     [Pusha,
      Mov_ax_ds, Push_eax, Push_esp,
      Mov_ax 0x10, Mov_sreg_ax DS, Mov_sreg_ax ES, Mov_sreg_ax FS, Mov_sreg_ax GS,
      Call_irq_handler,
      Add_esp 4, Pop_ebx,
      Mov_sreg_bx DS, Mov_sreg_bx ES, Mov_sreg_bx FS, Mov_sreg_bx GS,
      Popa, Add_esp 8, Sti, Iret]"

text \<open>The stub \<open>irq\<close>\<open>n\<close>, for \<open>n\<close> below 16: the macro \<open>IRQ\<close> with \<open>n\<close> and \<open>n + 32\<close>.\<close>

definition irq_code :: "nat \<Rightarrow> instr list" where
  "irq_code n = [Cli, Push_byte 0, Push_byte (word_of_nat (n + 32))] @ irq_common_stub"

section \<open>An interrupt\<close>

text \<open>The code at an address of the image.\<close>

definition code_at :: "stubs \<Rightarrow> u32 \<Rightarrow> instr list option" where
  "code_at st a = map_of (map (\<lambda>n. (isr_fn st n, isr_code n)) [0..<32] @ map (\<lambda>n. (irq_fn st n, irq_code n)) [0..<16]) a"

text \<open>
  What the processor does through a gate of the current privilege level: it pushes the flags, the code segment, the
  address of the next instruction and, for some exceptions, an error code, and enters the gate with interrupts disabled.
\<close>

definition deliver :: "nat \<Rightarrow> u32 option \<Rightarrow> cpu_regs \<times> 'a cpu_scheme \<Rightarrow> stop + cpu_regs \<times> 'a cpu_scheme" where
  "deliver vec err rs = (case rs of (r, s) \<Rightarrow>
     let gate = idt s ! vec in
     if vec < length (idt s) \<and> gate_present gate
     then and_then (push_all ([r_eflags r, ucast (r_cs r), r_eip r] @ (case err of None \<Rightarrow> [] | Some e \<Rightarrow> [e])) rs) (\<lambda>(r, s).
       Inr (r\<lparr>r_eflags := r_eflags r AND NOT 0x14300, r_cs := sel gate, r_eip := gate_offset gate\<rparr>, s))
     else Inl Undefined)"

definition interrupt :: "cdecl \<Rightarrow> u8 \<Rightarrow> nat \<Rightarrow> u32 option \<Rightarrow> cpu_regs \<times> 'a cpu_scheme \<Rightarrow> stop + cpu_regs \<times> 'a cpu_scheme" where
  "interrupt ce sc vec err rs =
     and_then (deliver vec err rs) (\<lambda>(r, s).
     case code_at (stubs s) (r_eip r) of None \<Rightarrow> Inl Undefined | Some code \<Rightarrow> run_code ce sc code (r, s))"

section \<open>Pushes and pops\<close>

definition save_registers :: "instr list" where
  "save_registers = [Pusha, Mov_ax_ds, Push_eax, Push_esp, Mov_ax 0x10, Mov_sreg_ax DS, Mov_sreg_ax ES, Mov_sreg_ax FS, Mov_sreg_ax GS]"

text \<open>A write of the low half of a register.\<close>

abbreviation ax_set :: "u16 \<Rightarrow> u32 \<Rightarrow> u32" where
  "ax_set w v \<equiv> (v AND 0xFFFF0000) OR ucast w"

definition restore_ax :: "instr list" where
  "restore_ax = [Add_esp 4, Pop_eax, Mov_sreg_ax DS, Mov_sreg_ax ES, Mov_sreg_ax FS, Mov_sreg_ax GS, Popa, Add_esp 8, Sti, Iret]"

definition restore_bx :: "instr list" where
  "restore_bx = [Add_esp 4, Pop_ebx, Mov_sreg_bx DS, Mov_sreg_bx ES, Mov_sreg_bx FS, Mov_sreg_bx GS, Popa, Add_esp 8, Sti, Iret]"

definition frame :: "u32 \<Rightarrow> u32 \<Rightarrow> u32 \<Rightarrow> u32 \<Rightarrow> cpu_regs \<Rightarrow> u32 list" where
  "frame b ret vec err r = [ret, b + 8, ax_set (r_ds r) (r_eax r), r_edi r, r_esi r, r_ebp r, b + 44, r_ebx r, r_edx r, r_ecx r,
     r_eax r, vec, err, r_eip r, ucast (r_cs r), r_eflags r]"

text \<open>The registers when the interrupted code goes on: those it had, with the data segment in all segment registers.\<close>

definition resumed :: "cpu_regs \<Rightarrow> cpu_regs" where
  "resumed r = r\<lparr>r_es := r_ds r, r_fs := r_ds r, r_gs := r_ds r\<rparr>"

definition entry :: "u32 option \<Rightarrow> nat \<Rightarrow> instr list" where
  "entry err vec = [Cli] @ (if err = None then [Push_byte 0] else []) @ [Push_byte (word_of_nat vec)]"

definition entry_words :: "u32 option \<Rightarrow> nat \<Rightarrow> cpu_regs \<Rightarrow> u32 list" where
  "entry_words err vec r = [r_eflags r, ucast (r_cs r), r_eip r, case err of None \<Rightarrow> 0 | Some e \<Rightarrow> e, word_of_nat vec]"

definition same_registers :: "cpu_regs \<Rightarrow> cpu_regs \<Rightarrow> bool" where
  "same_registers q r \<longleftrightarrow> r_eax q = r_eax r \<and> r_ecx q = r_ecx r \<and> r_edx q = r_edx r \<and> r_ebx q = r_ebx r \<and> r_ebp q = r_ebp r \<and>
     r_esi q = r_esi r \<and> r_edi q = r_edi r \<and> r_cs q = r_cs r \<and> r_ds q = r_ds r"

definition saved_words :: "u32 \<Rightarrow> cpu_regs \<Rightarrow> u32 list" where
  "saved_words b r = [r_eax r, r_ecx r, r_edx r, r_ebx r, b + 44, r_ebp r, r_esi r, r_edi r, ax_set (r_ds r) (r_eax r), b + 8]"

lemma ucast_ax_set: "ucast (ax_set w v) = w"
proof -
  have m: "(0xFFFF0000 :: u32) = NOT (mask 16)" by (simp add: mask_eq_exp_minus_1)
  show ?thesis unfolding m by (rule bit_word_eqI) (auto simp: bit_simps)
qed

fun pushed :: "u32 \<Rightarrow> u32 list \<Rightarrow> (u32 \<Rightarrow> u8) \<Rightarrow> (u32 \<Rightarrow> u8)" where
  "pushed e [] m = m"
| "pushed e (v # vs) m = pushed (e - 4) vs (store32 (e - 4) v m)"

lemma aligned_down: "word_aligned e \<Longrightarrow> word_aligned (e - 4)"
  using word_aligned_plus [of e "- 4"] by (simp add: word_aligned_def)

lemma aligned_down_by: "word_aligned e \<Longrightarrow> word_aligned (e - 4 * word_of_nat n)"
proof (induction n)
  case (Suc n)
  then show ?case using aligned_down [of "e - 4 * word_of_nat n"] by (simp add: algebra_simps)
qed simp

lemma pushed_append: "pushed e (vs @ ws) m = pushed (e - 4 * word_of_nat (length vs)) ws (pushed e vs m)"
  by (induction e vs m rule: pushed.induct) (simp_all add: algebra_simps)

lemma load_pushed_other:
  assumes "word_aligned e" "word_aligned a" "\<And>j. j < length vs \<Longrightarrow> a \<noteq> e - 4 * word_of_nat (Suc j)"
  shows "load32 (pushed e vs m) a = load32 m a"
  using assms
proof (induction e vs m rule: pushed.induct)
  case (2 e v vs m)
  have "load32 (pushed (e - 4) vs (store32 (e - 4) v m)) a = load32 (store32 (e - 4) v m) a"
  proof (rule 2(1))
    show "word_aligned (e - 4)" "word_aligned a" using 2 aligned_down by blast+
    show "a \<noteq> e - 4 - 4 * word_of_nat (Suc j)" if "j < length vs" for j
      using 2(4) [of "Suc j"] that by (simp add: algebra_simps)
  qed
  also have "\<dots> = load32 m a"
    using 2(4) [of 0] by (intro load_store32_other aligned_down 2) simp
  finally show ?case by simp
qed simp

lemma load_pushed:
  assumes "word_aligned e" "length vs < 2 ^ 28" "i < length vs"
  shows "load32 (pushed e vs m) (e - 4 * word_of_nat (Suc i)) = vs ! i"
  using assms
proof (induction e vs m arbitrary: i rule: pushed.induct)
  case (2 e v vs m)
  show ?case
  proof (cases i)
    case 0
    have "load32 (pushed (e - 4) vs (store32 (e - 4) v m)) (e - 4) = load32 (store32 (e - 4) v m) (e - 4)"
    proof (rule load_pushed_other)
      show "e - 4 \<noteq> e - 4 - 4 * word_of_nat (Suc j)" if "j < length vs" for j
      proof -
        have "unat (4 * word_of_nat (Suc j) :: u32) = 4 * Suc j"
          using that 2(3) by (simp add: unat_word_ariths unat_of_nat del: of_nat_Suc)
        then have "4 * word_of_nat (Suc j) \<noteq> (0 :: u32)" by (metis unat_0 mult_eq_0_iff nat.simps(3) zero_neq_numeral)
        then show ?thesis using diff_eq_eq [of "e - 4" "4 * word_of_nat (Suc j)" "e - 4"] by (metis add_cancel_right_right)
      qed
    qed (use 2(2) aligned_down in blast)+
    then show ?thesis by (simp add: 0)
  next
    case (Suc j)
    then show ?thesis using 2(1) [of j] 2(2-4) aligned_down by (simp add: algebra_simps)
  qed
qed simp

lemma pushed_outside:
  "4 * length vs \<le> 2 ^ 32 \<Longrightarrow> x \<notin> span (e - 4 * word_of_nat (length vs)) (4 * length vs) \<Longrightarrow> pushed e vs m x = m x"
proof (induction e vs m rule: pushed.induct)
  case (2 e v vs m)
  let ?b = "e - 4 * word_of_nat (length (v # vs))" and ?n = "length vs"
  have b: "e - 4 - 4 * word_of_nat ?n = ?b" "e - 4 = ?b + word_of_nat (4 * ?n)" by (simp_all add: algebra_simps)
  have "span (e - 4 - 4 * word_of_nat ?n) (4 * ?n) \<subseteq> span ?b (4 * length (v # vs))" unfolding b(1) by (rule span_mono) simp
  then have "x \<notin> span (e - 4 - 4 * word_of_nat ?n) (4 * ?n)" using 2(3) by blast
  then have "pushed (e - 4) vs (store32 (e - 4) v m) x = store32 (e - 4) v m x" using 2(1,2) by simp
  moreover have "span (e - 4) 4 \<subseteq> span ?b (4 * length (v # vs))" unfolding b(2) using 2(2) by (intro span_sub) simp_all
  then have "x \<notin> span (e - 4) 4" using 2(3) by blast
  then have "store32 (e - 4) v m x = m x" by (rule store32_outside)
  ultimately show ?case by simp
qed simp

text \<open>The stack an interrupt uses: 64 bytes from \<open>b\<close> on for the registers and the call, and the frames below.\<close>

definition stack_used :: "cdecl \<Rightarrow> u32 \<Rightarrow> u32 set" where
  "stack_used ce b = span (b - 4 * word_of_nat (length (left_frame ce))) (4 * length (left_frame ce) + 64)"

lemma stack_used_parts:
  assumes "length (left_frame ce) < 2 ^ 28"
  shows "span b 64 \<subseteq> stack_used ce b" "span (b - 4 * word_of_nat (length (left_frame ce))) (4 * length (left_frame ce)) \<subseteq> stack_used ce b"
    "span (b - 4 * word_of_nat (length (left_frame ce))) (4 * length (left_frame ce)) \<inter> span b 64 = {}"
proof -
  let ?n = "length (left_frame ce)" and ?e = "b - 4 * word_of_nat (length (left_frame ce))"
  have b: "b = ?e + word_of_nat (4 * ?n)" by simp
  have "span (?e + word_of_nat (4 * ?n)) 64 \<subseteq> span ?e (4 * ?n + 64)" using assms by (intro span_sub) simp_all
  then show "span b 64 \<subseteq> stack_used ce b" by (simp add: stack_used_def)
  show "span ?e (4 * ?n) \<subseteq> stack_used ce b" unfolding stack_used_def by (rule span_mono) simp
  show "span ?e (4 * ?n) \<inter> span b 64 = {}"
  proof -
    have False if "x \<in> span ?e (4 * ?n)" "x \<in> span b 64" for x
    proof -
      have x: "x - ?e = (x - b) + word_of_nat (4 * ?n)" by simp
      have "unat (word_of_nat (4 * ?n) :: u32) = 4 * ?n" using assms by (simp add: unat_of_nat del: of_nat_mult)
      then have "unat (x - ?e) = unat (x - b) + 4 * ?n"
        unfolding x using that(2) assms by (subst unat_add_lem [THEN iffD1]) (simp_all add: span_def)
      then show False using that(1) by (simp add: span_def)
    qed
    then show ?thesis by blast
  qed
qed

locale interrupt_stack = kernel_heap valid data base limit
  for valid :: "'a cpu_scheme \<Rightarrow> bool" and data base limit
begin

text \<open>Pushes change memory and nothing else of the machine.\<close>

definition stored :: "'a cpu_scheme \<Rightarrow> 'a cpu_scheme \<Rightarrow> (u32 \<Rightarrow> u8) \<Rightarrow> bool" where
  "stored s0 s m \<longleftrightarrow> s = s0\<lparr>phys := phys s\<rparr> \<and> runs s m"

lemma stored_refl: "runs s m \<Longrightarrow> stored s s m"
  by (simp add: stored_def)

lemma stored_fields:
  assumes "stored s0 s m"
  shows "syms s = syms s0" "heap_current s = heap_current s0" "stubs s = stubs s0"
proof -
  have e: "s = s0\<lparr>phys := phys s\<rparr>" using assms by (simp only: stored_def)
  show "syms s = syms s0" "heap_current s = heap_current s0" "stubs s = stubs s0"
    using arg_cong [OF e, of syms] arg_cong [OF e, of heap_current] arg_cong [OF e, of stubs] by simp_all
qed

lemma stored_reg: "stored s0 s m \<Longrightarrow> reg s = reg s0"
  using stored_fields [of s0 s m] by (simp add: region_def)

lemma ok_store_stack:
  assumes "stored s0 s m" "word_aligned a" "span a 4 \<subseteq> reg s0" "\<And>s'. stored s0 s' (store32 a v m) \<Longrightarrow> ok (f s') Q"
  shows "ok (and_then (vstore32 a v s) f) Q"
proof -
  obtain s' where s': "vstore32 a v s = Inr s'" "same_but (reg s) s s'" "runs s' (store32 a v m)"
    using runs_store32 [of s m a v] assms(1-3) stored_reg [OF assms(1)] by (auto simp: stored_def)
  have "s' = s\<lparr>phys := phys s'\<rparr>" by (rule same_but_fields [OF s'(2)])
  also have "\<dots> = s0\<lparr>phys := phys s\<rparr>\<lparr>phys := phys s'\<rparr>" using assms(1) by (simp add: stored_def)
  finally have "stored s0 s' (store32 a v m)" using s'(3) by (simp add: stored_def)
  then show ?thesis using assms(4) s'(1) by simp
qed

lemma ok_push:
  assumes "stored s0 s m" "word_aligned (r_esp r)" "4 * length vs \<le> 2 ^ 32"
    and "span (r_esp r - 4 * word_of_nat (length vs)) (4 * length vs) \<subseteq> reg s0"
    and "\<And>s'. stored s0 s' (pushed (r_esp r) vs m) \<Longrightarrow> ok (f (r\<lparr>r_esp := r_esp r - 4 * word_of_nat (length vs)\<rparr>, s')) Q"
  shows "ok (and_then (push_all vs (r, s)) f) Q"
  using assms
proof (induction vs arbitrary: r s m)
  case (Cons v vs)
  let ?b = "r_esp r - 4 * word_of_nat (length (v # vs))" and ?n = "length vs" and ?r = "r\<lparr>r_esp := r_esp r - 4\<rparr>"
  have b: "r_esp r - 4 - 4 * word_of_nat ?n = ?b" "r_esp r - 4 = ?b + word_of_nat (4 * ?n)" by (simp_all add: algebra_simps)
  have top: "span (r_esp r - 4) 4 \<subseteq> reg s0"
    unfolding b(2) using Cons.prems(3,4) span_sub [of "4 * ?n" 4 "4 * length (v # vs)" ?b] by auto
  have "span ?b (4 * ?n) \<subseteq> span ?b (4 * length (v # vs))" by (rule span_mono) simp
  then have "span ?b (4 * ?n) \<subseteq> reg s0" using Cons.prems(4) by (rule order_trans)
  moreover have "r_esp ?r - 4 * word_of_nat ?n = ?b" by (simp add: algebra_simps)
  ultimately have rest: "span (r_esp ?r - 4 * word_of_nat ?n) (4 * ?n) \<subseteq> reg s0" by (simp only:)
  show ?case
    unfolding push_all.simps and_then_assoc
  proof (rule ok_store_stack [OF Cons.prems(1) aligned_down [OF Cons.prems(2)] top])
    fix s' assume k: "stored s0 s' (store32 (r_esp r - 4) v m)"
    show "ok (and_then (push_all vs (?r, s')) f) Q"
    proof (rule Cons.IH [of _ _ ?r])
      show "stored s0 s' (store32 (r_esp r - 4) v m)" by (rule k)
      show "word_aligned (r_esp ?r)" using aligned_down [OF Cons.prems(2)] by simp
      show "4 * length vs \<le> 2 ^ 32" using Cons.prems(3) by simp
      show "span (r_esp ?r - 4 * word_of_nat (length vs)) (4 * length vs) \<subseteq> reg s0" by (rule rest)
      fix t assume "stored s0 t (pushed (r_esp ?r) vs (store32 (r_esp r - 4) v m))"
      then show "ok (f (?r\<lparr>r_esp := r_esp ?r - 4 * word_of_nat (length vs)\<rparr>, t)) Q"
        using Cons.prems(5) [of t] by (simp add: diff_diff_eq)
    qed
  qed
qed simp

text \<open>The stack of an interrupt: 64 bytes from \<open>b\<close> on, of which \<open>n\<close> words are free.\<close>

definition on_stack :: "u32 \<Rightarrow> nat \<Rightarrow> u32 list \<Rightarrow> (u32 \<Rightarrow> u8) \<Rightarrow> (u32 \<Rightarrow> u8)" where
  "on_stack b n vs m = pushed (b + word_of_nat (4 * n)) vs m"

lemma on_stack_append:
  assumes "length vs \<le> n"
  shows "on_stack b (n - length vs) ws (on_stack b n vs m) = on_stack b n (vs @ ws) m"
proof -
  have "b + word_of_nat (4 * n) - 4 * word_of_nat (length vs) = b + word_of_nat (4 * (n - length vs))"
    using assms by (simp add: of_nat_diff algebra_simps)
  then show ?thesis unfolding on_stack_def pushed_append by (simp only:)
qed

lemma load_on_stack:
  assumes "word_aligned b" "length vs = n - k" "n \<le> 16" "k \<le> i" "i < n"
  shows "load32 (on_stack b n vs m) (b + word_of_nat (4 * i)) = vs ! (n - Suc i)"
proof -
  have al: "word_aligned (b + word_of_nat (4 * n))"
    using word_aligned_plus [OF assms(1), of "word_of_nat (4 * n)"] assms(3) by (simp add: word_aligned_unat unat_of_nat del: of_nat_mult)
  have "b + word_of_nat (4 * n) - 4 * word_of_nat (Suc (n - Suc i)) = b + word_of_nat (4 * i)"
    using assms(5) by (simp add: of_nat_diff algebra_simps Suc_diff_Suc)
  moreover have "n - Suc i < length vs" "length vs < 2 ^ 28" using assms by auto
  ultimately show ?thesis unfolding on_stack_def using load_pushed [OF al, of vs "n - Suc i" m] by (simp only:)
qed

lemma load_on_stack_other:
  assumes "word_aligned b" "length vs \<le> n" "n \<le> i" "i < 16"
  shows "load32 (on_stack b n vs m) (b + word_of_nat (4 * i)) = load32 m (b + word_of_nat (4 * i))"
proof -
  have al: "word_aligned (b + word_of_nat (4 * j))" if "j \<le> 16" for j
    using word_aligned_plus [OF assms(1), of "word_of_nat (4 * j)"] that by (simp add: word_aligned_unat unat_of_nat del: of_nat_mult)
  show ?thesis unfolding on_stack_def
  proof (rule load_pushed_other)
    show "b + word_of_nat (4 * i) \<noteq> b + word_of_nat (4 * n) - 4 * word_of_nat (Suc j)" if "j < length vs" for j
    proof -
      have "4 * n - 4 * Suc j < 4 * i" "4 * i < 64" using that assms by auto
      then have "unat (word_of_nat (4 * n - 4 * Suc j) :: u32) \<noteq> unat (word_of_nat (4 * i) :: u32)"
        by (simp add: unat_of_nat del: of_nat_mult of_nat_diff of_nat_Suc)
      then have "(word_of_nat (4 * n - 4 * Suc j) :: u32) \<noteq> word_of_nat (4 * i)" by metis
      moreover have "(word_of_nat (4 * n - 4 * Suc j) :: u32) = word_of_nat (4 * n) - 4 * word_of_nat (Suc j)"
        using that assms(2) by (subst of_nat_diff) auto
      ultimately show ?thesis by (metis add_diff_eq add_left_cancel)
    qed
  qed (use al assms in auto)
qed

lemma ok_push_at:
  assumes k: "stored s0 s m" and b: "word_aligned b" "span b 64 \<subseteq> reg s0"
    and e: "r_esp r = b + word_of_nat (4 * n)" "length vs \<le> n" "n \<le> 16"
    and f: "\<And>s'. stored s0 s' (on_stack b n vs m) \<Longrightarrow> ok (f (r\<lparr>r_esp := b + word_of_nat (4 * (n - length vs))\<rparr>, s')) Q"
  shows "ok (and_then (push_all vs (r, s)) f) Q"
proof (rule ok_push [OF k])
  have d: "r_esp r - 4 * word_of_nat (length vs) = b + word_of_nat (4 * (n - length vs))"
    using e(1,2) by (simp add: of_nat_diff algebra_simps)
  show "word_aligned (r_esp r)"
    unfolding e(1) using word_aligned_plus [OF b(1), of "word_of_nat (4 * n)"] e(3)
    by (simp add: word_aligned_unat unat_of_nat del: of_nat_mult)
  show "4 * length vs \<le> 2 ^ 32" using e(2,3) by simp
  have "span (b + word_of_nat (4 * (n - length vs))) (4 * length vs) \<subseteq> span b 64" using e(2,3) by (intro span_sub) simp_all
  then show "span (r_esp r - 4 * word_of_nat (length vs)) (4 * length vs) \<subseteq> reg s0" unfolding d using b(2) by (rule order_trans)
  show "ok (f (r\<lparr>r_esp := r_esp r - 4 * word_of_nat (length vs)\<rparr>, s')) Q" if "stored s0 s' (pushed (r_esp r) vs m)" for s'
    unfolding d using f [of s'] that by (simp only: on_stack_def e(1))
qed

lemma pop_all_ok:
  assumes "runs s m" "\<And>i. i < n \<Longrightarrow> span (r_esp r + 4 * word_of_nat i) 4 \<subseteq> reg s"
  shows "pop_all n (r, s) = Inr (map (\<lambda>i. load32 m (r_esp r + 4 * word_of_nat i)) [0..<n], r\<lparr>r_esp := r_esp r + 4 * word_of_nat n\<rparr>)"
  using assms(2)
proof (induction n arbitrary: r)
  case (Suc n)
  let ?r = "r\<lparr>r_esp := r_esp r + 4\<rparr>"
  have "span (r_esp ?r + 4 * word_of_nat i) 4 \<subseteq> reg s" if "i < n" for i
    using Suc.prems [of "Suc i"] that by (simp add: algebra_simps)
  moreover have "vload32 (r_esp r) s = Inr (load32 m (r_esp r))" using runs_load32 [OF assms(1)] Suc.prems [of 0] by simp
  ultimately show ?case
    using Suc.IH [of ?r] by (simp add: upt_conv_Cons map_Suc_upt [symmetric] algebra_simps del: upt_Suc)
qed simp

text \<open>The save of the registers in the stubs.\<close>

lemma save_ok:
  assumes k: "stored s0 s m" and b: "word_aligned b" "span b 64 \<subseteq> reg s0" and e: "r_esp r = b + 44"
    and rest: "\<And>a s'. stored s0 s' (on_stack b 11 (saved_words b r) m) \<Longrightarrow>
      ok (run_code ce sc code (r\<lparr>r_esp := b + 4, r_eax := a, r_ds := 0x10, r_es := 0x10, r_fs := 0x10, r_gs := 0x10\<rparr>, s')) Q"
  shows "ok (run_code ce sc (save_registers @ code) (r, s)) Q"
  unfolding save_registers_def append.simps run_code.simps exec.simps
proof (rule ok_push_at [OF k b, where n = 11], goal_cases)
  case 1
  show ?case using e by simp
next
  case (4 s1)
  note k1 = 4
  show ?case unfolding run_code.simps exec.simps and_then_Inr
  proof (rule ok_push_at [OF k1 b, where n = 3], goal_cases)
    case (4 s2)
    note k2 = 4
    show ?case unfolding run_code.simps exec.simps and_then_Inr
    proof (rule ok_push_at [OF k2 b, where n = 2], goal_cases)
      case (4 s3)
      have "on_stack b 2 [b + 8] (on_stack b 3 [ax_set (r_ds r) (r_eax r)] (on_stack b 11 [r_eax r, r_ecx r, r_edx r, r_ebx r, b + 44,
          r_ebp r, r_esi r, r_edi r] m)) = on_stack b 11 (saved_words b r) m"
        using on_stack_append [of "[r_eax r, r_ecx r, r_edx r, r_ebx r, b + 44, r_ebp r, r_esi r, r_edi r]" 11 b "[ax_set (r_ds r) (r_eax r)]" m]
          on_stack_append [of "[r_eax r, r_ecx r, r_edx r, r_ebx r, b + 44, r_ebp r, r_esi r, r_edi r, ax_set (r_ds r) (r_eax r)]" 11 b "[b + 8]" m]
        by (simp add: saved_words_def)
      then have "stored s0 s3 (on_stack b 11 (saved_words b r) m)" using 4 e by simp
      moreover have "ucast (v AND 0xFFFF0000 OR 16 :: u32) = (16 :: u16)" for v using ucast_ax_set [of v 16] by simp
      ultimately show ?case using rest [of s3] by simp
    qed simp_all
  qed simp_all
qed simp_all

text \<open>The call of a handler that leaves the words of the interrupt on the stack as they are.\<close>

lemma call_ok:
  assumes k: "stored s0 s m" and b: "word_aligned b" "stack_used ce b \<subseteq> reg s0" "length (left_frame ce) < 2 ^ 28"
    and e: "r_esp r = b + 4" "load32 m (b + 4) = b + 8"
    and h: "\<And>s1 c. stored s0 s1 (pushed b (left_frame ce) (on_stack b 1 [return_address ce] m)) \<Longrightarrow> int_no c = load32 m (b + 44) \<Longrightarrow>
      ok (h c s1) (\<lambda>s2. \<exists>m2. runs s2 m2 \<and> span b 64 \<subseteq> reg s2 \<and> (\<forall>a\<in>span b 64. m2 a = on_stack b 1 [return_address ce] m a) \<and> P s2)"
    and f: "\<And>x y z w s2 m2. runs s2 m2 \<Longrightarrow> span b 64 \<subseteq> reg s2 \<Longrightarrow> \<forall>a\<in>span b 64. m2 a = on_stack b 1 [return_address ce] m a \<Longrightarrow> P s2 \<Longrightarrow>
      ok (f (r\<lparr>r_esp := b + 4, r_eax := x, r_ecx := y, r_edx := z, r_eflags := w\<rparr>, s2)) Q"
  shows "ok (and_then (call_handler ce h (r, s)) f) Q"
  unfolding call_handler_def and_then_assoc
proof (rule ok_push_at [OF k b(1), where n = 1], goal_cases)
  case 1
  show ?case using stack_used_parts(1) [OF b(3)] b(2) by (rule order_trans)
next
  case (5 s1)
  let ?m = "on_stack b 1 [return_address ce] m" and ?n = "length (left_frame ce)"
  have b64: "span b 64 \<subseteq> reg s0" using stack_used_parts(1) [OF b(3)] b(2) by (rule order_trans)
  have r1: "runs s1 ?m" using 5 by (simp add: stored_def)
  have sp: "span (b + word_of_nat i) 4 \<subseteq> span b 64" if "i + 4 \<le> 64" for i using that by (intro span_sub) simp_all
  have ld: "vload32 (b + word_of_nat i) s1 = Inr (load32 ?m (b + word_of_nat i))" if "i + 4 \<le> 64" for i
    using runs_load32 [OF r1] order_trans [OF sp [OF that] b64] stored_reg [OF 5] by simp
  have a: "load32 ?m (b + 4) = b + 8" "load32 ?m (b + 44) = load32 m (b + 44)"
    using load_on_stack_other [OF b(1), of "[return_address ce]" 1 1 m] load_on_stack_other [OF b(1), of "[return_address ce]" 1 11 m] e(2)
    by simp_all
  have i: "int_no (context_at (b + 8) s1) = load32 m (b + 44)"
  proof -
    have "span (b + 44) 4 \<subseteq> reg s1" using order_trans [OF sp [of 44] b64] stored_reg [OF 5] by simp
    then have "load32 (vview s1) (b + 44) = load32 ?m (b + 44)"
      using r1 unfolding runs_def using holds_load32 [of "reg s1" s1 "vview s1"] holds_load32 [of "reg s1" s1 ?m] by (auto simp: holds_def)
    then show ?thesis using a(2) by (simp add: context_at_def Let_def add.commute)
  qed
  have "ok (and_then (push_all (left_frame ce) (r\<lparr>r_esp := b\<rparr>, s1)) (\<lambda>(_, s). and_then (h (context_at (b + 8) s1) s) (\<lambda>s.
      and_then (pop_all 1 (r\<lparr>r_esp := b\<rparr>, s)) (\<lambda>(_, r).
      f (r\<lparr>r_eax := left_eax ce, r_ecx := left_ecx ce, r_edx := left_edx ce, r_eflags := left_eflags ce\<rparr>, s))))) Q"
  proof (rule ok_push [OF 5])
    show "word_aligned (r_esp (r\<lparr>r_esp := b\<rparr>))" "4 * ?n \<le> 2 ^ 32" using b(1,3) by simp_all
    show "span (r_esp (r\<lparr>r_esp := b\<rparr>) - 4 * word_of_nat ?n) (4 * ?n) \<subseteq> reg s0"
      using order_trans [OF stack_used_parts(2) [OF b(3), of b] b(2)] by simp
    fix t assume "stored s0 t (pushed (r_esp (r\<lparr>r_esp := b\<rparr>)) (left_frame ce) ?m)"
    then have t: "stored s0 t (pushed b (left_frame ce) ?m)" by simp
    have "ok (and_then (h (context_at (b + 8) s1) t) (\<lambda>s. and_then (pop_all 1 (r\<lparr>r_esp := b\<rparr>, s)) (\<lambda>(_, r).
      f (r\<lparr>r_eax := left_eax ce, r_ecx := left_ecx ce, r_edx := left_edx ce, r_eflags := left_eflags ce\<rparr>, s)))) Q"
    proof (rule ok_bind [OF h [OF t i]], elim exE conjE)
      fix s2 m2 assume s2: "runs s2 m2" "span b 64 \<subseteq> reg s2" "\<forall>a\<in>span b 64. m2 a = ?m a" "P s2"
      have "pop_all 1 (r\<lparr>r_esp := b\<rparr>, s2) = Inr ([load32 m2 b], r\<lparr>r_esp := b + 4\<rparr>)"
        using pop_all_ok [OF s2(1), of 1 "r\<lparr>r_esp := b\<rparr>"] order_trans [OF sp [of 0] s2(2)] by simp
      then show "ok (and_then (pop_all 1 (r\<lparr>r_esp := b\<rparr>, s2)) (\<lambda>(_, r).
        f (r\<lparr>r_eax := left_eax ce, r_ecx := left_ecx ce, r_edx := left_edx ce, r_eflags := left_eflags ce\<rparr>, s2))) Q"
        using f [OF s2] by simp
    qed
    then show "ok ((\<lambda>(_, s). and_then (h (context_at (b + 8) s1) s) (\<lambda>s. and_then (pop_all 1 (r\<lparr>r_esp := b\<rparr>, s)) (\<lambda>(_, r).
      f (r\<lparr>r_eax := left_eax ce, r_ecx := left_ecx ce, r_edx := left_edx ce, r_eflags := left_eflags ce\<rparr>, s))))
      (r\<lparr>r_esp := b\<rparr>\<lparr>r_esp := r_esp (r\<lparr>r_esp := b\<rparr>) - 4 * word_of_nat ?n\<rparr>, t)) Q" by simp
  qed
  then show ?case using ld [of 4] ld [of 44] a by (simp add: and_then_assoc Let_def add.commute [of 44] case_prod_unfold)
qed (use e in simp_all)

text \<open>The words of the stack, from the lowest, and the restore of the registers from them.\<close>

lemma pop_all_at:
  assumes r: "runs s m" "span b 64 \<subseteq> reg s" and l: "\<And>j. j < 16 \<Longrightarrow> load32 m (b + word_of_nat (4 * j)) = fs ! j" "length fs = 16"
    and e: "r_esp r = b + word_of_nat (4 * i)" "i + k \<le> 16"
  shows "pop_all k (r, s) = Inr (take k (drop i fs), r\<lparr>r_esp := b + word_of_nat (4 * (i + k))\<rparr>)"
proof -
  have a: "r_esp r + 4 * word_of_nat j = b + word_of_nat (4 * (i + j))" for j using e(1) by (simp add: algebra_simps)
  have "span (r_esp r + 4 * word_of_nat j) 4 \<subseteq> reg s" if "j < k" for j
  proof -
    have "span (b + word_of_nat (4 * (i + j))) 4 \<subseteq> span b 64" using that e(2) by (intro span_sub) simp_all
    then show ?thesis unfolding a using r(2) by (rule order_trans)
  qed
  moreover have "load32 m (r_esp r + 4 * word_of_nat j) = take k (drop i fs) ! j" if "j < k" for j
    unfolding a using l(1) [of "i + j"] l(2) that e(2) by (simp only: add_less_mono nth_take nth_drop)
  then have "map (\<lambda>j. load32 m (r_esp r + 4 * word_of_nat j)) [0..<k] = take k (drop i fs)"
    using l(2) e(2) by (intro nth_equalityI) simp_all
  ultimately show ?thesis using pop_all_ok [OF r(1), of k r] a [of k] by (simp only:)
qed

lemma restore_ok:
  assumes r: "runs s m" "span b 64 \<subseteq> reg s" and l: "\<And>j. j < 16 \<Longrightarrow> load32 m (b + word_of_nat (4 * j)) = frame b ret vec err r ! j"
    and es: "r_esp r = b + 64" and e: "r_esp r' = b + 4" "r_cs r' = r_cs r" and code: "code \<in> {restore_ax, restore_bx}"
  shows "run_code ce sc code (r', s) = Inr (r\<lparr>r_es := r_ds r, r_fs := r_ds r, r_gs := r_ds r\<rparr>, s)"
proof -
  let ?fs = "frame b ret vec err r"
  have len: "length ?fs = 16" by (simp add: frame_def)
  have p: "pop_all k (q, s) = Inr (take k (drop i ?fs), q\<lparr>r_esp := b + word_of_nat (4 * (i + k))\<rparr>)"
    if "r_esp q = b + word_of_nat (4 * i)" "i + k \<le> 16" for q i k
    using pop_all_at [OF r l len that] .
  have pops: "r_esp q = b + 8 \<Longrightarrow> pop_all 1 (q, s) = Inr ([ax_set (r_ds r) (r_eax r)], q\<lparr>r_esp := b + 12\<rparr>)"
    "r_esp q = b + 12 \<Longrightarrow> pop_all 8 (q, s) = Inr ([r_edi r, r_esi r, r_ebp r, b + 44, r_ebx r, r_edx r, r_ecx r, r_eax r], q\<lparr>r_esp := b + 44\<rparr>)"
    "r_esp q = b + 52 \<Longrightarrow> pop_all 3 (q, s) = Inr ([r_eip r, ucast (r_cs r), r_eflags r], q\<lparr>r_esp := b + 64\<rparr>)" for q
    using p [of q 2 1] p [of q 3 8] p [of q 13 3] by (simp_all add: frame_def)
  have u: "ucast (ucast c :: u32) = c" for c :: u16 by (rule bit_word_eqI) (simp add: bit_simps)
  show ?thesis
    using code e es by (cases r; cases r') (auto simp: restore_ax_def restore_bx_def pops [simplified One_nat_def] ucast_ax_set u simp del: pop_all.simps)
qed

text \<open>What the processor and the entry of a stub push.\<close>

lemma enter_ok:
  assumes r: "runs s m" and b: "word_aligned b" "span b 64 \<subseteq> reg s" and e: "r_esp r = b + 64"
    and g: "vec < length (idt s)" "gate_present (idt s ! vec)" "sel (idt s ! vec) = r_cs r"
      "code_at (stubs s) (gate_offset (idt s ! vec)) = Some (entry err vec @ code)" "vec < 48"
    and f: "\<And>q s'. stored s s' (on_stack b 16 (entry_words err vec r) m) \<Longrightarrow> r_esp q = b + 44 \<Longrightarrow> same_registers q r \<Longrightarrow>
      ok (run_code ce sc code (q, s')) Q"
  shows "ok (interrupt ce sc vec err (r, s)) Q"
proof -
  have v: "scast (word_of_nat vec :: u8) = (word_of_nat vec :: u32)"
  proof -
    have "\<forall>v\<in>set [0..<48]. scast (word_of_nat v :: u8) = (word_of_nat v :: u32)" by (simp add: upt_rec)
    then show ?thesis using g(5) by simp
  qed
  have st: "stubs s' = stubs s" if "stored s s' m'" for s' m'
    using stored_fields [OF that] by blast
  note k = stored_refl [OF r]
  have en: "entry None vec = [Cli, Push_byte 0, Push_byte (word_of_nat vec)]" "entry (Some w) vec = [Cli, Push_byte (word_of_nat vec)]" for w
    by (simp_all add: entry_def)
  have two: "ok (run_code ce sc (entry err vec @ code) (q, s1)) Q"
    if "r_esp q = b + 52" "same_registers q r" "stored s s1 (on_stack b 16 [r_eflags r, ucast (r_cs r), r_eip r] m)" "err = None" for s1 q
    unfolding that(4) en append.simps run_code.simps exec.simps and_then_Inr
  proof (rule ok_push_at [OF that(3) b, where n = 13], goal_cases)
    case (4 s2)
    show ?case unfolding run_code.simps exec.simps
    proof (rule ok_push_at [OF 4 b, where n = 12], goal_cases)
      case (4 s3)
      then have "stored s s3 (on_stack b 16 (entry_words err vec r) m)"
        using on_stack_append [of "[r_eflags r, ucast (r_cs r), r_eip r]" 16 b "[0]" m]
          on_stack_append [of "[r_eflags r, ucast (r_cs r), r_eip r, 0]" 16 b "[word_of_nat vec]" m]
        by (simp add: entry_words_def that(4) v)
      then show ?case using f that(1,2) by (simp add: same_registers_def)
    qed (use that in simp_all)
  qed (use that in simp_all)
  have one: "ok (run_code ce sc (entry err vec @ code) (q, s1)) Q"
    if "r_esp q = b + 48" "same_registers q r" "stored s s1 (on_stack b 16 [r_eflags r, ucast (r_cs r), r_eip r, e] m)" "err = Some e" for s1 q e
    unfolding that(4) en append.simps run_code.simps exec.simps and_then_Inr
  proof (rule ok_push_at [OF that(3) b, where n = 12], goal_cases)
    case (4 s3)
    then have "stored s s3 (on_stack b 16 (entry_words err vec r) m)"
      using on_stack_append [of "[r_eflags r, ucast (r_cs r), r_eip r, e]" 16 b "[word_of_nat vec]" m]
      by (simp add: entry_words_def that(4) v)
    then show ?case using f that(1,2) by (simp add: same_registers_def)
  qed (use that in simp_all)
  have d: "ok (and_then (push_all vs (r, s)) (\<lambda>a. and_then ((\<lambda>(r, s'). Inr (r\<lparr>r_eflags := r_eflags r AND NOT 0x14300,
        r_cs := sel (idt s ! vec), r_eip := gate_offset (idt s ! vec)\<rparr>, s')) a)
      (\<lambda>(r, s). case code_at (stubs s) (r_eip r) of None \<Rightarrow> Inl Undefined | Some code \<Rightarrow> run_code ce sc code (r, s)))) Q"
    if "length vs \<le> 16" "\<And>q s1. stored s s1 (on_stack b 16 vs m) \<Longrightarrow> r_esp q = b + word_of_nat (4 * (16 - length vs)) \<Longrightarrow> same_registers q r \<Longrightarrow>
      ok (run_code ce sc (entry err vec @ code) (q, s1)) Q" for vs
  proof (rule ok_push_at [OF k b, where n = 16], goal_cases)
    case (4 s1)
    then show ?case using that(2) [OF 4] st [OF 4] g(3,4) by (simp add: same_registers_def)
  qed (use e that(1) in simp_all)
  have p: "vec < length (idt s) \<and> gate_present (idt s ! vec)" using g(1,2) by blast
  show ?thesis
  proof (cases err)
    case None
    have "ok (and_then (deliver vec err (r, s)) (\<lambda>(r, s).
        case code_at (stubs s) (r_eip r) of None \<Rightarrow> Inl Undefined | Some code \<Rightarrow> run_code ce sc code (r, s))) Q"
      unfolding deliver_def prod.case Let_def if_P [OF p] and_then_assoc None option.case append_Nil2
      by (rule d) (use two None in simp_all)
    then show ?thesis by (simp only: interrupt_def)
  next
    case (Some w)
    have "ok (and_then (deliver vec err (r, s)) (\<lambda>(r, s).
        case code_at (stubs s) (r_eip r) of None \<Rightarrow> Inl Undefined | Some code \<Rightarrow> run_code ce sc code (r, s))) Q"
      unfolding deliver_def prod.case Let_def if_P [OF p] and_then_assoc Some option.case append.simps
      by (rule d) (use one Some in simp_all)
    then show ?thesis by (simp only: interrupt_def)
  qed
qed

text \<open>An interrupt with a handler that leaves the stack as it is.\<close>

lemma interrupt_ok:
  assumes r: "runs s m" and u: "word_aligned b" "stack_used ce b \<subseteq> reg s" "length (left_frame ce) < 2 ^ 28" and e: "r_esp r = b + 64"
    and g: "vec < length (idt s)" "gate_present (idt s ! vec)" "sel (idt s ! vec) = r_cs r"
      "code_at (stubs s) (gate_offset (idt s ! vec)) = Some (entry err vec @ save_registers @ call # restore)" "vec < 48"
    and call: "\<And>q t. exec ce sc call (q, t :: 'a cpu_scheme) = call_handler ce h (q, t)" and restore: "restore \<in> {restore_ax, restore_bx}"
    and h: "\<And>c s1 m1. stored s s1 m1 \<Longrightarrow> (\<And>x. x \<notin> stack_used ce b \<Longrightarrow> m1 x = m x) \<Longrightarrow> int_no c = word_of_nat vec \<Longrightarrow>
      ok (h c s1) (\<lambda>s2. \<exists>m2. runs s2 m2 \<and> span b 64 \<subseteq> reg s2 \<and> (\<forall>a\<in>span b 64. m2 a = m1 a) \<and> P s2)"
  shows "ok (interrupt ce sc vec err (r, s)) (\<lambda>(r', s'). r' = resumed r \<and> P s')"
proof -
  have b: "word_aligned b" "span b 64 \<subseteq> reg s" using u(1) order_trans [OF stack_used_parts(1) [OF u(3)] u(2)] by simp_all
  show ?thesis
proof (rule enter_ok [OF r b e g])
  fix q s1 assume k1: "stored s s1 (on_stack b 16 (entry_words err vec r) m)" and q: "r_esp q = b + 44" "same_registers q r"
  let ?ws = "entry_words err vec r @ saved_words b r" and ?e = "case err of None \<Rightarrow> 0 | Some e \<Rightarrow> e"
  let ?M = "on_stack b 16 ?ws m" and ?N = "on_stack b 16 (?ws @ [return_address ce]) m"
  have len: "length (entry_words err vec r) = 5" "length (saved_words b r) = 10" by (simp_all add: entry_words_def saved_words_def)
  have M: "on_stack b 11 (saved_words b q) (on_stack b 16 (entry_words err vec r) m) = ?M"
    using on_stack_append [of "entry_words err vec r" 16 b "saved_words b r" m] q(2) len by (simp add: saved_words_def same_registers_def)
  have N: "on_stack b 1 [return_address ce] ?M = ?N" using on_stack_append [of ?ws 16 b "[return_address ce]" m] len by simp
  have ld: "load32 ?M (b + 4) = b + 8" "load32 ?M (b + 44) = word_of_nat vec"
    using load_on_stack [OF b(1), of ?ws 16 1 1 m] load_on_stack [OF b(1), of ?ws 16 1 11 m] len
    by (simp_all add: entry_words_def saved_words_def)
  let ?F = "pushed b (left_frame ce) ?N"
  have out: "?F x = m x" if "x \<notin> stack_used ce b" for x
  proof -
    have x: "x \<notin> span b 64" "x \<notin> span (b - 4 * word_of_nat (length (left_frame ce))) (4 * length (left_frame ce))"
      using stack_used_parts(1,2) [OF u(3), of b] that by blast+
    have "?F x = ?N x" using u(3) x(2) by (intro pushed_outside) simp_all
    also have "?N x = m x" unfolding on_stack_def using x(1) len by (intro pushed_outside) simp_all
    finally show ?thesis .
  qed
  have low: "?F a = ?N a" if "a \<in> span b 64" for a
    using stack_used_parts(3) [OF u(3), of b] that u(3) by (intro pushed_outside) auto
  have fr: "load32 ?N (b + word_of_nat (4 * j)) = frame b (return_address ce) (word_of_nat vec) ?e r ! j" if "j < 16" for j
  proof -
    have "frame b (return_address ce) (word_of_nat vec) ?e r = rev (?ws @ [return_address ce])"
      by (simp add: frame_def entry_words_def saved_words_def)
    then show ?thesis using load_on_stack [OF b(1), of "?ws @ [return_address ce]" 16 0 j m] len that by (simp add: rev_nth del: of_nat_mult rev_append)
  qed
  show "ok (run_code ce sc (save_registers @ call # restore) (q, s1)) (\<lambda>(r', s'). r' = resumed r \<and> P s')"
  proof (rule save_ok [OF k1 b q(1)])
    fix a s2 assume "stored s s2 (on_stack b 11 (saved_words b q) (on_stack b 16 (entry_words err vec r) m))"
    then have k2: "stored s s2 ?M" by (simp only: M)
    let ?q = "q\<lparr>r_esp := b + 4, r_eax := a, r_ds := 16, r_es := 16, r_fs := 16, r_gs := 16\<rparr>"
    show "ok (run_code ce sc (call # restore) (?q, s2)) (\<lambda>(r', s'). r' = resumed r \<and> P s')"
      unfolding run_code.simps call
    proof (rule call_ok [OF k2 u, where P = P])
      show "r_esp ?q = b + 4" "load32 ?M (b + 4) = b + 8" using ld by simp_all
      show "ok (h c s3) (\<lambda>s2. \<exists>m2. runs s2 m2 \<and> span b 64 \<subseteq> reg s2 \<and> (\<forall>a\<in>span b 64. m2 a = on_stack b 1 [return_address ce] ?M a) \<and> P s2)"
        if "stored s s3 (pushed b (left_frame ce) (on_stack b 1 [return_address ce] ?M))" "int_no c = load32 ?M (b + 44)" for s3 c
        using h [of s3 ?F c] that out low unfolding N ld(2) by simp
    next
      fix x y z w s3 m3
      let ?p = "?q\<lparr>r_esp := b + 4, r_eax := x, r_ecx := y, r_edx := z, r_eflags := w\<rparr>"
      assume s3: "runs s3 m3" "span b 64 \<subseteq> reg s3" "\<forall>a\<in>span b 64. m3 a = on_stack b 1 [return_address ce] ?M a" "P s3"
      have l: "load32 m3 (b + word_of_nat (4 * j)) = frame b (return_address ce) (word_of_nat vec) ?e r ! j" if "j < 16" for j
      proof -
        have "span (b + word_of_nat (4 * j)) 4 \<subseteq> span b 64" using that by (intro span_sub) simp_all
        then have "load32 m3 (b + word_of_nat (4 * j)) = load32 ?N (b + word_of_nat (4 * j))"
          using s3(3) unfolding N by (intro load32_cong) (auto simp: span4)
        then show ?thesis using fr [OF that] by (rule trans)
      qed
      have "run_code ce sc restore (?p, s3) = Inr (resumed r, s3)"
        unfolding resumed_def using q(2) restore by (intro restore_ok [OF s3(1,2) l e]) (simp_all add: same_registers_def)
      then show "ok (run_code ce sc restore (?p, s3)) (\<lambda>(r', s'). r' = resumed r \<and> P s')" using s3(4) by simp
    qed
  qed
qed
qed

end

end
