(* ===== verification/Interrupt_Returns.thy ===== *)
theory Interrupt_Returns
  imports Interrupt_Stubs
begin

text \<open>
  Interrupts of the running kernel: the gates of \<open>init_idt\<close>, the stubs of \<open>kernel/interrupts.asm\<close> and the handlers together
  resume the interrupted code with its registers.
\<close>

unbundle bit_operations_syntax

interpretation st: interrupt_stack heap_inv kernel_data "0xF000000" "0x11000000"
  by unfold_locales

section \<open>The gates and the stubs\<close>

definition stub_addresses :: "stubs \<Rightarrow> u32 list" where
  "stub_addresses st = map (isr_fn st) [0..<32] @ map (irq_fn st) [0..<16]"

text \<open>The exceptions for which the processor pushes an error code, as far as the stubs know.\<close>

definition error_codes :: "nat set" where
  "error_codes = {8, 10, 11, 12, 13, 14}"

lemma isr_code_parts:
  "(err = None) = (n \<notin> error_codes) \<Longrightarrow> isr_code n = entry err n @ save_registers @ Call_isr_handler # restore_ax"
  by (cases err) (auto simp: isr_code_def error_codes_def ISR_ERRCODE_def ISR_NOERRCODE_def entry_def isr_common_stub_def
      save_registers_def restore_ax_def)

lemma irq_code_parts: "irq_code n = entry None (n + 32) @ save_registers @ Call_irq_handler # restore_bx"
  by (simp add: irq_code_def entry_def irq_common_stub_def save_registers_def restore_bx_def)

lemma code_at_stub:
  assumes "distinct (stub_addresses st)"
  shows "n < 32 \<Longrightarrow> code_at st (isr_fn st n) = Some (isr_code n)" "n < 16 \<Longrightarrow> code_at st (irq_fn st n) = Some (irq_code n)"
proof -
  let ?t = "map (\<lambda>n. (isr_fn st n, isr_code n)) [0..<32] @ map (\<lambda>n. (irq_fn st n, irq_code n)) [0..<16]"
  have "map fst ?t = stub_addresses st" by (simp add: stub_addresses_def comp_def del: upt_Suc)
  then have d: "distinct (map fst ?t)" using assms by (simp only:)
  show "code_at st (isr_fn st n) = Some (isr_code n)" if "n < 32"
    unfolding code_at_def using that by (intro map_of_is_SomeI [OF d]) auto
  show "code_at st (irq_fn st n) = Some (irq_code n)" if "n < 16"
    unfolding code_at_def using that by (intro map_of_is_SomeI [OF d]) auto
qed

text \<open>
  Code of the kernel is running: the gates are those of \<open>init_idt\<close>, and the 64 bytes below the stack pointer and room for \<open>d\<close>
  words of frames of C functions are ordinary memory that is not the screen.
\<close>

definition frame_space :: "nat \<Rightarrow> cpu_regs \<Rightarrow> u32 set" where
  "frame_space d r = span (r_esp r - 64 - 4 * word_of_nat d) (4 * d + 64)"

definition interruptible :: "nat \<Rightarrow> cpu_regs \<Rightarrow> 'a cpu_scheme \<Rightarrow> bool" where
  "interruptible d r s \<longleftrightarrow> heap_inv s \<and> word_aligned (r_esp r) \<and> d < 2 ^ 28 \<and> frame_space d r \<subseteq> {a \<in> kernel_region s. page_of a \<noteq> 0xb8000} \<and>
     r_cs r = 0x08 \<and> idt s = idt (init_idt s) \<and> distinct (stub_addresses (stubs s))"

lemma frame_space_used:
  assumes "length (left_frame ce) \<le> d" "d < 2 ^ 28"
  shows "stack_used ce (r_esp r - 64) \<subseteq> frame_space d r" "span (r_esp r - 64) 64 \<subseteq> frame_space d r"
proof -
  let ?n = "length (left_frame ce)" and ?b = "r_esp r - 64" and ?e = "r_esp r - 64 - 4 * word_of_nat d"
  have "(word_of_nat (4 * (d - ?n)) :: u32) = 4 * word_of_nat d - 4 * word_of_nat ?n"
    using assms(1) by (simp add: of_nat_diff algebra_simps)
  then have e: "?b - 4 * word_of_nat ?n = ?e + word_of_nat (4 * (d - ?n))" by simp
  have "span (?e + word_of_nat (4 * (d - ?n))) (4 * ?n + 64) \<subseteq> span ?e (4 * d + 64)"
    using assms by (intro span_sub) simp_all
  then show u: "stack_used ce ?b \<subseteq> frame_space d r" by (simp only: stack_used_def frame_space_def e)
  show "span ?b 64 \<subseteq> frame_space d r" using stack_used_parts(1) [of ce ?b] assms u by auto
qed

lemma interruptible_gate:
  assumes "interruptible d r s" "vec < 48"
  shows "vec < length (idt s)" "gate_present (idt s ! vec)" "sel (idt s ! vec) = r_cs r"
    "vec < 32 \<Longrightarrow> code_at (stubs s) (gate_offset (idt s ! vec)) = Some (isr_code vec)"
    "32 \<le> vec \<Longrightarrow> code_at (stubs s) (gate_offset (idt s ! vec)) = Some (irq_code (vec - 32))"
proof -
  let ?base = "if vec < 32 then isr_fn (stubs s) vec else irq_fn (stubs s) (vec - 32)"
  have i: "idt s = idt (init_idt s)" "r_cs r = 0x08" "distinct (stub_addresses (stubs s))" using assms(1) by (simp_all add: interruptible_def)
  have g: "idt (init_idt s) ! vec = kernel_gate ?base"
    using init_idt_ok(2) [of vec s] init_idt_ok(3) [of "vec - 32" s] assms(2) by (cases "vec < 32") simp_all
  show "vec < length (idt s)" "gate_present (idt s ! vec)" "sel (idt s ! vec) = r_cs r"
    unfolding i(1) g using assms(2) i(2) by (simp_all add: init_idt_ok kernel_gate) (simp add: kernel_gate_def)
  show "vec < 32 \<Longrightarrow> code_at (stubs s) (gate_offset (idt s ! vec)) = Some (isr_code vec)"
    "32 \<le> vec \<Longrightarrow> code_at (stubs s) (gate_offset (idt s ! vec)) = Some (irq_code (vec - 32))"
    unfolding i(1) g using assms(2) code_at_stub [OF i(3)] by (simp_all add: kernel_gate)
qed

text \<open>What a handler is entered with: the machine of the interrupted code, but for its stack and the devices.\<close>

definition entered :: "nat \<Rightarrow> cpu_regs \<Rightarrow> 'a cpu_scheme \<Rightarrow> 'a cpu_scheme \<Rightarrow> bool" where
  "entered d r s s1 \<longleftrightarrow> heap_inv s1 \<and> s1 = s\<lparr>phys := phys s1, dev := dev s1\<rparr> \<and>
     (\<forall>a\<in>kernel_region s. a \<notin> frame_space d r \<longrightarrow> vview s1 a = vview s a)"

definition left_alone :: "nat \<Rightarrow> cpu_regs \<Rightarrow> 'a cpu_scheme \<Rightarrow> 'a cpu_scheme \<Rightarrow> bool" where
  "left_alone d r s1 s2 \<longleftrightarrow> heap_inv s2 \<and> frame_space d r \<subseteq> kernel_region s2 \<and> (\<forall>a\<in>frame_space d r. vview s2 a = vview s1 a)"

lemma interrupt_resumes:
  assumes i: "interruptible d r s" and d: "length (left_frame ce) \<le> d" and vec: "vec < 48"
    and code: "code_at (stubs s) (gate_offset (idt s ! vec)) = Some (entry err vec @ save_registers @ call # restore)"
    and call: "\<And>q t. exec ce sc call (q, t :: 'a cpu_scheme) = call_handler ce h (q, t)" and restore: "restore \<in> {restore_ax, restore_bx}"
    and h: "\<And>c s1. s1 = s\<lparr>phys := phys s1\<rparr> \<Longrightarrow> entered d r s s1 \<Longrightarrow> int_no c = word_of_nat vec \<Longrightarrow>
      ok (h c s1) (\<lambda>s2. left_alone d r s1 s2 \<and> P s2)"
  shows "ok (interrupt ce sc vec err (r, s)) (\<lambda>(r', s'). r' = resumed r \<and> P s')"
proof -
  let ?b = "r_esp r - 64"
  have inv: "heap_inv s" "word_aligned (r_esp r)" "d < 2 ^ 28" and fs: "frame_space d r \<subseteq> kernel_region s"
    using i by (auto simp: interruptible_def)
  note fu = frame_space_used [OF d inv(3), of r]
  have sp: "stack_used ce ?b \<subseteq> kernel_region s" "length (left_frame ce) < 2 ^ 28" using fu(1) fs d inv(3) by auto
  have b: "word_aligned ?b" using word_aligned_plus [OF inv(2), of "- 64"] by (simp add: word_aligned_def)
  show ?thesis
  proof (rule st.interrupt_ok [OF kh.runs_view [OF inv(1)] b sp _ interruptible_gate(1-3) [OF i vec] code vec call restore])
    fix c :: context_t and s1 m1
    assume k: "st.stored s s1 m1" and out: "\<And>x. x \<notin> stack_used ce ?b \<Longrightarrow> m1 x = vview s x" and n: "int_no c = word_of_nat vec"
    have v: "heap_inv s1" "\<forall>a\<in>kernel_region s1. vview s1 a = m1 a" and e: "s1 = s\<lparr>phys := phys s1\<rparr>"
      using k unfolding st.stored_def kh.runs_def holds_def by blast+
    have rg: "kernel_region s1 = kernel_region s" by (rule st.stored_reg [OF k])
    have "s1 = s\<lparr>phys := phys s1, dev := dev s1\<rparr>" using arg_cong [OF e, of dev] e by simp
    then have "entered d r s s1" using v out fu(1) by (auto simp: entered_def rg)
    from h [OF e this n] show "ok (h c s1) (\<lambda>s2. \<exists>m2. kh.runs s2 m2 \<and> span ?b 64 \<subseteq> kernel_region s2 \<and> (\<forall>a\<in>span ?b 64. m2 a = m1 a) \<and> P s2)"
    proof (rule ok_mono)
      fix s2 assume l: "left_alone d r s1 s2 \<and> P s2"
      have "vview s2 x = m1 x" if "x \<in> span ?b 64" for x
      proof -
        have "x \<in> frame_space d r" "x \<in> kernel_region s1" using that fu(2) fs unfolding rg by blast+
        then show ?thesis using l v(2) by (simp add: left_alone_def)
      qed
      moreover have "span ?b 64 \<subseteq> kernel_region s2" using l fu(2) by (auto simp: left_alone_def)
      ultimately show "\<exists>m2. kh.runs s2 m2 \<and> span ?b 64 \<subseteq> kernel_region s2 \<and> (\<forall>a\<in>span ?b 64. m2 a = m1 a) \<and> P s2"
        using l kh.runs_view [of s2] by (intro exI [of _ "vview s2"]) (simp add: left_alone_def)
    qed
  qed simp
qed

lemma exception_resumes:
  assumes i: "interruptible d r s" and d: "length (left_frame ce) \<le> d" and vec: "vec < 32" "(err = None) = (vec \<notin> error_codes)"
    and h: "\<And>c s1. s1 = s\<lparr>phys := phys s1\<rparr> \<Longrightarrow> entered d r s s1 \<Longrightarrow> int_no c = word_of_nat vec \<Longrightarrow>
      ok (isr_handler c sc s1) (\<lambda>s2. left_alone d r s1 s2 \<and> P s2)"
  shows "ok (interrupt ce sc vec err (r, s)) (\<lambda>(r', s'). r' = resumed r \<and> P s')"
proof (rule interrupt_resumes [OF i d])
  show "code_at (stubs s) (gate_offset (idt s ! vec)) = Some (entry err vec @ save_registers @ Call_isr_handler # restore_ax)"
    using interruptible_gate(4) [OF i, of vec] isr_code_parts [OF vec(2)] vec(1) by simp
qed (use vec(1) h in simp_all)

lemma irq_resumes:
  assumes i: "interruptible d r s" and d: "length (left_frame ce) \<le> d" and vec: "32 \<le> vec" "vec < 48"
    and h: "\<And>c s1. s1 = s\<lparr>phys := phys s1\<rparr> \<Longrightarrow> entered d r s s1 \<Longrightarrow> int_no c = word_of_nat vec \<Longrightarrow>
      ok (irq_handler c sc s1) (\<lambda>s2. left_alone d r s1 s2 \<and> P s2)"
  shows "ok (interrupt ce sc vec None (r, s)) (\<lambda>(r', s'). r' = resumed r \<and> P s')"
proof (rule interrupt_resumes [OF i d])
  show "code_at (stubs s) (gate_offset (idt s ! vec)) = Some (entry None vec @ save_registers @ Call_irq_handler # restore_bx)"
    using interruptible_gate(5) [OF i, of vec] irq_code_parts [of "vec - 32"] vec by simp
qed (use vec(2) h in simp_all)

text \<open>The handlers, entered from a stub.\<close>

lemma entered_fields:
  assumes "entered d r s s1"
  shows "syms s1 = syms s" "heap_current s1 = heap_current s" "interrupt_handlers s1 = interrupt_handlers s" "kernel_region s1 = kernel_region s"
    and "idt s1 = idt s" "stubs s1 = stubs s" "ticks s1 = ticks s" "terminal_color s1 = terminal_color s" "keymap s1 = keymap s" "shift s1 = shift s"
proof -
  have e: "s1 = s\<lparr>phys := phys s1, dev := dev s1\<rparr>" using assms by (simp only: entered_def)
  show f: "syms s1 = syms s" "heap_current s1 = heap_current s" "interrupt_handlers s1 = interrupt_handlers s"
    using arg_cong [OF e, of syms] arg_cong [OF e, of heap_current] arg_cong [OF e, of interrupt_handlers] by simp_all
  show "kernel_region s1 = kernel_region s" by (simp add: region_def f)
  show "idt s1 = idt s" "stubs s1 = stubs s" "ticks s1 = ticks s" "terminal_color s1 = terminal_color s" "keymap s1 = keymap s" "shift s1 = shift s"
    using arg_cong [OF e, of idt] arg_cong [OF e, of stubs] arg_cong [OF e, of ticks] arg_cong [OF e, of terminal_color]
      arg_cong [OF e, of keymap] arg_cong [OF e, of shift] by simp_all
qed

lemma entered_dev:
  assumes "entered d r s s1"
  shows "entered d r s (s1\<lparr>dev := dv\<rparr>)"
proof -
  have e: "s1 = s\<lparr>phys := phys s1, dev := dev s1\<rparr>" using assms by (simp only: entered_def)
  have "s1\<lparr>dev := dv\<rparr> = s\<lparr>phys := phys s1, dev := dv\<rparr>" using arg_cong [OF e, of "\<lambda>s. s\<lparr>dev := dv\<rparr>"] by simp
  moreover have "vview (s1\<lparr>dev := dv\<rparr>) = vview s1" by (rule vview_cong) simp_all
  moreover have "heap_inv (s1\<lparr>dev := dv\<rparr>)" by (rule kh.valid_cong [of s1]) (use assms in \<open>simp_all add: entered_def\<close>)
  ultimately show ?thesis using assms by (simp add: entered_def)
qed

lemma left_alone_cong:
  fixes s1 s2 :: "'a cpu_scheme"
  assumes "heap_inv s1" "frame_space d r \<subseteq> kernel_region s1" "phys s2 = phys s1" "cr0 s2 = cr0 s1" "cr3 s2 = cr3 s1" "syms s2 = syms s1"
    "heap_current s2 = heap_current s1" "heap_mapped s2 = heap_mapped s1"
  shows "left_alone d r s1 s2"
proof -
  have "vview s2 = vview s1" by (rule vview_cong [OF assms(3-5)])
  moreover have "heap_inv s2" by (rule kh.valid_cong [OF assms(1,3-8)])
  ultimately show ?thesis using assms(2) by (simp add: left_alone_def region_def assms(6,7))
qed

lemma left_alone_dev [simp]: "left_alone d r (s1\<lparr>dev := dv\<rparr>) s2 = left_alone d r s1 s2"
proof -
  have "vview (s1\<lparr>dev := dv\<rparr>) = vview s1" by (rule vview_cong) simp_all
  then show ?thesis by (simp add: left_alone_def)
qed

lemma irq_handler_runs:
  fixes s :: "'a keyboard_scheme"
  assumes "32 \<le> vec" "vec < 48" "int_no c = word_of_nat vec"
  shows "\<exists>d. irq_handler c sc s = (case interrupt_handlers s (word_of_nat vec) of None \<Rightarrow> Inl Hang | Some h \<Rightarrow> run_handler h sc (s\<lparr>dev := d\<rparr>))"
proof -
  have u: "unat (int_no c) = vec" using assms by (simp add: unat_of_nat)
  have n: "\<not> 256 \<le> int_no c" using u assms(2) by (simp add: word_le_nat_alt)
  have v: "ucast (int_no c) = (word_of_nat vec :: u8)" by (simp add: ucast_via_unat u)
  obtain t where t: "irq_handler c sc s = (case interrupt_handlers t (word_of_nat vec) of None \<Rightarrow> Inl Hang | Some h \<Rightarrow> run_handler h sc t)"
    "t = s\<lparr>dev := dev t\<rparr>"
  proof
    let ?t = "pic_send_eoi (ucast (int_no c - 32)) (if int_no c - 32 \<noteq> 0 then mlog ''Received IRQ: %x\<newline>'' [Num (int_no c - 32)] s else s)"
    show "irq_handler c sc s = (case interrupt_handlers ?t (word_of_nat vec) of None \<Rightarrow> Inl Hang | Some h \<Rightarrow> run_handler h sc ?t)"
      using n v by (simp add: irq_handler_def Let_def)
    show "?t = s\<lparr>dev := dev ?t\<rparr>" by (simp add: pic_send_eoi_def mout_def mlog_def)
  qed
  have "interrupt_handlers t = interrupt_handlers s" using arg_cong [OF t(2), of interrupt_handlers] by simp
  moreover have "run_handler h sc t = run_handler h sc (s\<lparr>dev := dev t\<rparr>)" for h by (rule arg_cong [OF t(2)])
  ultimately show ?thesis unfolding t(1) by (intro exI [of _ "dev t"]) (simp cong: option.case_cong)
qed

section \<open>Between two interrupts\<close>

lemma init_idt_stubs:
  assumes "stubs s' = stubs s"
  shows "idt (init_idt s') = idt (init_idt s)"
proof (rule nth_equalityI)
  fix n assume "n < length (idt (init_idt s'))"
  then have "n < 256" by (simp add: init_idt_ok)
  then consider "n < 32" | "32 \<le> n" "n < 48" | "48 \<le> n" "n < 256" by linarith
  then show "idt (init_idt s') ! n = idt (init_idt s) ! n"
    using init_idt_ok(2) [of n s] init_idt_ok(3) [of "n - 32" s] init_idt_ok(4) [of n s]
      init_idt_ok(2) [of n s'] init_idt_ok(3) [of "n - 32" s'] init_idt_ok(4) [of n s'] assms by cases simp_all
qed (simp add: init_idt_ok)

lemma init_idt_fields: "init_idt s = s\<lparr>idt_ptr := idt_ptr (init_idt s), idt := idt (init_idt s), idtr := idtr (init_idt s)\<rparr>"
proof -
  let ?p = "\<lparr>ptr_limit = word_of_nat (8 * IDT_ENTRIES), ptr_base = idt_address (stubs s)\<rparr>"
  obtain g where "init_idt s = s\<lparr>idt_ptr := ?p, idt := g, idtr := ?p\<rparr>"
  proof
    show "init_idt s = s\<lparr>idt_ptr := ?p, idt := idt (init_idt s), idtr := ?p\<rparr>"
      unfolding init_idt_def Let_def by (subst set_gates_fields) (simp add: idt_flush_def)
  qed
  then show ?thesis by simp
qed

lemma interruptible_keep:
  fixes s s' :: "'a cpu_scheme"
  assumes "interruptible d r s" "heap_inv s'" "syms s' = syms s" "heap_current s' = heap_current s" "idt s' = idt s" "stubs s' = stubs s"
  shows "interruptible d (resumed r) s'"
  using assms init_idt_stubs [OF assms(6)] by (simp add: interruptible_def resumed_def frame_space_def region_def)

lemma resumed_simps [simp]: "resumed (resumed r) = resumed r" "frame_space d (resumed r) = frame_space d r"
  by (simp_all add: resumed_def frame_space_def)

lemma entered_screen:
  assumes e: "entered d r s s1" and i: "interruptible d r s"
  shows "screen_of s1 = screen_of s" "terminal_ok s1 = terminal_ok s" "terminal_color s1 = terminal_color s"
proof -
  have f: "s1 = s\<lparr>phys := phys s1, dev := dev s1\<rparr>" using e by (simp only: entered_def)
  have t: "terminal_row s1 = terminal_row s" "terminal_column s1 = terminal_column s" "terminal_ptr s1 = terminal_ptr s"
    using arg_cong [OF f, of terminal_row] arg_cong [OF f, of terminal_column] arg_cong [OF f, of terminal_ptr] by simp_all
  show "terminal_color s1 = terminal_color s" using arg_cong [OF f, of terminal_color] by simp
  have h: "heap_inv s" "frame_space d r \<subseteq> {a \<in> kernel_region s. page_of a \<noteq> 0xb8000}" using i by (simp_all add: interruptible_def)
  have v: "vview s1 a = vview s a" if "page_of a = 0xb8000" for a
    using e that vg.vga_region [OF h(1) that] h(2) by (auto simp: entered_def)
  then have "screen_cells (vview s1) = screen_cells (vview s)"
    unfolding screen_cells_def load16_def using cell_page by simp
  then show "screen_of s1 = screen_of s" "terminal_ok s1 = terminal_ok s" by (simp_all add: screen_of_def terminal_ok_def t)
qed

lemma entered_ready:
  "entered d r s s1 \<Longrightarrow> interruptible d r s \<Longrightarrow> keyboard_ready n s \<Longrightarrow> keyboard_ready n s1"
  using entered_screen(2) [of d r s s1] entered_fields [of d r s s1]
  by (simp add: keyboard_ready_def keyboard_ok_def) (simp add: entered_def)

text \<open>The kernel waits for interrupts: both handlers are registered and the keyboard counts \<open>n\<close> shift keys.\<close>

definition waits :: "nat \<Rightarrow> nat \<Rightarrow> cpu_regs \<Rightarrow> 'a cpu_scheme \<Rightarrow> bool" where
  "waits d n r s \<longleftrightarrow> interruptible d r s \<and> keyboard_ready n s \<and> interrupt_handlers s 32 = Some Timer_callback \<and>
     interrupt_handlers s 33 = Some Keyboard_handler"

lemma keyboard_step:
  assumes r: "keyboard_ready n s" and n: "n + 1 < 2 ^ 31" and t: "typed n [c] = (chars, Some k)"
    and g: "on_page (terminal_color s) chars (screen_of s)"
  shows "\<exists>s'. keyboard_handler c s = Inr s' \<and> keyboard_ready k s' \<and> screen_of s' = screen_print (terminal_color s) chars (screen_of s) \<and>
    s' = s\<lparr>phys := phys s', terminal_row := terminal_row s', terminal_column := terminal_column s', shift := shift s'\<rparr> \<and>
    (\<forall>a\<in>kernel_region s. page_of a \<noteq> 0xb8000 \<longrightarrow> vview s' a = vview s a)"
proof -
  have R: "heap_inv s" "terminal_ok s" "keyboard_ok s" "shift s = int n" using r by (simp_all add: keyboard_ready_def)
  obtain s' where s': "keyboard_handler c s = Inr s'" "keyboard_ready k s'" "screen_of s' = screen_print (terminal_color s) chars (screen_of s)"
    using keyboard_run_typed [OF r _ t g] n by (auto simp: result_simps)
  have sh: ?thesis if "s' = s\<lparr>shift := x\<rparr>" for x
  proof -
    have "vview s' = vview s" by (rule vview_cong) (simp_all add: that)
    moreover have "s' = s\<lparr>phys := phys s', terminal_row := terminal_row s', terminal_column := terminal_column s', shift := shift s'\<rparr>"
      by (simp add: that)
    ultimately show ?thesis using s' by (intro exI [of _ s'] conjI ballI impI) (assumption | erule fun_cong)+
  qed
  show ?thesis
  proof (cases "bit c 7 \<or> shift_key c")
    case True
    then have "s' = s\<lparr>shift := shift s'\<rparr>"
      using s'(1) by (auto simp: keyboard_handler_def release_bit process_key_release_def process_key_press_def shift_key_def Let_def
          split: if_splits)
    then show ?thesis by (rule sh)
  next
    case False
    obtain ch where ch: "driver_char (0 < n) c = Some ch" "chars = [of_char ch]"
      using t False by (auto split: option.splits prod.splits)
    have h: "keyboard_handler c s = terminal_putchar (of_char ch) s"
      using False ch(1) R(3,4) keyboard_ok_lookup [OF R(3), of c] driver_char_nonzero [OF ch(1)]
      by (auto simp: keyboard_handler_def release_bit process_key_press_def shift_key_def Let_def key_byte_def)
    obtain s2 where s2: "terminal_putchar (of_char ch) s = Inr s2" "tty_only s s2"
      "\<forall>a\<in>kernel_region s. page_of a \<noteq> 0xb8000 \<longrightarrow> vview s2 a = vview s a"
      using vg.putchar_ok [OF R(1,2) g [unfolded ch(2)]] by blast
    have e: "s2 = s'" using s2(1) s'(1) h by simp
    have "s' = s\<lparr>phys := phys s', terminal_row := terminal_row s', terminal_column := terminal_column s'\<rparr>"
      using s2(2) unfolding e tty_only_def .
    from arg_cong [OF this, of shift] this
    have "s' = s\<lparr>phys := phys s', terminal_row := terminal_row s', terminal_column := terminal_column s', shift := shift s'\<rparr>" by simp
    then show ?thesis using s' s2(3) unfolding e by blast
  qed
qed

definition waited :: "nat \<Rightarrow> cpu_regs \<Rightarrow> 'a cpu_scheme \<Rightarrow> 'a cpu_scheme \<Rightarrow> bool" where
  "waited d r s s' \<longleftrightarrow> kernel_region s' = kernel_region s \<and> terminal_color s' = terminal_color s \<and>
     (\<forall>a\<in>kernel_region s. a \<notin> frame_space d r \<and> page_of a \<noteq> 0xb8000 \<longrightarrow> vview s' a = vview s a)"

lemma waited_trans: "waited d r s s' \<Longrightarrow> waited d r s' s'' \<Longrightarrow> waited d r s s''"
  by (simp add: waited_def)

lemma waited_resumed: "waited d (resumed r) s s' = waited d r s s'"
  by (simp add: waited_def)

text \<open>A handler that changes memory on the screen's page only, and variables of the terminal, the keyboard and the timer.\<close>

lemma waits_again:
  fixes s s1 s2 :: "'a cpu_scheme"
  assumes e: "entered d r s s1" and i: "interruptible d r s" and h: "interrupt_handlers s 32 = Some Timer_callback" "interrupt_handlers s 33 = Some Keyboard_handler"
    and k: "keyboard_ready n s2"
    and f: "s2 = s1\<lparr>phys := phys s2, terminal_row := terminal_row s2, terminal_column := terminal_column s2, shift := shift s2\<rparr>"
    and v: "\<forall>a\<in>kernel_region s1. page_of a \<noteq> 0xb8000 \<longrightarrow> vview s2 a = vview s1 a"
  shows "left_alone d r s1 s2 \<and> waits d n (resumed r) s2 \<and> waited d r s s2 \<and> ticks s2 = ticks s"
proof -
  note E = entered_fields [OF e]
  have F: "syms s2 = syms s" "heap_current s2 = heap_current s" "interrupt_handlers s2 = interrupt_handlers s" "idt s2 = idt s"
    "stubs s2 = stubs s" "ticks s2 = ticks s" "terminal_color s2 = terminal_color s"
    using arg_cong [OF f, of syms] arg_cong [OF f, of heap_current] arg_cong [OF f, of interrupt_handlers] arg_cong [OF f, of idt]
      arg_cong [OF f, of stubs] arg_cong [OF f, of ticks] arg_cong [OF f, of terminal_color] E by simp_all
  have rg: "kernel_region s2 = kernel_region s" by (simp add: region_def F)
  have inv: "heap_inv s2" using k by (simp add: keyboard_ready_def)
  have fs: "frame_space d r \<subseteq> {a \<in> kernel_region s. page_of a \<noteq> 0xb8000}" using i by (simp add: interruptible_def)
  have "left_alone d r s1 s2" using inv fs v by (auto simp: left_alone_def rg E(4))
  moreover have "waits d n (resumed r) s2"
    using interruptible_keep [OF i inv F(1,2,4,5)] k h by (simp add: waits_def F)
  moreover have "waited d r s s2" using v e by (simp add: waited_def rg F E(4)) (simp add: entered_def)
  ultimately show ?thesis using F(6) by blast
qed

lemma key_interrupt:
  fixes s :: "'a cpu_scheme"
  assumes w: "waits d n r s" and l: "length (left_frame ce) \<le> d" and n: "n + 1 < 2 ^ 31" and t: "typed n [c] = (chars, Some k)"
    and g: "on_page (terminal_color s) chars (screen_of s)"
  shows "ok (interrupt ce c 33 None (r, s)) (\<lambda>(r', s'). r' = resumed r \<and> waits d k r' s' \<and> waited d r s s' \<and> ticks s' = ticks s \<and>
    screen_of s' = screen_print (terminal_color s) chars (screen_of s))"
proof -
  have W: "interruptible d r s" "keyboard_ready n s" "interrupt_handlers s 32 = Some Timer_callback" "interrupt_handlers s 33 = Some Keyboard_handler"
    using w by (simp_all add: waits_def)
  have fs: "frame_space d r \<subseteq> {a \<in> kernel_region s. page_of a \<noteq> 0xb8000}" using W(1) by (simp add: interruptible_def)
  have "ok (interrupt ce c 33 None (r, s)) (\<lambda>(r', s'). r' = resumed r \<and> (waits d k (resumed r) s' \<and> waited d r s s' \<and> ticks s' = ticks s \<and>
    screen_of s' = screen_print (terminal_color s) chars (screen_of s)))"
  proof (rule irq_resumes [OF W(1) l])
    fix ctx :: context_t and s1 assume e: "entered d r s s1" and i: "int_no ctx = word_of_nat 33"
    obtain dv where d: "irq_handler ctx c s1 = keyboard_handler c (s1\<lparr>dev := dv\<rparr>)"
      using irq_handler_runs [OF _ _ i, of c s1] entered_fields(3) [OF e] W(4) by (auto simp: run_handler_def)
    let ?s = "s1\<lparr>dev := dv\<rparr>"
    have e2: "entered d r s ?s" by (rule entered_dev [OF e])
    have k: "keyboard_ready n ?s" by (rule entered_ready [OF e2 W(1,2)])
    obtain s2 where s2: "keyboard_handler c ?s = Inr s2" "keyboard_ready k s2" "screen_of s2 = screen_print (terminal_color s) chars (screen_of s)"
      "s2 = ?s\<lparr>phys := phys s2, terminal_row := terminal_row s2, terminal_column := terminal_column s2, shift := shift s2\<rparr>"
      "\<forall>a\<in>kernel_region ?s. page_of a \<noteq> 0xb8000 \<longrightarrow> vview s2 a = vview ?s a"
      using keyboard_step [OF k n t] g entered_screen [OF e2 W(1)] by auto
    show "ok (irq_handler ctx c s1) (\<lambda>s2. left_alone d r s1 s2 \<and> waits d k (resumed r) s2 \<and> waited d r s s2 \<and> ticks s2 = ticks s \<and>
      screen_of s2 = screen_print (terminal_color s) chars (screen_of s))"
      using waits_again [OF e2 W(1,3,4) s2(2,4,5)] s2(3) unfolding d s2(1) by simp
  qed simp_all
  then show ?thesis by (rule ok_mono) auto
qed

lemma waits_ticks:
  fixes s :: "'a cpu_scheme"
  assumes w: "waits d n r s"
  shows "waits d n r (s\<lparr>ticks := x\<rparr>)" "screen_of (s\<lparr>ticks := x\<rparr>) = screen_of s"
    "left_alone d q s0 s \<Longrightarrow> left_alone d q s0 (s\<lparr>ticks := x\<rparr>)" "waited d q s0 s \<Longrightarrow> waited d q s0 (s\<lparr>ticks := x\<rparr>)"
proof -
  let ?s = "s\<lparr>ticks := x\<rparr>"
  have v: "vview ?s = vview s" by (rule vview_cong) simp_all
  then show "screen_of ?s = screen_of s" by (simp add: screen_of_def)
  have h: "heap_inv ?s" by (rule kh.valid_cong [of s]) (use w in \<open>simp_all add: waits_def interruptible_def\<close>)
  then show "left_alone d q s0 s \<Longrightarrow> left_alone d q s0 ?s" "waited d q s0 s \<Longrightarrow> waited d q s0 ?s"
    by (simp_all add: left_alone_def waited_def region_def v)
  show "waits d n r ?s"
    using w h init_idt_stubs [of ?s s]
    by (simp add: waits_def interruptible_def keyboard_ready_def keyboard_ok_def terminal_ok_def region_def)
qed

lemma tick_interrupt:
  fixes s :: "'a cpu_scheme"
  assumes w: "waits d n r s" and l: "length (left_frame ce) \<le> d" and t: "unat (ticks s) mod 1000 + 1 < 1000" "unat (ticks s) + 1 < 2 ^ 32"
  shows "ok (interrupt ce c 32 None (r, s)) (\<lambda>(r', s'). r' = resumed r \<and> waits d n r' s' \<and> waited d r s s' \<and> ticks s' = ticks s + 1 \<and>
    screen_of s' = screen_of s)"
proof -
  have W: "interruptible d r s" "keyboard_ready n s" "interrupt_handlers s 32 = Some Timer_callback" "interrupt_handlers s 33 = Some Keyboard_handler"
    using w by (simp_all add: waits_def)
  have "ok (interrupt ce c 32 None (r, s)) (\<lambda>(r', s'). r' = resumed r \<and> (waits d n (resumed r) s' \<and> waited d r s s' \<and> ticks s' = ticks s + 1 \<and>
    screen_of s' = screen_of s))"
  proof (rule irq_resumes [OF W(1) l])
    fix ctx :: context_t and s1 assume e: "entered d r s s1" and i: "int_no ctx = word_of_nat 32"
    obtain dv where d: "irq_handler ctx c s1 = timer_callback (s1\<lparr>dev := dv\<rparr>)"
      using irq_handler_runs [OF _ _ i, of c s1] entered_fields(3) [OF e] W(3) by (auto simp: run_handler_def)
    let ?s = "s1\<lparr>dev := dv\<rparr>"
    let ?t = "?s\<lparr>ticks := ticks s + 1\<rparr>"
    have e2: "entered d r s ?s" by (rule entered_dev [OF e])
    have tc: "timer_callback ?s = Inr ?t" using timer_quiet [of ?s 1] t entered_fields(7) [OF e2] by (auto simp: result_simps)
    have k: "keyboard_ready n ?s" by (rule entered_ready [OF e2 W(1,2)])
    have w: "left_alone d r ?s ?s \<and> waits d n (resumed r) ?s \<and> waited d r s ?s"
      using waits_again [OF e2 W(1,3,4) k] by simp
    show "ok (irq_handler ctx c s1) (\<lambda>s2. left_alone d r s1 s2 \<and> waits d n (resumed r) s2 \<and> waited d r s s2 \<and> ticks s2 = ticks s + 1 \<and>
      screen_of s2 = screen_of s)"
    proof -
      have wt: "waits d n (resumed r) ?s" "left_alone d r ?s ?s" "waited d r s ?s" using w by blast+
      show ?thesis
        unfolding d tc ok_Inr
        using waits_ticks(1,2) [OF wt(1), of "ticks s + 1"] waits_ticks(3) [OF wt(1,2), of "ticks s + 1"]
          waits_ticks(4) [OF wt(1,3), of "ticks s + 1"] entered_screen(1) [OF e2 W(1)] by simp
    qed
  qed simp_all
  then show ?thesis by (rule ok_mono) auto
qed

text \<open>
  A sequence of interrupts without error code: what the handler leaves of registers and stack, the vector, and what port 0x60 holds.
\<close>

fun interrupts :: "(cdecl \<times> nat \<times> u8) list \<Rightarrow> cpu_regs \<times> 'a cpu_scheme \<Rightarrow> stop + cpu_regs \<times> 'a cpu_scheme" where
  "interrupts [] rs = Inr rs"
| "interrupts ((ce, vec, sc) # es) rs = and_then (interrupt ce sc vec None rs) (interrupts es)"

definition key_codes :: "(cdecl \<times> nat \<times> u8) list \<Rightarrow> u8 list" where
  "key_codes es = map (\<lambda>(ce, vec, sc). sc) (filter (\<lambda>(ce, vec, sc). vec = 33) es)"

definition tick_count :: "(cdecl \<times> nat \<times> u8) list \<Rightarrow> nat" where
  "tick_count es = length (filter (\<lambda>(ce, vec, sc). vec = 32) es)"

text \<open>Interrupts of the timer and the keyboard whose handlers need no more than \<open>d\<close> words of stack.\<close>

definition expected :: "nat \<Rightarrow> (cdecl \<times> nat \<times> u8) list \<Rightarrow> bool" where
  "expected d es \<longleftrightarrow> (\<forall>(ce, vec, sc)\<in>set es. vec \<in> {32, 33} \<and> length (left_frame ce) \<le> d)"

lemma typed_Cons:
  assumes "typed n (c # cs) = (chars, Some m)"
  shows "\<exists>chars1 k chars2. typed n [c] = (chars1, Some k) \<and> typed k cs = (chars2, Some m) \<and> chars = chars1 @ chars2 \<and> k \<le> n + 1"
  using assms by (cases "n = 0") (auto split: if_splits option.splits prod.splits)

lemma interrupts_run:
  fixes s :: "'a cpu_scheme"
  assumes "waits d n r s" "expected d es" "typed n (key_codes es) = (chars, Some m)" "n + length es < 2 ^ 31"
    and "on_page (terminal_color s) chars (screen_of s)" "unat (ticks s) mod 1000 + tick_count es < 1000" "unat (ticks s) + tick_count es < 2 ^ 32"
  shows "ok (interrupts es (r, s)) (\<lambda>(r', s'). r' = (if es = [] then r else resumed r) \<and> waits d m r' s' \<and> waited d r s s' \<and>
    ticks s' = ticks s + word_of_nat (tick_count es) \<and> screen_of s' = screen_print (terminal_color s) chars (screen_of s))"
  using assms
proof (induction es arbitrary: n r s chars)
  case Nil
  then show ?case by (simp add: key_codes_def tick_count_def waited_def screen_print_def)
next
  case (Cons e es)
  obtain ce vec c where e: "e = (ce, vec, c)" by (cases e)
  have split: "ok (interrupts (e # es) (r, s)) Q"
    if "ok (interrupt ce c vec None (r, s)) (\<lambda>(r', s'). r' = resumed r \<and> P s')" "\<And>s1. P s1 \<Longrightarrow> ok (interrupts es (resumed r, s1)) Q" for P Q
    unfolding e interrupts.simps by (rule ok_bind [OF that(1)]) (use that(2) in auto)
  have "expected d ((ce, vec, c) # es)" using Cons.prems(2) by (simp only: e)
  then have vec: "vec = 33 \<or> vec = 32" and l: "length (left_frame ce) \<le> d" and sub: "expected d es"
    unfolding expected_def by simp_all blast
  show ?case
  proof (cases "vec = 33")
    case True
    then have kc: "key_codes (e # es) = c # key_codes es" "tick_count (e # es) = tick_count es"
      by (simp_all add: e key_codes_def tick_count_def)
    obtain chars1 k chars2 where t: "typed n [c] = (chars1, Some k)" "typed k (key_codes es) = (chars2, Some m)" "chars = chars1 @ chars2" "k \<le> n + 1"
      using typed_Cons [OF Cons.prems(3) [unfolded kc]] by blast
    have g: "on_page (terminal_color s) chars1 (screen_of s)"
      "on_page (terminal_color s) chars2 (screen_print (terminal_color s) chars1 (screen_of s))"
      using Cons.prems(5) by (simp_all add: t(3) on_page_append)
    show ?thesis
    proof (rule split)
      show "ok (interrupt ce c vec None (r, s)) (\<lambda>(r', s'). r' = resumed r \<and> (waits d k (resumed r) s' \<and> waited d r s s' \<and> ticks s' = ticks s \<and>
          screen_of s' = screen_print (terminal_color s) chars1 (screen_of s)))"
        unfolding True by (rule ok_mono [OF key_interrupt [OF Cons.prems(1) l _ t(1) g(1)]]) (use Cons.prems(4) in auto)
      fix s1 assume s1: "waits d k (resumed r) s1 \<and> waited d r s s1 \<and> ticks s1 = ticks s \<and>
        screen_of s1 = screen_print (terminal_color s) chars1 (screen_of s)"
      then have c: "terminal_color s1 = terminal_color s" by (simp add: waited_def)
      show "ok (interrupts es (resumed r, s1)) (\<lambda>(r', s'). r' = (if e # es = [] then r else resumed r) \<and> waits d m r' s' \<and> waited d r s s' \<and>
          ticks s' = ticks s + word_of_nat (tick_count (e # es)) \<and> screen_of s' = screen_print (terminal_color s) chars (screen_of s))"
        using Cons.IH [of k "resumed r" s1 chars2] s1 sub t(2,4) Cons.prems(4,6,7) g(2) waited_trans [of d r s s1]
        unfolding kc c by (simp add: t(3) screen_print_append waited_resumed) (erule ok_mono, auto split: if_splits)
    qed
  next
    case False
    then have v: "vec = 32" using vec by simp
    then have kc: "key_codes (e # es) = key_codes es" "tick_count (e # es) = Suc (tick_count es)"
      by (simp_all add: e key_codes_def tick_count_def)
    have q: "unat (ticks s) mod 1000 + 1 < 1000" "unat (ticks s) + 1 < 2 ^ 32" using Cons.prems(6,7) by (simp_all add: kc)
    show ?thesis
    proof (rule split)
      show "ok (interrupt ce c vec None (r, s)) (\<lambda>(r', s'). r' = resumed r \<and> (waits d n (resumed r) s' \<and> waited d r s s' \<and> ticks s' = ticks s + 1 \<and>
          screen_of s' = screen_of s))"
        unfolding v by (rule ok_mono [OF tick_interrupt [OF Cons.prems(1) l q]]) auto
      fix s1 assume s1: "waits d n (resumed r) s1 \<and> waited d r s s1 \<and> ticks s1 = ticks s + 1 \<and> screen_of s1 = screen_of s"
      then have c: "terminal_color s1 = terminal_color s" by (simp add: waited_def)
      have u: "unat (ticks s1) = unat (ticks s) + 1" using s1 q(2) by (simp add: unat_word_ariths)
      then have m: "unat (ticks s1) mod 1000 = unat (ticks s) mod 1000 + 1" using q(1) by (simp add: mod_Suc)
      show "ok (interrupts es (resumed r, s1)) (\<lambda>(r', s'). r' = (if e # es = [] then r else resumed r) \<and> waits d m r' s' \<and> waited d r s s' \<and>
          ticks s' = ticks s + word_of_nat (tick_count (e # es)) \<and> screen_of s' = screen_print (terminal_color s) chars (screen_of s))"
        using Cons.IH [of n "resumed r" s1 chars] s1 sub Cons.prems(3-7) m u waited_trans [of d r s s1]
        unfolding kc c by (simp add: waited_resumed) (erule ok_mono, auto split: if_splits)
    qed
  qed
qed

section \<open>Properties\<close>

text \<open>
  C28: between two reports of the timer interrupts are invisible to the code they interrupt. Keys of the layout and shift keys, of which none is
  released more often than pressed, and ticks, of which none completes a second, arrive in any order, and what is typed stays on the screen's page. Each
  interrupt goes through the gate, the stub, the dispatch and its handler and back. At the end the interrupted code has the registers it had,
  only \<open>es\<close>, \<open>fs\<close> and \<open>gs\<close> hold its data segment now. Memory changed only on the screen and below the stack pointer, in the 64 bytes of the stub
  and the \<open>d\<close> words the C functions have for their frames. The ticks are counted, and the screen shows what the keys mean.
\<close>

theorem interrupts_are_invisible:
  assumes "waits d n r s" "expected d es" "typed n (key_codes es) = (chars, Some m)" "n + length es < 2 ^ 31"
    and "on_page (terminal_color s) chars (screen_of s)" "unat (ticks s) mod 1000 + tick_count es < 1000" "unat (ticks s) + tick_count es < 2 ^ 32"
  shows "\<exists>s'. interrupts es (r, s) = Inr (if es = [] then r else r\<lparr>r_es := r_ds r, r_fs := r_ds r, r_gs := r_ds r\<rparr>, s') \<and>
    ticks s' = ticks s + word_of_nat (tick_count es) \<and> screen_of s' = screen_print (terminal_color s) chars (screen_of s) \<and>
    (\<forall>a\<in>kernel_region s. a \<notin> span (r_esp r - 64 - 4 * word_of_nat d) (4 * d + 64) \<and> page_of a \<noteq> 0xb8000 \<longrightarrow> vview s' a = vview s a)"
proof -
  obtain s' where "interrupts es (r, s) = Inr (if es = [] then r else resumed r, s')" "waited d r s s'"
    "ticks s' = ticks s + word_of_nat (tick_count es)" "screen_of s' = screen_print (terminal_color s) chars (screen_of s)"
    using interrupts_run [OF assms] by (auto simp: ok_def)
  then show ?thesis unfolding waited_def frame_space_def resumed_def by blast
qed

text \<open>A kernel that waits, with its stack at the end of its data.\<close>

definition idle_regs :: cpu_regs where
  "idle_regs = \<lparr>r_eax = 1, r_ecx = 2, r_edx = 3, r_ebx = 4, r_esp = 0x180040, r_ebp = 0x180080, r_esi = 5, r_edi = 6, r_eip = 0x104000,
     r_eflags = 0x202, r_cs = 0x08, r_ds = 0x10, r_es = 0x10, r_fs = 0x10, r_gs = 0x10\<rparr>"

definition idle_call :: cdecl where
  "idle_call = \<lparr>left_eax = 7, left_ecx = 8, left_edx = 9, left_eflags = 0x46, left_frame = [0x180080, 0x20, 9], return_address = 0x103000\<rparr>"

lemma idle_call_depth: "length (left_frame idle_call) = 3"
  by (simp add: idle_call_def)

lemma boot_stubs: "distinct (stub_addresses (stubs boot_cpu))"
  by (simp add: stub_addresses_def boot_cpu_def keyboard.defs cpu.defs upt_rec)

lemma waiting_kernel:
  "\<exists>s :: cpu. waits 3 0 idle_regs s \<and> ticks s = 0 \<and> terminal_color s = 7 \<and> cursor (screen_of s) = 0 \<and> interrupt_handlers s 0 = None"
proof -
  define m :: "u32 \<Rightarrow> u8" where "m = (\<lambda>i. table_lookup key_table i 0)"
  define t :: cpu where "t = (init_idt boot_cpu)\<lparr>keymap := m\<rparr>"
  have t: "terminal_row t = 0" "terminal_column t = 0" "terminal_color t = 7" "terminal_ptr t = VGA_MEMORY"
    "keymap t = m" "shift t = 0" "ticks t = 0" "stubs t = stubs boot_cpu" "idt t = idt (init_idt boot_cpu)"
  proof -
    have e: "init_idt boot_cpu = boot_cpu\<lparr>idt_ptr := idt_ptr (init_idt boot_cpu), idt := idt (init_idt boot_cpu), idtr := idtr (init_idt boot_cpu)\<rparr>"
      by (rule init_idt_fields)
    show "terminal_row t = 0" "terminal_column t = 0" "terminal_color t = 7" "terminal_ptr t = VGA_MEMORY" "ticks t = 0" "shift t = 0"
      "stubs t = stubs boot_cpu" "keymap t = m" "idt t = idt (init_idt boot_cpu)"
      using boot_tty_fields unfolding t_def
      by (subst e, simp add: boot_cpu_def boot_keyboard_def boot_timer_def keyboard.defs cpu.defs timer.defs tty.defs)+
  qed
  obtain s :: cpu where s: "heap_inv s" "mm.more s = mm.more t" "syms s = boot_symbols" "terminal_ok s" "terminal_color s = 7" "cursor (screen_of s) = 0"
    using tty_with_text [of "[]" t] t(1-4) by auto
  have f: "keymap s = m" "shift s = 0" "ticks s = 0" "stubs s = stubs t" "idt s = idt t"
    using s(2) t(5-7) by (cases s, cases t, simp)+
  let ?s = "s\<lparr>interrupt_handlers := [32 \<mapsto> Timer_callback, 33 \<mapsto> Keyboard_handler]\<rparr>"
  have inv: "heap_inv ?s" by (rule kh.valid_cong [OF s(1)]) simp_all
  have vv: "vview ?s = vview s" by (rule vview_cong) simp_all
  have st: "stubs ?s = stubs boot_cpu" using f(4) t(8) by simp
  have "span 0x17FFF4 76 \<subseteq> {a \<in> kernel_region s. page_of a \<noteq> 0xb8000}"
    using kernel_data_span [of "0x17FFF4" 76] span_iff [of "0x17FFF4" 76] by (auto simp: region_def s(3) vga_range)
  then have "interruptible 3 idle_regs ?s"
    using inv f(5) t(9) boot_stubs init_idt_stubs [OF st]
    by (simp add: interruptible_def st frame_space_def region_def) (simp add: idle_regs_def word_aligned_def)
  moreover have "keyboard_ready 0 ?s"
    using inv s(4) f(1,2) key_lookup by (simp add: keyboard_ready_def keyboard_ok_def terminal_ok_def m_def)
  ultimately have "waits 3 0 idle_regs ?s" by (simp add: waits_def)
  then show ?thesis using s(5,6) f(3) by (intro exI [of _ ?s]) (simp add: screen_of_def vv)
qed

theorem interrupts_are_invisible_witness:
  "\<exists>(s :: cpu) s'. interrupts (map (Pair idle_call) [(32, 0), (33, 0x2A), (32, 0), (33, 0x23), (33, 0xAA), (32, 0), (33, 0x17)]) (idle_regs, s) = Inr (idle_regs, s') \<and>
    ticks s' = 3 \<and> cells (screen_of s') ! 0 = 0x0748 \<and> cells (screen_of s') ! 1 = 0x0769"
proof -
  let ?es = "map (Pair idle_call) [(32, 0), (33, 0x2A), (32, 0), (33, 0x23), (33, 0xAA), (32, 0), (33, 0x17)]"
  have x: "expected 3 ?es" by (simp add: expected_def idle_call_def)
  obtain s :: cpu where s: "waits 3 0 idle_regs s" "ticks s = 0" "terminal_color s = 7" "cursor (screen_of s) = 0"
    using waiting_kernel by blast
  have t: "typed 0 (key_codes ?es) = ([72, 105], Some 0)"
    by (simp add: key_codes_def shift_key_def driver_char_def layout_char_def key_rows_def of_char_def)
  have g: "on_page (terminal_color s) [72, 105] (screen_of s)" using s(4) by (simp add: screen_put_def)
  obtain s' where s': "interrupts ?es (idle_regs, s) = Inr (if ?es = [] then idle_regs
      else idle_regs\<lparr>r_es := r_ds idle_regs, r_fs := r_ds idle_regs, r_gs := r_ds idle_regs\<rparr>, s')"
    "ticks s' = ticks s + word_of_nat (tick_count ?es)" "screen_of s' = screen_print (terminal_color s) [72, 105] (screen_of s)"
    using interrupts_are_invisible [OF s(1) x t _ g] s(2) by (auto simp: tick_count_def)
  have "length (cells (screen_of s)) = 2048" by (simp add: screen_of_def screen_cells_def)
  then show ?thesis
    using s' s(2-4) by (intro exI [of _ s] exI [of _ s'])
      (simp add: screen_print_def screen_put_def vga_char_def tick_count_def, simp add: idle_regs_def)
qed

text \<open>
  C29: an exception without handler is reported on the serial line and the code is resumed where it was interrupted, whether
  the processor pushed an error code or not, with all its registers, of which \<open>es\<close>, \<open>fs\<close> and \<open>gs\<close> hold its data segment now; a fault is resumed at the instruction that
  failed, so it happens again. Memory changes only below the stack pointer, in the words of the stub and of the C functions' frames.
\<close>

theorem unhandled_exception_returns:
  assumes "interruptible (length (left_frame ce)) r s" "vec < 32" "(err = None) = (vec \<notin> {8, 10, 11, 12, 13, 14})" "interrupt_handlers s (word_of_nat vec) = None"
  shows "\<exists>s'. interrupt ce sc vec err (r, s) = Inr (r\<lparr>r_es := r_ds r, r_fs := r_ds r, r_gs := r_ds r\<rparr>, s') \<and>
    s' = s\<lparr>phys := phys s', dev := klog ''Received interrupt: %x\<newline>'' [Num (word_of_nat vec)] (dev s)\<rparr> \<and>
    (\<forall>a\<in>kernel_region s. a \<notin> span (r_esp r - 64 - 4 * word_of_nat (length (left_frame ce))) (4 * length (left_frame ce) + 64) \<longrightarrow> vview s' a = vview s a)"
proof -
  have fs: "frame_space (length (left_frame ce)) r \<subseteq> kernel_region s" using assms(1) by (auto simp: interruptible_def)
  have "ok (interrupt ce sc vec err (r, s)) (\<lambda>(r', s'). r' = resumed r \<and>
    (s' = s\<lparr>phys := phys s', dev := klog ''Received interrupt: %x\<newline>'' [Num (word_of_nat vec)] (dev s)\<rparr> \<and>
     (\<forall>a\<in>kernel_region s. a \<notin> span (r_esp r - 64 - 4 * word_of_nat (length (left_frame ce))) (4 * length (left_frame ce) + 64) \<longrightarrow> vview s' a = vview s a)))"
  proof (rule exception_resumes [OF assms(1) order_refl assms(2) assms(3) [folded error_codes_def]])
    fix c :: context_t and s1 assume p: "s1 = s\<lparr>phys := phys s1\<rparr>" and e: "entered (length (left_frame ce)) r s s1" and n: "int_no c = word_of_nat vec"
    let ?s = "mlog ''Received interrupt: %x\<newline>'' [Num (word_of_nat vec)] s1"
    have u: "unat (int_no c) = vec" "ucast (int_no c) = (word_of_nat vec :: u8)"
      using n assms(2) by (simp_all add: unat_of_nat ucast_via_unat)
    have h: "isr_handler c sc s1 = Inr ?s"
      using u assms(2,4) entered_fields(3) [OF e] by (simp add: isr_handler_def Let_def n word_le_nat_alt)
    have la: "left_alone (length (left_frame ce)) r s1 ?s"
      by (rule left_alone_cong) (use e fs entered_fields(4) [OF e] in \<open>simp_all add: entered_def mlog_def\<close>)
    have d: "dev s1 = dev s" using arg_cong [OF p, of dev] by simp
    have "?s = s\<lparr>phys := phys s1\<rparr>\<lparr>dev := klog ''Received interrupt: %x\<newline>'' [Num (word_of_nat vec)] (dev s)\<rparr>"
      using p by (simp add: mlog_def d)
    then have eq: "?s = s\<lparr>phys := phys ?s, dev := klog ''Received interrupt: %x\<newline>'' [Num (word_of_nat vec)] (dev s)\<rparr>" by simp
    have vv: "vview ?s = vview s1" by (rule vview_cong) simp_all
    show "ok (isr_handler c sc s1) (\<lambda>s'. left_alone (length (left_frame ce)) r s1 s' \<and>
      (s' = s\<lparr>phys := phys s', dev := klog ''Received interrupt: %x\<newline>'' [Num (word_of_nat vec)] (dev s)\<rparr> \<and>
       (\<forall>a\<in>kernel_region s. a \<notin> span (r_esp r - 64 - 4 * word_of_nat (length (left_frame ce))) (4 * length (left_frame ce) + 64) \<longrightarrow> vview s' a = vview s a)))"
      unfolding h ok_Inr using la eq e vv by (simp only: entered_def frame_space_def) blast
  qed
  then show ?thesis by (auto simp: ok_def resumed_def)
qed

theorem unhandled_exception_returns_witness:
  "\<exists>(s :: cpu) s'. interrupt idle_call 0 0 None (idle_regs, s) = Inr (idle_regs, s')"
proof -
  obtain s :: cpu where s: "interruptible 3 idle_regs s" "interrupt_handlers s 0 = None"
    using waiting_kernel by (auto simp: waits_def)
  obtain s' where "interrupt idle_call 0 0 None (idle_regs, s) = Inr (idle_regs\<lparr>r_es := r_ds idle_regs, r_fs := r_ds idle_regs, r_gs := r_ds idle_regs\<rparr>, s')"
    using unhandled_exception_returns [of idle_call idle_regs s 0 None 0] s by (auto simp: idle_call_depth)
  then show ?thesis by (intro exI [of _ s] exI [of _ s']) (simp add: idle_regs_def)
qed

end
