(* ===== verification/Three_Tasks.thy ===== *)
theory Three_Tasks
  imports Tasks
begin

text \<open>
  The three tasks that \<open>init_tasking\<close> starts, together: the kernel's own loop and the test tasks of \<open>kernel/tasking.c\<close> take
  turns through the scheduler, the first of them writes to the terminal and ends. Which of them runs is read off the
  registers that the context switch left.
\<close>

unbundle bit_operations_syntax

section \<open>Turns\<close>

datatype code = Kernel_loop | Task1 | Task2

text \<open>
  Where the three pieces of code are: the address in the loop of \<open>init_tasking\<close> from which it is first left, and the stacks
  that the loop and the two tasks return along. The entries of the tasks are in the state.
\<close>

record places =
  loop_at :: u32
  boot_stack :: u32
  stack1 :: u32
  stack2 :: u32

text \<open>
  The code that the processor executes: a new task is at its entry, and a task that called the
  scheduler is behind the call of the stub, from where \<open>switch_to_task\<close> and \<open>schedule\<close> return along the frames on the
  stack to the caller that laid them there.
\<close>

definition code_of :: "places \<Rightarrow> 'a tasking_scheme \<Rightarrow> code option" where
  "code_of w s =
     (let r = regs s; on = (\<lambda>stack. unat (esp r - stack) < 4096) in
      if eip r = loop_at w then Some Kernel_loop
      else if eip r = task1_fn s then Some Task1
      else if eip r = task2_fn s then Some Task2
      else if eip r \<noteq> switch_return s then None
      else if on (boot_stack w) then Some Kernel_loop
      else if on (stack1 w) then Some Task1
      else if on (stack2 w) then Some Task2
      else None)"

text \<open>
  One turn: the code that the registers lead to runs to its next call of the scheduler. The registers it has there, which
  depend on the code and the frames of the C compiler, are \<open>call\<close> of those it was resumed with. \<open>x\<close> is the local
  variable of \<open>task1\<close>, which its entry initialises, and \<open>message\<close> the address of its text.
\<close>

definition turn :: "u32 \<Rightarrow> places \<Rightarrow> (registers \<Rightarrow> registers) \<Rightarrow> int \<times> 'a tasking_scheme \<Rightarrow> stop + code \<times> int \<times> 'a tasking_scheme" where
  "turn message w call xs =
     (let (x, s) = xs; s' = s\<lparr>regs := call (regs s)\<rparr> in
      case code_of w s of
        Some Kernel_loop \<Rightarrow> and_then (idle_turn s') (\<lambda>s. Inr (Kernel_loop, x, s))
      | Some Task1 \<Rightarrow>
          and_then (task1_turn message (if eip (regs s) = task1_fn s then 10 else x) s') (\<lambda>(x, s). Inr (Task1, x, s))
      | Some Task2 \<Rightarrow> and_then (task2_turn s') (\<lambda>s. Inr (Task2, x, s))
      | None \<Rightarrow> Inl Undefined)"

text \<open>The trace of \<open>n\<close> turns, of which the first is number \<open>i\<close>.\<close>

fun turns :: "u32 \<Rightarrow> places \<Rightarrow> (nat \<Rightarrow> registers \<Rightarrow> registers) \<Rightarrow> nat \<Rightarrow> nat \<Rightarrow> int \<times> 'a tasking_scheme \<Rightarrow>
    stop + code list \<times> int \<times> 'a tasking_scheme" where
  "turns message w call i 0 xs = Inr ([], xs)"
| "turns message w call i (Suc n) xs =
     and_then (turn message w (call i) xs) (\<lambda>(c, xs).
     and_then (turns message w call (Suc i) n xs) (\<lambda>(cs, xs). Inr (c # cs, xs)))"

lemma turns_append:
  "turns p w call i n xs = Inr (cs, ys) \<Longrightarrow> turns p w call (i + n) m ys = Inr (cs', zs) \<Longrightarrow> turns p w call i (n + m) xs = Inr (cs @ cs', zs)"
proof (induction n arbitrary: i xs cs)
  case (Suc n)
  then obtain c xs' cs1 where t: "turn p w (call i) xs = Inr (c, xs')" "turns p w call (Suc i) n xs' = Inr (cs1, ys)" "cs = c # cs1"
    by (auto simp: and_then_Inr_conv split: prod.splits)
  have "turns p w call (Suc i) (n + m) xs' = Inr (cs1 @ cs', zs)" by (rule Suc.IH [OF t(2)]) (use Suc.prems(2) in simp)
  then show ?case by (simp add: t(1,3))
qed simp

section \<open>Contexts\<close>

text \<open>Room for the frames of the scheduler below a stack pointer, on the stack at \<open>b\<close>.\<close>

definition room_at :: "u32 \<Rightarrow> u32 \<Rightarrow> bool" where
  "room_at b e \<longleftrightarrow> word_aligned e \<and> span (e - 24) 24 \<subseteq> span b 4096"

text \<open>The registers a task is resumed with: the first ones, or those that a call of the scheduler with enough room left.\<close>

definition resumes :: "u32 \<Rightarrow> registers \<Rightarrow> u32 \<Rightarrow> registers \<Rightarrow> bool" where
  "resumes ret r0 b r \<longleftrightarrow> r = r0 \<or> eip r = ret \<and> room_at b (esp r + 4)"

text \<open>The code of a task leaves that room whenever it calls the scheduler.\<close>

definition frames_fit :: "u32 \<Rightarrow> registers \<Rightarrow> u32 \<Rightarrow> (nat \<Rightarrow> registers \<Rightarrow> registers) \<Rightarrow> bool" where
  "frames_fit ret r0 b call \<longleftrightarrow> (\<forall>i r. resumes ret r0 b r \<longrightarrow> room_at b (esp (call i r)))"

lemma room_at_room: "room_at (stk (current_task s)) (esp (regs s)) \<Longrightarrow> room stk s"
  by (simp add: room_def room_at_def)

lemma resumes_saved: "room_at b (esp r) \<Longrightarrow> resumes ret r0 b (saved ret r)"
  by (simp add: resumes_def saved_def)

lemma resumes_stack:
  assumes "room_at b (esp r + 4)"
  shows "unat (esp r - b) < 4096" "span b 4096 \<inter> span b' 4096 = {} \<Longrightarrow> \<not> unat (esp r - b') < 4096"
proof -
  have "esp r + 4 - 24 + word_of_nat 20 \<in> span (esp r + 4 - 24) 24" by (rule span_memI) simp_all
  then have "esp r \<in> span b 4096" using assms(1) unfolding room_at_def by auto
  then show "unat (esp r - b) < 4096" "span b 4096 \<inter> span b' 4096 = {} \<Longrightarrow> \<not> unat (esp r - b') < 4096" by (auto simp: span_def)
qed

text \<open>The context of every task in a pool, the running one included.\<close>

definition context_of :: "task_pool \<Rightarrow> u32 \<Rightarrow> registers" where
  "context_of a t = (if t = hd (queue a) then running a else contexts a t)"

definition placed :: "u32 \<Rightarrow> (u32 \<Rightarrow> registers) \<Rightarrow> (u32 \<Rightarrow> u32) \<Rightarrow> task_pool \<Rightarrow> bool" where
  "placed ret r0 stk a \<longleftrightarrow> distinct (queue a) \<and> (\<forall>t\<in>set (queue a). resumes ret (r0 t) (stk t) (context_of a t))"

text \<open>A turn of the pool whose running task calls the scheduler with the registers \<open>r\<close>.\<close>

definition called :: "u32 \<Rightarrow> registers \<Rightarrow> task_pool \<Rightarrow> task_pool" where
  "called ret r a = round_robin ret (a\<lparr>running := r\<rparr>)"

lemma called_queue: "queue a = c # n # rest \<Longrightarrow> queue (called ret r a) = n # rest @ [c]"
  by (simp add: called_def queue_round_robin)

lemma called_contexts:
  assumes "queue a = c # n # rest" "distinct (queue a)" "t \<in> set (queue a)"
  shows "context_of (called ret r a) t = (if t = c then saved ret r else context_of a t)"
  using assms by (auto simp: called_def round_robin_def context_of_def)

lemma called_placed:
  assumes "placed ret r0 stk a" "queue a = c # n # rest" "room_at (stk c) (esp r)"
  shows "placed ret r0 stk (called ret r a)"
proof -
  have d: "distinct (queue a)" using assms(1) by (simp add: placed_def)
  have "resumes ret (r0 t) (stk t) (context_of (called ret r a) t)" if "t \<in> set (queue a)" for t
    using called_contexts [OF assms(2) d that] assms(1,3) that resumes_saved by (auto simp: placed_def)
  then show ?thesis using d unfolding placed_def called_queue [OF assms(2)] unfolding assms(2) by auto
qed

text \<open>The places of the loop and of the two tasks are where their first contexts and their stacks are.\<close>

definition located :: "places \<Rightarrow> (u32 \<Rightarrow> registers) \<Rightarrow> (u32 \<Rightarrow> u32) \<Rightarrow> u32 \<Rightarrow> u32 \<Rightarrow> u32 \<Rightarrow> 'a tasking_scheme \<Rightarrow> bool" where
  "located w r0 stk k t1 t2 s \<longleftrightarrow>
     eip (r0 k) = loop_at w \<and> eip (r0 t1) = task1_fn s \<and> eip (r0 t2) = task2_fn s \<and> distinct [loop_at w, task1_fn s, task2_fn s, switch_return s] \<and>
     stk k = boot_stack w \<and> stk t1 = stack1 w \<and> stk t2 = stack2 w \<and> span (stk k) 4096 \<inter> span (stk t1) 4096 = {} \<and>
     span (stk k) 4096 \<inter> span (stk t2) 4096 = {} \<and> span (stk t1) 4096 \<inter> span (stk t2) 4096 = {}"

lemma code_of_task:
  assumes "located w r0 stk k t1 t2 s" "resumes (switch_return s) (r0 c) (stk c) (regs s)"
  shows "c = k \<Longrightarrow> code_of w s = Some Kernel_loop" "c = t1 \<Longrightarrow> code_of w s = Some Task1" "c = t2 \<Longrightarrow> code_of w s = Some Task2"
proof -
  have d: "eip (r0 k) = loop_at w" "eip (r0 t1) = task1_fn s" "eip (r0 t2) = task2_fn s" "distinct [loop_at w, task1_fn s, task2_fn s, switch_return s]"
    "stk k = boot_stack w" "stk t1 = stack1 w" "stk t2 = stack2 w" "span (stk k) 4096 \<inter> span (stk t1) 4096 = {}"
    "span (stk k) 4096 \<inter> span (stk t2) 4096 = {}" "span (stk t1) 4096 \<inter> span (stk t2) 4096 = {}"
    using assms(1) unfolding located_def by blast+
  note st = resumes_stack [of "stk c" "regs s"]
  show "c = k \<Longrightarrow> code_of w s = Some Kernel_loop"
    using assms(2) d(1,4,5) st(1) unfolding resumes_def by (auto simp: code_of_def)
  show "c = t1 \<Longrightarrow> code_of w s = Some Task1"
    using assms(2) d(2,4-6) st(1) st(2) [of "stk k"] d(8) unfolding resumes_def by (auto simp: code_of_def Int_commute)
  show "c = t2 \<Longrightarrow> code_of w s = Some Task2"
    using assms(2) d(3-7) st(1) st(2) [of "stk k"] st(2) [of "stk t1"] d(9,10) unfolding resumes_def by (auto simp: code_of_def Int_commute)
qed

section \<open>Between two turns\<close>

text \<open>The cursor is at the start of row \<open>j\<close>, and \<open>p\<close> holds the message \<open>cs\<close>, outside the screen.\<close>

definition message_ready :: "u32 \<Rightarrow> u8 list \<Rightarrow> nat \<Rightarrow> 'a tty_scheme \<Rightarrow> bool" where
  "message_ready p cs j s \<longleftrightarrow> terminal_ok s \<and> cursor (screen_of s) = 80 * j \<and>
     cstring_in {a \<in> kernel_region s. page_of a \<noteq> 0xb8000} (vview s) p (length cs) \<and> bytes (vview s) p (length cs) = cs"

definition off_screen :: "u32 \<Rightarrow> nat \<Rightarrow> u32 set" where
  "off_screen p n = - ({x. page_of x = 0xb8000} \<union> span p (Suc n))"

text \<open>The kernel runs the pool, whose control blocks and stacks are neither on the screen nor where the message lies.\<close>

definition demo :: "(u32 \<Rightarrow> u32) \<Rightarrow> u32 \<Rightarrow> u8 list \<Rightarrow> nat \<Rightarrow> task_pool \<Rightarrow> 'a tasking_scheme \<Rightarrow> bool" where
  "demo stk p cs j a s \<longleftrightarrow> tasks_at stk s a \<and> message_ready p cs j s \<and>
     (\<forall>t\<in>set (queue a). pcb t \<union> span (stk t) 4096 \<subseteq> off_screen p (length cs))"

text \<open>What every turn but the last one of the first task keeps.\<close>

definition steady :: "u32 list \<Rightarrow> 'a tasking_scheme \<Rightarrow> 'a tasking_scheme \<Rightarrow> bool" where
  "steady q s s' \<longleftrightarrow> terminal_color s' = terminal_color s \<and> terminated s' = terminated s \<and> switch_return s' = switch_return s \<and>
     task1_fn s' = task1_fn s \<and> task2_fn s' = task2_fn s \<and>
     (\<forall>t\<in>set q. load32 (vview s') (process_pid t) = load32 (vview s) (process_pid t))"

lemma steady_trans: "steady q s s' \<Longrightarrow> steady q s' s'' \<Longrightarrow> steady q s s''"
  by (simp add: steady_def)

lemma steady_set: "steady q s s' \<Longrightarrow> set q' \<subseteq> set q \<Longrightarrow> steady q' s s'"
  by (auto simp: steady_def)

lemma steady_located: "steady q s s' \<Longrightarrow> located w r0 stk k t1 t2 s' = located w r0 stk k t1 t2 s"
  by (simp add: steady_def located_def)

text \<open>A change of variables only.\<close>

lemma demo_cong:
  fixes s s' :: "'a tasking_scheme"
  assumes d: "demo stk p cs j a s" and f: "phys s' = phys s" "cr0 s' = cr0 s" "cr3 s' = cr3 s" "syms s' = syms s" "heap_current s' = heap_current s"
      "heap_mapped s' = heap_mapped s" "terminal_row s' = terminal_row s" "terminal_column s' = terminal_column s" "terminal_ptr s' = terminal_ptr s"
      "current_task s' = current_task s" "ready_to_run s' = ready_to_run s"
  shows "demo stk p cs j (a\<lparr>running := regs s'\<rparr>) s'" "screen_of s' = screen_of s" "vview s' = vview s" "kernel_region s' = kernel_region s"
proof -
  show v: "vview s' = vview s" by (rule vview_cong [OF f(1-3)])
  then show "screen_of s' = screen_of s" by (simp add: screen_of_def f)
  show rg: "kernel_region s' = kernel_region s" by (simp add: region_def f)
  have a: "tasks_at stk s a" using d by (simp add: demo_def)
  have "heap_inv s'" by (rule kh.valid_cong [OF _ f(1-6)]) (use a in \<open>simp add: tasks_at_def\<close>)
  then have "tasks_at stk s' (a\<lparr>running := regs s'\<rparr>)"
    using a queue_inv_cong [of "kernel_region s" stk "queue a" s "vview s" "kernel_region s" s' "vview s"] f
    by (simp add: tasks_at_def rg v)
  then show "demo stk p cs j (a\<lparr>running := regs s'\<rparr>) s'"
    using d by (auto simp: demo_def message_ready_def terminal_ok_def screen_of_def f v rg)
qed

text \<open>A change of memory away from the screen and the message.\<close>

lemma message_keep:
  fixes s s' :: "'a tty_scheme"
  assumes m: "message_ready p cs j s" "heap_inv s" and f: "terminal_row s' = terminal_row s" "terminal_column s' = terminal_column s"
      "terminal_ptr s' = terminal_ptr s" "kernel_region s \<subseteq> kernel_region s'"
    and v: "\<And>x. x \<in> kernel_region s \<Longrightarrow> x \<notin> off_screen p (length cs) \<Longrightarrow> vview s' x = vview s x"
  shows "message_ready p cs j s'" "screen_of s' = screen_of s"
proof -
  have "vview s' x = vview s x" if "page_of x = 0xb8000" for x
    using v [of x] vg.vga_region [OF m(2) that] that by (simp add: off_screen_def)
  then have "screen_cells (vview s') = screen_cells (vview s)" unfolding screen_cells_def load16_def using cell_page by simp
  then show sc: "screen_of s' = screen_of s" by (simp add: screen_of_def f)
  have sp: "span p (Suc (length cs)) \<subseteq> kernel_region s" "Suc (length cs) < 2 ^ 32" using m(1) by (auto simp: message_ready_def cstring_in_def)
  then have b: "vview s' (p + word_of_nat i) = vview s (p + word_of_nat i)" if "i \<le> length cs" for i
    using span_memI [of i "Suc (length cs)" p] that v [of "p + word_of_nat i"] by (auto simp: off_screen_def)
  then have "bytes (vview s') p (length cs) = bytes (vview s) p (length cs)" by (simp add: bytes_def)
  moreover have "cstring_in {a \<in> kernel_region s'. page_of a \<noteq> 0xb8000} (vview s') p (length cs)"
    using m(1) b f(4) unfolding message_ready_def cstring_in_def by auto
  ultimately show "message_ready p cs j s'" using m(1) sc by (simp add: message_ready_def terminal_ok_def f)
qed

lemma pid_apart:
  assumes "queue_inv D stk ts s m" "t \<in> set ts" "t' \<in> set ts"
  shows "span (process_pid t) 4 \<inter> task_writes stk t' = {}"
proof (cases "t = t'")
  case True
  have "span (process_pid t) 4 \<inter> span (stk t) 4096 = {}" using queue_inv_apart(1) [OF assms(1,2,2)] pcb_fields(6) [of t] by blast
  then show ?thesis unfolding True [symmetric] by (auto simp: task_writes_def span4 process_fields process_pid_def)
next
  case False
  then show ?thesis
    using queue_inv_apart(1,2) [OF assms] pcb_fields(6) [of t] task_writes_sub [of stk t'] by blast
qed

lemma demo_tasks:
  assumes "demo stk p cs j a s"
  shows "tasks_at stk s a" "heap_inv s" "queue_inv (kernel_region s) stk (queue a) s (vview s)" "queue a \<noteq> []" "distinct (queue a)"
    "current_task s = hd (queue a)" "regs s = running a" "message_ready p cs j s"
  using assms queue_inv_list(1-3) unfolding demo_def tasks_at_def by blast+

lemma demo_schedule:
  fixes s :: "'a tasking_scheme"
  assumes d: "demo stk p cs j a s" and q: "queue a = c # n # rest" and r: "room_at (stk c) (esp (regs s))"
  shows "\<exists>s'. schedule s = Inr s' \<and> demo stk p cs j (round_robin (switch_return s) a) s' \<and> screen_of s' = screen_of s \<and> steady (queue a) s s'"
proof -
  note a = demo_tasks [OF d]
  have "room stk s" using r a(6) q by (intro room_at_room) simp
  from schedule_pool [OF a(1) this] obtain s' where s': "schedule s = Inr s'" "tasks_at stk s' (round_robin (switch_return s) a)"
    "s' = s\<lparr>phys := phys s', last_time := last_time s', previous_task := previous_task s', current_task := current_task s',
      regs := regs s', ready_to_run := ready_to_run s'\<rparr>"
    "\<forall>x\<in>kernel_region s. (\<forall>t\<in>set (queue a). x \<notin> task_writes stk t) \<longrightarrow> vview s' x = vview s x"
    by blast
  have f: "terminal_row s' = terminal_row s" "terminal_column s' = terminal_column s" "terminal_ptr s' = terminal_ptr s"
    "terminal_color s' = terminal_color s" "terminated s' = terminated s" "kernel_region s' = kernel_region s"
    "switch_return s' = switch_return s" "task1_fn s' = task1_fn s" "task2_fn s' = task2_fn s"
    using arg_cong [OF s'(3), of terminal_row] arg_cong [OF s'(3), of terminal_column] arg_cong [OF s'(3), of terminal_ptr]
      arg_cong [OF s'(3), of terminal_color] arg_cong [OF s'(3), of terminated] arg_cong [OF s'(3), of kernel_region]
      arg_cong [OF s'(3), of switch_return] arg_cong [OF s'(3), of task1_fn] arg_cong [OF s'(3), of task2_fn]
    by (simp_all add: region_def)
  have ap: "\<forall>t\<in>set (queue a). pcb t \<union> span (stk t) 4096 \<subseteq> off_screen p (length cs)"
    using d unfolding demo_def by blast
  have v: "vview s' x = vview s x" if "x \<in> kernel_region s" "x \<notin> off_screen p (length cs)" for x
    using s'(4) that ap task_writes_sub [of stk] by blast
  note mk = message_keep [OF a(8,2) f(1-3) equalityD2 [OF f(6)] v]
  have "load32 (vview s') (process_pid t) = load32 (vview s) (process_pid t)" if "t \<in> set (queue a)" for t
  proof (rule load32_span_cong)
    fix x assume x: "x \<in> span (process_pid t) 4"
    then have "x \<in> kernel_region s" using queue_inv_process(3) [OF a(3) that] pcb_fields(6) [of t] by blast
    then show "vview s' x = vview s x" using s'(4) pid_apart [OF a(3) that] x by blast
  qed
  then have "steady (queue a) s s'" by (simp add: steady_def f)
  moreover have "set (queue (round_robin (switch_return s) a)) = set (queue a)" by (simp add: queue_round_robin)
  ultimately show ?thesis
    using s'(1,2) mk ap unfolding demo_def by (intro exI [of _ s'] conjI) simp_all
qed

lemma demo_print:
  fixes s :: "'a tasking_scheme"
  assumes d: "demo stk p (cs @ [10]) j a s" and r: "room_at (stk (current_task s)) (esp (regs s))"
    and cs: "length cs < 48" "10 \<notin> set cs" and j: "j \<le> 25"
  shows "\<exists>s'. terminal_print p s = Inr s' \<and> demo stk p (cs @ [10]) (j + 1) a s' \<and>
    screen_of s' = screen_print (terminal_color s) (cs @ [10]) (screen_of s) \<and> steady (queue a) s s' \<and> regs s' = regs s"
proof -
  let ?cs = "cs @ [10]"
  note a = demo_tasks [OF d]
  have ap: "\<forall>t\<in>set (queue a). pcb t \<union> span (stk t) 4096 \<subseteq> off_screen p (length ?cs)"
    using d unfolding demo_def by blast
  have M: "terminal_ok s" "cursor (screen_of s) = 80 * j" "cstring_in {a \<in> kernel_region s. page_of a \<noteq> 0xb8000} (vview s) p (length ?cs)"
    "bytes (vview s) p (length ?cs) = ?cs" using a(8) by (simp_all only: message_ready_def)
  note line = print_full_line [OF M(2) cs j]
  obtain s' where s': "terminal_print p s = Inr s'" "heap_inv s'" "terminal_ok s'" "tty_only s s'"
    "screen_of s' = screen_print (terminal_color s) ?cs (screen_of s)"
    "\<forall>a\<in>kernel_region s. page_of a \<noteq> 0xb8000 \<longrightarrow> vview s' a = vview s a"
    using vg.print_ok [OF a(2) M(1,3)] line(1) unfolding M(4) by blast
  note f = tty_only_fields [OF s'(4)]
  have e: "s' = s\<lparr>phys := phys s', terminal_row := terminal_row s', terminal_column := terminal_column s'\<rparr>" using s'(4) by (simp only: tty_only_def)
  have g: "regs s' = regs s" "current_task s' = current_task s" "ready_to_run s' = ready_to_run s" "switch_return s' = switch_return s"
    "terminated s' = terminated s" "task1_fn s' = task1_fn s" "task2_fn s' = task2_fn s"
    using arg_cong [OF e, of regs] arg_cong [OF e, of current_task] arg_cong [OF e, of ready_to_run] arg_cong [OF e, of switch_return]
      arg_cong [OF e, of terminated] arg_cong [OF e, of task1_fn] arg_cong [OF e, of task2_fn] by simp_all
  have rg: "kernel_region s' = kernel_region s" by (simp add: region_def f)
  have v: "vview s' x = vview s x" if "x \<in> kernel_region s" "x \<in> pcb t \<union> span (stk t) 4096" "t \<in> set (queue a)" for x t
    using s'(6) that ap unfolding off_screen_def by blast
  have sub: "pcb t \<union> span (stk t) 4096 \<subseteq> kernel_region s" if "t \<in> set (queue a)" for t using queue_inv_process(3,4) [OF a(3) that] by blast
  have "room stk s'" using r g by (intro room_at_room) simp
  then have "computes stk (queue a) s s'"
    using s'(2) v sub unfolding computes_def rg g f by blast
  then have "tasks_at stk s' (a\<lparr>running := regs s'\<rparr>)" by (rule computes_tasks [OF a(1)]) simp
  then have t: "tasks_at stk s' a" unfolding g(1) a(7) by simp
  have sp: "span p (Suc (length ?cs)) \<subseteq> {a \<in> kernel_region s. page_of a \<noteq> 0xb8000}" "Suc (length ?cs) < 2 ^ 32" using M(3) by (simp_all only: cstring_in_def)
  then have b: "vview s' (p + word_of_nat i) = vview s (p + word_of_nat i)" if "i \<le> length ?cs" for i
    using span_memI [of i "Suc (length ?cs)" p] that s'(6) by auto
  then have "bytes (vview s') p (length ?cs) = bytes (vview s) p (length ?cs)" unfolding bytes_def by (intro map_cong refl) auto
  then have "bytes (vview s') p (length ?cs) = ?cs" using M(4) by (rule trans)
  moreover have "cstring_in {a \<in> kernel_region s. page_of a \<noteq> 0xb8000} (vview s') p (length ?cs)"
    using M(3) b unfolding cstring_in_def by (auto simp del: length_append)
  moreover have "cursor (screen_of s') = 80 * (j + 1)" using line(2) s'(5) by simp
  ultimately have "message_ready p ?cs (j + 1) s'" using s'(3) by (simp add: message_ready_def rg)
  moreover have "load32 (vview s') (process_pid t) = load32 (vview s) (process_pid t)" if "t \<in> set (queue a)" for t
    using v [OF _ _ that] sub [OF that] pcb_fields(6) [of t] by (intro load32_span_cong) blast
  then have "steady (queue a) s s'" by (simp add: steady_def g f)
  ultimately show ?thesis
    using s'(1,5) t ap g(1) unfolding demo_def by (intro exI [of _ s'] conjI)
qed

section \<open>One turn\<close>

text \<open>The state before a turn, with what is known of the code of the three tasks.\<close>

definition at_turn :: "places \<Rightarrow> (u32 \<Rightarrow> registers) \<Rightarrow> (u32 \<Rightarrow> u32) \<Rightarrow> u32 \<Rightarrow> u32 \<Rightarrow> u32 \<Rightarrow> (nat \<Rightarrow> registers \<Rightarrow> registers) \<Rightarrow>
    u32 \<Rightarrow> u8 list \<Rightarrow> nat \<Rightarrow> task_pool \<Rightarrow> 'a tasking_scheme \<Rightarrow> bool" where
  "at_turn w r0 stk k t1 t2 call p cs j a s \<longleftrightarrow> demo stk p cs j a s \<and> placed (switch_return s) r0 stk a \<and> located w r0 stk k t1 t2 s \<and>
     (\<forall>t\<in>{k, t1, t2}. frames_fit (switch_return s) (r0 t) (stk t) call) \<and> set (queue a) \<subseteq> {k, t1, t2}"

lemma at_turn_parts:
  assumes "at_turn w r0 stk k t1 t2 call p cs j a s"
  shows "demo stk p cs j a s" "placed (switch_return s) r0 stk a" "located w r0 stk k t1 t2 s"
    "\<forall>t\<in>{k, t1, t2}. frames_fit (switch_return s) (r0 t) (stk t) call" "set (queue a) \<subseteq> {k, t1, t2}" "task1_fn s \<noteq> switch_return s"
  using assms unfolding at_turn_def located_def by auto

lemma at_turn_running:
  assumes t: "at_turn w r0 stk k t1 t2 call p cs j a s" and q: "queue a = c # n # rest"
  shows "resumes (switch_return s) (r0 c) (stk c) (regs s)" "room_at (stk c) (esp (call i (regs s)))" "current_task s = c"
    "regs s = context_of a c"
proof -
  note T = at_turn_parts [OF t] and d = demo_tasks [OF at_turn_parts(1) [OF t]]
  show x: "regs s = context_of a c" using d(7) q by (simp add: context_of_def)
  then show r: "resumes (switch_return s) (r0 c) (stk c) (regs s)" using T(2) q by (simp add: placed_def)
  have "frames_fit (switch_return s) (r0 c) (stk c) call" using T(4,5) q by auto
  then show "room_at (stk c) (esp (call i (regs s)))" using r by (simp add: frames_fit_def)
  show "current_task s = c" using d(6) q by simp
qed

lemma at_turn_next:
  assumes t: "at_turn w r0 stk k t1 t2 call p cs j a s" and q: "queue a = c # n # rest"
    and d: "demo stk p cs j' (called (switch_return s) (call i (regs s)) a) s'" and st: "steady (queue a) s s'"
  shows "at_turn w r0 stk k t1 t2 call p cs j' (called (switch_return s) (call i (regs s)) a) s'"
proof -
  note T = at_turn_parts [OF t]
  have "switch_return s' = switch_return s" using st by (simp add: steady_def)
  moreover have "placed (switch_return s) r0 stk (called (switch_return s) (call i (regs s)) a)"
    by (rule called_placed [OF T(2) q at_turn_running(2) [OF t q]])
  moreover have "set (queue (called (switch_return s) (call i (regs s)) a)) = set (queue a)"
    using called_queue [OF q] q by auto
  ultimately show ?thesis using d T(3-5) steady_located [OF st] unfolding at_turn_def by simp
qed

lemma demo_regs:
  fixes s :: "'a tasking_scheme"
  assumes "demo stk p cs j a s"
  shows "demo stk p cs j (a\<lparr>running := r\<rparr>) (s\<lparr>regs := r\<rparr>)" "screen_of (s\<lparr>regs := r\<rparr>) = screen_of s" "steady q s (s\<lparr>regs := r\<rparr>)"
proof -
  show "demo stk p cs j (a\<lparr>running := r\<rparr>) (s\<lparr>regs := r\<rparr>)" using demo_cong(1) [OF assms, of "s\<lparr>regs := r\<rparr>"] by simp
  show "screen_of (s\<lparr>regs := r\<rparr>) = screen_of s" by (rule demo_cong(2) [OF assms]) simp_all
  have "vview (s\<lparr>regs := r\<rparr>) = vview s" by (rule demo_cong(3) [OF assms]) simp_all
  then show "steady q s (s\<lparr>regs := r\<rparr>)" by (simp add: steady_def)
qed

lemma demo_mlog:
  fixes s :: "'a tasking_scheme"
  assumes "demo stk p cs j a s"
  shows "demo stk p cs j a (mlog f x s)" "screen_of (mlog f x s) = screen_of s" "steady q s (mlog f x s)"
proof -
  have "a\<lparr>running := regs (mlog f x s)\<rparr> = a" using demo_tasks(7) [OF assms] by (simp add: mlog_def)
  then show "demo stk p cs j a (mlog f x s)" using demo_cong(1) [OF assms, of "mlog f x s"] by (simp add: mlog_def)
  show "screen_of (mlog f x s) = screen_of s" by (rule demo_cong(2) [OF assms]) (simp_all add: mlog_def)
  have "vview (mlog f x s) = vview s" by (rule demo_cong(3) [OF assms]) (simp_all add: mlog_def)
  then show "steady q s (mlog f x s)" by (simp add: steady_def mlog_def)
qed

text \<open>The end of a turn that keeps the screen, from any state that the task has reached by logging.\<close>

lemma schedule_turn:
  fixes s s1 :: "'a tasking_scheme"
  assumes t: "at_turn w r0 stk k t1 t2 call p cs j a s" and q: "queue a = c # n # rest"
    and s1: "demo stk p cs j' (a\<lparr>running := call i (regs s)\<rparr>) s1" "steady (queue a) s s1" "regs s1 = call i (regs s)"
  shows "\<exists>s'. schedule s1 = Inr s' \<and> at_turn w r0 stk k t1 t2 call p cs j' (called (switch_return s) (call i (regs s)) a) s' \<and>
    screen_of s' = screen_of s1 \<and> steady (queue a) s s'"
proof -
  have "queue (a\<lparr>running := call i (regs s)\<rparr>) = c # n # rest" "room_at (stk c) (esp (regs s1))"
    using q at_turn_running(2) [OF t q] s1(3) by simp_all
  from demo_schedule [OF s1(1) this] obtain s' where s': "schedule s1 = Inr s'"
    "demo stk p cs j' (round_robin (switch_return s1) (a\<lparr>running := call i (regs s)\<rparr>)) s'" "screen_of s' = screen_of s1" "steady (queue a) s1 s'"
    using s1 by auto
  have "switch_return s1 = switch_return s" using s1(2) by (simp add: steady_def)
  then have "demo stk p cs j' (called (switch_return s) (call i (regs s)) a) s'" using s'(2) by (simp add: called_def)
  moreover have "steady (queue a) s s'" using s1(2) s'(4) by (rule steady_trans)
  ultimately show ?thesis using s'(1,3) at_turn_next [OF t q] by blast
qed

lemma turn_loop:
  fixes s :: "'a tasking_scheme"
  assumes t: "at_turn w r0 stk k t1 t2 call p cs j a s" and q: "queue a = k # n # rest"
  shows "\<exists>s'. turn p w (call i) (x, s) = Inr (Kernel_loop, x, s') \<and>
    at_turn w r0 stk k t1 t2 call p cs j (called (switch_return s) (call i (regs s)) a) s' \<and> screen_of s' = screen_of s \<and> steady (queue a) s s'"
proof -
  note T = at_turn_parts [OF t] and R = at_turn_running [OF t q]
  let ?r = "call i (regs s)" and ?a = "a\<lparr>running := call i (regs s)\<rparr>"
  define s1 where "s1 = mlog ''Running task 0\<newline>'' [] (s\<lparr>regs := ?r\<rparr>)"
  note k0 = demo_regs [OF T(1), where r = ?r]
  note k1 = demo_mlog [OF k0(1), where f = "''Running task 0\<newline>''" and x = "[]", folded s1_def]
  note a1 = demo_tasks [OF k1(1)]
  have cur: "current_task s1 = k" using a1(6) q by simp
  have "pcb k \<subseteq> kernel_region s1" using queue_inv_process(3) [OF a1(3), of k] q by simp
  then have used: "vload32 (process_time_used (current_task s1)) s1 = Inr (load32 (vview s1) (process_time_used k))"
    using kh.runs_load32 [OF tasks_at_view(1) [OF a1(1)]] pcb_fields(5) [of k] cur by auto
  define s2 where "s2 = mlog ''Ticks: %u\<newline>'' [Num (load32 (vview s1) (process_time_used k))] s1"
  note k2 = demo_mlog [OF k1(1), where f = "''Ticks: %u\<newline>''" and x = "[Num (load32 (vview s1) (process_time_used k))]", folded s2_def]
  have "steady (queue a) s s2" using k0(3) k1(3) k2(3) steady_trans by blast
  moreover have "regs s2 = ?r" using demo_tasks(7) [OF k2(1)] by simp
  ultimately obtain s' where s': "schedule s2 = Inr s'" "at_turn w r0 stk k t1 t2 call p cs j (called (switch_return s) ?r a) s'"
    "screen_of s' = screen_of s2" "steady (queue a) s s'" using schedule_turn [OF t q k2(1)] by blast
  have "idle_turn (s\<lparr>regs := ?r\<rparr>) = Inr s'"
    using s'(1) used unfolding idle_turn_def Let_def s1_def [symmetric] s2_def by simp
  then have "turn p w (call i) (x, s) = Inr (Kernel_loop, x, s')"
    using code_of_task(1) [OF T(3) R(1) refl] by (simp add: turn_def)
  then show ?thesis using s'(2-4) k0(2) k1(2) k2(2) by (intro exI [of _ s'] conjI) simp_all
qed

lemma turn_task2:
  fixes s :: "'a tasking_scheme"
  assumes t: "at_turn w r0 stk k t1 t2 call p cs j a s" and q: "queue a = t2 # n # rest"
  shows "\<exists>s'. turn p w (call i) (x, s) = Inr (Task2, x, s') \<and>
    at_turn w r0 stk k t1 t2 call p cs j (called (switch_return s) (call i (regs s)) a) s' \<and> screen_of s' = screen_of s \<and> steady (queue a) s s'"
proof -
  note T = at_turn_parts [OF t] and R = at_turn_running [OF t q]
  let ?r = "call i (regs s)"
  define s1 where "s1 = mlog ''Running task 2\<newline>'' [] (s\<lparr>regs := ?r\<rparr>)"
  note k0 = demo_regs [OF T(1), where r = ?r]
  note k1 = demo_mlog [OF k0(1), where f = "''Running task 2\<newline>''" and x = "[]", folded s1_def]
  have "steady (queue a) s s1" using k0(3) k1(3) steady_trans by blast
  moreover have "regs s1 = ?r" using demo_tasks(7) [OF k1(1)] by simp
  ultimately obtain s' where s': "schedule s1 = Inr s'" "at_turn w r0 stk k t1 t2 call p cs j (called (switch_return s) ?r a) s'"
    "screen_of s' = screen_of s1" "steady (queue a) s s'" using schedule_turn [OF t q k1(1)] by blast
  have "turn p w (call i) (x, s) = Inr (Task2, x, s')"
    using s'(1) code_of_task(3) [OF T(3) R(1) refl] by (simp add: turn_def task2_turn_def s1_def)
  then show ?thesis using s'(2-4) k0(2) k1(2) by (intro exI [of _ s'] conjI) simp_all
qed

text \<open>What is left of the loop of \<open>task1\<close>: all of it, when its next turn starts at its entry.\<close>

definition left_over :: "u32 \<Rightarrow> task_pool \<Rightarrow> int \<times> 'a tasking_scheme \<Rightarrow> int" where
  "left_over t1 a xs = (if eip (context_of a t1) = task1_fn (snd xs) then 10 else fst xs)"

lemma turn_task1:
  fixes s :: "'a tasking_scheme"
  assumes t: "at_turn w r0 stk k t1 t2 call p (cs @ [10]) j a s" and q: "queue a = t1 # n # rest"
    and m: "length cs < 48" "10 \<notin> set cs" "j \<le> 25" "left_over t1 a (x, s) = y" "0 < y"
  shows "\<exists>s'. turn p w (call i) (x, s) = Inr (Task1, y - 1, s') \<and>
    at_turn w r0 stk k t1 t2 call p (cs @ [10]) (j + 1) (called (switch_return s) (call i (regs s)) a) s' \<and>
    screen_of s' = screen_print (terminal_color s) (cs @ [10]) (screen_of s) \<and> steady (queue a) s s'"
proof -
  note T = at_turn_parts [OF t] and R = at_turn_running [OF t q]
  let ?r = "call i (regs s)" and ?a = "a\<lparr>running := call i (regs s)\<rparr>"
  note k0 = demo_regs [OF T(1), where r = ?r]
  have "room_at (stk (current_task (s\<lparr>regs := ?r\<rparr>))) (esp (regs (s\<lparr>regs := ?r\<rparr>)))" using R(2) [of i] R(3) by simp
  from demo_print [OF k0(1) this m(1-3)] obtain s1 where s1: "terminal_print p (s\<lparr>regs := ?r\<rparr>) = Inr s1"
    "demo stk p (cs @ [10]) (j + 1) ?a s1" "screen_of s1 = screen_print (terminal_color s) (cs @ [10]) (screen_of s)"
    "steady (queue a) (s\<lparr>regs := ?r\<rparr>) s1" "regs s1 = ?r" unfolding k0(2) by auto
  have "steady (queue a) s s1" using k0(3) s1(4) by (rule steady_trans)
  from schedule_turn [OF t q s1(2) this s1(5)] obtain s' where s': "schedule s1 = Inr s'"
    "at_turn w r0 stk k t1 t2 call p (cs @ [10]) (j + 1) (called (switch_return s) ?r a) s'" "screen_of s' = screen_of s1" "steady (queue a) s s'"
    by blast
  have y: "(if eip (regs s) = task1_fn s then 10 else x) = y" using m(4) unfolding left_over_def fst_conv snd_conv R(4) .
  have "turn p w (call i) (x, s) = Inr (Task1, y - 1, s')"
    using s1(1) s'(1) m(5) code_of_task(2) [OF T(3) R(1) refl] unfolding turn_def Let_def prod.case y by (simp add: task1_turn_def)
  then show ?thesis using s'(2-4) s1(3) by (intro exI [of _ s'] conjI) simp_all
qed

section \<open>Rounds\<close>

text \<open>The contexts of the tasks that do not run stay.\<close>

lemma left_over_next:
  assumes t: "at_turn w r0 stk k t1 t2 call p cs j a s" and q: "queue a = c # n # rest" and m: "t1 \<in> set (queue a)" and st: "steady (queue a) s s'"
  shows "c \<noteq> t1 \<Longrightarrow> left_over t1 (called (switch_return s) r a) (x, s') = left_over t1 a (x, s)"
    and "c = t1 \<Longrightarrow> left_over t1 (called (switch_return s) r a) (x, s') = x"
proof -
  have d: "distinct (queue a)" using at_turn_parts(2) [OF t] by (simp add: placed_def)
  have f: "task1_fn s' = task1_fn s" using st by (simp add: steady_def)
  note c = called_contexts [OF q d m, of "switch_return s" r]
  show "c \<noteq> t1 \<Longrightarrow> left_over t1 (called (switch_return s) r a) (x, s') = left_over t1 a (x, s)"
    by (simp add: left_over_def f c)
  show "c = t1 \<Longrightarrow> left_over t1 (called (switch_return s) r a) (x, s') = x"
    using at_turn_parts(6) [OF t] by (simp add: left_over_def f c saved_def)
qed

lemma round_ok:
  fixes s :: "'a tasking_scheme"
  assumes t: "at_turn w r0 stk k t1 t2 call p (cs @ [10]) j a s" and q: "queue a = [k, t1, t2]"
    and m: "length cs < 48" "10 \<notin> set cs" "j \<le> 25" "left_over t1 a (x, s) = y" "0 < y"
  shows "\<exists>a' s'. turns p w call i 3 (x, s) = Inr ([Kernel_loop, Task1, Task2], y - 1, s') \<and>
    at_turn w r0 stk k t1 t2 call p (cs @ [10]) (j + 1) a' s' \<and> queue a' = [k, t1, t2] \<and> left_over t1 a' (y - 1, s') = y - 1 \<and>
    screen_of s' = screen_print (terminal_color s) (cs @ [10]) (screen_of s) \<and> steady (queue a) s s'"
proof -
  have d: "k \<noteq> t1" "t1 \<noteq> t2" using at_turn_parts(2) [OF t] q by (auto simp: placed_def)
  obtain s1 where s1: "turn p w (call i) (x, s) = Inr (Kernel_loop, x, s1)"
    "at_turn w r0 stk k t1 t2 call p (cs @ [10]) j (called (switch_return s) (call i (regs s)) a) s1" "screen_of s1 = screen_of s" "steady (queue a) s s1"
    using turn_loop [OF t q] by blast
  let ?a1 = "called (switch_return s) (call i (regs s)) a"
  have q1: "queue ?a1 = [t1, t2, k]" using called_queue [OF q] by simp
  have l1: "left_over t1 ?a1 (x, s1) = y" using left_over_next(1) [OF t q _ s1(4) d(1)] q m(4) by simp
  obtain s2 where s2: "turn p w (call (Suc i)) (x, s1) = Inr (Task1, y - 1, s2)"
    "at_turn w r0 stk k t1 t2 call p (cs @ [10]) (j + 1) (called (switch_return s1) (call (Suc i) (regs s1)) ?a1) s2"
    "screen_of s2 = screen_print (terminal_color s1) (cs @ [10]) (screen_of s1)" "steady (queue ?a1) s1 s2"
    using turn_task1 [OF s1(2) q1 m(1-3) l1 m(5)] by blast
  let ?a2 = "called (switch_return s1) (call (Suc i) (regs s1)) ?a1"
  have q2: "queue ?a2 = [t2, k, t1]" using called_queue [OF q1] by simp
  have l2: "left_over t1 ?a2 (y - 1, s2) = y - 1" using left_over_next(2) [OF s1(2) q1 _ s2(4) refl] q1 by simp
  obtain s3 where s3: "turn p w (call (Suc (Suc i))) (y - 1, s2) = Inr (Task2, y - 1, s3)"
    "at_turn w r0 stk k t1 t2 call p (cs @ [10]) (j + 1) (called (switch_return s2) (call (Suc (Suc i)) (regs s2)) ?a2) s3"
    "screen_of s3 = screen_of s2" "steady (queue ?a2) s2 s3"
    using turn_task2 [OF s2(2) q2] by blast
  let ?a3 = "called (switch_return s2) (call (Suc (Suc i)) (regs s2)) ?a2"
  have "queue ?a3 = [k, t1, t2]" using called_queue [OF q2] by simp
  moreover have "left_over t1 ?a3 (y - 1, s3) = y - 1"
    using left_over_next(1) [OF s2(2) q2 _ s3(4) d(2) [symmetric]] q2 l2 by simp
  moreover have "steady (queue a) s1 s2" "steady (queue a) s2 s3"
    using steady_set [OF s2(4)] steady_set [OF s3(4)] q q1 q2 by auto
  then have "steady (queue a) s s3" using s1(4) steady_trans by blast
  moreover have "terminal_color s1 = terminal_color s" using s1(4) by (simp add: steady_def)
  ultimately show ?thesis
    using s1(1,3) s2(1,3) s3(1-3) by (intro exI [of _ ?a3] exI [of _ s3] conjI) (simp_all add: numeral_3_eq_3)
qed

lemma rounds_ok:
  fixes s :: "'a tasking_scheme"
  assumes "at_turn w r0 stk k t1 t2 call p (cs @ [10]) j a s" "queue a = [k, t1, t2]" "length cs < 48" "10 \<notin> set cs" "j + n \<le> 26"
    and "left_over t1 a (x, s) = int n + z" "0 \<le> z"
  shows "\<exists>a' x' s'. turns p w call i (3 * n) (x, s) = Inr (concat (replicate n [Kernel_loop, Task1, Task2]), x', s') \<and>
    at_turn w r0 stk k t1 t2 call p (cs @ [10]) (j + n) a' s' \<and> queue a' = [k, t1, t2] \<and> left_over t1 a' (x', s') = z \<and>
    screen_of s' = screen_print (terminal_color s) (concat (replicate n (cs @ [10]))) (screen_of s) \<and> steady (queue a) s s'"
  using assms
proof (induction n arbitrary: i j a x s)
  case 0
  then show ?case by (intro exI [of _ a] exI [of _ x] exI [of _ s]) (simp add: screen_print_def steady_def)
next
  case (Suc n)
  have j: "j \<le> 25" "0 < int (Suc n) + z" using Suc.prems(5,7) by simp_all
  obtain a1 s1 where s1: "turns p w call i 3 (x, s) = Inr ([Kernel_loop, Task1, Task2], int n + z, s1)"
    "at_turn w r0 stk k t1 t2 call p (cs @ [10]) (j + 1) a1 s1" "queue a1 = [k, t1, t2]" "left_over t1 a1 (int n + z, s1) = int n + z"
    "screen_of s1 = screen_print (terminal_color s) (cs @ [10]) (screen_of s)" "steady (queue a) s s1"
    using round_ok [OF Suc.prems(1-4) j(1) Suc.prems(6) j(2), of i] by auto
  have "j + 1 + n \<le> 26" using Suc.prems(5) by simp
  from Suc.IH [OF s1(2,3) Suc.prems(3,4) this s1(4) Suc.prems(7), of "i + 3"]
  obtain a2 x2 s2 where s2: "turns p w call (i + 3) (3 * n) (int n + z, s1) = Inr (concat (replicate n [Kernel_loop, Task1, Task2]), x2, s2)"
    "at_turn w r0 stk k t1 t2 call p (cs @ [10]) (j + 1 + n) a2 s2" "queue a2 = [k, t1, t2]" "left_over t1 a2 (x2, s2) = z"
    "screen_of s2 = screen_print (terminal_color s1) (concat (replicate n (cs @ [10]))) (screen_of s1)" "steady (queue a1) s1 s2"
    by blast
  have "turns p w call i (3 * Suc n) (x, s) = Inr (concat (replicate (Suc n) [Kernel_loop, Task1, Task2]), x2, s2)"
    using turns_append [OF s1(1) s2(1)] unfolding mult_Suc_right replicate_Suc concat.simps(2) .
  moreover have "terminal_color s1 = terminal_color s" using s1(6) by (simp add: steady_def)
  then have "screen_of s2 = screen_print (terminal_color s) (concat (replicate (Suc n) (cs @ [10]))) (screen_of s)"
    unfolding replicate_Suc concat.simps(2) screen_print_append s2(5) s1(5) by simp
  moreover have "steady (queue a) s s2" using steady_trans [OF s1(6)] s2(6) s1(3) Suc.prems(2) by simp
  moreover have "at_turn w r0 stk k t1 t2 call p (cs @ [10]) (j + Suc n) a2 s2" using s2(2) by simp
  ultimately show ?case using s2(3,4) by (intro exI [of _ a2] exI [of _ x2] exI [of _ s2] conjI)
qed

text \<open>The two tasks that remain take turns for good.\<close>

lemma pairs_ok:
  fixes s :: "'a tasking_scheme"
  assumes "at_turn w r0 stk k t1 t2 call p cs j a s" "queue a = [t2, k]"
  shows "\<exists>a' s'. turns p w call i (2 * n) (x, s) = Inr (concat (replicate n [Task2, Kernel_loop]), x, s') \<and>
    at_turn w r0 stk k t1 t2 call p cs j a' s' \<and> queue a' = [t2, k] \<and> screen_of s' = screen_of s"
  using assms
proof (induction n arbitrary: i a s)
  case (Suc n)
  obtain s1 where s1: "turn p w (call i) (x, s) = Inr (Task2, x, s1)"
    "at_turn w r0 stk k t1 t2 call p cs j (called (switch_return s) (call i (regs s)) a) s1" "screen_of s1 = screen_of s"
    using turn_task2 [OF Suc.prems] by blast
  have q1: "queue (called (switch_return s) (call i (regs s)) a) = [k, t2]" using called_queue [OF Suc.prems(2)] by simp
  obtain s2 where s2: "turn p w (call (Suc i)) (x, s1) = Inr (Kernel_loop, x, s2)"
    "at_turn w r0 stk k t1 t2 call p cs j (called (switch_return s1) (call (Suc i) (regs s1)) (called (switch_return s) (call i (regs s)) a)) s2"
    "screen_of s2 = screen_of s1" using turn_loop [OF s1(2) q1] by blast
  obtain a3 s3 where s3: "turns p w call (Suc (Suc i)) (2 * n) (x, s2) = Inr (concat (replicate n [Task2, Kernel_loop]), x, s3)"
    "at_turn w r0 stk k t1 t2 call p cs j a3 s3" "queue a3 = [t2, k]" "screen_of s3 = screen_of s2"
    using Suc.IH [OF s2(2), of "Suc (Suc i)"] called_queue [OF q1] by auto
  then show ?case using s1(1,3) s2(1,3) by (intro exI [of _ a3] exI [of _ s3]) simp
qed auto

lemma last_turn:
  fixes s :: "'a tasking_scheme"
  assumes t: "at_turn w r0 stk k t1 t2 call p cs j a s" and q: "queue a = [t1, t2, k]" and x: "left_over t1 a (x, s) = 0"
    and pid: "load32 (vview s) (process_pid t1) \<noteq> 0" "terminated s = \<lparr>head = 0, tail = 0\<rparr>"
  shows "\<exists>a' s'. turn p w (call i) (x, s) = Inr (Task1, -1, s') \<and> at_turn w r0 stk k t1 t2 call p cs j a' s' \<and> queue a' = [t2, k] \<and>
    screen_of s' = screen_of s \<and> terminated s' = \<lparr>head = t1, tail = t1\<rparr> \<and> vload32 (process_state t1) s' = Inr TERMINATED"
proof -
  note T = at_turn_parts [OF t] and R = at_turn_running [OF t q]
  let ?r = "call i (regs s)" and ?a = "a\<lparr>running := call i (regs s)\<rparr>"
  let ?s = "s\<lparr>regs := ?r\<rparr>" and ?b = "?a\<lparr>queue := [t2, k], running := contexts a t2\<rparr>"
  note k0 = demo_regs [OF T(1), where r = ?r]
  note d = demo_tasks [OF k0(1)]
  have st: "steady (queue a) s ?s" by (rule k0(3))
  have "room stk ?s" using R(2) [of i] R(3) by (intro room_at_room) simp
  moreover have "load32 (vview ?s) (process_pid t1) \<noteq> 0" "terminated ?s = \<lparr>head = 0, tail = 0\<rparr>"
    using st pid q by (simp_all add: steady_def)
  ultimately obtain s' where s': "terminate_task ?s = Inr s'" "tasks_at stk s' ?b" "terminated s' = \<lparr>head = t1, tail = t1\<rparr>"
    "vload32 (process_state t1) s' = Inr TERMINATED"
    "\<forall>x\<in>kernel_region ?s. x \<notin> pcb t1 \<union> span (stk t1) 4096 \<longrightarrow> vview s' x = vview ?s x"
    "s' = ?s\<lparr>phys := phys s', last_time := last_time s', previous_task := previous_task s', current_task := current_task s', regs := regs s',
      ready_to_run := ready_to_run s', terminated := terminated s'\<rparr>"
    using task_retires [OF d(1), of t1 t2 "[k]"] q by (auto simp: graveyard_def)
  have f: "terminal_row s' = terminal_row ?s" "terminal_column s' = terminal_column ?s" "terminal_ptr s' = terminal_ptr ?s"
    "kernel_region s' = kernel_region ?s" "switch_return s' = switch_return s" "task1_fn s' = task1_fn s" "task2_fn s' = task2_fn s"
    using arg_cong [OF s'(6), of terminal_row] arg_cong [OF s'(6), of terminal_column] arg_cong [OF s'(6), of terminal_ptr]
      arg_cong [OF s'(6), of kernel_region] arg_cong [OF s'(6), of switch_return] arg_cong [OF s'(6), of task1_fn] arg_cong [OF s'(6), of task2_fn]
    by (simp_all add: region_def)
  have ap: "\<forall>t\<in>set (queue a). pcb t \<union> span (stk t) 4096 \<subseteq> off_screen p (length cs)" using T(1) unfolding demo_def by blast
  have v: "vview s' x = vview ?s x" if "x \<in> kernel_region ?s" "x \<notin> off_screen p (length cs)" for x
    using s'(5) that ap q by auto
  note mk = message_keep [OF d(8,2) f(1-3) equalityD2 [OF f(4)] v]
  have "demo stk p cs j ?b s'" using s'(2) mk(1) ap q unfolding demo_def by simp
  moreover have ctx: "context_of ?b t = context_of a t" if "t \<in> {t2, k}" for t
    using T(2) q that by (auto simp: context_of_def placed_def)
  then have "placed (switch_return s') r0 stk ?b" using T(2) q unfolding f(5) placed_def by (simp split del: if_split)
  moreover have "located w r0 stk k t1 t2 s'" using T(3) unfolding located_def f(5-7) .
  ultimately have "at_turn w r0 stk k t1 t2 call p cs j ?b s'" using T(4) unfolding at_turn_def f(5) by simp
  moreover have "turn p w (call i) (x, s) = Inr (Task1, -1, s')"
  proof -
    have "(if eip (regs s) = task1_fn s then 10 else x) = 0" using x unfolding left_over_def fst_conv snd_conv R(4) .
    then show ?thesis using s'(1) code_of_task(2) [OF T(3) R(1) refl] unfolding turn_def Let_def prod.case by (simp add: task1_turn_def)
  qed
  ultimately show ?thesis using s'(3,4) mk(2) k0(2) by (intro exI [of _ ?b] exI [of _ s'] conjI) simp_all
qed

section \<open>From the start of tasking\<close>

text \<open>The first contexts: the registers of the loop, and those that \<open>init_tasking\<close> laid on the stacks of the two tasks.\<close>

definition first_context :: "u32 \<Rightarrow> 'a tasking_scheme \<Rightarrow> u32 \<Rightarrow> registers" where
  "first_context e s t =
     (if t = e then regs s
      else \<lparr>ebx = 0, esi = 0, edi = 0, ebp = 0, esp = t + 4140, eip = (if t = e + 4140 then task1_fn s else task2_fn s)\<rparr>)"

lemma init_at_turn:
  fixes s :: "'a tasking_scheme"
  assumes s: "heap_inv s" "e = heap_current s" "word_aligned e" "unat e + 12420 \<le> 0x11000000"
      "cstring_in (kernel_region s) (vview s) (literal_name s) n" "n < 20" "ready_to_run s = \<lparr>head = 0, tail = 0\<rparr>" "next_available_pid s = 0"
    and fns: "distinct [0, eip (regs s), task1_fn s, task2_fn s, switch_return s]"
    and k: "span k 4096 \<subseteq> kernel_region s \<inter> off_screen p (length cs)" and m: "message_ready p cs j s"
    and w: "w = \<lparr>loop_at = eip (regs s), boot_stack = k, stack1 = e + 4184, stack2 = e + 8324\<rparr>"
    and frames: "\<forall>t\<in>{e, e + 4140, e + 8280}. frames_fit (switch_return s) (first_context e s t) (task_stacks e k t) call"
  shows "\<exists>s' a. init_tasking name0 name1 name2 s = Inr s' \<and>
    at_turn w (first_context e s) (task_stacks e k) e (e + 4140) (e + 8280) call p cs j a s' \<and> queue a = [e, e + 4140, e + 8280] \<and>
    left_over (e + 4140) a (x, s') = 10 \<and> screen_of s' = screen_of s \<and> terminal_color s' = terminal_color s \<and> terminated s' = terminated s \<and>
    load32 (vview s') (process_pid (e + 4140)) = 1"
proof -
  let ?q = "[e, e + 4140, e + 8280]" and ?stk = "task_stacks e k" and ?r0 = "first_context e s"
  have nz: "task1_fn s \<noteq> 0" "task2_fn s \<noteq> 0" using fns by auto
  obtain s' a where s': "init_tasking name0 name1 name2 s = Inr s'" "tasks_at ?stk s' a" "queue a = ?q" "running a = regs s"
    "contexts a (e + 4140) = \<lparr>ebx = 0, esi = 0, edi = 0, ebp = 0, esp = e + 8280, eip = task1_fn s\<rparr>"
    "contexts a (e + 8280) = \<lparr>ebx = 0, esi = 0, edi = 0, ebp = 0, esp = e + 12420, eip = task2_fn s\<rparr>"
    "\<forall>x\<in>kernel_region s. vview s' x = vview s x" "tk.init_only s s'" "kernel_region s \<subseteq> kernel_region s'"
    "load32 (vview s') (process_pid (e + 4140)) = next_available_pid s + 1" "\<forall>t\<in>set ?q. span t 4140 \<inter> kernel_region s = {}"
    using init_tasking_pool [OF s(1-7) nz, of k name0 name1 name2] k by auto
  note e = s'(8) [unfolded tk.init_only_def]
  have f: "terminal_row s' = terminal_row s" "terminal_column s' = terminal_column s" "terminal_ptr s' = terminal_ptr s"
    "terminal_color s' = terminal_color s" "terminated s' = terminated s" "switch_return s' = switch_return s" "task1_fn s' = task1_fn s"
    "task2_fn s' = task2_fn s"
    using arg_cong [OF e, of terminal_row] arg_cong [OF e, of terminal_column] arg_cong [OF e, of terminal_ptr]
      arg_cong [OF e, of terminal_color] arg_cong [OF e, of terminated] arg_cong [OF e, of switch_return] arg_cong [OF e, of task1_fn]
      arg_cong [OF e, of task2_fn] by simp_all
  note q = tasks_at_view(2) [OF s'(2), unfolded s'(3)]
  have d: "distinct ?q" using queue_inv_list(2) [OF q] .
  then have ctx: "context_of a t = ?r0 t" if "t \<in> set ?q" for t
    using that s'(3-6) by (auto simp: context_of_def first_context_def)
  note mk = message_keep [OF m s(1) f(1-3) s'(9) bspec [OF s'(7)]]
  have sc: "- off_screen p (length cs) \<subseteq> kernel_region s"
    using m vg.vga_region [OF s(1)] by (auto simp: off_screen_def message_ready_def cstring_in_def)
  have block: "pcb t \<subseteq> span t 4140" "t \<noteq> e \<Longrightarrow> span (?stk t) 4096 \<subseteq> span t 4140" for t
    using task_block(1,2) [of t] by (simp_all add: pcb_def task_stacks_def)
  have stks: "?stk e = k" "?stk (e + 4140) = e + 4184" "?stk (e + 8280) = e + 8324" by (simp_all add: task_stacks_def)
  have apart: "pcb t \<union> span (?stk t) 4096 \<subseteq> off_screen p (length cs)" if "t \<in> set ?q" for t
  proof -
    have "span t 4140 \<subseteq> off_screen p (length cs)" using s'(11) that sc by blast
    then show ?thesis using block [of t] k stks(1) by (cases "t = e") auto
  qed
  then have "demo ?stk p cs j a s'" using s'(2,3) mk(1) by (simp add: demo_def)
  moreover have "placed (switch_return s') ?r0 ?stk a" using d ctx unfolding placed_def s'(3) resumes_def by blast
  moreover have "located w ?r0 ?stk e (e + 4140) (e + 8280) s'"
  proof -
    have "span (?stk e) 4096 \<inter> span (?stk (e + 4140)) 4096 = {}" "span (?stk e) 4096 \<inter> span (?stk (e + 8280)) 4096 = {}"
      "span (?stk (e + 4140)) 4096 \<inter> span (?stk (e + 8280)) 4096 = {}"
      using d by (intro queue_inv_apart(3) [OF q]; simp)+
    then show ?thesis using fns unfolding located_def f w stks by (simp add: first_context_def)
  qed
  ultimately have "at_turn w ?r0 ?stk e (e + 4140) (e + 8280) call p cs j a s'"
    using frames unfolding at_turn_def f(6) s'(3) by simp
  moreover have "left_over (e + 4140) a (x, s') = 10" using ctx [of "e + 4140"] by (simp add: left_over_def first_context_def f)
  ultimately show ?thesis using s'(1,3,10) mk(2) f(4,5) s(8) by (intro exI [of _ s'] exI [of _ a] conjI) simp_all
qed

text \<open>
  C9: \<open>init_tasking\<close> and the turns that follow, on a kernel without tasks whose cursor is at the start of one of the rows 0 to 16 and for a message
  of a line of less than 48 characters. Whatever registers the three pieces of code have at their calls of the scheduler, as
  long as their stacks have room for its frames, the contexts that the switch restores make the kernel's loop, \<open>task1\<close> and
  \<open>task2\<close> run in this order ten times, in which \<open>task1\<close> prints its line ten times, one row below the other, and no other turn touches the screen; then
  the loop runs and \<open>task1\<close> again, whose loop has ended and which is terminated; from then on \<open>task2\<close> and the kernel's loop alternate for good.
\<close>

theorem three_tasks_run:
  fixes s :: "'a tasking_scheme"
  assumes "heap_inv s" "e = heap_current s" "word_aligned e" "unat e + 12420 \<le> 0x11000000"
    and "cstring_in (kernel_region s) (vview s) (literal_name s) n" "n < 20"
    and "ready_to_run s = \<lparr>head = 0, tail = 0\<rparr>" "next_available_pid s = 0" "terminated s = \<lparr>head = 0, tail = 0\<rparr>"
    and "distinct [0, eip (regs s), task1_fn s, task2_fn s, switch_return s]"
    and "span k 4096 \<subseteq> kernel_region s \<inter> off_screen p (length (cs @ [10]))"
    and "message_ready p (cs @ [10]) j s" "length cs < 48" "10 \<notin> set cs" "j \<le> 16"
    and "w = \<lparr>loop_at = eip (regs s), boot_stack = k, stack1 = e + 4184, stack2 = e + 8324\<rparr>"
    and "\<forall>t\<in>{e, e + 4140, e + 8280}. frames_fit (switch_return s) (first_context e s t) (task_stacks e k t) call"
  shows "\<exists>s1 s2. init_tasking name0 name1 name2 s = Inr s1 \<and>
    turns p w call 0 32 (x, s1) = Inr (concat (replicate 10 [Kernel_loop, Task1, Task2]) @ [Kernel_loop, Task1], -1, s2) \<and>
    cursor (screen_of s2) = 80 * (j + 10) \<and>
    screen_of s2 = screen_print (terminal_color s) (concat (replicate 10 (cs @ [10]))) (screen_of s) \<and>
    terminated s2 = \<lparr>head = e + 4140, tail = e + 4140\<rparr> \<and> vload32 (process_state (e + 4140)) s2 = Inr TERMINATED \<and>
    (\<forall>m. \<exists>s3. turns p w call 32 (2 * m) (-1, s2) = Inr (concat (replicate m [Task2, Kernel_loop]), -1, s3) \<and> screen_of s3 = screen_of s2)"
proof -
  let ?t = "e + 4140" and ?q = "[e, e + 4140, e + 8280]"
  let ?at = "at_turn w (first_context e s) (task_stacks e k) e ?t (e + 8280) call p (cs @ [10])"
  obtain s0 a0 where s0: "init_tasking name0 name1 name2 s = Inr s0" "?at j a0 s0" "queue a0 = ?q" "left_over ?t a0 (x, s0) = int 10 + 0"
    "screen_of s0 = screen_of s" "terminal_color s0 = terminal_color s" "terminated s0 = terminated s" "load32 (vview s0) (process_pid ?t) = 1"
    using init_at_turn [OF assms(1-8,10-12,16,17), of name0 name1 name2 x] by auto
  have j: "j + 10 \<le> 26" using assms(15) by simp
  obtain a1 x1 s1 where s1: "turns p w call 0 (3 * 10) (x, s0) = Inr (concat (replicate 10 [Kernel_loop, Task1, Task2]), x1, s1)" "?at (j + 10) a1 s1"
    "queue a1 = ?q" "left_over ?t a1 (x1, s1) = 0" "steady (queue a0) s0 s1"
    "screen_of s1 = screen_print (terminal_color s0) (concat (replicate 10 (cs @ [10]))) (screen_of s0)"
    using rounds_ok [OF s0(2,3) assms(13,14) j s0(4), of 0] by auto
  obtain s2 where s2: "turn p w (call 30) (x1, s1) = Inr (Kernel_loop, x1, s2)" "?at (j + 10) (called (switch_return s1) (call 30 (regs s1)) a1) s2"
    "screen_of s2 = screen_of s1" "steady (queue a1) s1 s2" using turn_loop [OF s1(2,3)] by blast
  let ?a2 = "called (switch_return s1) (call 30 (regs s1)) a1"
  have q2: "queue ?a2 = [?t, e + 8280, e]" using called_queue [OF s1(3)] by simp
  have ne: "e \<noteq> ?t" using at_turn_parts(2) [OF s1(2)] s1(3) by (simp add: placed_def)
  have l2: "left_over ?t ?a2 (x1, s2) = 0" using left_over_next(1) [OF s1(2,3) _ s2(4) ne] s1(3,4) by simp
  have st: "steady ?q s0 s2" using steady_trans [OF s1(5)] s2(4) s0(3) s1(3) by simp
  then have pid: "load32 (vview s2) (process_pid ?t) \<noteq> 0" "terminated s2 = \<lparr>head = 0, tail = 0\<rparr>"
    using s0(7,8) assms(9) by (simp_all add: steady_def)
  obtain a3 s3 where s3: "turn p w (call 31) (x1, s2) = Inr (Task1, -1, s3)" "?at (j + 10) a3 s3" "queue a3 = [e + 8280, e]" "screen_of s3 = screen_of s2"
    "terminated s3 = \<lparr>head = ?t, tail = ?t\<rparr>" "vload32 (process_state ?t) s3 = Inr TERMINATED"
    using last_turn [OF s2(2) q2 l2 pid] by blast
  have "turns p w call (0 + 3 * 10) 2 (x1, s1) = Inr ([Kernel_loop, Task1], -1, s3)" using s2(1) s3(1) by (simp add: numeral_2_eq_2)
  moreover have "(3 * 10 + 2 :: nat) = 32" by simp
  ultimately have "turns p w call 0 32 (x, s0) = Inr (concat (replicate 10 [Kernel_loop, Task1, Task2]) @ [Kernel_loop, Task1], -1, s3)"
    using turns_append [OF s1(1)] by metis
  moreover have "cursor (screen_of s3) = 80 * (j + 10)" using demo_tasks(8) [OF at_turn_parts(1) [OF s3(2)]] by (simp add: message_ready_def)
  moreover have "screen_of s3 = screen_print (terminal_color s) (concat (replicate 10 (cs @ [10]))) (screen_of s)"
    unfolding s3(4) s2(3) s1(6) s0(5,6) ..
  moreover have "\<forall>m. \<exists>s4. turns p w call 32 (2 * m) (-1, s3) = Inr (concat (replicate m [Task2, Kernel_loop]), -1, s4) \<and> screen_of s4 = screen_of s3"
    using pairs_ok [OF s3(2,3)] by blast
  ultimately show ?thesis using s0(1) s3(5,6) by (intro exI [of _ s0] exI [of _ s3] conjI)
qed

text \<open>The booted kernel, with the literal and a message of one letter.\<close>

definition demo_bytes :: "u8 list" where
  "demo_bytes = [0x6E, 0x61, 0x6D, 0x65, 0, 0x41, 10, 0]"

definition demo_call :: "nat \<Rightarrow> registers \<Rightarrow> registers" where
  "demo_call i r = (if eip r = 0x105000 then r\<lparr>esp := esp r + 4\<rparr> else r)"

lemma demo_call_fits:
  assumes "eip r0 \<noteq> 0x105000" "room_at b (esp r0)"
  shows "frames_fit 0x105000 r0 b demo_call"
  using assms by (auto simp: frames_fit_def resumes_def demo_call_def)

lemma booted_demo:
  "\<exists>s :: tasking. heap_inv s \<and> heap_current s = 0xF000000 \<and> mm.more s = mm.more (boot_tasking 0 \<lparr>head = 0, tail = 0\<rparr>) \<and>
     cstring_in (kernel_region s) (vview s) 0x110000 4 \<and> message_ready 0x110005 ([0x41] @ [10]) 0 s \<and>
     span 0x130000 4096 \<subseteq> kernel_region s \<inter> off_screen 0x110005 (length ([0x41] @ [10 :: u8]))"
proof -
  let ?t = "boot_tasking 0 \<lparr>head = 0, tail = 0\<rparr>"
  have "span 0x110000 (length demo_bytes) \<subseteq> kernel_data boot_symbols"
    by (rule kernel_data_span) (simp_all add: demo_bytes_def)
  then obtain s :: tasking where s: "heap_inv s" "heap_current s = 0xF000000" "syms s = boot_symbols" "mm.more s = mm.more ?t"
    "bytes (vview s) 0x110000 (length demo_bytes) = demo_bytes"
    using booted_bytes [of "0x110000" demo_bytes "mm.more ?t"] by (auto simp: demo_bytes_def)
  have sub: "span p n \<subseteq> kernel_region s" if "0x100000 \<le> unat p" "unat p + n < 0x200000" for p n
    using kernel_data_span [OF that] by (auto simp: region_def s(3))
  have b: "bytes (vview s) 0x110000 (Suc (length [0x6E, 0x61, 0x6D, 0x65 :: u8])) = [0x6E, 0x61, 0x6D, 0x65] @ [0]"
    "bytes (vview s) 0x110005 (Suc (length [0x41, 10 :: u8])) = [0x41, 10] @ [0]"
    using s(5) by (simp_all add: demo_bytes_def bytes_def upt_rec)
  have "cstring_in (kernel_region s) (vview s) 0x110000 (length [0x6E, 0x61, 0x6D, 0x65 :: u8])"
    by (rule cstring_of_bytes(1) [OF b(1) _ sub]) simp_all
  moreover have "length [0x6E, 0x61, 0x6D, 0x65 :: u8] = 4" by simp
  ultimately have lit: "cstring_in (kernel_region s) (vview s) 0x110000 4" by (simp only:)
  have g: "terminal_row s = 0" "terminal_column s = 0" "terminal_ptr s = VGA_MEMORY"
    using same_tty [OF s(4)] boot_tty_fields
    by (simp_all add: boot_tasking_def boot_cpu_def boot_keyboard_def boot_timer_def boot_tty_def tty.defs cpu.defs tasking.defs keyboard.defs timer.defs)
  have "span 0x110005 (Suc (length [0x41, 10 :: u8])) \<subseteq> {a \<in> kernel_region s. page_of a \<noteq> 0xb8000}"
    using sub [of "0x110005" 3] by (auto simp: vga_range span_iff)
  from cstring_of_bytes [OF b(2) _ this] b(2) have "message_ready 0x110005 ([0x41] @ [10]) 0 s"
    by (simp add: message_ready_def terminal_ok_def g screen_of_def VGA_WIDTH_def bytes_def)
  moreover have "span 0x130000 4096 \<subseteq> off_screen 0x110005 (length ([0x41] @ [10 :: u8]))"
    by (auto simp: off_screen_def vga_range span_iff)
  ultimately show ?thesis using s(1,2,4) lit sub [of "0x130000" 4096] by (intro exI [of _ s]) simp
qed

theorem three_tasks_run_witness:
  "\<exists>(s :: tasking) s1 s2. init_tasking 0 0 0 s = Inr s1 \<and>
     turns 0x110005 \<lparr>loop_at = 5, boot_stack = 0x130000, stack1 = 0xF001058, stack2 = 0xF002084\<rparr> demo_call 0 32 (0, s1) =
       Inr (concat (replicate 10 [Kernel_loop, Task1, Task2]) @ [Kernel_loop, Task1], -1, s2) \<and>
     cursor (screen_of s2) = 800 \<and> terminated s2 = \<lparr>head = 0xF00102C, tail = 0xF00102C\<rparr>"
proof -
  obtain s :: tasking where s: "heap_inv s" "heap_current s = 0xF000000" "mm.more s = mm.more (boot_tasking 0 \<lparr>head = 0, tail = 0\<rparr>)"
    "cstring_in (kernel_region s) (vview s) 0x110000 4" "message_ready 0x110005 ([0x41] @ [10]) 0 s"
    "span 0x130000 4096 \<subseteq> kernel_region s \<inter> off_screen 0x110005 (length ([0x41] @ [10 :: u8]))"
    using booted_demo by blast
  have f: "literal_name s = 0x110000" "ready_to_run s = \<lparr>head = 0, tail = 0\<rparr>" "terminated s = \<lparr>head = 0, tail = 0\<rparr>" "next_available_pid s = 0"
    "task1_fn s = 0x106000" "task2_fn s = 0x107000" "switch_return s = 0x105000"
    "regs s = \<lparr>ebx = 1, esi = 2, edi = 3, ebp = 4, esp = 0x130800, eip = 5\<rparr>"
    using same_tasking [OF s(3)] by (simp_all add: boot_tasking_def cpu.defs tasking.defs)
  let ?e = "0xF000000 :: u32"
  have fit: "\<forall>t\<in>{?e, ?e + 4140, ?e + 8280}. frames_fit (switch_return s) (first_context ?e s t) (task_stacks ?e 0x130000 t) demo_call"
    using span_sub [of 2024 24 4096 "0x130000"] span_sub [of 4072 24 4096 "0xF001058"] span_sub [of 4072 24 4096 "0xF002084"]
    by (auto simp: first_context_def task_stacks_def f room_at_def word_aligned_def intro!: demo_call_fits)
  have "\<exists>s1 s2. init_tasking 0 0 0 s = Inr s1 \<and>
    turns 0x110005 \<lparr>loop_at = eip (regs s), boot_stack = 0x130000, stack1 = ?e + 4184, stack2 = ?e + 8324\<rparr> demo_call 0 32 (0, s1) =
      Inr (concat (replicate 10 [Kernel_loop, Task1, Task2]) @ [Kernel_loop, Task1], -1, s2) \<and>
    cursor (screen_of s2) = 80 * (0 + 10) \<and>
    screen_of s2 = screen_print (terminal_color s) (concat (replicate 10 ([0x41] @ [10]))) (screen_of s) \<and>
    terminated s2 = \<lparr>head = ?e + 4140, tail = ?e + 4140\<rparr> \<and> vload32 (process_state (?e + 4140)) s2 = Inr TERMINATED \<and>
    (\<forall>m. \<exists>s3. turns 0x110005 \<lparr>loop_at = eip (regs s), boot_stack = 0x130000, stack1 = ?e + 4184, stack2 = ?e + 8324\<rparr> demo_call 32 (2 * m) (-1, s2) =
       Inr (concat (replicate m [Task2, Kernel_loop]), -1, s3) \<and> screen_of s3 = screen_of s2)"
    by (rule three_tasks_run [OF s(1) s(2) [symmetric] _ _ _ _ _ _ _ _ s(6,5) _ _ _ refl fit, of 4]) (use s(4) f in \<open>simp_all add: word_aligned_def\<close>)
  then show ?thesis using f(8) by auto
qed

end
