(* ===== verification/Spec2Isabelle.thy ===== *)
theory Spec2Isabelle
  imports Boot_Entry Interrupt_Returns Three_Tasks
begin

text \<open>
  A model of the Torch kernel, a 32-bit x86 teaching kernel in C and assembly, and the properties that make
  its parts correct.

  The program. \<open>start\<close> (\<open>kernel/boot.asm\<close>) calls \<open>kmain\<close> (\<open>kernel/kernel.c\<close>), which logs to the serial port, checks what the boot loader
  passed, loads the RAM disk that \<open>initfs/make_initrd.py\<close> has packed and would then set up segments, interrupt controllers and gates, the terminal, the
  keyboard, paging with the heap, the timer and the tasks. From then on the kernel runs its tasks, which call
  the scheduler, and the handlers of the timer and the keyboard, which an interrupt enters and leaves through a stub of
  \<open>kernel/interrupts.asm\<close>. The string functions, the logger and \<open>panic\<close> serve all
  parts; the heap serves the filesystem and the tasks; the terminal serves the timer and the keyboard.

  State. A component's global variables are the fields by which its theory extends the record of the
  state: \<open>machine\<close> (ports, physical memory, CR0, CR3, registered handlers), \<open>mm\<close> (memory manager), \<open>fs\<close> (filesystem),
  \<open>tty\<close>, \<open>timer\<close>, \<open>keyboard\<close>, \<open>cpu\<close> (descriptor tables), \<open>tasking\<close>. An operation is polymorphic in the rest of
  the record, so what a component does not know it cannot change. Arrays and structs that the code shares by pointer
  (page tables, bitmaps, nodes, control blocks, stacks, the VGA buffer) are bytes of the physical memory, reached
  through the page walk of the processor (\<open>vload32\<close>, \<open>vstore32\<close> and their like) at the field offsets of the structs;
  addresses chosen by the linker are parameters (\<open>symbols\<close>, \<open>fs_image\<close>, \<open>stubs\<close> and single fields). Integers have the width of
  the C type.

  Results. An operation returns \<open>stop + 'a\<close>: a panic with its message, a page fault, an endless loop, behaviour the C
  standard leaves undefined, or the new state. \<open>and_then\<close> sequences.

  Theories.
  \<^item> \<open>Prelude\<close>: widths, stops and results; \<open>CString\<close>: \<open>lib/string\<close> over any byte memory (locale \<open>byte_memory\<close>,
    interpreted on arrays here and on the address space in \<open>Machine\<close>); \<open>Logger\<close>: \<open>kernel/logger.c\<close>, \<open>logger.asm\<close>, \<open>io.h\<close>, \<open>panic.c\<close>, with
    the printers' round trips and the text of a format.
  \<^item> \<open>Machine\<close>, \<open>Page_Walk\<close>: memory behind the two-level page walk, \<open>kernel/utility.asm\<close>, and how a table entry changes a translation.
  \<^item> \<open>Bitmap\<close>, \<open>Memory\<close>, \<open>Paging\<close>, \<open>Init_Paging\<close>, \<open>Heap\<close>, \<open>Memory_Properties\<close>: \<open>kernel/memory.c\<close>. The bitmap search implements an allocator
    of indices (locale \<open>index_allocator\<close>), the heap one of consecutive blocks (\<open>bump_allocator\<close>); \<open>heap_inv\<close> is the invariant of the running
    kernel's tables and heap, established by \<open>init_paging\<close> and kept by \<open>heap_allocate\<close>. What an uncleared page means as a page table is \<open>leftover\<close>.
  \<^item> \<open>Kernel_Memory\<close>: the interface of the memory to the components above it (locale \<open>kernel_heap\<close>): ordinary
    stores and loads in the region of the kernel's data and the heap, blocks from the heap, and what both keep. The locales
    \<open>filesystem\<close>, \<open>vga\<close>, \<open>task_memory\<close> and \<open>interrupt_stack\<close> extend it by what each client needs; all are interpreted on the running kernel,
    and \<open>kernel_heap\<close> and \<open>filesystem\<close> a second time (\<open>Early_Heap\<close>, \<open>Early_Boot\<close>) on the kernel before paging, where the heap starts at address 0.
  \<^item> \<open>Filesystem\<close>, \<open>Files\<close>, \<open>File_Operations\<close>: \<open>kernel/filesystem.c\<close>. \<open>file_at\<close> relates a node in memory to an abstract file, on which
    \<open>file_step\<close> is the contract of reading, writing and seeking; \<open>run_calls\<close> are the programs for which nodes are type safe.
  \<^item> \<open>Directories\<close>, \<open>Ramdisk\<close>, \<open>Init_Filesystem\<close>: the rest of \<open>filesystem.c\<close>. \<open>dir_at\<close> relates a directory with its linked entries to a list
    of abstract files, \<open>disk_at\<close> the RAM disk to a list of names and contents; \<open>fs_add_dirent\<close> appends to the one, and the loop
    of \<open>read_ramdisk\<close> turns the other into it.
  \<^item> \<open>Terminal\<close> (\<open>tty.c\<close>, refining an abstract screen), \<open>Timer\<close> (\<open>timer.c\<close>), \<open>Keyboard\<close> (\<open>keyboard.c\<close>, refining the typing of a keyboard layout),
    \<open>Interrupts\<close> (\<open>gdt.c\<close>, \<open>idt.c\<close>, \<open>pic.c\<close>, \<open>isr.c\<close>, read back by what the processor does with the tables).
  \<^item> \<open>Interrupt_Stubs\<close>: \<open>kernel/interrupts.asm\<close>. A stub is the list of its instructions; \<open>exec\<close> is what each does to the registers (\<open>cpu_regs\<close>)
    and the machine, \<open>deliver\<close> what the processor does at an interrupt, and \<open>interrupt\<close> runs from the one to \<open>iret\<close>. The lemmas follow
    the 16 words of the frame down and up again. \<open>Interrupt_Returns\<close> composes this with the gates and the handlers of the running kernel.
  \<^item> \<open>Tasking\<close>, \<open>Scheduler\<close>, \<open>Round_Robin\<close>, \<open>Task_Life\<close>, \<open>Tasks\<close>: \<open>kernel/tasking.c\<close> and \<open>switch_to_task_stub\<close>. \<open>queue_inv\<close> is the invariant of the linked
    list of tasks with their stacks; \<open>schedule\<close> implements the abstract pool \<open>round_robin\<close>, \<open>task_run\<close> are the runs of
    several tasks, and \<open>init_tasking\<close> and \<open>terminate_task\<close> establish and change the pool. \<open>Three_Tasks\<close>: the kernel's loop, \<open>task1\<close> and
    \<open>task2\<close> from \<open>init_tasking\<close> on, with what they write to the terminal. A \<open>turn\<close> runs the code that the registers restored by the switch
    lead to, so that the order of the turns is a result.
  \<^item> \<open>Boot\<close>: \<open>kernel/kernel.c\<close> and what it reads of \<open>multiboot.h\<close>; \<open>Early_Heap\<close>, \<open>Early_Boot\<close>: the heap and the filesystem where \<open>kmain\<close> uses
    them, before \<open>init_paging\<close>; \<open>Disk_Image\<close>: \<open>initfs/make_initrd.py\<close>, and the way of a file from there to the root directory; \<open>Boot_Entry\<close>:
    \<open>kernel/boot.asm\<close>.

  Loops. A loop over an index recurses on the number of its passes. A loop that looks for something in
  memory carries fuel \<open>2 ^ 32\<close>: it visits one address per pass, so with the fuel gone it has come back to an address
  already seen and never ends, which is the result \<open>Diverges\<close>; the theorems about such loops prove that the fuel is enough
  or that the code hangs. The loop that loads the RAM disk allocates at each pass, so the heap ends before the fuel
  does. The polling of the serial port is fuelled by the sequence of values the port will return.

  Not modelled. The translation cache of the processor and the timing of the ports; interrupts between the
  instructions of other code (handlers run whole, and an interrupt arrives between operations); an interrupt of code of another privilege
  level, of which the kernel has none, and so the fields \<open>esp\<close> and \<open>ss\<close> of \<open>context_t\<close>, which such an interrupt alone would push; the layout of the frames of C functions on
  the stack: a handler of an interrupt overwrites the words below the stub's frame with any words (\<open>left_frame\<close>), and a task calls the
  scheduler with any registers that leave it room (\<open>call\<close>); local variables other than the arrays whose addresses are taken; the padding of structs, of which
  the code has none; the log a panic leaves behind, since a stop carries no state (what \<open>panic\<close> logs is the definition
  \<open>panic_log\<close>). The build
  files are not modelled, since the addresses they fix are parameters (\<open>symbols\<close> with \<open>layout_ok\<close>, \<open>stubs\<close>), nor the parts of \<open>multiboot.h\<close> that no code reads.
\<close>

end
